(* ===== verification/Prelude.thy ===== *)
theory Prelude
  imports Main "HOL-Library.Word" "HOL-Library.Monad_Syntax"
begin

text \<open>
  Shared vocabulary of the development: bytes and C strings, the modular arithmetic of
  \<open>size_t\<close>, memory blocks whose cells may be uninitialised, the option monad used for
  code that may abort (\<open>force_assert\<close>) or leave its memory block, and the collections
  of facts the component theories extend.
\<close>

named_theorems buf_defs \<open>unfolding the operations on buffers\<close>
named_theorems mem_simps \<open>reading and writing memory blocks\<close>
named_theorems byte_simps \<open>classification of single bytes\<close>

section \<open>Bytes\<close>

text \<open>
  A C \<open>char\<close> is an Isabelle \<open>char\<close>: one octet. \<open>byte\<close> reads it as \<open>unsigned char\<close>,
  \<open>schar\<close> as the signed \<open>char\<close> of the platforms the server is built for.
\<close>

abbreviation byte :: "char \<Rightarrow> nat" where
  "byte c \<equiv> of_char c"

definition schar :: "char \<Rightarrow> int" where
  "schar c = (if byte c < 128 then int (byte c) else int (byte c) - 256)"

definition NUL :: char where
  "NUL = CHR 0x00"

abbreviation CR :: char where "CR \<equiv> CHR 0x0D"
abbreviation LF :: char where "LF \<equiv> CHR 0x0A"
abbreviation TAB :: char where "TAB \<equiv> CHR 0x09"
abbreviation SP :: char where "SP \<equiv> CHR 0x20"
abbreviation DQUOTE :: char where "DQUOTE \<equiv> CHR 0x22"
abbreviation BSLASH :: char where "BSLASH \<equiv> CHR 0x5C"
abbreviation CRLF :: string where "CRLF \<equiv> [CR, LF]"

lemma byte_lt: "byte c < 256"
  by simp

lemma byte_eq_iff: "byte c = byte d \<longleftrightarrow> c = d"
  by (rule of_char_eq_iff)

lemma byte_NUL [simp]: "byte NUL = 0"
  by (simp add: NUL_def)

lemma byte_eq_0_iff [simp]: "byte c = 0 \<longleftrightarrow> c = NUL"
  using byte_eq_iff [of c NUL] by simp

text \<open>Every property of single bytes is decided by the 256 cases.\<close>

lemma all_bytes_iff: "(\<forall>c. P (c :: char)) \<longleftrightarrow> (\<forall>n < 256. P (char_of (n :: nat)))"
proof
  assume *: "\<forall>n < 256. P (char_of (n :: nat))"
  show "\<forall>c. P c"
  proof
    fix c :: char
    show "P c" using * [rule_format, of "byte c"] by simp
  qed
qed simp

text \<open>Explicit enumerations, for facts decided by evaluating every case.\<close>

lemma upt_16: "[0..<16] = [0, 1, 2, 3, 4, 5, 6, 7, 8, 9, 10, 11, 12, 13, 14, 15]"
  by (simp add: upt_rec)

lemma upt_64: "[0..<64] =
    [0, 1, 2, 3, 4, 5, 6, 7, 8, 9, 10, 11, 12, 13, 14, 15,
     16, 17, 18, 19, 20, 21, 22, 23, 24, 25, 26, 27, 28, 29, 30, 31,
     32, 33, 34, 35, 36, 37, 38, 39, 40, 41, 42, 43, 44, 45, 46, 47,
     48, 49, 50, 51, 52, 53, 54, 55, 56, 57, 58, 59, 60, 61, 62, 63]"
  by (simp add: upt_rec)

lemma upt_256: "[0..<256] =
    [0, 1, 2, 3, 4, 5, 6, 7, 8, 9, 10, 11, 12, 13, 14, 15,
     16, 17, 18, 19, 20, 21, 22, 23, 24, 25, 26, 27, 28, 29, 30, 31,
     32, 33, 34, 35, 36, 37, 38, 39, 40, 41, 42, 43, 44, 45, 46, 47,
     48, 49, 50, 51, 52, 53, 54, 55, 56, 57, 58, 59, 60, 61, 62, 63,
     64, 65, 66, 67, 68, 69, 70, 71, 72, 73, 74, 75, 76, 77, 78, 79,
     80, 81, 82, 83, 84, 85, 86, 87, 88, 89, 90, 91, 92, 93, 94, 95,
     96, 97, 98, 99, 100, 101, 102, 103, 104, 105, 106, 107, 108, 109, 110, 111,
     112, 113, 114, 115, 116, 117, 118, 119, 120, 121, 122, 123, 124, 125, 126, 127,
     128, 129, 130, 131, 132, 133, 134, 135, 136, 137, 138, 139, 140, 141, 142, 143,
     144, 145, 146, 147, 148, 149, 150, 151, 152, 153, 154, 155, 156, 157, 158, 159,
     160, 161, 162, 163, 164, 165, 166, 167, 168, 169, 170, 171, 172, 173, 174, 175,
     176, 177, 178, 179, 180, 181, 182, 183, 184, 185, 186, 187, 188, 189, 190, 191,
     192, 193, 194, 195, 196, 197, 198, 199, 200, 201, 202, 203, 204, 205, 206, 207,
     208, 209, 210, 211, 212, 213, 214, 215, 216, 217, 218, 219, 220, 221, 222, 223,
     224, 225, 226, 227, 228, 229, 230, 231, 232, 233, 234, 235, 236, 237, 238, 239,
     240, 241, 242, 243, 244, 245, 246, 247, 248, 249, 250, 251, 252, 253, 254, 255]"
  by (simp add: upt_rec)

lemma all_less_upt: "(\<forall>i < n. P i) \<longleftrightarrow> list_all P [0..<n]"
  by (auto simp: list_all_iff)

lemma all_bytes_upt: "(\<forall>c. P (c :: char)) \<longleftrightarrow> list_all (\<lambda>n. P (char_of n)) [0..<256]"
  by (simp add: all_bytes_iff all_less_upt)

text \<open>\<open>strlen\<close>-delimited view of a byte sequence: what a C string function sees.\<close>

definition cstr :: "string \<Rightarrow> string" where
  "cstr s = takeWhile (\<lambda>c. c \<noteq> NUL) s"

lemma cstr_no_NUL [simp]: "NUL \<notin> set s \<Longrightarrow> cstr s = s"
  by (auto simp: cstr_def takeWhile_eq_all_conv)

lemma cstr_terminated [simp]: "NUL \<notin> set s \<Longrightarrow> cstr (s @ NUL # r) = s"
  by (induction s) (auto simp: cstr_def)

lemma NUL_notin_cstr [simp]: "NUL \<notin> set (cstr s)"
  by (auto simp: cstr_def dest: set_takeWhileD)

lemma cstr_Nil [simp]: "cstr [] = []"
  by (simp add: cstr_def)

lemma cstr_idem [simp]: "cstr (cstr s) = cstr s"
  by simp

section \<open>Unsigned machine arithmetic\<close>

text \<open>\<open>size_t\<close> is 64 bits wide; sums wrap around.\<close>

definition SIZE_T :: nat where
  "SIZE_T = 2 ^ 64"

definition uadd :: "nat \<Rightarrow> nat \<Rightarrow> nat" where
  "uadd a b = (a + b) mod SIZE_T"

definition umul :: "nat \<Rightarrow> nat \<Rightarrow> nat" where
  "umul a b = (a * b) mod SIZE_T"

lemma uadd_id [simp]: "a + b < SIZE_T \<Longrightarrow> uadd a b = a + b"
  by (simp add: uadd_def)

lemma umul_id [simp]: "a * b < SIZE_T \<Longrightarrow> umul a b = a * b"
  by (simp add: umul_def)

lemma uadd_wrap: "a < SIZE_T \<Longrightarrow> b < SIZE_T \<Longrightarrow> SIZE_T \<le> a + b \<Longrightarrow> uadd a b = a + b - SIZE_T"
  by (simp add: uadd_def mod_if)

lemma uadd_less_iff:
  "a < SIZE_T \<Longrightarrow> b < SIZE_T \<Longrightarrow> uadd a b < a \<longleftrightarrow> SIZE_T \<le> a + b"
  by (cases "a + b < SIZE_T") (auto simp: uadd_wrap)

lemma uadd_1_gt_iff: "n < SIZE_T \<Longrightarrow> n < uadd n 1 \<longleftrightarrow> n + 1 < SIZE_T"
  by (cases "n + 1 < SIZE_T") (auto simp: uadd_def SIZE_T_def mod_if)

section \<open>Aborting computations\<close>

text \<open>
  \<open>None\<close> is the process being aborted by \<open>force_assert\<close>, or a memory access that C leaves
  undefined (out of bounds, uninitialised, \<open>NULL\<close>).
\<close>

definition force_assert :: "bool \<Rightarrow> unit option" where
  "force_assert P = (if P then Some () else None)"

lemma force_assert_True [simp]: "P \<Longrightarrow> force_assert P = Some ()"
  by (simp add: force_assert_def)

lemma force_assert_False [simp]: "force_assert False = None"
  by (simp add: force_assert_def)

lemma force_assert_eq_Some [simp]: "force_assert P = Some u \<longleftrightarrow> P"
  by (simp add: force_assert_def)

lemma force_assert_eq_None [simp]: "force_assert P = None \<longleftrightarrow> \<not> P"
  by (simp add: force_assert_def)

section \<open>Memory blocks\<close>

text \<open>A block returned by \<open>malloc\<close>: \<open>None\<close> is a byte never written.\<close>

type_synonym mem = "char option list"

definition mem_fresh :: "nat \<Rightarrow> mem" where
  "mem_fresh n = replicate n None"

definition mem_read :: "mem \<Rightarrow> nat \<Rightarrow> char option" where
  "mem_read m i = (if i < length m then m ! i else None)"

definition mem_write :: "mem \<Rightarrow> nat \<Rightarrow> char \<Rightarrow> mem option" where
  "mem_write m i c = (if i < length m then Some (m[i := Some c]) else None)"

text \<open>\<open>memcpy\<close> of the bytes \<open>s\<close> to offset \<open>i\<close>; reading \<open>n\<close> bytes from offset \<open>i\<close>.\<close>

definition mem_copy :: "mem \<Rightarrow> nat \<Rightarrow> string \<Rightarrow> mem option" where
  "mem_copy m i s =
     (if i + length s \<le> length m
      then Some (take i m @ map Some s @ drop (i + length s) m) else None)"

fun all_some :: "'a option list \<Rightarrow> 'a list option" where
  "all_some [] = Some []"
| "all_some (None # xs) = None"
| "all_some (Some x # xs) = map_option (Cons x) (all_some xs)"

definition mem_get :: "mem \<Rightarrow> nat \<Rightarrow> nat \<Rightarrow> string option" where
  "mem_get m i n = (if i + n \<le> length m then all_some (take n (drop i m)) else None)"

lemma all_some_map_Some [simp]: "all_some (map Some s) = Some s"
  by (induction s) auto

lemma all_some_eq_Some_iff: "all_some xs = Some s \<longleftrightarrow> xs = map Some s"
  by (induction xs arbitrary: s rule: all_some.induct) (auto simp: Cons_eq_map_conv)

lemma length_mem_fresh [simp]: "length (mem_fresh n) = n"
  by (simp add: mem_fresh_def)

lemma mem_write_Some [mem_simps]: "i < length m \<Longrightarrow> mem_write m i c = Some (m[i := Some c])"
  by (simp add: mem_write_def)

lemma mem_copy_Some [mem_simps]:
  "i + length s \<le> length m \<Longrightarrow>
     mem_copy m i s = Some (take i m @ map Some s @ drop (i + length s) m)"
  by (simp add: mem_copy_def)

lemma take_Suc_snocD: "take (Suc n) m = xs @ [y] \<Longrightarrow> n = length xs \<Longrightarrow> take n m = xs"
  by (drule arg_cong [where f = "take n"]) (simp add: min_def)

lemma take_update_snoc: "take k m = xs \<Longrightarrow> k < length m \<Longrightarrow> take (Suc k) (m[k := y]) = xs @ [y]"
  by (simp add: take_Suc_conv_app_nth)

lemma take_Suc_updateD:
  assumes "take (Suc k) m' = take (Suc k) (m[k := x])" and "k < length m" and "length m' = length m"
  shows "m' ! k = x" and "take k m' = take k m"
proof -
  have "take (Suc k) m' ! k = take (Suc k) (m[k := x]) ! k" by (simp only: assms(1))
  then show "m' ! k = x" using assms(2) by simp
  have "take k (take (Suc k) m') = take k (take (Suc k) (m[k := x]))" by (simp only: assms(1))
  then show "take k m' = take k m" by (simp add: min_def)
qed

lemma mem_get_prefix:
  "mem_get (map Some s @ rest) 0 (length s) = Some s"
  by (simp add: mem_get_def)

text \<open>The block holds the bytes \<open>s\<close> from offset \<open>i\<close> on.\<close>

primrec holds_at :: "mem \<Rightarrow> nat \<Rightarrow> string \<Rightarrow> bool" where
  "holds_at m i [] \<longleftrightarrow> i \<le> length m"
| "holds_at m i (c # s) \<longleftrightarrow> i < length m \<and> m ! i = Some c \<and> holds_at m (Suc i) s"

lemma holds_at_iff:
  "holds_at m i s \<longleftrightarrow> i + length s \<le> length m \<and> take (length s) (drop i m) = map Some s"
proof (induction s arbitrary: i)
  case (Cons c s)
  show ?case
  proof (cases "i < length m")
    case True
    then have "drop i m = m ! i # drop (Suc i) m" by (rule Cons_nth_drop_Suc [symmetric])
    then show ?thesis using True Cons.IH [of "Suc i"] by auto
  qed simp
qed simp

lemma holds_at_update_before: "j < i \<Longrightarrow> holds_at (m[j := x]) i s \<longleftrightarrow> holds_at m i s"
  by (induction s arbitrary: i) auto

lemma holds_at_append: "holds_at m i (s @ t) \<longleftrightarrow> holds_at m i s \<and> holds_at m (i + length s) t"
proof (induction s arbitrary: i)
  case Nil
  have "holds_at m i t \<Longrightarrow> i \<le> length m" by (cases t) auto
  then show ?case by auto
qed auto

lemma holds_at_transfer:
  "holds_at m i s \<Longrightarrow> length m' = length m \<Longrightarrow> (\<And>k. i \<le> k \<Longrightarrow> k < i + length s \<Longrightarrow> m' ! k = m ! k) \<Longrightarrow>
     holds_at m' i s"
  by (induction s arbitrary: i) auto

lemma holds_at_mem_get: "holds_at m i s \<Longrightarrow> mem_get m i (length s) = Some s"
  by (simp add: holds_at_iff mem_get_def)

lemma cstr_split: obtains r where "s @ [NUL] = cstr s @ NUL # r"
proof (cases "NUL \<in> set s")
  case True
  then obtain u v where "s = u @ NUL # v" "NUL \<notin> set u" by (meson split_list_first)
  then show ?thesis using that [of "v @ [NUL]"] by simp
next
  case False
  then show ?thesis using that [of "[]"] by simp
qed

lemma option_bind_eq_None_iff:
  "Option.bind x f = None \<longleftrightarrow> x = None \<or> (\<exists>a. x = Some a \<and> f a = None)"
  by (cases x) auto

end
