(* ===== verification/Buffer.thy ===== *)
theory Buffer
  imports Prelude
begin

text \<open>
  \<open>src/buffer.h\<close> and the storage part of \<open>src/buffer.c\<close>: the growable byte buffer every
  string of the server lives in. The record keeps the three C fields; \<open>b_ptr\<close> is the
  allocated block (the empty block for \<open>NULL\<close>). An operation whose \<open>force_assert\<close> fails, or
  that would leave the block or read an uninitialised byte, is \<open>None\<close>. \<open>malloc\<close> is taken to
  succeed. The component lemmas give, for each operation, its effect on the stored string
  \<open>buf_str\<close>, and show that well-formed buffers (\<open>buf_ok\<close>) never abort below the size limit.
\<close>

section \<open>The buffer and its representation invariant\<close>

record buffer =
  b_ptr :: mem
  b_used :: nat
  b_size :: nat

definition BUFFER_MAX_REUSE_SIZE :: nat where
  "BUFFER_MAX_REUSE_SIZE = 4 * 1024"

definition buffer_init :: buffer where
  "buffer_init = \<lparr>b_ptr = [], b_used = 0, b_size = 0\<rparr>"

text \<open>The length of the stored string, and the room left before a reallocation.\<close>

definition buffer_string_length :: "buffer \<Rightarrow> nat" where
  "buffer_string_length b = (if b_used b \<noteq> 0 then b_used b - 1 else 0)"

definition buffer_string_space :: "buffer \<Rightarrow> nat" where
  "buffer_string_space b =
     (if b_size b = 0 then 0
      else if b_used b = 0 then b_size b - 1
      else b_size b - b_used b)"

definition buffer_is_empty :: "buffer \<Rightarrow> bool" where
  "buffer_is_empty b = (b_used b = 0)"

definition buffer_string_is_empty :: "buffer \<Rightarrow> bool" where
  "buffer_string_is_empty b = (buffer_string_length b = 0)"

text \<open>
  The invariant: the block has \<open>b_size\<close> bytes, \<open>b_used\<close> of them are in use and initialised,
  and a buffer in use ends in the terminating zero.
\<close>

definition buf_shape :: "buffer \<Rightarrow> bool" where
  "buf_shape b \<longleftrightarrow>
     length (b_ptr b) = b_size b \<and> b_used b \<le> b_size b \<and> b_size b < SIZE_T"

definition buf_ok :: "buffer \<Rightarrow> bool" where
  "buf_ok b \<longleftrightarrow> buf_shape b \<and>
     (b_used b \<noteq> 0 \<longrightarrow>
        (\<exists>s. take (b_used b) (b_ptr b) = map Some (s @ [NUL])))"

definition buf_str :: "buffer \<Rightarrow> string" where
  "buf_str b = map the (take (buffer_string_length b) (b_ptr b))"

text \<open>\<open>b\<close> is well formed, in use, and stores \<open>s\<close>.\<close>

definition buf_holds :: "buffer \<Rightarrow> string \<Rightarrow> bool" where
  "buf_holds b s \<longleftrightarrow> buf_shape b \<and> b_used b = length s + 1 \<and>
     take (length s + 1) (b_ptr b) = map Some (s @ [NUL])"

section \<open>Operations\<close>

definition buffer_reset :: "buffer \<Rightarrow> buffer" where
  "buffer_reset b =
     (if b_size b > BUFFER_MAX_REUSE_SIZE
      then \<lparr>b_ptr = [], b_used = 0, b_size = 0\<rparr>
      else if b_size b > 0
      then b\<lparr>b_ptr := (b_ptr b)[0 := Some NUL], b_used := 0\<rparr>
      else b\<lparr>b_used := 0\<rparr>)"

text \<open>Both buffers of a move, destination first.\<close>

definition buffer_move :: "buffer \<Rightarrow> buffer \<Rightarrow> buffer \<times> buffer" where
  "buffer_move b src = (let b = buffer_reset b in (src, b))"

definition BUFFER_PIECE_SIZE :: nat where
  "BUFFER_PIECE_SIZE = 64"

definition buffer_align_size :: "nat \<Rightarrow> nat" where
  "buffer_align_size sz =
     (let align = BUFFER_PIECE_SIZE - sz mod BUFFER_PIECE_SIZE in
      if uadd sz align < sz then sz else uadd sz align)"

definition buffer_alloc :: "buffer \<Rightarrow> nat \<Rightarrow> buffer" where
  "buffer_alloc b sz =
     (let sz = (if sz = 0 then 1 else sz) in
      if sz \<le> b_size b then b
      else \<lparr>b_ptr = mem_fresh (buffer_align_size sz), b_used = 0,
            b_size = buffer_align_size sz\<rparr>)"

definition buffer_realloc :: "buffer \<Rightarrow> nat \<Rightarrow> buffer" where
  "buffer_realloc b sz =
     (let sz = (if sz = 0 then 1 else sz) in
      if sz \<le> b_size b then b
      else b\<lparr>b_ptr := b_ptr b @ mem_fresh (buffer_align_size sz - length (b_ptr b)),
             b_size := buffer_align_size sz\<rparr>)"

definition buffer_string_prepare_copy :: "buffer \<Rightarrow> nat \<Rightarrow> buffer option" where
  "buffer_string_prepare_copy b sz = do {
     force_assert (uadd sz 1 > sz);
     let b = buffer_alloc b (uadd sz 1);
     m \<leftarrow> mem_write (b_ptr b) 0 NUL;
     Some (b\<lparr>b_ptr := m, b_used := 1\<rparr>)
   }"

text \<open>The result carries the offset of the returned pointer: where appended bytes go.\<close>

definition buffer_string_prepare_append :: "buffer \<Rightarrow> nat \<Rightarrow> (buffer \<times> nat) option" where
  "buffer_string_prepare_append b sz =
     (if buffer_string_is_empty b
      then map_option (\<lambda>b. (b, 0)) (buffer_string_prepare_copy b sz)
      else do {
        let req_size = uadd (b_used b) sz;
        force_assert (req_size \<ge> b_used b);
        let b = buffer_realloc b req_size;
        Some (b, b_used b - 1)
      })"

definition buffer_string_set_length :: "buffer \<Rightarrow> nat \<Rightarrow> buffer option" where
  "buffer_string_set_length b len = do {
     force_assert (uadd len 1 > len);
     let b = buffer_realloc b (uadd len 1);
     m \<leftarrow> mem_write (b_ptr b) len NUL;
     Some (b\<lparr>b_used := uadd len 1, b_ptr := m\<rparr>)
   }"

definition buffer_commit :: "buffer \<Rightarrow> nat \<Rightarrow> buffer option" where
  "buffer_commit b sz = do {
     force_assert (b_size b > 0);
     let b = (if b_used b = 0 then b\<lparr>b_used := 1\<rparr> else b);
     b \<leftarrow> (if sz > 0 then do {
             force_assert (uadd (b_used b) sz > b_used b);
             force_assert (uadd (b_used b) sz \<le> b_size b);
             Some (b\<lparr>b_used := b_used b + sz\<rparr>)
           } else Some b);
     m \<leftarrow> mem_write (b_ptr b) (b_used b - 1) NUL;
     Some (b\<lparr>b_ptr := m\<rparr>)
   }"

definition buffer_copy_string_len :: "buffer \<Rightarrow> string \<Rightarrow> buffer option" where
  "buffer_copy_string_len b s = do {
     b \<leftarrow> buffer_string_prepare_copy b (length s);
     m \<leftarrow> (if length s \<noteq> 0 then mem_copy (b_ptr b) 0 s else Some (b_ptr b));
     buffer_commit (b\<lparr>b_ptr := m\<rparr>) (length s)
   }"

text \<open>\<open>s\<close> is a C string: only the bytes before its first zero are copied.\<close>

definition buffer_copy_string :: "buffer \<Rightarrow> string \<Rightarrow> buffer option" where
  "buffer_copy_string b s = buffer_copy_string_len b (cstr s)"

definition buffer_read :: "buffer \<Rightarrow> string option" where
  "buffer_read b = mem_get (b_ptr b) 0 (buffer_string_length b)"

definition buffer_copy_buffer :: "buffer \<Rightarrow> buffer option \<Rightarrow> buffer option" where
  "buffer_copy_buffer b src =
     (case src of
        None \<Rightarrow> map_option (\<lambda>b. b\<lparr>b_used := 0\<rparr>) (buffer_string_prepare_copy b 0)
      | Some src \<Rightarrow>
          if b_used src = 0
          then map_option (\<lambda>b. b\<lparr>b_used := 0\<rparr>) (buffer_string_prepare_copy b 0)
          else do { s \<leftarrow> buffer_read src; buffer_copy_string_len b s })"

definition buffer_init_buffer :: "buffer option \<Rightarrow> buffer option" where
  "buffer_init_buffer src = buffer_copy_buffer buffer_init src"

definition buffer_init_string :: "string \<Rightarrow> buffer option" where
  "buffer_init_string str = buffer_copy_string buffer_init str"

definition buffer_append_string_len :: "buffer \<Rightarrow> string \<Rightarrow> buffer option" where
  "buffer_append_string_len b s = do {
     (b, target) \<leftarrow> buffer_string_prepare_append b (length s);
     if length s = 0 then Some b
     else do {
       m \<leftarrow> mem_copy (b_ptr b) target s;
       buffer_commit (b\<lparr>b_ptr := m\<rparr>) (length s)
     }
   }"

definition buffer_append_string :: "buffer \<Rightarrow> string \<Rightarrow> buffer option" where
  "buffer_append_string b s = buffer_append_string_len b (cstr s)"

definition buffer_append_string_buffer :: "buffer \<Rightarrow> buffer option \<Rightarrow> buffer option" where
  "buffer_append_string_buffer b src =
     (case src of
        None \<Rightarrow> buffer_append_string_len b []
      | Some src \<Rightarrow> do { s \<leftarrow> buffer_read src; buffer_append_string_len b s })"

definition buffer_append_slash :: "buffer \<Rightarrow> buffer option" where
  "buffer_append_slash b =
     (let len = buffer_string_length b in
      if len > 0 then do {
        c \<leftarrow> mem_read (b_ptr b) (len - 1);
        if c \<noteq> CHR ''/'' then buffer_append_string_len b ''/'' else Some b
      } else Some b)"

lemmas buffer_op_defs =
  buffer_string_prepare_copy_def buffer_string_prepare_append_def
  buffer_string_set_length_def buffer_commit_def
  buffer_copy_string_len_def buffer_append_string_len_def

section \<open>Representation lemmas\<close>

lemma buf_holds_take: "buf_holds b s \<Longrightarrow> take (length s) (b_ptr b) = map Some s"
  by (auto simp: buf_holds_def intro: take_Suc_snocD)

lemma buf_holdsD:
  assumes "buf_holds b s"
  shows "buf_shape b" and "b_used b = length s + 1" and "buf_str b = s" and "buf_ok b"
    and "length s < b_size b" and "buffer_string_length b = length s"
    and "buffer_string_is_empty b \<longleftrightarrow> s = []" and "\<not> buffer_is_empty b"
    and "buffer_read b = Some s"
proof -
  have *: "take (length s) (b_ptr b) = map Some s"
    by (rule buf_holds_take) (rule assms)
  show "buf_shape b" and u: "b_used b = length s + 1" and "length s < b_size b"
    using assms by (auto simp: buf_holds_def buf_shape_def)
  then show "buf_str b = s" and "buffer_string_length b = length s"
    and "buffer_string_is_empty b \<longleftrightarrow> s = []" and "\<not> buffer_is_empty b"
    and "buffer_read b = Some s"
    using * by (auto simp: buf_str_def buffer_string_length_def buffer_string_is_empty_def
        buffer_is_empty_def buffer_read_def mem_get_def buf_shape_def comp_def)
  show "buf_ok b" using assms u by (auto simp: buf_ok_def buf_holds_def)
qed

lemma buf_holds_bound: "buf_holds b s \<Longrightarrow> length s + 1 < SIZE_T"
  by (auto simp: buf_holds_def buf_shape_def)

lemma buf_ok_shape: "buf_ok b \<Longrightarrow> buf_shape b"
  by (simp add: buf_ok_def)

text \<open>A well-formed buffer is unset or holds exactly its string.\<close>

lemma buf_ok_cases:
  assumes "buf_ok b"
  obtains (unset) "b_used b = 0" "buf_str b = []" "buffer_string_is_empty b"
  | (holds) "buf_holds b (buf_str b)"
proof (cases "b_used b = 0")
  case True
  then show ?thesis
    by (intro unset) (auto simp: buf_str_def buffer_string_length_def buffer_string_is_empty_def)
next
  case False
  with assms obtain s where s: "take (b_used b) (b_ptr b) = map Some (s @ [NUL])"
    by (auto simp: buf_ok_def)
  have "length (take (b_used b) (b_ptr b)) = b_used b"
    using assms by (auto simp: buf_ok_def buf_shape_def)
  then have "b_used b = length s + 1" by (simp add: s)
  with s assms have "buf_holds b s" by (simp add: buf_holds_def buf_ok_def)
  with buf_holdsD(3) [OF this] show ?thesis by (intro holds) simp
qed

lemma buf_ok_unset: "buf_shape b \<Longrightarrow> b_used b = 0 \<Longrightarrow> buf_ok b \<and> buf_str b = []"
  by (simp add: buf_ok_def buf_str_def buffer_string_length_def)

lemma buffer_init_ok [simp]: "buf_ok buffer_init" "buf_str buffer_init = []"
  by (auto simp: buffer_init_def buf_ok_def buf_shape_def SIZE_T_def buf_str_def)

lemma buffer_string_length_eq: "buf_ok b \<Longrightarrow> buffer_string_length b = length (buf_str b)"
  by (erule buf_ok_cases) (simp_all add: buffer_string_length_def buf_holdsD(2))

lemma buffer_read_eq: "buf_ok b \<Longrightarrow> buffer_read b = Some (buf_str b)"
  by (erule buf_ok_cases)
    (simp add: buffer_read_def mem_get_def buffer_string_length_def, rule buf_holdsD(9))

section \<open>Allocation\<close>

lemma buffer_align_size_bounds:
  assumes "sz < SIZE_T"
  shows "sz \<le> buffer_align_size sz" and "buffer_align_size sz < SIZE_T"
  using assms by (auto simp: buffer_align_size_def Let_def uadd_def)

lemma buffer_alloc_shape:
  assumes "buf_shape b" and "0 < sz" and "sz < SIZE_T"
  shows "buf_shape (buffer_alloc b sz)" and "sz \<le> b_size (buffer_alloc b sz)"
  using assms buffer_align_size_bounds
  by (auto simp: buffer_alloc_def buf_shape_def)

lemma buffer_realloc_shape:
  assumes "buf_shape b" and "0 < sz" and "sz < SIZE_T"
  shows "buf_shape (buffer_realloc b sz)" and "sz \<le> b_size (buffer_realloc b sz)"
    and "b_used (buffer_realloc b sz) = b_used b"
    and "n \<le> b_size b \<Longrightarrow> take n (b_ptr (buffer_realloc b sz)) = take n (b_ptr b)"
  using assms buffer_align_size_bounds [OF assms(3)]
  by (auto simp: buffer_realloc_def buf_shape_def Let_def)

lemma buf_holds_realloc:
  "buf_holds b s \<Longrightarrow> 0 < sz \<Longrightarrow> sz < SIZE_T \<Longrightarrow> buf_holds (buffer_realloc b sz) s"
  using buffer_realloc_shape(1-3) [of b sz] buffer_realloc_shape(4) [of b sz "length s + 1"]
  by (auto simp: buf_holds_def buf_shape_def)

section \<open>What the operations store\<close>

lemma buffer_string_prepare_copy_ok:
  assumes "buf_shape b" and "n + 1 < SIZE_T"
  obtains b' where "buffer_string_prepare_copy b n = Some b'" and "buf_holds b' []"
    and "n < b_size b'" and "b_size b \<le> b_size b'"
proof -
  let ?b = "buffer_alloc b (n + 1)"
  from assms buffer_alloc_shape [of b "n + 1"]
  have shape: "buf_shape ?b" and sz: "n + 1 \<le> b_size ?b" by auto
  then have ne: "b_ptr ?b \<noteq> []"
    by (auto simp: buf_shape_def)
  let ?b' = "?b\<lparr>b_ptr := (b_ptr ?b)[0 := Some NUL], b_used := 1\<rparr>"
  have "buffer_string_prepare_copy b n = Some ?b'"
    using assms shape sz ne
    by (simp add: buffer_string_prepare_copy_def mem_write_def buf_shape_def Let_def)
  moreover have "buf_holds ?b' []"
    using shape sz take_update_snoc [of 0 "b_ptr ?b" "[]" "Some NUL"] ne
    by (simp add: buf_holds_def buf_shape_def)
  moreover have "b_size b \<le> b_size ?b"
    using buffer_align_size_bounds(1) [of "n + 1"] assms(2) by (auto simp: buffer_alloc_def Let_def)
  ultimately show ?thesis using sz that by auto
qed

lemma buffer_string_prepare_append_ok:
  assumes "buf_ok b" and "length (buf_str b) + n + 1 < SIZE_T"
  obtains b' where "buffer_string_prepare_append b n = Some (b', length (buf_str b))"
    and "buf_holds b' (buf_str b)" and "length (buf_str b) + n < b_size b'"
proof (cases "buffer_string_is_empty b")
  case True
  then have e: "buf_str b = []"
    using assms(1) by (auto simp: buffer_string_is_empty_def buffer_string_length_eq)
  have "n + 1 < SIZE_T" using assms(2) by simp
  with buf_ok_shape [OF assms(1)] obtain b' where
    "buffer_string_prepare_copy b n = Some b'" "buf_holds b' []" "n < b_size b'"
    "b_size b \<le> b_size b'"
    by (rule buffer_string_prepare_copy_ok)
  then show ?thesis
    using True that [of b'] by (simp add: buffer_string_prepare_append_def e)
next
  case False
  with assms(1) have h: "buf_holds b (buf_str b)" by (auto elim: buf_ok_cases)
  let ?n = "length (buf_str b) + 1 + n"
  have "buf_holds (buffer_realloc b ?n) (buf_str b)"
    using h assms(2) by (intro buf_holds_realloc) auto
  moreover have "?n \<le> b_size (buffer_realloc b ?n)"
    using buffer_realloc_shape(2) [OF buf_ok_shape [OF assms(1)], of ?n] assms(2) by simp
  ultimately show ?thesis
    using False assms(2) that [of "buffer_realloc b ?n"] buf_holdsD(2) [OF h]
    by (simp add: buffer_string_prepare_append_def Let_def buf_holdsD(2))
qed

text \<open>Filling prepared space and committing it appends to the stored string.\<close>

lemma buffer_fill_commit:
  assumes h: "buf_holds b s" and fits: "length s + length t < b_size b" and "t \<noteq> []"
  obtains m b' where "mem_copy (b_ptr b) (length s) t = Some m"
    and "buffer_commit (b\<lparr>b_ptr := m\<rparr>) (length t) = Some b'"
    and "buf_holds b' (s @ t)" and "b_size b' = b_size b"
proof -
  have len: "length (b_ptr b) = b_size b" and lt: "b_size b < SIZE_T"
    and u: "b_used b = length s + 1"
    using h by (auto simp: buf_holds_def buf_shape_def)
  let ?m = "take (length s) (b_ptr b) @ map Some t @ drop (length s + length t) (b_ptr b)"
  let ?b' = "b\<lparr>b_ptr := ?m[length s + length t := Some NUL], b_used := length s + length t + 1\<rparr>"
  have lm: "length ?m = b_size b" using fits len by auto
  have pre: "take (length s) (b_ptr b) = map Some s"
    by (rule buf_holds_take) (rule h)
  have cp: "mem_copy (b_ptr b) (length s) t = Some ?m"
    using fits len by (simp add: mem_copy_def)
  have cm: "buffer_commit (b\<lparr>b_ptr := ?m\<rparr>) (length t) = Some ?b'"
    using fits lt lm u \<open>t \<noteq> []\<close>
    by (simp add: buffer_commit_def mem_write_def Let_def)
  have "take (length s + length t) ?m = map Some (s @ t)"
    using fits len pre by simp
  then have "take (Suc (length s + length t)) (b_ptr ?b') = map Some (s @ t) @ [Some NUL]"
    using lm fits take_update_snoc [of "length s + length t" ?m "map Some (s @ t)" "Some NUL"] by simp
  then have "buf_holds ?b' (s @ t)"
    using lm fits lt by (simp add: buf_holds_def buf_shape_def)
  then show ?thesis using that [OF cp cm] by simp
qed

text \<open>The other order, used where the bytes are written after the commit.\<close>

lemma buffer_commit_fill:
  assumes h: "buf_holds b s" and fits: "length s + length t < b_size b" and "t \<noteq> []"
  obtains b1 m where "buffer_commit b (length t) = Some b1"
    and "mem_copy (b_ptr b1) (length s) t = Some m"
    and "buf_holds (b1\<lparr>b_ptr := m\<rparr>) (s @ t)" and "b_size b1 = b_size b"
    and "mem_read (b_ptr b1) (length s) = Some NUL"
proof -
  from h fits \<open>t \<noteq> []\<close> obtain m b2 where m: "mem_copy (b_ptr b) (length s) t = Some m"
    and c: "buffer_commit (b\<lparr>b_ptr := m\<rparr>) (length t) = Some b2" and h2: "buf_holds b2 (s @ t)"
    and "b_size b2 = b_size b"
    by (rule buffer_fill_commit)
  let ?n = "length s + length t"
  let ?b1 = "b\<lparr>b_ptr := (b_ptr b)[?n := Some NUL], b_used := ?n + 1\<rparr>"
  have len: "length (b_ptr b) = b_size b" and u: "b_used b = length s + 1" and "b_size b < SIZE_T"
    using h by (auto simp: buf_holds_def buf_shape_def)
  have m_eq: "m = take (length s) (b_ptr b) @ map Some t @ drop ?n (b_ptr b)"
    using m fits len by (simp add: mem_copy_def)
  have b2: "b2 = b\<lparr>b_ptr := m[?n := Some NUL], b_used := ?n + 1\<rparr>"
    using c fits len u \<open>b_size b < SIZE_T\<close> \<open>t \<noteq> []\<close>
    by (auto simp: buffer_commit_def mem_write_def Let_def m_eq split: if_splits)
  have c1: "buffer_commit b (length t) = Some ?b1"
    using fits len u \<open>b_size b < SIZE_T\<close> \<open>t \<noteq> []\<close>
    by (simp add: buffer_commit_def mem_write_def Let_def)
  have "mem_copy ((b_ptr b)[?n := Some NUL]) (length s) t = Some (m[?n := Some NUL])"
    using fits len by (simp add: mem_copy_def m_eq list_update_append drop_update_swap)
  then have c2: "mem_copy (b_ptr ?b1) (length s) t = Some (m[?n := Some NUL])" by simp
  have "b_ptr b ! length s = Some NUL"
    using h nth_take [of "length s" "length s + 1" "b_ptr b"] by (auto simp: buf_holds_def nth_append)
  then have rd: "mem_read (b_ptr ?b1) (length s) = Some NUL"
    using fits len \<open>t \<noteq> []\<close> by (simp add: mem_read_def)
  show ?thesis
    using that [OF c1 c2 _ _ rd] h2 by (simp add: b2 buf_holds_def buf_shape_def)
qed

lemma buffer_copy_string_len_ok:
  assumes "buf_shape b" and "length s + 1 < SIZE_T"
  obtains b' where "buffer_copy_string_len b s = Some b'" and "buf_holds b' s"
    and "b_size b \<le> b_size b'"
proof -
  from assms obtain b1 where p: "buffer_string_prepare_copy b (length s) = Some b1"
    and h: "buf_holds b1 []" and fits: "length s < b_size b1" and grow: "b_size b \<le> b_size b1"
    by (rule buffer_string_prepare_copy_ok)
  show ?thesis
  proof (cases "s = []")
    case True
    have "buffer_commit b1 0 = Some b1"
    proof -
      have "0 < b_size b1" "b_used b1 = 1" "length (b_ptr b1) = b_size b1" "b_ptr b1 ! 0 = Some NUL"
        using h by (auto simp: buf_holds_def buf_shape_def take_Suc_conv_app_nth)
      then show ?thesis
        by (simp add: buffer_commit_def mem_write_def list_update_same_conv)
    qed
    with p h True grow that show ?thesis by (simp add: buffer_copy_string_len_def)
  next
    case False
    have "length ([] :: string) + length s < b_size b1" using fits by simp
    from h this False obtain m b2 where
      "mem_copy (b_ptr b1) (length ([] :: string)) s = Some m"
      "buffer_commit (b1\<lparr>b_ptr := m\<rparr>) (length s) = Some b2" "buf_holds b2 ([] @ s)"
      "b_size b2 = b_size b1"
      by (rule buffer_fill_commit)
    with p False grow that show ?thesis by (simp add: buffer_copy_string_len_def)
  qed
qed

lemma buffer_append_string_len_ok:
  assumes "buf_ok b" and "length (buf_str b) + length s + 1 < SIZE_T"
  obtains b' where "buffer_append_string_len b s = Some b'" and "buf_holds b' (buf_str b @ s)"
proof -
  from assms obtain b1 where
    p: "buffer_string_prepare_append b (length s) = Some (b1, length (buf_str b))"
    and h: "buf_holds b1 (buf_str b)" and fits: "length (buf_str b) + length s < b_size b1"
    by (rule buffer_string_prepare_append_ok)
  show ?thesis
  proof (cases "s = []")
    case True
    with p h that show ?thesis by (simp add: buffer_append_string_len_def)
  next
    case False
    from h fits False obtain m b2 where
      "mem_copy (b_ptr b1) (length (buf_str b)) s = Some m"
      "buffer_commit (b1\<lparr>b_ptr := m\<rparr>) (length s) = Some b2" "buf_holds b2 (buf_str b @ s)"
      "b_size b2 = b_size b1"
      by (rule buffer_fill_commit)
    with p False that show ?thesis by (simp add: buffer_append_string_len_def)
  qed
qed

lemma buffer_string_set_length_ok:
  assumes h: "buf_holds b s" and "n \<le> length s"
  obtains b' where "buffer_string_set_length b n = Some b'" and "buf_holds b' (take n s)"
    and "b_size b' = b_size b"
proof -
  have len: "length (b_ptr b) = b_size b" and lt: "b_size b < SIZE_T" and "n < b_size b"
    using assms by (auto simp: buf_holds_def buf_shape_def)
  let ?b' = "b\<lparr>b_used := n + 1, b_ptr := (b_ptr b)[n := Some NUL]\<rparr>"
  have same: "buffer_realloc b (n + 1) = b"
    using \<open>n < b_size b\<close> by (simp add: buffer_realloc_def)
  have set: "buffer_string_set_length b n = Some ?b'"
    using same \<open>n < b_size b\<close> len lt
    by (simp add: buffer_string_set_length_def mem_write_def Let_def)
  have "take n (b_ptr b) = map Some (take n s)"
    using buf_holds_take [OF h] assms(2) take_map
    by (metis min.absorb1 take_take)
  then have "take (Suc n) ((b_ptr b)[n := Some NUL]) = map Some (take n s) @ [Some NUL]"
    using \<open>n < b_size b\<close> len by (intro take_update_snoc) auto
  then have "buf_holds ?b' (take n s)"
    using assms(2) \<open>n < b_size b\<close> len lt by (simp add: buf_holds_def buf_shape_def)
  with set that show ?thesis by simp
qed

lemma buffer_reset_ok:
  assumes "buf_shape b"
  shows "buf_ok (buffer_reset b)" and "buf_str (buffer_reset b) = []"
    and "buffer_is_empty (buffer_reset b)" and "b_size (buffer_reset b) \<le> BUFFER_MAX_REUSE_SIZE"
  using assms
  by (auto simp: buffer_reset_def buf_ok_def buf_shape_def buf_str_def buffer_is_empty_def
      buffer_string_length_def SIZE_T_def)

lemma buffer_move_ok:
  assumes "buf_shape b" and "buf_ok src" and "buffer_move b src = (b', src')"
  shows "b' = src" and "buf_ok src'" and "buf_str src' = []" and "buffer_is_empty src'"
  using assms buffer_reset_ok [of b] by (auto simp: buffer_move_def Let_def)

lemma buffer_copy_buffer_unset:
  assumes "buf_shape b" and "src = None \<or> (\<exists>sb. src = Some sb \<and> buffer_is_empty sb)"
  obtains b' where "buffer_copy_buffer b src = Some b'" and "buf_ok b'" and "buffer_is_empty b'"
    and "buf_str b' = []"
proof -
  have "0 + 1 < SIZE_T" by (simp add: SIZE_T_def)
  with assms(1) obtain b1 where p: "buffer_string_prepare_copy b 0 = Some b1" and h: "buf_holds b1 []"
    and "0 < b_size b1" and "b_size b \<le> b_size b1"
    by (rule buffer_string_prepare_copy_ok)
  have "buf_shape (b1\<lparr>b_used := 0\<rparr>)"
    using buf_holdsD(1) [OF h] by (simp add: buf_shape_def)
  then have "buf_ok (b1\<lparr>b_used := 0\<rparr>) \<and> buf_str (b1\<lparr>b_used := 0\<rparr>) = []"
    by (rule buf_ok_unset) simp
  moreover have "buffer_copy_buffer b src = Some (b1\<lparr>b_used := 0\<rparr>)"
    using assms(2) p by (auto simp: buffer_copy_buffer_def buffer_is_empty_def)
  ultimately show ?thesis using that by (simp add: buffer_is_empty_def)
qed

lemma buffer_copy_buffer_ok:
  assumes "buf_shape b" and "buf_holds src s"
  obtains b' where "buffer_copy_buffer b (Some src) = Some b'" and "buf_holds b' s"
proof -
  from assms(1) buf_holds_bound [OF assms(2)] obtain b' where
    "buffer_copy_string_len b s = Some b'" "buf_holds b' s" "b_size b \<le> b_size b'"
    by (rule buffer_copy_string_len_ok)
  with assms(2) that show ?thesis
    by (simp add: buffer_copy_buffer_def buf_holdsD(9) buf_holdsD(2))
qed

lemma buffer_append_slash_ok:
  assumes "buf_ok b" and "length (buf_str b) + 2 < SIZE_T"
  obtains b' where "buffer_append_slash b = Some b'" and "buf_ok b'"
    and "buf_str b' = buf_str b @ (if buf_str b = [] \<or> last (buf_str b) = CHR ''/'' then [] else ''/'')"
proof (cases "buf_str b = []")
  case True
  with assms(1) have "buffer_append_slash b = Some b"
    by (simp add: buffer_append_slash_def buffer_string_length_eq)
  with True assms(1) that show ?thesis by simp
next
  case False
  with assms(1) have h: "buf_holds b (buf_str b)"
    by (auto elim: buf_ok_cases)
  have len: "buffer_string_length b = length (buf_str b)" and pos: "0 < length (buf_str b)"
    using assms(1) False by (auto simp: buffer_string_length_eq)
  have "b_ptr b ! (length (buf_str b) - 1) = Some (last (buf_str b))"
    using arg_cong [OF buf_holds_take [OF h], of "\<lambda>m. m ! (length (buf_str b) - 1)"] pos False
    by (simp add: last_conv_nth)
  moreover have "length (buf_str b) - 1 < length (b_ptr b)"
    using buf_holdsD(1,5) [OF h] by (auto simp: buf_shape_def)
  ultimately have rd: "mem_read (b_ptr b) (length (buf_str b) - 1) = Some (last (buf_str b))"
    by (simp add: mem_read_def)
  from assms obtain b2 where b2: "buffer_append_string_len b ''/'' = Some b2"
    "buf_holds b2 (buf_str b @ ''/'')"
    by (auto intro: buffer_append_string_len_ok [of b "''/''"])
  show ?thesis
    using that [of b] that [of b2] rd len pos b2 assms(1) buf_holdsD(3,4) [OF b2(2)] False
    by (cases "last (buf_str b) = CHR ''/''") (simp_all add: buffer_append_slash_def)
qed

text \<open>A buffer allocated for a given string, as \<open>buffer_init_string\<close> leaves it.\<close>

definition buf_lit :: "string \<Rightarrow> buffer" where
  "buf_lit s = \<lparr>b_ptr = map Some s @ [Some NUL], b_used = length s + 1, b_size = length s + 1\<rparr>"

lemma buf_lit_holds: "length s + 1 < SIZE_T \<Longrightarrow> buf_holds (buf_lit s) s"
  by (simp add: buf_lit_def buf_holds_def buf_shape_def)

section \<open>The interface the other components append through\<close>

text \<open>
  A \<open>string_sink\<close> is anything strings are appended to: \<open>app\<close> either fails or extends the
  stored string. What the other components write with a sequence of appends is proved once
  here; the buffer of this theory provides the interface.
\<close>

locale string_sink =
  fixes ok :: "'b \<Rightarrow> bool" and str :: "'b \<Rightarrow> string" and app :: "'b \<Rightarrow> string \<Rightarrow> 'b option"
    and room :: nat
  assumes app_ok: "ok b \<Longrightarrow> length (str b) + length s < room \<Longrightarrow>
      \<exists>b'. app b s = Some b' \<and> ok b' \<and> str b' = str b @ s"
begin

primrec app_list :: "'b \<Rightarrow> string list \<Rightarrow> 'b option" where
  "app_list b [] = Some b"
| "app_list b (s # ss) = Option.bind (app b s) (\<lambda>b. app_list b ss)"

lemma app_list_ok:
  assumes "ok b" and "length (str b) + length (concat ss) < room"
  shows "\<exists>b'. app_list b ss = Some b' \<and> ok b' \<and> str b' = str b @ concat ss"
  using assms
proof (induction ss arbitrary: b)
  case Nil
  then show ?case by simp
next
  case (Cons s ss)
  from Cons.prems obtain b1 where b1: "app b s = Some b1" "ok b1" "str b1 = str b @ s"
    using app_ok [of b s] by auto
  then obtain b' where "app_list b1 ss = Some b'" "ok b'" "str b' = str b1 @ concat ss"
    using Cons.IH [of b1] Cons.prems(2) by auto
  with b1 show ?case by simp
qed

lemma app_bind_ok:
  assumes "ok b" and "length (str b) + length s < room"
    and "\<And>b'. ok b' \<Longrightarrow> str b' = str b @ s \<Longrightarrow> \<exists>r. k b' = Some r \<and> P r"
  shows "\<exists>r. Option.bind (app b s) k = Some r \<and> P r"
  using app_ok [OF assms(1,2)] assms(3) by auto

end

interpretation buf: string_sink buf_ok buf_str buffer_append_string_len "SIZE_T - 1"
proof
  fix b and s :: string
  assume "buf_ok b" and "length (buf_str b) + length s < SIZE_T - 1"
  then have "buf_ok b" "length (buf_str b) + length s + 1 < SIZE_T" by auto
  then obtain b' where "buffer_append_string_len b s = Some b'" "buf_holds b' (buf_str b @ s)"
    by (rule buffer_append_string_len_ok)
  then show "\<exists>b'. buffer_append_string_len b s = Some b' \<and> buf_ok b' \<and> buf_str b' = buf_str b @ s"
    by (auto dest: buf_holdsD)
qed

section \<open>Guarantees\<close>

text \<open>Whatever pieces are appended to a buffer one after the other, the calls succeed while the
  total stays below the address space, and the buffer then holds the old content followed by the
  pieces in order.\<close>

theorem buffer_append_pieces:
  assumes "buf_ok b" and "length (buf_str b) + length (concat ss) + 1 < SIZE_T"
  shows "\<exists>b'. foldl (\<lambda>r s. Option.bind r (\<lambda>b. buffer_append_string_len b s)) (Some b) ss = Some b' \<and>
    buf_ok b' \<and> buf_str b' = buf_str b @ concat ss"
proof -
  have *: "foldl (\<lambda>r s. Option.bind r (\<lambda>b. buffer_append_string_len b s)) r ss =
      Option.bind r (\<lambda>b. buf.app_list b ss)" for r
    by (induction ss arbitrary: r) (simp_all add: Option.bind_assoc)
  show ?thesis using buf.app_list_ok [OF assms(1), of ss] assms(2) by (simp add: *)
qed

theorem buffer_append_pieces_witness:
  "\<exists>b'. foldl (\<lambda>r s. Option.bind r (\<lambda>b. buffer_append_string_len b s)) (Some buffer_init)
      [''GET'', '' '', ''/index''] = Some b' \<and> buf_ok b' \<and> buf_str b' = ''GET /index''"
  using buffer_append_pieces [of buffer_init "[''GET'', '' '', ''/index'']"] by (simp add: SIZE_T_def)

end
