(* ===== verification/CLib.thy ===== *)
theory CLib
  imports Prelude "HOL-Library.List_Lexorder"
begin

text \<open>
  The C library functions the modelled code calls on strings, as the language standard
  defines them: character classes, number parsing (\<open>strtol\<close> with its \<open>endptr\<close>), comparison
  and search. A C string argument is the list of its bytes before the terminating zero.
\<close>

section \<open>Character classes\<close>

definition is_digit :: "char \<Rightarrow> bool" where
  "is_digit c \<longleftrightarrow> 48 \<le> byte c \<and> byte c \<le> 57"

definition is_upper :: "char \<Rightarrow> bool" where
  "is_upper c \<longleftrightarrow> 65 \<le> byte c \<and> byte c \<le> 90"

definition is_space :: "char \<Rightarrow> bool" where
  "is_space c \<longleftrightarrow> byte c = 32 \<or> (9 \<le> byte c \<and> byte c \<le> 13)"

definition digit_val :: "char \<Rightarrow> nat" where
  "digit_val c = byte c - 48"

definition dec_char :: "nat \<Rightarrow> char" where
  "dec_char n = char_of (48 + n)"

lemma is_digit_dec_char [simp]: "n < 10 \<Longrightarrow> is_digit (dec_char n)"
  by (simp add: is_digit_def dec_char_def)

lemma digit_val_dec_char [simp]: "n < 10 \<Longrightarrow> digit_val (dec_char n) = n"
  by (simp add: digit_val_def dec_char_def)

lemma digit_val_less: "is_digit c \<Longrightarrow> digit_val c < 10"
  by (auto simp: is_digit_def digit_val_def)

lemma dec_char_digit_val: "is_digit c \<Longrightarrow> dec_char (digit_val c) = c"
  by (simp add: is_digit_def digit_val_def dec_char_def)

section \<open>Decimal numbers\<close>

definition dec_val :: "string \<Rightarrow> nat" where
  "dec_val ds = foldl (\<lambda>v c. 10 * v + digit_val c) 0 ds"

lemma dec_val_Nil [simp]: "dec_val [] = 0"
  by (simp add: dec_val_def)

lemma dec_val_snoc [simp]: "dec_val (ds @ [c]) = 10 * dec_val ds + digit_val c"
  by (simp add: dec_val_def)

lemma dec_val_less: "\<forall>c \<in> set ds. is_digit c \<Longrightarrow> dec_val ds < 10 ^ length ds"
proof (induction ds rule: rev_induct)
  case (snoc c ds)
  then show ?case using digit_val_less [of c] by simp
qed simp

text \<open>
  \<open>strtol(s, &endptr, 10)\<close>: leading white space, an optional sign, digits; the value is
  clamped to the range of \<open>long\<close>. The second component is the text at \<open>endptr\<close>; with no
  digits it is the whole string.
\<close>

definition LONG_MAX :: int where "LONG_MAX = 2 ^ 63 - 1"
definition LONG_MIN :: int where "LONG_MIN = - (2 ^ 63)"
definition ULONG_MAX :: nat where "ULONG_MAX = 2 ^ 64 - 1"

fun split_sign :: "string \<Rightarrow> bool \<times> string" where
  "split_sign [] = (False, [])"
| "split_sign (c # cs) =
     (if c = CHR ''-'' then (True, cs)
      else if c = CHR ''+'' then (False, cs) else (False, c # cs))"

definition clamp_long :: "int \<Rightarrow> int" where
  "clamp_long v = max LONG_MIN (min LONG_MAX v)"

definition strtol10 :: "string \<Rightarrow> int \<times> string" where
  "strtol10 s =
     (let (neg, r) = split_sign (dropWhile is_space s);
          ds = takeWhile is_digit r
      in if ds = [] then (0, s)
         else (clamp_long (if neg then - int (dec_val ds) else int (dec_val ds)),
               dropWhile is_digit r))"

text \<open>\<open>strtoul\<close> negates in the unsigned range and clamps to \<open>ULONG_MAX\<close>.\<close>

definition strtoul10 :: "string \<Rightarrow> nat \<times> string" where
  "strtoul10 s =
     (let (neg, r) = split_sign (dropWhile is_space s);
          ds = takeWhile is_digit r;
          v = dec_val ds
      in if ds = [] then (0, s)
         else (if v > ULONG_MAX then ULONG_MAX
               else if neg then (SIZE_T - v) mod SIZE_T else v,
               dropWhile is_digit r))"

text \<open>\<open>int x = strtol(...)\<close> keeps the low 32 bits.\<close>

definition to_int :: "int \<Rightarrow> int" where
  "to_int v = sint (word_of_int v :: 32 word)"

lemma digits_no_sign:
  assumes "ds \<noteq> []" and "\<forall>c \<in> set ds. is_digit c"
  shows "split_sign (dropWhile is_space (ds @ r)) = (False, ds @ r)"
  using assms
  by (cases ds) (auto simp: is_digit_def is_space_def)

lemma stop_digits:
  assumes "r = [] \<or> \<not> is_digit (hd r)"
  shows "takeWhile is_digit r = []" and "dropWhile is_digit r = r"
  using assms by (cases r; auto)+

lemma strtol10_digits:
  assumes "ds \<noteq> []" and "\<forall>c \<in> set ds. is_digit c" and "r = [] \<or> \<not> is_digit (hd r)"
    and "int (dec_val ds) \<le> LONG_MAX"
  shows "strtol10 (ds @ r) = (int (dec_val ds), r)"
  using assms
  by (simp add: strtol10_def digits_no_sign stop_digits clamp_long_def LONG_MIN_def LONG_MAX_def)

lemma strtol10_neg_digits:
  assumes "ds \<noteq> []" and "\<forall>c \<in> set ds. is_digit c" and "r = [] \<or> \<not> is_digit (hd r)"
    and "- int (dec_val ds) \<ge> LONG_MIN"
  shows "strtol10 (CHR ''-'' # ds @ r) = (- int (dec_val ds), r)"
  using assms
  by (simp add: strtol10_def is_space_def stop_digits clamp_long_def LONG_MIN_def LONG_MAX_def)

lemma strtoul10_digits:
  assumes "ds \<noteq> []" and "\<forall>c \<in> set ds. is_digit c" and "r = [] \<or> \<not> is_digit (hd r)"
    and "dec_val ds \<le> ULONG_MAX"
  shows "strtoul10 (ds @ r) = (dec_val ds, r)"
  using assms by (simp add: strtoul10_def digits_no_sign stop_digits)

section \<open>Comparison and search\<close>

definition to_lower :: "char \<Rightarrow> char" where
  "to_lower c = (if is_upper c then char_of (byte c + 32) else c)"

definition strcaseeq :: "string \<Rightarrow> string \<Rightarrow> bool" where
  "strcaseeq a b \<longleftrightarrow> map to_lower (cstr a) = map to_lower (cstr b)"

text \<open>\<open>strncmp(a, b, n) == 0\<close> and \<open>strncasecmp(a, b, n) == 0\<close>.\<close>

definition strneq :: "string \<Rightarrow> string \<Rightarrow> nat \<Rightarrow> bool" where
  "strneq a b n \<longleftrightarrow> take n (cstr a) = take n (cstr b)"

definition strncaseeq :: "string \<Rightarrow> string \<Rightarrow> nat \<Rightarrow> bool" where
  "strncaseeq a b n \<longleftrightarrow> map to_lower (take n (cstr a)) = map to_lower (take n (cstr b))"

text \<open>\<open>memchr\<close>: the offset of the first \<open>c\<close>; \<open>strchr\<close> looks before the terminator only.\<close>

fun memchr :: "char \<Rightarrow> string \<Rightarrow> nat option" where
  "memchr c [] = None"
| "memchr c (x # xs) = (if x = c then Some 0 else map_option Suc (memchr c xs))"

definition strchr :: "string \<Rightarrow> char \<Rightarrow> nat option" where
  "strchr s c = memchr c (cstr s)"

lemma memchr_None_iff: "memchr c s = None \<longleftrightarrow> c \<notin> set s"
  by (induction s) auto

lemma memchr_Some_iff:
  "memchr c s = Some i \<longleftrightarrow> i < length s \<and> s ! i = c \<and> c \<notin> set (take i s)"
proof (induction s arbitrary: i)
  case (Cons x s)
  then show ?case by (cases i) auto
qed simp

text \<open>\<open>strstr(s, t) != NULL\<close> for a non-empty needle.\<close>

fun has_substring :: "string \<Rightarrow> string \<Rightarrow> bool" where
  "has_substring t [] = (t = [])"
| "has_substring t (x # xs) = (take (length t) (x # xs) = t \<or> has_substring t xs)"

lemma has_substring_iff: "has_substring t s \<longleftrightarrow> (\<exists>u v. s = u @ t @ v)"
proof (induction s)
  case (Cons x s)
  show ?case
  proof
    assume "has_substring t (x # s)"
    then consider "take (length t) (x # s) = t" | "has_substring t s" by auto
    then show "\<exists>u v. x # s = u @ t @ v"
    proof cases
      case 1
      then have "x # s = [] @ t @ drop (length t) (x # s)" by (metis append_Nil append_take_drop_id)
      then show ?thesis by blast
    next
      case 2
      then obtain u v where "s = u @ t @ v" using Cons by blast
      then have "x # s = (x # u) @ t @ v" by simp
      then show ?thesis by blast
    qed
  next
    assume "\<exists>u v. x # s = u @ t @ v"
    then obtain u v where eq: "x # s = u @ t @ v" by blast
    show "has_substring t (x # s)"
    proof (cases u)
      case Nil
      then have "take (length t) (x # s) = t" using eq by simp
      then show ?thesis by simp
    next
      case (Cons a u')
      then have "s = u' @ t @ v" using eq by simp
      then show ?thesis using Cons.IH by auto
    qed
  qed
qed simp

end
