(* ===== verification/Buffer_Num.thy ===== *)
theory Buffer_Num
  imports Buffer CLib
begin

text \<open>
  Numbers in buffers (\<open>src/buffer.c\<close>): decimal and hexadecimal formatting of machine
  integers, single hex digits. The lemmas show that every 64-bit value, \<open>INTMAX_MIN\<close>
  included, is printed so that \<open>strtol\<close> reads it back, and that the local buffers of
  \<open>LI_ITOSTRING_LENGTH\<close> bytes are large enough.
\<close>

unbundle bit_operations_syntax

section \<open>Decimal\<close>

text \<open>\<open>utostr\<close> writes digits backwards from \<open>buf_end\<close>; \<open>acc\<close> is what it has written.\<close>

function utostr :: "64 word \<Rightarrow> string \<Rightarrow> string" where
  "utostr val acc =
     (let digit = unat (val mod 10);
          val' = val div 10;
          acc' = dec_char digit # acc
      in if val' \<noteq> 0 then utostr val' acc' else acc')"
  by pat_completeness auto

lemma unat_div_10_less: "val div 10 \<noteq> (0 :: 64 word) \<Longrightarrow> unat (val div 10) < unat val"
proof -
  assume "val div 10 \<noteq> 0"
  then have "val \<noteq> 0" by auto
  then have "0 < unat val" by (simp add: unat_gt_0)
  then show "unat (val div 10) < unat val" by (simp add: unat_div)
qed

termination utostr
  by (relation "measure (\<lambda>(val, acc). unat val)") (auto simp: unat_div_10_less)

declare utostr.simps [simp del]

definition LI_ITOSTRING_LENGTH :: nat where
  "LI_ITOSTRING_LENGTH = 2 + (8 * 8 * 31 + 99) div 100"

text \<open>\<open>itostr\<close>: the magnitude of a negative value through the two's complement of its bits.\<close>

definition itostr :: "64 word \<Rightarrow> string \<Rightarrow> string" where
  "itostr val acc =
     (let uval = (if 0 \<le> sint val then val else NOT val + 1);
          cur = utostr uval acc
      in if sint val < 0 then CHR ''-'' # cur else cur)"

definition buffer_append_int :: "buffer \<Rightarrow> 64 word \<Rightarrow> buffer option" where
  "buffer_append_int b val = do {
     let str = itostr val [];
     force_assert (0 < length str \<and> length str \<le> LI_ITOSTRING_LENGTH);
     buffer_append_string_len b str
   }"

definition buffer_copy_int :: "buffer \<Rightarrow> 64 word \<Rightarrow> buffer option" where
  "buffer_copy_int b val = buffer_append_int (b\<lparr>b_used := 0\<rparr>) val"

text \<open>
  \<open>li_itostrn\<close> and \<open>li_utostrn\<close> format into a caller's array of \<open>buf_len\<close> bytes: the bytes
  stored, with their terminator.
\<close>

definition li_itostrn :: "nat \<Rightarrow> 64 word \<Rightarrow> string option" where
  "li_itostrn buf_len val = do {
     let str = itostr val [NUL];
     force_assert (0 < length str \<and> length str \<le> LI_ITOSTRING_LENGTH);
     force_assert (buf_len \<ge> length str);
     Some str
   }"

definition li_utostrn :: "nat \<Rightarrow> 64 word \<Rightarrow> string option" where
  "li_utostrn buf_len val = do {
     let str = utostr val [NUL];
     force_assert (0 < length str \<and> length str \<le> LI_ITOSTRING_LENGTH);
     force_assert (buf_len \<ge> length str);
     Some str
   }"

lemma utostr_append: "utostr val acc = utostr val [] @ acc"
proof (induction "unat val" arbitrary: val acc rule: less_induct)
  case less
  show ?case
  proof (cases "val div 10 = 0")
    case True
    then show ?thesis by (simp add: utostr.simps [of val])
  next
    case False
    note IH = less [OF unat_div_10_less [OF False]]
    have "utostr (val div 10) (dec_char (unat (val mod 10)) # acc)
        = (utostr (val div 10) [] @ [dec_char (unat (val mod 10))]) @ acc"
      by (subst IH) simp
    also have "utostr (val div 10) [] @ [dec_char (unat (val mod 10))]
        = utostr (val div 10) [dec_char (unat (val mod 10))]"
      by (subst IH [of "[_]"]) simp
    finally show ?thesis using False by (simp add: utostr.simps [of val])
  qed
qed

lemma utostr_rec:
  "utostr val [] = (if val div 10 = 0 then [] else utostr (val div 10) []) @
     [dec_char (unat (val mod 10))]"
  by (subst utostr.simps) (simp add: utostr_append [of _ "[_]"])

lemma utostr_digits: "\<forall>c \<in> set (utostr val []). is_digit c" and utostr_not_Nil: "utostr val [] \<noteq> []"
proof -
  show "utostr val [] \<noteq> []" by (subst utostr_rec) simp
  show "\<forall>c \<in> set (utostr val []). is_digit c"
  proof (induction "unat val" arbitrary: val rule: less_induct)
    case less
    then show ?case
      by (subst utostr_rec) (auto simp: unat_mod dest: unat_div_10_less)
  qed
qed

lemma dec_val_utostr: "dec_val (utostr val []) = unat val"
proof (induction "unat val" arbitrary: val rule: less_induct)
  case less
  show ?case
  proof (cases "val div 10 = 0")
    case True
    then have "unat (val div 10) = 0" by simp
    then have "unat val < 10" by (simp add: unat_div)
    then show ?thesis
      using True dec_val_snoc [of "[]" "dec_char (unat val)"] by (subst utostr_rec) (simp add: unat_mod)
  next
    case False
    then show ?thesis
      using less [OF unat_div_10_less [OF False]]
      by (subst utostr_rec) (simp add: unat_mod unat_div)
  qed
qed

lemma utostr_lead: "length (utostr val []) = 1 \<or> 10 ^ (length (utostr val []) - 1) \<le> unat val"
proof (induction "unat val" arbitrary: val rule: less_induct)
  case less
  show ?case
  proof (cases "val div 10 = 0")
    case True
    then show ?thesis by (subst utostr_rec) simp
  next
    case False
    let ?l = "length (utostr (val div 10) [])"
    have len: "length (utostr val []) = Suc ?l" using False by (subst utostr_rec) simp
    have pos: "0 < ?l" using utostr_not_Nil [of "val div 10"] by simp
    have ge: "10 ^ (?l - 1) \<le> unat val div 10"
      using less [OF unat_div_10_less [OF False]]
    proof
      assume "?l = 1"
      moreover have "0 < unat (val div 10)" using False by (simp add: unat_gt_0)
      ultimately show ?thesis by (simp add: unat_div)
    qed (simp add: unat_div)
    have "(10 :: nat) ^ ?l = 10 * 10 ^ (?l - 1)" using pos by (cases ?l) simp_all
    also have "\<dots> \<le> 10 * (unat val div 10)" using ge by simp
    also have "\<dots> \<le> unat val" by simp
    finally show ?thesis by (simp add: len)
  qed
qed

lemma length_utostr: "length (utostr val []) \<le> 20"
proof (rule ccontr)
  assume "\<not> ?thesis"
  then have long: "21 \<le> length (utostr val [])" by simp
  then have "(10 :: nat) ^ 20 \<le> 10 ^ (length (utostr val []) - 1)"
    by (intro power_increasing) auto
  also have "\<dots> \<le> unat val" using utostr_lead [of val] long by auto
  also have "unat val < 2 ^ 64" using unsigned_less [of val] by simp
  finally show False by simp
qed

lemma uint_of_sint: "(of_int k :: 64 word) = w \<Longrightarrow> uint w = k mod 2 ^ 64"
  using uint_word_of_int [of k, where 'a = 64] by simp

lemma sint_nonneg_unat: "0 \<le> sint (val :: 64 word) \<Longrightarrow> uint val = sint val"
  using uint_of_sint [of "sint val" val] sint_less [of val] by simp

lemma sint_neg_magnitude: "sint (val :: 64 word) < 0 \<Longrightarrow> uint (NOT val + 1) = - sint val"
proof -
  assume neg: "sint val < 0"
  have "NOT val + 1 = - val" by (simp add: minus_eq_not_plus_1)
  then show "uint (NOT val + 1) = - sint val"
    using uint_of_sint [of "- sint val" "- val"] sint_greater_eq [of val] neg by simp
qed

text \<open>Every 64-bit value is printed as \<open>strtol\<close> reads it back.\<close>

lemma strtol10_itostr: "strtol10 (itostr val []) = (sint val, [])"
proof (cases "0 \<le> sint val")
  case True
  have "strtol10 (utostr val [] @ []) = (int (dec_val (utostr val [])), [])"
    using True sint_less [of val] utostr_digits [of val] utostr_not_Nil [of val]
    by (intro strtol10_digits) (auto simp: dec_val_utostr sint_nonneg_unat LONG_MAX_def)
  with True show ?thesis by (simp add: itostr_def dec_val_utostr sint_nonneg_unat)
next
  case False
  let ?u = "NOT val + 1"
  have m: "uint ?u = - sint val" using False by (intro sint_neg_magnitude) simp
  have "strtol10 (CHR ''-'' # utostr ?u [] @ []) = (- int (dec_val (utostr ?u [])), [])"
    using sint_greater_eq [of val] utostr_digits [of ?u] utostr_not_Nil [of ?u] m
    by (intro strtol10_neg_digits) (auto simp: dec_val_utostr LONG_MIN_def)
  with False m show ?thesis by (simp add: itostr_def dec_val_utostr)
qed

lemma length_itostr: "length (itostr val acc) \<le> 21 + length acc"
  and itostr_not_Nil: "itostr val acc \<noteq> []"
  using length_utostr [of val] length_utostr [of "NOT val + 1"] utostr_not_Nil [of val]
  by (auto simp: itostr_def Let_def utostr_append [of _ acc])

text \<open>So the assertions on the local arrays never fail, and appending a number is an append.\<close>

lemma LI_ITOSTRING_LENGTH_eq [simp]: "LI_ITOSTRING_LENGTH = 22"
  by (simp add: LI_ITOSTRING_LENGTH_def)

lemma buffer_append_int_eq:
  "buffer_append_int b val = buffer_append_string_len b (itostr val [])"
  using length_itostr [of val "[]"] itostr_not_Nil [of val "[]"]
  by (simp add: buffer_append_int_def Let_def)

lemma li_itostrn_eq:
  "li_itostrn n val = (if length (itostr val [NUL]) \<le> n then Some (itostr val [NUL]) else None)"
  using length_itostr [of val "[NUL]"] itostr_not_Nil [of val "[NUL]"]
  by (simp add: li_itostrn_def Let_def)

lemma li_utostrn_eq:
  "li_utostrn n val = (if length (utostr val [NUL]) \<le> n then Some (utostr val [NUL]) else None)"
  using length_utostr [of val]
  by (simp add: li_utostrn_def Let_def utostr_append [of _ "[NUL]"])

section \<open>Hexadecimal\<close>

definition hex_chars :: string where
  "hex_chars = ''0123456789abcdef''"

definition hex_char :: "nat \<Rightarrow> char" where
  "hex_char n = hex_chars ! n"

definition int2hex :: "char \<Rightarrow> char" where
  "int2hex c = hex_char (byte c AND 0x0F)"

text \<open>\<open>hex2int\<close> on \<open>unsigned char\<close>: the subtractions wrap around, \<open>0xff\<close> is the error value.\<close>

definition hex2int :: "char \<Rightarrow> nat" where
  "hex2int hex =
     (let value = (byte hex + 256 - 48) mod 256;
          value = (if value > 9
                   then let hex = byte hex OR 0x20;
                            value = (hex + 256 - 97 + 10) mod 256
                        in if value < 10 then 0xff else value
                   else value)
      in if value > 15 then 0xff else value)"

definition light_isdigit :: "nat \<Rightarrow> bool" where
  "light_isdigit c \<longleftrightarrow> c \<ge> 48 \<and> c \<le> 57"

definition light_isxdigit :: "nat \<Rightarrow> bool" where
  "light_isxdigit c = (if light_isdigit c then True else (let c = c OR 32 in c \<ge> 97 \<and> c \<le> 102))"

definition light_isalpha :: "nat \<Rightarrow> bool" where
  "light_isalpha c = (let c = c OR 32 in c \<ge> 97 \<and> c \<le> 122)"

definition light_isalnum :: "nat \<Rightarrow> bool" where
  "light_isalnum c = (light_isdigit c \<or> light_isalpha c)"

text \<open>The nibble count of \<open>buffer_append_uint_hex\<close> (a whole number of bytes), and its fill loop.\<close>

function hex_shift :: "64 word \<Rightarrow> nat" where
  "hex_shift copy =
     (let copy = drop_bit 8 copy in 2 + (if 0 \<noteq> copy then hex_shift copy else 0))"
  by pat_completeness auto

lemma unat_drop_bit: "unat (drop_bit n (w :: 64 word)) = unat w div 2 ^ n"
  by (metis drop_bit_eq_div unat_drop_bit_eq)

termination hex_shift
proof (relation "measure unat")
  fix copy x :: "64 word"
  assume x: "x = drop_bit 8 copy" and "0 \<noteq> x"
  then have "0 < unat copy" by (cases "copy = 0") (auto simp: unat_gt_0)
  then show "(x, copy) \<in> measure unat" by (simp add: x unat_drop_bit)
qed simp

declare hex_shift.simps [simp del]

fun hex_fill :: "64 word \<Rightarrow> nat \<Rightarrow> string" where
  "hex_fill val 0 = []"
| "hex_fill val (Suc k) = hex_char (unat (drop_bit (4 * k) val AND 0x0F)) # hex_fill val k"

definition buffer_append_uint_hex :: "buffer \<Rightarrow> 64 word \<Rightarrow> buffer option" where
  "buffer_append_uint_hex b val = do {
     let shift = hex_shift val;
     (b, buf) \<leftarrow> buffer_string_prepare_append b shift;
     b \<leftarrow> buffer_commit b shift;
     m \<leftarrow> mem_copy (b_ptr b) buf (hex_fill val shift);
     Some (b\<lparr>b_ptr := m\<rparr>)
   }"

text \<open>The inverse of a nibble digit, and the value of a run of hex digits.\<close>

definition hex_val :: "string \<Rightarrow> nat" where
  "hex_val ds = foldl (\<lambda>v c. 16 * v + hex2int c) 0 ds"

lemma hex2int_table: "\<forall>n < 16. hex2int (hex_char n) = n"
  unfolding all_less_upt upt_16 hex_char_def hex_chars_def hex2int_def by simp

lemma hex2int_hex_char [simp]: "n < 16 \<Longrightarrow> hex2int (hex_char n) = n"
  using hex2int_table by simp

text \<open>\<open>hex2int\<close> accepts exactly the hex digits of \<open>light_isxdigit\<close>, with either case.\<close>

lemma hex2int_table_256:
  "\<forall>c. (hex2int c \<noteq> 0xff \<longleftrightarrow> light_isxdigit (byte c)) \<and> (hex2int c < 16 \<or> hex2int c = 0xff)"
  unfolding all_bytes_upt upt_256 hex2int_def light_isxdigit_def light_isdigit_def by simp

lemma hex2int_valid: "hex2int c \<noteq> 0xff \<longleftrightarrow> light_isxdigit (byte c)"
  using hex2int_table_256 by blast

lemma hex2int_range: "hex2int c < 16 \<or> hex2int c = 0xff"
  using hex2int_table_256 by blast

lemma hex_fill_value: "foldl (\<lambda>v c. 16 * v + hex2int c) a (hex_fill val k)
   = a * 16 ^ k + unat val mod 16 ^ k"
proof (induction k arbitrary: a)
  case (Suc k)
  let ?d = "unat (drop_bit (4 * k) val AND 0x0F)"
  have d: "?d = (unat val div 16 ^ k) mod 16"
  proof -
    have "drop_bit (4 * k) val AND 0x0F = take_bit 4 (drop_bit (4 * k) val)"
      by (simp add: take_bit_eq_mask mask_eq_exp_minus_1)
    then have "?d = unat (drop_bit (4 * k) val) mod 2 ^ 4"
      by (simp add: take_bit_eq_mod unat_mod)
    then show ?thesis by (simp add: unat_drop_bit power_mult)
  qed
  then have "?d < 16" by simp
  then have "foldl (\<lambda>v c. 16 * v + hex2int c) a (hex_fill val (Suc k))
      = (16 * a + ?d) * 16 ^ k + unat val mod 16 ^ k"
    using Suc.IH [of "16 * a + ?d"] by simp
  also have "\<dots> = a * 16 ^ Suc k + (16 ^ k * (unat val div 16 ^ k mod 16) + unat val mod 16 ^ k)"
    by (simp only: d) (simp add: algebra_simps)
  also have "\<dots> = a * 16 ^ Suc k + unat val mod 16 ^ Suc k"
    using mod_mult2_eq [of "unat val" "16 ^ k" 16] by (simp add: mult.commute)
  finally show ?case .
qed simp

lemma hex_shift_rec: "hex_shift val =
    2 + (if drop_bit 8 val = 0 then 0 else hex_shift (drop_bit 8 val))"
  by (subst hex_shift.simps) (simp add: Let_def)

lemma hex_shift_bounds:
  "unat val < 16 ^ hex_shift val \<and> even (hex_shift val) \<and> 2 \<le> hex_shift val"
proof (induction val rule: hex_shift.induct)
  case (1 val)
  let ?v = "drop_bit 8 val"
  have u: "unat ?v = unat val div 256" by (simp add: unat_drop_bit)
  show ?case
  proof (cases "?v = 0")
    case True
    then have "unat val div 256 = 0" using u by simp
    then show ?thesis using True by (simp add: hex_shift_rec [of val])
  next
    case False
    then have IH: "unat val div 256 < 16 ^ hex_shift ?v" "even (hex_shift ?v)"
      using "1.IH" u by auto
    from IH(1) have "unat val < 256 * 16 ^ hex_shift ?v" by linarith
    then show ?thesis using False IH(2) by (simp add: hex_shift_rec [of val] power_add)
  qed
qed

lemma length_hex_fill [simp]: "length (hex_fill val k) = k"
  by (induction k) auto

definition uint_hex_str :: "64 word \<Rightarrow> string" where
  "uint_hex_str val = hex_fill val (hex_shift val)"

lemma hex_val_uint_hex_str: "hex_val (uint_hex_str val) = unat val"
  using hex_shift_bounds [of val]
  by (simp add: hex_val_def uint_hex_str_def hex_fill_value)

lemma buffer_append_uint_hex_ok:
  assumes "buf_ok b" and "length (buf_str b) + length (uint_hex_str val) + 1 < SIZE_T"
  obtains b' where "buffer_append_uint_hex b val = Some b'"
    and "buf_holds b' (buf_str b @ uint_hex_str val)"
proof -
  let ?t = "uint_hex_str val"
  have len: "hex_shift val = length ?t" and fill: "hex_fill val (length ?t) = ?t"
    by (simp_all add: uint_hex_str_def)
  from assms obtain b1 where p: "buffer_string_prepare_append b (length ?t) = Some (b1, length (buf_str b))"
    and h: "buf_holds b1 (buf_str b)" and fits: "length (buf_str b) + length ?t < b_size b1"
    by (rule buffer_string_prepare_append_ok)
  have "?t \<noteq> []" using hex_shift_bounds [of val] len by auto
  with h fits obtain b2 m where "buffer_commit b1 (length ?t) = Some b2"
    "mem_copy (b_ptr b2) (length (buf_str b)) ?t = Some m"
    "buf_holds (b2\<lparr>b_ptr := m\<rparr>) (buf_str b @ ?t)" "b_size b2 = b_size b1"
    "mem_read (b_ptr b2) (length (buf_str b)) = Some NUL"
    by (rule buffer_commit_fill)
  with p that show ?thesis
    by (simp add: buffer_append_uint_hex_def Let_def len fill)
qed

text \<open>The digits are hex digits; in particular none is a delimiter.\<close>

lemma hex_char_props: "\<forall>n < 16. light_isxdigit (byte (hex_char n))"
  unfolding all_less_upt upt_16 hex_char_def hex_chars_def light_isxdigit_def light_isdigit_def
  by simp

lemma hex_fill_xdigits: "c \<in> set (hex_fill val k) \<Longrightarrow> light_isxdigit (byte c)"
proof (induction k)
  case (Suc k)
  have "unat (drop_bit (4 * k) val AND 0x0F) < 16"
    using word_and_le1 [of "drop_bit (4 * k) val" "0x0F"]
    by (simp add: word_le_nat_alt)
  then show ?case using Suc hex_char_props by auto
qed simp

section \<open>Guarantees\<close>

text \<open>The decimal text \<open>buffer_copy_int\<close> writes is read back by \<open>strtol\<close> as the same signed
  64-bit value, with nothing left over, for every value including the most negative one.\<close>

theorem buffer_copy_int_strtol:
  assumes "buf_shape b"
  shows "\<exists>b' t. buffer_copy_int b val = Some b' \<and> buf_holds b' t \<and> strtol10 t = (sint val, [])"
proof -
  have len: "length (itostr val []) \<le> 21" using length_itostr [of val "[]"] by simp
  have b: "buf_ok (b\<lparr>b_used := 0\<rparr>)" "buf_str (b\<lparr>b_used := 0\<rparr>) = []"
    using assms buf_ok_unset [of "b\<lparr>b_used := 0\<rparr>"] by (simp_all add: buf_shape_def)
  have "length (buf_str (b\<lparr>b_used := 0\<rparr>)) + length (itostr val []) + 1 < SIZE_T"
    using len b(2) by (simp add: SIZE_T_def)
  with b(1) obtain b' where "buffer_append_string_len (b\<lparr>b_used := 0\<rparr>) (itostr val []) = Some b'"
    "buf_holds b' (buf_str (b\<lparr>b_used := 0\<rparr>) @ itostr val [])"
    by (rule buffer_append_string_len_ok)
  then show ?thesis
    using strtol10_itostr [of val] b(2)
    by (intro exI [of _ b'] exI [of _ "itostr val []"]) (simp add: buffer_copy_int_def buffer_append_int_eq)
qed

theorem buffer_copy_int_strtol_witness:
  "\<exists>b' t. buffer_copy_int buffer_init (- 9223372036854775808) = Some b' \<and> buf_holds b' t \<and>
     strtol10 t = (- 9223372036854775808, [])"
  using buffer_copy_int_strtol [of buffer_init "- 9223372036854775808"]
  by (simp add: buf_ok_shape)

end
