(* ===== verification/Buffer_Cmp.thy ===== *)
theory Buffer_Cmp
  imports Buffer_Num
begin

text \<open>
  Comparing and searching buffers (\<open>src/buffer.c\<close>). \<open>buffer_caseless_compare\<close> is the order
  every header and configuration array is sorted by; it is shown to be the lexicographic
  order on the lower-cased bytes, hence a total preorder.
\<close>

unbundle bit_operations_syntax

section \<open>Comparison of the stored bytes\<close>

text \<open>\<open>memcmp\<close> over \<open>n\<close> bytes of two blocks, from the given offsets.\<close>

definition mem_eq :: "mem \<Rightarrow> nat \<Rightarrow> mem \<Rightarrow> nat \<Rightarrow> nat \<Rightarrow> bool option" where
  "mem_eq m i m' j n = do { s \<leftarrow> mem_get m i n; t \<leftarrow> mem_get m' j n; Some (s = t) }"

definition buffer_is_equal :: "buffer \<Rightarrow> buffer \<Rightarrow> bool option" where
  "buffer_is_equal a b =
     (if b_used a \<noteq> b_used b then Some False
      else if b_used a = 0 then Some True
      else mem_eq (b_ptr a) 0 (b_ptr b) 0 (b_used a))"

definition buffer_is_equal_string :: "buffer \<Rightarrow> string \<Rightarrow> bool option" where
  "buffer_is_equal_string a s = do {
     force_assert (uadd (length s) 1 > length s);
     if b_used a \<noteq> uadd (length s) 1 then Some False
     else do {
       t \<leftarrow> mem_get (b_ptr a) 0 (length s);
       if t \<noteq> s then Some False
       else do {
         c \<leftarrow> mem_read (b_ptr a) (b_used a - 1);
         Some (c = NUL)
       }
     }
   }"

definition buffer_is_equal_caseless_string :: "buffer \<Rightarrow> string \<Rightarrow> bool option" where
  "buffer_is_equal_caseless_string a s =
     (if b_used a \<noteq> uadd (length s) 1 then Some False
      else do {
        c \<leftarrow> mem_read (b_ptr a) (b_used a - 1);
        force_assert (c = NUL);
        t \<leftarrow> mem_get (b_ptr a) 0 (b_used a);
        Some (strcaseeq t s)
      })"

definition buffer_is_equal_right_len :: "buffer \<Rightarrow> buffer \<Rightarrow> nat \<Rightarrow> bool option" where
  "buffer_is_equal_right_len b1 b2 len =
     (if len = 0 then Some True
      else if b_used b1 = 0 \<or> b_used b2 = 0 then Some False
      else if b_used b1 - 1 < len \<or> b_used b2 - 1 < len then Some False
      else mem_eq (b_ptr b1) (b_used b1 - 1 - len) (b_ptr b2) (b_used b2 - 1 - len) len)"

text \<open>The scan of \<open>buffer_search_string_len\<close> from offset \<open>i\<close>, \<open>k\<close> positions to go.\<close>

fun buffer_search_from :: "mem \<Rightarrow> string \<Rightarrow> nat \<Rightarrow> nat \<Rightarrow> nat option option" where
  "buffer_search_from m needle i 0 = Some None"
| "buffer_search_from m needle i (Suc k) =
     (case mem_get m i (length needle) of
        None \<Rightarrow> None
      | Some t \<Rightarrow> if t = needle then Some (Some i) else buffer_search_from m needle (Suc i) k)"

definition buffer_search_string_len :: "buffer \<Rightarrow> string \<Rightarrow> nat option option" where
  "buffer_search_string_len b needle = do {
     force_assert (length needle \<noteq> 0);
     if b_used b < length needle then Some None
     else buffer_search_from (b_ptr b) needle 0 (b_used b - length needle)
   }"

section \<open>The caseless order\<close>

definition fold_case :: "char \<Rightarrow> nat" where
  "fold_case c = (if byte c \<ge> 65 \<and> byte c \<le> 90 then byte c OR 32 else byte c)"

fun buffer_caseless_compare :: "string \<Rightarrow> string \<Rightarrow> int" where
  "buffer_caseless_compare [] [] = 0"
| "buffer_caseless_compare [] (y # ys) = - 1"
| "buffer_caseless_compare (x # xs) [] = 1"
| "buffer_caseless_compare (x # xs) (y # ys) =
     (if x = y then buffer_caseless_compare xs ys
      else let ca = fold_case x; cb = fold_case y in
        if ca = cb then buffer_caseless_compare xs ys else int ca - int cb)"

text \<open>The sort key: the lower-cased bytes.\<close>

definition lkey :: "string \<Rightarrow> nat list" where
  "lkey s = map fold_case s"

lemma lkey_simps [simp]: "lkey [] = []" "lkey (c # cs) = fold_case c # lkey cs"
  by (simp_all add: lkey_def)

lemma buffer_caseless_compare_zero: "buffer_caseless_compare a b = 0 \<longleftrightarrow> lkey a = lkey b"
  by (induction a b rule: buffer_caseless_compare.induct) (auto simp: Let_def)

lemma buffer_caseless_compare_neg: "buffer_caseless_compare a b < 0 \<longleftrightarrow> lkey a < lkey b"
  by (induction a b rule: buffer_caseless_compare.induct) (auto simp: Let_def)

lemma buffer_caseless_compare_refl [simp]: "buffer_caseless_compare a a = 0"
  by (simp add: buffer_caseless_compare_zero)

text \<open>On ASCII letters the fold is \<open>tolower\<close>; nothing else changes.\<close>

lemma fold_case_table: "\<forall>c. fold_case c = byte (to_lower c)"
  unfolding all_bytes_upt upt_256 fold_case_def to_lower_def is_upper_def by simp

lemma fold_case_to_lower: "fold_case c = byte (to_lower c)"
  using fold_case_table by blast

lemma lkey_eq_iff: "lkey a = lkey b \<longleftrightarrow> map to_lower a = map to_lower b"
proof -
  have *: "lkey s = map of_char (map to_lower s)" for s
    by (simp add: lkey_def fold_case_to_lower)
  have "inj (of_char :: char \<Rightarrow> nat)" by (simp add: inj_def)
  then show ?thesis by (simp only: * inj_map_eq_map)
qed

section \<open>Results on well-formed buffers\<close>

lemma buf_holds_get:
  assumes "buf_holds b s" and "i + n \<le> length s + 1"
  shows "mem_get (b_ptr b) i n = Some (take n (drop i (s @ [NUL])))"
proof -
  have pre: "take (length s + 1) (b_ptr b) = map Some (s @ [NUL])"
    and len: "length s + 1 \<le> length (b_ptr b)"
    using assms(1) by (auto simp: buf_holds_def buf_shape_def)
  have "take n (drop i (b_ptr b)) = take n (drop i (take (length s + 1) (b_ptr b)))"
    using assms(2) by (simp add: drop_take min_def)
  also have "\<dots> = map Some (take n (drop i (s @ [NUL])))"
    by (simp only: pre drop_map take_map)
  finally show ?thesis using assms(2) len by (simp add: mem_get_def del: take_append drop_append)
qed

lemma buf_holds_get_all: "buf_holds b s \<Longrightarrow> mem_get (b_ptr b) 0 (Suc (length s)) = Some (s @ [NUL])"
  using buf_holds_get [of b s 0 "length s + 1"] by simp

lemma buf_holds_get_str:
  "buf_holds b s \<Longrightarrow> i + n \<le> length s \<Longrightarrow> mem_get (b_ptr b) i n = Some (take n (drop i s))"
  using buf_holds_get [of b s i n] by simp

lemma buf_holds_read_NUL: "buf_holds b s \<Longrightarrow> mem_read (b_ptr b) (length s) = Some NUL"
  using nth_take [of "length s" "length s + 1" "b_ptr b"]
  by (auto simp: buf_holds_def buf_shape_def mem_read_def nth_append)

text \<open>The value of a buffer: unset, or its string.\<close>

definition buf_val :: "buffer \<Rightarrow> string option" where
  "buf_val b = (if buffer_is_empty b then None else Some (buf_str b))"

lemma buf_val_holds: "buf_holds b s \<Longrightarrow> buf_val b = Some s"
  by (simp add: buf_val_def buf_holdsD)

lemma buf_ok_val_cases:
  assumes "buf_ok b"
  obtains (unset) "b_used b = 0" "buf_val b = None"
  | (holds) s where "buf_holds b s" "buf_val b = Some s" "b_used b = length s + 1"
  using assms
proof (cases rule: buf_ok_cases)
  case unset
  then show ?thesis using that(1) by (simp add: buf_val_def buffer_is_empty_def)
next
  case holds
  then show ?thesis using that(2) [OF holds] by (simp add: buf_val_holds buf_holdsD(2))
qed

lemma buffer_is_equal_ok:
  assumes "buf_ok a" and "buf_ok b"
  shows "buffer_is_equal a b = Some (buf_val a = buf_val b)"
proof -
  have "buffer_is_equal a b = Some (s = t)" if "buf_holds a s" "buf_holds b t" for s t
    using buf_holdsD(2) [OF that(1)] buf_holdsD(2) [OF that(2)]
      buf_holds_get_all [OF that(1)] buf_holds_get_all [OF that(2)]
    by (auto simp: buffer_is_equal_def mem_eq_def)
  then show ?thesis
    using assms by (auto elim!: buf_ok_val_cases simp: buffer_is_equal_def)
qed

lemma buffer_is_equal_string_ok:
  assumes "buf_ok a" and "length s + 1 < SIZE_T"
  shows "buffer_is_equal_string a s = Some (buf_val a = Some s)"
  using assms(1)
proof (cases rule: buf_ok_val_cases)
  case unset
  then show ?thesis using assms(2) by (simp add: buffer_is_equal_string_def)
next
  case (holds t)
  show ?thesis
  proof (cases "length t = length s")
    case True
    then show ?thesis
      using holds assms(2) buf_holds_get_str [OF holds(1), of 0 "length s"]
        buf_holds_read_NUL [OF holds(1)]
      by (auto simp: buffer_is_equal_string_def)
  next
    case False
    then show ?thesis using holds assms(2) by (auto simp: buffer_is_equal_string_def)
  qed
qed

lemma buffer_is_equal_caseless_string_ok:
  assumes "buf_holds a t" and "length s + 1 < SIZE_T" and "NUL \<notin> set s" and "NUL \<notin> set t"
  shows "buffer_is_equal_caseless_string a s = Some (lkey t = lkey s)"
proof -
  have "cstr (t @ [NUL]) = t"
    using assms(4) by simp
  then show ?thesis
    using assms buf_holds_get_all [OF assms(1)] buf_holds_read_NUL [OF assms(1)] buf_holdsD(2) [OF assms(1)]
    by (auto simp: buffer_is_equal_caseless_string_def strcaseeq_def lkey_eq_iff
        dest: map_eq_imp_length_eq)
qed

lemma buffer_is_equal_right_len_ok:
  assumes "buf_ok a" and "buf_ok b"
  shows "buffer_is_equal_right_len a b n = Some (n = 0 \<or>
     (n \<le> length (buf_str a) \<and> n \<le> length (buf_str b) \<and>
      drop (length (buf_str a) - n) (buf_str a) = drop (length (buf_str b) - n) (buf_str b)))"
proof (cases "n = 0 \<or> b_used a = 0 \<or> b_used b = 0")
  case True
  then show ?thesis
    by (auto simp: buffer_is_equal_right_len_def buf_str_def buffer_string_length_def)
next
  case False
  with assms have a: "buf_holds a (buf_str a)" and b: "buf_holds b (buf_str b)"
    by (auto elim: buf_ok_cases)
  show ?thesis
    using False buf_holdsD(2) [OF a] buf_holdsD(2) [OF b]
      buf_holds_get_str [OF a, of "length (buf_str a) - n" n]
      buf_holds_get_str [OF b, of "length (buf_str b) - n" n]
    by (auto simp: buffer_is_equal_right_len_def mem_eq_def)
qed

text \<open>\<open>buffer_search_string_len\<close> finds the first occurrence of the needle, if there is one.\<close>

definition occurs_at :: "string \<Rightarrow> string \<Rightarrow> nat \<Rightarrow> bool" where
  "occurs_at needle s i \<longleftrightarrow> i + length needle \<le> length s \<and> take (length needle) (drop i s) = needle"

lemma buffer_search_from_ok:
  assumes "buf_holds b s" and "i + k + length needle = length s + 1"
  shows "\<exists>r. buffer_search_from (b_ptr b) needle i k = Some r \<and>
     (case r of None \<Rightarrow> \<forall>j. i \<le> j \<longrightarrow> \<not> occurs_at needle s j
      | Some j \<Rightarrow> i \<le> j \<and> occurs_at needle s j \<and> (\<forall>j'. i \<le> j' \<and> j' < j \<longrightarrow> \<not> occurs_at needle s j'))"
  using assms(2)
proof (induction k arbitrary: i)
  case 0
  then show ?case by (auto simp: occurs_at_def)
next
  case (Suc k)
  have get: "mem_get (b_ptr b) i (length needle) = Some (take (length needle) (drop i s))"
    using Suc.prems by (intro buf_holds_get_str [OF assms(1)]) simp
  show ?case
  proof (cases "take (length needle) (drop i s) = needle")
    case True
    then show ?thesis using get Suc.prems by (auto simp: occurs_at_def)
  next
    case False
    then have no: "\<not> occurs_at needle s i" by (simp add: occurs_at_def)
    from Suc.IH [of "Suc i"] Suc.prems obtain r where
      r: "buffer_search_from (b_ptr b) needle (Suc i) k = Some r"
      "case r of None \<Rightarrow> \<forall>j. Suc i \<le> j \<longrightarrow> \<not> occurs_at needle s j
       | Some j \<Rightarrow> Suc i \<le> j \<and> occurs_at needle s j \<and>
           (\<forall>j'. Suc i \<le> j' \<and> j' < j \<longrightarrow> \<not> occurs_at needle s j')" by auto
    have "i \<le> j \<longleftrightarrow> i = j \<or> Suc i \<le> j" for j by auto
    then show ?thesis using get False no r by (auto split: option.splits)
  qed
qed

lemma buffer_search_string_len_ok:
  assumes "buf_holds b s" and "needle \<noteq> []"
  shows "\<exists>r. buffer_search_string_len b needle = Some r \<and>
     (case r of None \<Rightarrow> \<forall>j. \<not> occurs_at needle s j
      | Some j \<Rightarrow> occurs_at needle s j \<and> (\<forall>j' < j. \<not> occurs_at needle s j'))"
proof (cases "b_used b < length needle")
  case True
  then show ?thesis
    using assms by (auto simp: buffer_search_string_len_def occurs_at_def buf_holdsD(2))
next
  case False
  then show ?thesis
    using assms buffer_search_from_ok [OF assms(1), of 0 "b_used b - length needle" needle]
    by (auto simp: buffer_search_string_len_def buf_holdsD(2) split: option.splits)
qed

section \<open>Guarantees\<close>

text \<open>\<open>buffer_search_string_len\<close> returns the first position at which a non-empty needle
  occurs in the stored string, and nothing exactly when it does not occur; it never reads
  outside the buffer.\<close>

theorem buffer_search_first:
  assumes "buf_holds b s" and "needle \<noteq> []"
  shows "buffer_search_string_len b needle = Some
    (if \<exists>j. occurs_at needle s j then Some (LEAST j. occurs_at needle s j) else None)"
proof -
  obtain r where r: "buffer_search_string_len b needle = Some r"
    "case r of None \<Rightarrow> \<forall>j. \<not> occurs_at needle s j
      | Some j \<Rightarrow> occurs_at needle s j \<and> (\<forall>j' < j. \<not> occurs_at needle s j')"
    using buffer_search_string_len_ok [OF assms] by blast
  have "(LEAST j. occurs_at needle s j) = j" if "r = Some j" for j
    using r(2) that by (auto intro!: Least_equality simp: not_less [symmetric])
  with r show ?thesis by (cases r) auto
qed

theorem buffer_search_first_witness:
  "buffer_search_string_len (buf_lit ''abcab'') ''ca'' = Some (Some (LEAST j. occurs_at ''ca'' ''abcab'' j))"
proof -
  have "occurs_at ''ca'' ''abcab'' 2" by (simp add: occurs_at_def numeral_2_eq_2)
  then show ?thesis
    using buffer_search_first [OF buf_lit_holds, of "''abcab''" "''ca''"] by (auto simp: SIZE_T_def)
qed

end
