(* ===== verification/Buffer_Text.thy ===== *)
theory Buffer_Text
  imports Buffer_Cmp
begin

text \<open>
  Escaping and unescaping in \<open>src/buffer.c\<close>: the six encodings of
  \<open>buffer_append_string_encoded\<close> with their tables, C escapes for the log, CGI variable
  names, URL decoding in place, and case conversion. Each encoder first counts and then
  fills; the lemmas show that the counts match what is written, what can never occur in
  the output, and that URL decoding inverts URL encoding.
\<close>

unbundle bit_operations_syntax

section \<open>Encoding tables\<close>

datatype buffer_encoding =
  ENCODING_REL_URI | ENCODING_REL_URI_PART | ENCODING_HTML | ENCODING_MINIMAL_XML
| ENCODING_HEX | ENCODING_HTTP_HEADER

text \<open>The tables as the source lists them: 1 where the byte is encoded.\<close>

definition encoded_chars_rel_uri_part :: "nat list" where
  "encoded_chars_rel_uri_part =
     [1, 1, 1, 1, 1, 1, 1, 1, 1, 1, 1, 1, 1, 1, 1, 1,
      1, 1, 1, 1, 1, 1, 1, 1, 1, 1, 1, 1, 1, 1, 1, 1,
      1, 0, 1, 1, 1, 1, 1, 1, 0, 0, 0, 1, 1, 0, 0, 1,
      0, 0, 0, 0, 0, 0, 0, 0, 0, 0, 1, 1, 1, 1, 1, 1,
      1, 0, 0, 0, 0, 0, 0, 0, 0, 0, 0, 0, 0, 0, 0, 0,
      0, 0, 0, 0, 0, 0, 0, 0, 0, 0, 0, 1, 1, 1, 1, 0,
      1, 0, 0, 0, 0, 0, 0, 0, 0, 0, 0, 0, 0, 0, 0, 0,
      0, 0, 0, 0, 0, 0, 0, 0, 0, 0, 0, 1, 1, 1, 0, 1,
      1, 1, 1, 1, 1, 1, 1, 1, 1, 1, 1, 1, 1, 1, 1, 1,
      1, 1, 1, 1, 1, 1, 1, 1, 1, 1, 1, 1, 1, 1, 1, 1,
      1, 1, 1, 1, 1, 1, 1, 1, 1, 1, 1, 1, 1, 1, 1, 1,
      1, 1, 1, 1, 1, 1, 1, 1, 1, 1, 1, 1, 1, 1, 1, 1,
      1, 1, 1, 1, 1, 1, 1, 1, 1, 1, 1, 1, 1, 1, 1, 1,
      1, 1, 1, 1, 1, 1, 1, 1, 1, 1, 1, 1, 1, 1, 1, 1,
      1, 1, 1, 1, 1, 1, 1, 1, 1, 1, 1, 1, 1, 1, 1, 1,
      1, 1, 1, 1, 1, 1, 1, 1, 1, 1, 1, 1, 1, 1, 1, 1]"

definition encoded_chars_rel_uri :: "nat list" where
  "encoded_chars_rel_uri =
     [1, 1, 1, 1, 1, 1, 1, 1, 1, 1, 1, 1, 1, 1, 1, 1,
      1, 1, 1, 1, 1, 1, 1, 1, 1, 1, 1, 1, 1, 1, 1, 1,
      1, 0, 1, 1, 1, 1, 1, 1, 0, 0, 0, 1, 1, 0, 0, 0,
      0, 0, 0, 0, 0, 0, 0, 0, 0, 0, 1, 1, 1, 1, 1, 1,
      1, 0, 0, 0, 0, 0, 0, 0, 0, 0, 0, 0, 0, 0, 0, 0,
      0, 0, 0, 0, 0, 0, 0, 0, 0, 0, 0, 1, 1, 1, 1, 0,
      1, 0, 0, 0, 0, 0, 0, 0, 0, 0, 0, 0, 0, 0, 0, 0,
      0, 0, 0, 0, 0, 0, 0, 0, 0, 0, 0, 1, 1, 1, 0, 1,
      1, 1, 1, 1, 1, 1, 1, 1, 1, 1, 1, 1, 1, 1, 1, 1,
      1, 1, 1, 1, 1, 1, 1, 1, 1, 1, 1, 1, 1, 1, 1, 1,
      1, 1, 1, 1, 1, 1, 1, 1, 1, 1, 1, 1, 1, 1, 1, 1,
      1, 1, 1, 1, 1, 1, 1, 1, 1, 1, 1, 1, 1, 1, 1, 1,
      1, 1, 1, 1, 1, 1, 1, 1, 1, 1, 1, 1, 1, 1, 1, 1,
      1, 1, 1, 1, 1, 1, 1, 1, 1, 1, 1, 1, 1, 1, 1, 1,
      1, 1, 1, 1, 1, 1, 1, 1, 1, 1, 1, 1, 1, 1, 1, 1,
      1, 1, 1, 1, 1, 1, 1, 1, 1, 1, 1, 1, 1, 1, 1, 1]"

definition encoded_chars_html :: "nat list" where
  "encoded_chars_html =
     [1, 1, 1, 1, 1, 1, 1, 1, 1, 1, 1, 1, 1, 1, 1, 1,
      1, 1, 1, 1, 1, 1, 1, 1, 1, 1, 1, 1, 1, 1, 1, 1,
      0, 0, 1, 0, 0, 0, 1, 1, 0, 0, 0, 0, 0, 0, 0, 0,
      0, 0, 0, 0, 0, 0, 0, 0, 0, 0, 0, 0, 1, 0, 1, 0,
      0, 0, 0, 0, 0, 0, 0, 0, 0, 0, 0, 0, 0, 0, 0, 0,
      0, 0, 0, 0, 0, 0, 0, 0, 0, 0, 0, 0, 0, 0, 0, 0,
      1, 0, 0, 0, 0, 0, 0, 0, 0, 0, 0, 0, 0, 0, 0, 0,
      0, 0, 0, 0, 0, 0, 0, 0, 0, 0, 0, 0, 0, 0, 0, 1,
      1, 1, 1, 1, 1, 1, 1, 1, 1, 1, 1, 1, 1, 1, 1, 1,
      1, 1, 1, 1, 1, 1, 1, 1, 1, 1, 1, 1, 1, 1, 1, 1,
      1, 1, 1, 1, 1, 1, 1, 1, 1, 1, 1, 1, 1, 1, 1, 1,
      1, 1, 1, 1, 1, 1, 1, 1, 1, 1, 1, 1, 1, 1, 1, 1,
      1, 1, 1, 1, 1, 1, 1, 1, 1, 1, 1, 1, 1, 1, 1, 1,
      1, 1, 1, 1, 1, 1, 1, 1, 1, 1, 1, 1, 1, 1, 1, 1,
      1, 1, 1, 1, 1, 1, 1, 1, 1, 1, 1, 1, 1, 1, 1, 1,
      1, 1, 1, 1, 1, 1, 1, 1, 1, 1, 1, 1, 1, 1, 1, 1]"

definition encoded_chars_minimal_xml :: "nat list" where
  "encoded_chars_minimal_xml =
     [1, 1, 1, 1, 1, 1, 1, 1, 1, 1, 1, 1, 1, 1, 1, 1,
      1, 1, 1, 1, 1, 1, 1, 1, 1, 1, 1, 1, 1, 1, 1, 1,
      0, 0, 1, 0, 0, 0, 1, 1, 0, 0, 0, 0, 0, 0, 0, 0,
      0, 0, 0, 0, 0, 0, 0, 0, 0, 0, 0, 0, 1, 0, 1, 0,
      0, 0, 0, 0, 0, 0, 0, 0, 0, 0, 0, 0, 0, 0, 0, 0,
      0, 0, 0, 0, 0, 0, 0, 0, 0, 0, 0, 0, 0, 0, 0, 0,
      1, 0, 0, 0, 0, 0, 0, 0, 0, 0, 0, 0, 0, 0, 0, 0,
      0, 0, 0, 0, 0, 0, 0, 0, 0, 0, 0, 0, 0, 0, 0, 1,
      0, 0, 0, 0, 0, 0, 0, 0, 0, 0, 0, 0, 0, 0, 0, 0,
      0, 0, 0, 0, 0, 0, 0, 0, 0, 0, 0, 0, 0, 0, 0, 0,
      0, 0, 0, 0, 0, 0, 0, 0, 0, 0, 0, 0, 0, 0, 0, 0,
      0, 0, 0, 0, 0, 0, 0, 0, 0, 0, 0, 0, 0, 0, 0, 0,
      0, 0, 0, 0, 0, 0, 0, 0, 0, 0, 0, 0, 0, 0, 0, 0,
      0, 0, 0, 0, 0, 0, 0, 0, 0, 0, 0, 0, 0, 0, 0, 0,
      0, 0, 0, 0, 0, 0, 0, 0, 0, 0, 0, 0, 0, 0, 0, 0,
      0, 0, 0, 0, 0, 0, 0, 0, 0, 0, 0, 0, 0, 0, 0, 0]"

definition encoded_chars_hex :: "nat list" where
  "encoded_chars_hex =
     [1, 1, 1, 1, 1, 1, 1, 1, 1, 1, 1, 1, 1, 1, 1, 1,
      1, 1, 1, 1, 1, 1, 1, 1, 1, 1, 1, 1, 1, 1, 1, 1,
      1, 1, 1, 1, 1, 1, 1, 1, 1, 1, 1, 1, 1, 1, 1, 1,
      1, 1, 1, 1, 1, 1, 1, 1, 1, 1, 1, 1, 1, 1, 1, 1,
      1, 1, 1, 1, 1, 1, 1, 1, 1, 1, 1, 1, 1, 1, 1, 1,
      1, 1, 1, 1, 1, 1, 1, 1, 1, 1, 1, 1, 1, 1, 1, 1,
      1, 1, 1, 1, 1, 1, 1, 1, 1, 1, 1, 1, 1, 1, 1, 1,
      1, 1, 1, 1, 1, 1, 1, 1, 1, 1, 1, 1, 1, 1, 1, 1,
      1, 1, 1, 1, 1, 1, 1, 1, 1, 1, 1, 1, 1, 1, 1, 1,
      1, 1, 1, 1, 1, 1, 1, 1, 1, 1, 1, 1, 1, 1, 1, 1,
      1, 1, 1, 1, 1, 1, 1, 1, 1, 1, 1, 1, 1, 1, 1, 1,
      1, 1, 1, 1, 1, 1, 1, 1, 1, 1, 1, 1, 1, 1, 1, 1,
      1, 1, 1, 1, 1, 1, 1, 1, 1, 1, 1, 1, 1, 1, 1, 1,
      1, 1, 1, 1, 1, 1, 1, 1, 1, 1, 1, 1, 1, 1, 1, 1,
      1, 1, 1, 1, 1, 1, 1, 1, 1, 1, 1, 1, 1, 1, 1, 1,
      1, 1, 1, 1, 1, 1, 1, 1, 1, 1, 1, 1, 1, 1, 1, 1]"

definition encoded_chars_http_header :: "nat list" where
  "encoded_chars_http_header =
     [0, 0, 0, 0, 0, 0, 0, 0, 0, 0, 1, 0, 0, 0, 0, 0,
      0, 0, 0, 0, 0, 0, 0, 0, 0, 0, 0, 0, 0, 0, 0, 0,
      0, 0, 0, 0, 0, 0, 0, 0, 0, 0, 0, 0, 0, 0, 0, 0,
      0, 0, 0, 0, 0, 0, 0, 0, 0, 0, 0, 0, 0, 0, 0, 0,
      0, 0, 0, 0, 0, 0, 0, 0, 0, 0, 0, 0, 0, 0, 0, 0,
      0, 0, 0, 0, 0, 0, 0, 0, 0, 0, 0, 0, 0, 0, 0, 0,
      0, 0, 0, 0, 0, 0, 0, 0, 0, 0, 0, 0, 0, 0, 0, 0,
      0, 0, 0, 0, 0, 0, 0, 0, 0, 0, 0, 0, 0, 0, 0, 0,
      0, 0, 0, 0, 0, 0, 0, 0, 0, 0, 0, 0, 0, 0, 0, 0,
      0, 0, 0, 0, 0, 0, 0, 0, 0, 0, 0, 0, 0, 0, 0, 0,
      0, 0, 0, 0, 0, 0, 0, 0, 0, 0, 0, 0, 0, 0, 0, 0,
      0, 0, 0, 0, 0, 0, 0, 0, 0, 0, 0, 0, 0, 0, 0, 0,
      0, 0, 0, 0, 0, 0, 0, 0, 0, 0, 0, 0, 0, 0, 0, 0,
      0, 0, 0, 0, 0, 0, 0, 0, 0, 0, 0, 0, 0, 0, 0, 0,
      0, 0, 0, 0, 0, 0, 0, 0, 0, 0, 0, 0, 0, 0, 0, 0,
      0, 0, 0, 0, 0, 0, 0, 0, 0, 0, 0, 0, 0, 0, 0, 0]"

fun encoding_map :: "buffer_encoding \<Rightarrow> nat list" where
  "encoding_map ENCODING_REL_URI = encoded_chars_rel_uri"
| "encoding_map ENCODING_REL_URI_PART = encoded_chars_rel_uri_part"
| "encoding_map ENCODING_HTML = encoded_chars_html"
| "encoding_map ENCODING_MINIMAL_XML = encoded_chars_minimal_xml"
| "encoding_map ENCODING_HEX = encoded_chars_hex"
| "encoding_map ENCODING_HTTP_HEADER = encoded_chars_http_header"

definition to_encode :: "buffer_encoding \<Rightarrow> char \<Rightarrow> bool" where
  "to_encode enc c \<longleftrightarrow> encoding_map enc ! byte c \<noteq> 0"

section \<open>Appending encoded text\<close>

text \<open>The two switches: how many bytes a character takes, and which.\<close>

fun encoded_len :: "buffer_encoding \<Rightarrow> nat" where
  "encoded_len ENCODING_REL_URI = 3"
| "encoded_len ENCODING_REL_URI_PART = 3"
| "encoded_len ENCODING_HTML = 6"
| "encoded_len ENCODING_MINIMAL_XML = 6"
| "encoded_len ENCODING_HTTP_HEADER = 2"
| "encoded_len ENCODING_HEX = 2"

definition hex_hi :: "char \<Rightarrow> char" where
  "hex_hi c = hex_char (drop_bit 4 (byte c) AND 0x0F)"

definition hex_lo :: "char \<Rightarrow> char" where
  "hex_lo c = hex_char (byte c AND 0x0F)"

fun encoded_bytes :: "buffer_encoding \<Rightarrow> char \<Rightarrow> string" where
  "encoded_bytes ENCODING_REL_URI c = [CHR ''%'', hex_hi c, hex_lo c]"
| "encoded_bytes ENCODING_REL_URI_PART c = [CHR ''%'', hex_hi c, hex_lo c]"
| "encoded_bytes ENCODING_HTML c = [CHR ''&'', CHR ''#'', CHR ''x'', hex_hi c, hex_lo c, CHR '';'']"
| "encoded_bytes ENCODING_MINIMAL_XML c = [CHR ''&'', CHR ''#'', CHR ''x'', hex_hi c, hex_lo c, CHR '';'']"
| "encoded_bytes ENCODING_HEX c = [hex_hi c, hex_lo c]"
| "encoded_bytes ENCODING_HTTP_HEADER c = [c, TAB]"

fun count_encoded :: "buffer_encoding \<Rightarrow> string \<Rightarrow> nat \<Rightarrow> nat" where
  "count_encoded enc [] d_len = d_len"
| "count_encoded enc (c # ds) d_len =
     count_encoded enc ds (d_len + (if to_encode enc c then encoded_len enc else 1))"

fun fill_encoded :: "buffer_encoding \<Rightarrow> string \<Rightarrow> string" where
  "fill_encoded enc [] = []"
| "fill_encoded enc (c # ds) =
     (if to_encode enc c then encoded_bytes enc c else [c]) @ fill_encoded enc ds"

text \<open>Reserve, commit, then write \<open>fill\<close> over the committed bytes.\<close>

definition reserve_and_fill :: "buffer \<Rightarrow> nat \<Rightarrow> string \<Rightarrow> buffer option" where
  "reserve_and_fill b d_len fill = do {
     (b, d) \<leftarrow> buffer_string_prepare_append b d_len;
     b \<leftarrow> buffer_commit b d_len;
     c \<leftarrow> mem_read (b_ptr b) d;
     force_assert (c = NUL);
     m \<leftarrow> mem_copy (b_ptr b) d fill;
     Some (b\<lparr>b_ptr := m\<rparr>)
   }"

definition buffer_append_string_encoded :: "buffer \<Rightarrow> string \<Rightarrow> buffer_encoding \<Rightarrow> buffer option" where
  "buffer_append_string_encoded b s enc =
     (if s = [] then Some b
      else reserve_and_fill b (count_encoded enc s 0) (fill_encoded enc s))"

definition needs_c_escape :: "char \<Rightarrow> bool" where
  "needs_c_escape c \<longleftrightarrow> byte c < 0x20 \<or> byte c \<ge> 0x7f"

fun count_c_escaped :: "string \<Rightarrow> nat \<Rightarrow> nat" where
  "count_c_escaped [] d_len = d_len"
| "count_c_escaped (c # ds) d_len =
     count_c_escaped ds (d_len +
       (if needs_c_escape c then (if c = TAB \<or> c = CR \<or> c = LF then 2 else 4) else 1))"

fun fill_c_escaped :: "string \<Rightarrow> string" where
  "fill_c_escaped [] = []"
| "fill_c_escaped (c # ds) =
     (if needs_c_escape c
      then BSLASH #
        (if c = TAB then ''t'' else if c = CR then ''r'' else if c = LF then ''n''
         else [CHR ''x'', hex_hi c, hex_lo c])
      else [c]) @ fill_c_escaped ds"

definition buffer_append_string_c_escaped :: "buffer \<Rightarrow> string \<Rightarrow> buffer option" where
  "buffer_append_string_c_escaped b s =
     (if s = [] then Some b
      else reserve_and_fill b (count_c_escaped s 0) (fill_c_escaped s))"

section \<open>CGI variable names\<close>

definition cgi_char :: "char \<Rightarrow> char" where
  "cgi_char c =
     (if light_isalpha (byte c) then char_of (byte c AND 0xDF)
      else if \<not> light_isdigit (byte c) then CHR ''_'' else c)"

definition buffer_copy_string_encoded_cgi_varnames :: "buffer \<Rightarrow> string \<Rightarrow> bool \<Rightarrow> buffer option" where
  "buffer_copy_string_encoded_cgi_varnames b s is_http_header = do {
     let b = buffer_reset b;
     b \<leftarrow> (if is_http_header \<and> \<not> strcaseeq s ''CONTENT-TYPE''
          then do {
            (b, _) \<leftarrow> buffer_string_prepare_append b (uadd (length s) 5);
            buffer_copy_string_len b ''HTTP_''
          }
          else map_option fst (buffer_string_prepare_append b (length s)));
     let j = buffer_string_length b;
     m \<leftarrow> mem_copy (b_ptr b) j (map cgi_char s @ [NUL]);
     Some (b\<lparr>b_ptr := m, b_used := j + length s + 1\<rparr>)
   }"

section \<open>Hexadecimal copies\<close>

definition li_tohex :: "string \<Rightarrow> string" where
  "li_tohex s = concat (map (\<lambda>c. [hex_hi c, hex_lo c]) s)"

definition buffer_copy_string_hex :: "buffer \<Rightarrow> string \<Rightarrow> buffer option" where
  "buffer_copy_string_hex b s = do {
     force_assert (umul (length s) 2 > length s);
     b \<leftarrow> buffer_string_set_length b (umul 2 (length s));
     let buf_len = buffer_string_length b + 1;
     force_assert (umul 2 (length s) > length s);
     force_assert (umul 2 (length s) < buf_len);
     m \<leftarrow> mem_copy (b_ptr b) 0 (li_tohex s @ [NUL]);
     Some (b\<lparr>b_ptr := m\<rparr>)
   }"

section \<open>URL decoding, in place\<close>

text \<open>A decoded byte; control characters are mapped out.\<close>

definition urldecode_byte :: "nat \<Rightarrow> nat \<Rightarrow> char" where
  "urldecode_byte high low =
     (let high = (push_bit 4 high mod 256) OR low
      in if high < 32 \<or> high = 127 then CHR ''_'' else char_of high)"

text \<open>First loop: up to the first percent sign nothing moves.\<close>

function urldecode_scan :: "bool \<Rightarrow> mem \<Rightarrow> nat \<Rightarrow> (mem \<times> nat) option" where
  "urldecode_scan is_query m src = do {
     c \<leftarrow> mem_read m src;
     if c = NUL \<or> c = CHR ''%'' then Some (m, src)
     else if is_query \<and> c = CHR ''+''
     then urldecode_scan is_query (m[src := Some SP]) (src + 1)
     else urldecode_scan is_query m (src + 1)
   }"
  by pat_completeness auto
termination
  by (relation "measure (\<lambda>(q, m, src). length m - src)") (auto simp: mem_read_def split: if_splits)

text \<open>Second loop: \<open>dst\<close> trails \<open>src\<close> in the same block.\<close>

function urldecode_move :: "bool \<Rightarrow> mem \<Rightarrow> nat \<Rightarrow> nat \<Rightarrow> (mem \<times> nat) option" where
  "urldecode_move is_query m src dst = do {
     c \<leftarrow> mem_read m src;
     if c = NUL then Some (m, dst)
     else if \<not> dst < length m then None
     else if is_query \<and> c = CHR ''+''
     then urldecode_move is_query (m[dst := Some SP]) (src + 1) (dst + 1)
     else if c = CHR ''%'' then do {
       let m = m[dst := Some (CHR ''%'')];
       h \<leftarrow> mem_read m (src + 1);
       if hex2int h \<noteq> 0xff then do {
         l \<leftarrow> mem_read m (src + 2);
         if hex2int l \<noteq> 0xff
         then urldecode_move is_query (m[dst := Some (urldecode_byte (hex2int h) (hex2int l))])
                (src + 3) (dst + 1)
         else urldecode_move is_query m (src + 1) (dst + 1)
       } else urldecode_move is_query m (src + 1) (dst + 1)
     }
     else urldecode_move is_query (m[dst := Some c]) (src + 1) (dst + 1)
   }"
  by pat_completeness auto
termination
  by (relation "measure (\<lambda>(q, m, src, dst). length m - src)")
    (auto simp: mem_read_def split: if_splits)

declare urldecode_scan.simps [simp del] urldecode_move.simps [simp del]

definition buffer_urldecode_internal :: "buffer \<Rightarrow> bool \<Rightarrow> buffer option" where
  "buffer_urldecode_internal url is_query =
     (if buffer_string_is_empty url then Some url
      else do {
        c \<leftarrow> mem_read (b_ptr url) (b_used url - 1);
        force_assert (c = NUL);
        (m, src) \<leftarrow> urldecode_scan is_query (b_ptr url) 0;
        (m, dst) \<leftarrow> urldecode_move is_query m src src;
        m \<leftarrow> mem_write m dst NUL;
        Some (url\<lparr>b_ptr := m, b_used := dst + 1\<rparr>)
      })"

definition buffer_urldecode_path :: "buffer \<Rightarrow> buffer option" where
  "buffer_urldecode_path url = buffer_urldecode_internal url False"

definition buffer_urldecode_query :: "buffer \<Rightarrow> buffer option" where
  "buffer_urldecode_query url = buffer_urldecode_internal url True"

section \<open>Case conversion\<close>

text \<open>Both loops run over \<open>b_used\<close> bytes, the terminator included.\<close>

definition lower_byte :: "char \<Rightarrow> char" where
  "lower_byte c = (if 65 \<le> byte c \<and> byte c \<le> 90 then char_of (byte c OR 0x20) else c)"

text \<open>\<open>buffer_to_upper\<close> tests for the same upper-case range and clears a bit there.\<close>

definition upper_byte :: "char \<Rightarrow> char" where
  "upper_byte c = (if 65 \<le> byte c \<and> byte c \<le> 90 then char_of (byte c AND 0xDF) else c)"

definition buffer_map_used :: "(char \<Rightarrow> char) \<Rightarrow> buffer \<Rightarrow> buffer option" where
  "buffer_map_used f b = do {
     s \<leftarrow> mem_get (b_ptr b) 0 (b_used b);
     m \<leftarrow> mem_copy (b_ptr b) 0 (map f s);
     Some (b\<lparr>b_ptr := m\<rparr>)
   }"

definition buffer_to_lower :: "buffer \<Rightarrow> buffer option" where
  "buffer_to_lower b = buffer_map_used lower_byte b"

definition buffer_to_upper :: "buffer \<Rightarrow> buffer option" where
  "buffer_to_upper b = buffer_map_used upper_byte b"

section \<open>Which bytes the tables select\<close>

definition uri_unreserved :: "nat \<Rightarrow> bool" where
  "uri_unreserved n \<longleftrightarrow> (48 \<le> n \<and> n \<le> 57) \<or> (65 \<le> n \<and> n \<le> 90) \<or> (97 \<le> n \<and> n \<le> 122) \<or>
     n = 33 \<or> n = 40 \<or> n = 41 \<or> n = 42 \<or> n = 45 \<or> n = 46 \<or> n = 95 \<or> n = 126"

definition xml_special :: "nat \<Rightarrow> bool" where
  "xml_special n \<longleftrightarrow> n < 32 \<or> n = 34 \<or> n = 38 \<or> n = 39 \<or> n = 60 \<or> n = 62 \<or> n = 96 \<or> n = 127"

lemma encoding_tables:
  "encoded_chars_rel_uri = map (\<lambda>n. if uri_unreserved n \<or> n = 47 then 0 else 1) [0..<256]"
  "encoded_chars_rel_uri_part = map (\<lambda>n. if uri_unreserved n then 0 else 1) [0..<256]"
  "encoded_chars_html = map (\<lambda>n. if xml_special n \<or> n \<ge> 128 then 1 else 0) [0..<256]"
  "encoded_chars_minimal_xml = map (\<lambda>n. if xml_special n then 1 else 0) [0..<256]"
  "encoded_chars_hex = map (\<lambda>n. 1) [0..<256]"
  "encoded_chars_http_header = map (\<lambda>n. if n = 10 then 1 else 0) [0..<256]"
  unfolding upt_256 uri_unreserved_def xml_special_def encoded_chars_rel_uri_def
    encoded_chars_rel_uri_part_def encoded_chars_html_def encoded_chars_minimal_xml_def
    encoded_chars_hex_def encoded_chars_http_header_def
  by simp_all

lemma to_encode_simps [simp]:
  "to_encode ENCODING_REL_URI c \<longleftrightarrow> \<not> (uri_unreserved (byte c) \<or> c = CHR ''/'')"
  "to_encode ENCODING_REL_URI_PART c \<longleftrightarrow> \<not> uri_unreserved (byte c)"
  "to_encode ENCODING_HTML c \<longleftrightarrow> xml_special (byte c) \<or> byte c \<ge> 128"
  "to_encode ENCODING_MINIMAL_XML c \<longleftrightarrow> xml_special (byte c)"
  "to_encode ENCODING_HEX c"
  "to_encode ENCODING_HTTP_HEADER c \<longleftrightarrow> c = LF"
  using byte_eq_iff [of c "CHR ''/''"] byte_eq_iff [of c LF]
  by (simp_all add: to_encode_def encoding_tables)

section \<open>Reserve and fill\<close>

lemma reserve_and_fill_ok:
  assumes "buf_ok b" and "length fill = n" and "0 < n"
    and "length (buf_str b) + n + 1 < SIZE_T"
  obtains b' where "reserve_and_fill b n fill = Some b'" and "buf_holds b' (buf_str b @ fill)"
proof -
  from assms(1,4) obtain b1 where p: "buffer_string_prepare_append b n = Some (b1, length (buf_str b))"
    and h: "buf_holds b1 (buf_str b)" and fits: "length (buf_str b) + n < b_size b1"
    by (rule buffer_string_prepare_append_ok)
  have "length (buf_str b) + length fill < b_size b1" and "fill \<noteq> []"
    using fits assms(2,3) by auto
  with h obtain b2 m where "buffer_commit b1 (length fill) = Some b2"
    "mem_copy (b_ptr b2) (length (buf_str b)) fill = Some m"
    "buf_holds (b2\<lparr>b_ptr := m\<rparr>) (buf_str b @ fill)" "b_size b2 = b_size b1"
    "mem_read (b_ptr b2) (length (buf_str b)) = Some NUL"
    by (rule buffer_commit_fill)
  with p assms(2) that show ?thesis by (simp add: reserve_and_fill_def)
qed

text \<open>The counting loops count exactly the bytes the filling loops write.\<close>

lemma length_encoded_bytes: "length (encoded_bytes enc c) = encoded_len enc"
  by (cases enc) auto

lemma count_encoded: "count_encoded enc s d = d + length (fill_encoded enc s)"
  by (induction s arbitrary: d) (auto simp: length_encoded_bytes)

lemma count_c_escaped: "count_c_escaped s d = d + length (fill_c_escaped s)"
  by (induction s arbitrary: d) auto

lemma fill_encoded_not_Nil: "s \<noteq> [] \<Longrightarrow> 0 < length (fill_encoded enc s)"
proof -
  have "0 < length (encoded_bytes enc c)" for c by (cases enc) auto
  then show "s \<noteq> [] \<Longrightarrow> 0 < length (fill_encoded enc s)" by (cases s) auto
qed

lemma fill_c_escaped_not_Nil: "s \<noteq> [] \<Longrightarrow> 0 < length (fill_c_escaped s)"
  by (cases s) auto

lemma buffer_append_string_encoded_ok:
  assumes "buf_ok b" and "length (buf_str b) + length (fill_encoded enc s) + 1 < SIZE_T"
  shows "\<exists>b'. buffer_append_string_encoded b s enc = Some b' \<and> buf_ok b' \<and>
     buf_str b' = buf_str b @ fill_encoded enc s"
proof (cases "s = []")
  case True
  then show ?thesis using assms(1) by (simp add: buffer_append_string_encoded_def)
next
  case False
  from assms(1) refl fill_encoded_not_Nil [OF False] assms(2)
  obtain b' where "reserve_and_fill b (length (fill_encoded enc s)) (fill_encoded enc s) = Some b'"
    "buf_holds b' (buf_str b @ fill_encoded enc s)"
    by (rule reserve_and_fill_ok)
  then show ?thesis
    using False by (auto simp: buffer_append_string_encoded_def count_encoded dest: buf_holdsD)
qed

lemma buffer_append_string_c_escaped_ok:
  assumes "buf_ok b" and "length (buf_str b) + length (fill_c_escaped s) + 1 < SIZE_T"
  shows "\<exists>b'. buffer_append_string_c_escaped b s = Some b' \<and> buf_ok b' \<and>
     buf_str b' = buf_str b @ fill_c_escaped s"
proof (cases "s = []")
  case True
  then show ?thesis using assms(1) by (simp add: buffer_append_string_c_escaped_def)
next
  case False
  from assms(1) refl fill_c_escaped_not_Nil [OF False] assms(2)
  obtain b' where "reserve_and_fill b (length (fill_c_escaped s)) (fill_c_escaped s) = Some b'"
    "buf_holds b' (buf_str b @ fill_c_escaped s)"
    by (rule reserve_and_fill_ok)
  then show ?thesis
    using False by (auto simp: buffer_append_string_c_escaped_def count_c_escaped dest: buf_holdsD)
qed

section \<open>What encoded text cannot contain\<close>

lemma hex_hi_less: "drop_bit 4 (byte c) AND 0x0F < 16" and hex_lo_less: "byte c AND 0x0F < 16"
proof -
  have *: "n AND 0x0F = n mod 16" for n :: nat
    using take_bit_eq_mask [of 4 n] take_bit_eq_mod [of 4 n]
    by (simp add: mask_eq_exp_minus_1)
  show "drop_bit 4 (byte c) AND 0x0F < 16" and "byte c AND 0x0F < 16" by (simp_all add: *)
qed

lemma hex_char_range: "n < 16 \<Longrightarrow> (48 \<le> byte (hex_char n) \<and> byte (hex_char n) \<le> 57) \<or>
    (97 \<le> byte (hex_char n) \<and> byte (hex_char n) \<le> 102)"
proof -
  have "\<forall>n < 16. (48 \<le> byte (hex_char n) \<and> byte (hex_char n) \<le> 57) \<or>
      (97 \<le> byte (hex_char n) \<and> byte (hex_char n) \<le> 102)"
    unfolding all_less_upt upt_16 hex_char_def hex_chars_def by simp
  then show "n < 16 \<Longrightarrow> ?thesis" by blast
qed

lemmas hex_nibble_range =
  hex_char_range [OF hex_hi_less, folded hex_hi_def] hex_char_range [OF hex_lo_less, folded hex_lo_def]

text \<open>HTML and XML output has no markup delimiter and no control character.\<close>

lemma fill_html_safe:
  assumes "enc = ENCODING_HTML \<or> enc = ENCODING_MINIMAL_XML" and "c \<in> set (fill_encoded enc s)"
  shows "\<not> xml_special (byte c) \<or> c = CHR ''&''"
  using assms(2)
proof (induction s)
  case (Cons x s)
  have "hex_hi x = c \<or> hex_lo x = c \<Longrightarrow> \<not> xml_special (byte c)"
    using hex_nibble_range [of x] by (auto simp: xml_special_def)
  then show ?case
    using Cons assms(1) by (auto simp: xml_special_def split: if_splits)
qed simp

text \<open>A line feed in an encoded header value is always followed by a tab (a folded line).\<close>

fun lf_folded :: "string \<Rightarrow> bool" where
  "lf_folded [] = True"
| "lf_folded [c] = (c \<noteq> LF)"
| "lf_folded (c # d # s) = ((c = LF \<longrightarrow> d = TAB) \<and> lf_folded (d # s))"

lemma lf_folded_step: "c \<noteq> LF \<Longrightarrow> lf_folded (c # s) = lf_folded s"
  by (cases s) auto

lemma fill_http_header_folded: "lf_folded (fill_encoded ENCODING_HTTP_HEADER s)"
  by (induction s) (auto simp: lf_folded_step)

text \<open>C-escaped output is printable ASCII.\<close>

lemma fill_c_escaped_printable: "c \<in> set (fill_c_escaped s) \<Longrightarrow> 32 \<le> byte c \<and> byte c < 127"
proof (induction s)
  case (Cons x s)
  have "hex_hi x = c \<or> hex_lo x = c \<Longrightarrow> 32 \<le> byte c \<and> byte c < 127"
    using hex_nibble_range [of x] by auto
  then show ?case using Cons by (auto simp: needs_c_escape_def split: if_splits)
qed simp

lemma li_tohex_eq: "li_tohex s = fill_encoded ENCODING_HEX s"
  by (induction s) (auto simp: li_tohex_def)

lemma length_li_tohex [simp]: "length (li_tohex s) = 2 * length s"
  by (induction s) (auto simp: li_tohex_def)

section \<open>URL decoding as a function on strings\<close>

fun urldecode :: "bool \<Rightarrow> string \<Rightarrow> string" where
  "urldecode q [] = []"
| "urldecode q (c # cs) =
     (if q \<and> c = CHR ''+'' then SP # urldecode q cs
      else if c \<noteq> CHR ''%'' then c # urldecode q cs
      else case cs of
        h # l # r \<Rightarrow>
          (if hex2int h \<noteq> 0xff \<and> hex2int l \<noteq> 0xff
           then urldecode_byte (hex2int h) (hex2int l) # urldecode q r
           else CHR ''%'' # urldecode q cs)
      | _ \<Rightarrow> CHR ''%'' # urldecode q cs)"

declare urldecode.simps(2) [simp del]

lemma urldecode_plus: "q \<Longrightarrow> urldecode q (CHR ''+'' # cs) = SP # urldecode q cs"
  by (simp add: urldecode.simps(2))

lemma urldecode_plain:
  "\<not> (q \<and> c = CHR ''+'') \<Longrightarrow> c \<noteq> CHR ''%'' \<Longrightarrow> urldecode q (c # cs) = c # urldecode q cs"
  by (auto simp: urldecode.simps(2))

lemma urldecode_pct:
  "hex2int h \<noteq> 0xff \<Longrightarrow> hex2int l \<noteq> 0xff \<Longrightarrow>
     urldecode q (CHR ''%'' # h # l # r) = urldecode_byte (hex2int h) (hex2int l) # urldecode q r"
  by (simp add: urldecode.simps(2))

lemma urldecode_pct_bad:
  assumes "\<nexists>h l r. cs = h # l # r \<and> hex2int h \<noteq> 0xff \<and> hex2int l \<noteq> 0xff"
  shows "urldecode q (CHR ''%'' # cs) = CHR ''%'' # urldecode q cs"
proof (cases cs)
  case (Cons h t)
  then show ?thesis using assms by (cases t) (auto simp: urldecode.simps(2))
qed (simp add: urldecode.simps(2))

text \<open>One step of the decoder, whatever the input.\<close>

lemma urldecode_stepE:
  obtains (plus) "q" "c = CHR ''+''" "urldecode q (c # cs) = SP # urldecode q cs"
  | (plain) "\<not> (q \<and> c = CHR ''+'')" "c \<noteq> CHR ''%''" "urldecode q (c # cs) = c # urldecode q cs"
  | (pct) h l r where "c = CHR ''%''" "cs = h # l # r" "hex2int h \<noteq> 0xff" "hex2int l \<noteq> 0xff"
      "urldecode q (c # cs) = urldecode_byte (hex2int h) (hex2int l) # urldecode q r"
  | (bad) "c = CHR ''%''" "\<nexists>h l r. cs = h # l # r \<and> hex2int h \<noteq> 0xff \<and> hex2int l \<noteq> 0xff"
      "urldecode q (c # cs) = CHR ''%'' # urldecode q cs"
proof -
  consider "q \<and> c = CHR ''+''" | "\<not> (q \<and> c = CHR ''+'')" "c \<noteq> CHR ''%''"
    | h l r where "c = CHR ''%''" "cs = h # l # r" "hex2int h \<noteq> 0xff" "hex2int l \<noteq> 0xff"
    | "c = CHR ''%''" "\<nexists>h l r. cs = h # l # r \<and> hex2int h \<noteq> 0xff \<and> hex2int l \<noteq> 0xff"
    by blast
  then show ?thesis
  proof cases
    case 1 then show ?thesis using that(1) urldecode_plus by simp
  next
    case 2 then show ?thesis using that(2) urldecode_plain by blast
  next
    case 3 then show ?thesis using that(3) urldecode_pct by blast
  next
    case 4 then show ?thesis using that(4) urldecode_pct_bad by blast
  qed
qed

lemma length_urldecode: "length (urldecode q s) \<le> length s"
proof (induction s rule: length_induct)
  case (1 s)
  note IH = "1.IH" [rule_format]
  show ?case
  proof (cases s)
    case (Cons c cs)
    have cs: "length (urldecode q cs) \<le> length cs" using IH Cons by simp
    show ?thesis
      unfolding Cons
    proof (rule urldecode_stepE [where q = q and c = c and cs = cs], goal_cases plus plain pct bad)
      case (pct h l r)
      then show "length (urldecode q (c # cs)) \<le> length (c # cs)" using IH [of r] Cons by simp
    qed (use cs in simp_all)
  qed simp
qed

lemma hex2int_NUL [simp]: "hex2int NUL = 0xff"
  by (simp add: hex2int_def)

text \<open>
  The in-place loop computes \<open>urldecode\<close>: it reads only up to the terminator, and what it
  writes never overtakes what it still has to read.
\<close>

lemma urldecode_move_step:
  assumes "\<And>m :: mem. length m = length m0 \<Longrightarrow> P m \<Longrightarrow>
      \<exists>m'. f m = Some (m', Suc dst + length t) \<and> length m' = length m \<and>
        take (Suc dst) m' = take (Suc dst) m \<and> holds_at m' (Suc dst) t"
    and "P (m0[dst := Some x])" and "dst < length m0"
  shows "\<exists>m'. f (m0[dst := Some x]) = Some (m', Suc (dst + length t)) \<and> length m' = length m0 \<and>
        take dst m' = take dst m0 \<and> holds_at m' dst (x # t)"
proof -
  from assms(1) [of "m0[dst := Some x]"] assms(2) obtain m' where
    m': "f (m0[dst := Some x]) = Some (m', Suc dst + length t)" "length m' = length m0"
    "take (Suc dst) m' = take (Suc dst) (m0[dst := Some x])" "holds_at m' (Suc dst) t" by auto
  then have "m' ! dst = Some x" and "take dst m' = take dst m0"
    using take_Suc_updateD [of dst m' m0] assms(3) by auto
  then show ?thesis using m' assms(3) by auto
qed

lemma urldecode_move_cases:
  assumes "mem_read m src = Some c" and "c \<noteq> NUL" and "dst < length m"
  shows "q \<Longrightarrow> c = CHR ''+'' \<Longrightarrow>
      urldecode_move q m src dst = urldecode_move q (m[dst := Some SP]) (Suc src) (Suc dst)"
    and "\<not> (q \<and> c = CHR ''+'') \<Longrightarrow> c \<noteq> CHR ''%'' \<Longrightarrow>
      urldecode_move q m src dst = urldecode_move q (m[dst := Some c]) (Suc src) (Suc dst)"
    and "c = CHR ''%'' \<Longrightarrow> mem_read (m[dst := Some (CHR ''%'')]) (Suc src) = Some h \<Longrightarrow>
      mem_read (m[dst := Some (CHR ''%'')]) (Suc (Suc src)) = Some l \<Longrightarrow>
      hex2int h \<noteq> 0xff \<Longrightarrow> hex2int l \<noteq> 0xff \<Longrightarrow>
      urldecode_move q m src dst =
        urldecode_move q (m[dst := Some (urldecode_byte (hex2int h) (hex2int l))]) (src + 3) (Suc dst)"
    and "c = CHR ''%'' \<Longrightarrow> mem_read (m[dst := Some (CHR ''%'')]) (Suc src) = Some h \<Longrightarrow>
      hex2int h \<noteq> 0xff \<longrightarrow>
        (\<exists>l. mem_read (m[dst := Some (CHR ''%'')]) (Suc (Suc src)) = Some l \<and> hex2int l = 0xff) \<Longrightarrow>
      urldecode_move q m src dst =
        urldecode_move q (m[dst := Some (CHR ''%'')]) (Suc src) (Suc dst)"
proof -
  show "urldecode_move q m src dst = urldecode_move q (m[dst := Some SP]) (Suc src) (Suc dst)"
    if "q" "c = CHR ''+''"
    using assms that by (subst urldecode_move.simps) (simp add: NUL_def)
  show "urldecode_move q m src dst = urldecode_move q (m[dst := Some c]) (Suc src) (Suc dst)"
    if "\<not> (q \<and> c = CHR ''+'')" "c \<noteq> CHR ''%''"
    using assms that by (subst urldecode_move.simps) auto
  let ?m = "m[dst := Some (CHR ''%'')]"
  show "urldecode_move q m src dst =
        urldecode_move q (m[dst := Some (urldecode_byte (hex2int h) (hex2int l))]) (src + 3) (Suc dst)"
    if "c = CHR ''%''" "mem_read ?m (Suc src) = Some h" "mem_read ?m (Suc (Suc src)) = Some l"
      "hex2int h \<noteq> 0xff" "hex2int l \<noteq> 0xff"
    using assms that by (subst urldecode_move.simps) (simp add: Let_def)
  show "urldecode_move q m src dst = urldecode_move q ?m (Suc src) (Suc dst)"
    if "c = CHR ''%''" "mem_read ?m (Suc src) = Some h"
      "hex2int h \<noteq> 0xff \<longrightarrow> (\<exists>l. mem_read ?m (Suc (Suc src)) = Some l \<and> hex2int l = 0xff)"
  proof (cases "hex2int h = 0xff")
    case True
    then show ?thesis using assms that by (subst urldecode_move.simps) (simp add: Let_def)
  next
    case False
    with that(3) obtain l where "mem_read ?m (Suc (Suc src)) = Some l" "hex2int l = 0xff" by blast
    then show ?thesis using False assms that(1,2) by (subst urldecode_move.simps) (simp add: Let_def)
  qed
qed

lemma urldecode_move_ok:
  assumes "holds_at m src (r @ [NUL])" and "dst \<le> src" and "NUL \<notin> set r"
  shows "\<exists>m'. urldecode_move q m src dst = Some (m', dst + length (urldecode q r)) \<and>
     length m' = length m \<and> take dst m' = take dst m \<and> holds_at m' dst (urldecode q r)"
  using assms
proof (induction r arbitrary: m src dst rule: length_induct)
  case (1 r)
  note IH = "1.IH" [rule_format]
  show ?case
  proof (cases r)
    case Nil
    with "1.prems" show ?thesis by (subst urldecode_move.simps) (auto simp: mem_read_def)
  next
    case (Cons c cs)
    let ?P = "\<lambda>m. holds_at m (Suc src) (cs @ [NUL])"
    have rd: "mem_read m src = Some c" and lt: "src < length m" "dst < length m" and c: "c \<noteq> NUL"
      and P: "?P m" and cs: "NUL \<notin> set cs"
      using "1.prems" Cons by (auto simp: mem_read_def)
    have upd: "holds_at (m[dst := x]) (Suc src + k) s = holds_at m (Suc src + k) s" for x k s
      using "1.prems"(2) by (intro holds_at_update_before) simp
    have one: "\<exists>m'. urldecode_move q (m[dst := Some x]) (Suc src) (Suc dst)
          = Some (m', Suc (dst + length (urldecode q cs))) \<and> length m' = length m \<and>
        take dst m' = take dst m \<and> holds_at m' dst (x # urldecode q cs)" for x
    proof (intro urldecode_move_step [where P = ?P])
      show "?P (m[dst := Some x])" using upd [of "Some x" 0] P by simp
    next
      fix m :: mem
      assume "?P m"
      then show "\<exists>m'. urldecode_move q m (Suc src) (Suc dst) = Some (m', Suc dst + length (urldecode q cs)) \<and>
          length m' = length m \<and> take (Suc dst) m' = take (Suc dst) m \<and>
          holds_at m' (Suc dst) (urldecode q cs)"
        using IH [of cs m "Suc src" "Suc dst"] "1.prems"(2) Cons cs by simp
    qed (rule lt)
    let ?m = "m[dst := Some (CHR ''%'')]"
    have P': "holds_at ?m (Suc src) (cs @ [NUL])" using P upd [of "Some CHR ''%''" 0] by simp
    show ?thesis
    proof (rule urldecode_stepE [where q = q and c = c and cs = cs], goal_cases plus plain pct bad)
      case plus
      then show ?thesis using one [of SP] urldecode_move_cases(1) [OF rd c lt(2)] Cons by simp
    next
      case plain
      then show ?thesis using one [of c] urldecode_move_cases(2) [OF rd c lt(2)] Cons by auto
    next
      case (pct h l t)
      have rds: "mem_read ?m (Suc src) = Some h" "mem_read ?m (Suc (Suc src)) = Some l"
        using P' pct(2) by (auto simp: mem_read_def)
      let ?Q = "\<lambda>m. holds_at m (src + 3) (t @ [NUL])"
      have "\<exists>m'. urldecode_move q (m[dst := Some x]) (src + 3) (Suc dst)
          = Some (m', Suc (dst + length (urldecode q t))) \<and> length m' = length m \<and>
          take dst m' = take dst m \<and> holds_at m' dst (x # urldecode q t)" for x
      proof (intro urldecode_move_step [where P = ?Q])
        show "?Q (m[dst := Some x])" using upd [of "Some x" 2] P pct(2) by (simp add: numeral_3_eq_3)
      next
        fix m :: mem
        assume "?Q m"
        then show "\<exists>m'. urldecode_move q m (src + 3) (Suc dst)
              = Some (m', Suc dst + length (urldecode q t)) \<and>
            length m' = length m \<and> take (Suc dst) m' = take (Suc dst) m \<and>
            holds_at m' (Suc dst) (urldecode q t)"
          using IH [of t m "src + 3" "Suc dst"] "1.prems"(2) Cons cs pct(2) by simp
      qed (rule lt)
      then show ?thesis
        using urldecode_move_cases(3) [OF rd c lt(2) pct(1) rds pct(3,4)] Cons pct(5) by simp
    next
      case bad
      define h where "h = (case cs of [] \<Rightarrow> NUL | h # _ \<Rightarrow> h)"
      have h: "mem_read ?m (Suc src) = Some h"
        using P' by (cases cs) (simp_all add: h_def mem_read_def)
      have "hex2int h \<noteq> 0xff \<longrightarrow> (\<exists>l. mem_read ?m (Suc (Suc src)) = Some l \<and> hex2int l = 0xff)"
      proof
        assume hex: "hex2int h \<noteq> 0xff"
        then obtain t where t: "cs = h # t" by (cases cs) (auto simp: h_def)
        then show "\<exists>l. mem_read ?m (Suc (Suc src)) = Some l \<and> hex2int l = 0xff"
          using P' bad(2) hex by (cases t) (auto simp: mem_read_def)
      qed
      then have "urldecode_move q m src dst = urldecode_move q ?m (Suc src) (Suc dst)"
        by (rule urldecode_move_cases(4) [OF rd c lt(2) bad(1) h])
      then show ?thesis using one [of "CHR ''%''"] Cons bad(3) by simp
    qed
  qed
qed

text \<open>The first loop leaves the block as it is but for the plus signs of a query.\<close>

lemma urldecode_scan_ok:
  assumes "holds_at m src (r @ [NUL])" and "NUL \<notin> set r"
  shows "\<exists>m' p t. urldecode_scan q m src = Some (m', src + length p) \<and> length m' = length m \<and>
     take src m' = take src m \<and> holds_at m' src (p @ t @ [NUL]) \<and> NUL \<notin> set t \<and>
     urldecode q r = p @ urldecode q t"
  using assms
proof (induction r arbitrary: m src)
  case Nil
  then have "urldecode_scan q m src = Some (m, src + length []) \<and> length m = length m \<and>
     take src m = take src m \<and> holds_at m src ([] @ [] @ [NUL]) \<and> NUL \<notin> set [] \<and>
     urldecode q [] = [] @ urldecode q []"
    by (subst urldecode_scan.simps) (auto simp: mem_read_def)
  then show ?case by blast
next
  case (Cons c r)
  have rd: "mem_read m src = Some c" and c: "c \<noteq> NUL" and lt: "src < length m"
    using Cons.prems by (auto simp: mem_read_def)
  show ?case
  proof (cases "c = CHR ''%''")
    case True
    then have "urldecode_scan q m src = Some (m, src + length [])"
      using rd c by (subst urldecode_scan.simps) simp
    then show ?thesis using Cons.prems True
      by (intro exI [of _ m] exI [of _ "[]"] exI [of _ "c # r"]) simp
  next
    case False
    define x where "x = (if q \<and> c = CHR ''+'' then SP else c)"
    let ?m = "m[src := Some x]"
    have "m ! src = Some c" using Cons.prems(1) by simp
    then have step: "urldecode_scan q m src = urldecode_scan q ?m (Suc src)"
      using rd c False list_update_id [of m src]
      by (subst urldecode_scan.simps) (auto simp: x_def)
    have "holds_at ?m (Suc src) (r @ [NUL])"
      using Cons.prems(1) by (simp add: holds_at_update_before)
    from Cons.IH [OF this] Cons.prems(2) obtain m' p t where IH:
      "urldecode_scan q ?m (Suc src) = Some (m', Suc src + length p)" "length m' = length ?m"
      "take (Suc src) m' = take (Suc src) ?m" "holds_at m' (Suc src) (p @ t @ [NUL])"
      "NUL \<notin> set t" "urldecode q r = p @ urldecode q t"
      by auto
    have "m' ! src = Some x" "take src m' = take src m"
      using take_Suc_updateD [OF IH(3) lt] IH(2) by simp_all
    then show ?thesis
      using IH step lt False
      by (intro exI [of _ m'] exI [of _ "x # p"] exI [of _ t])
        (auto simp: x_def urldecode_plus urldecode_plain)
  qed
qed

lemma buffer_urldecode_internal_ok:
  assumes "buf_holds url s"
  shows "\<exists>b. buffer_urldecode_internal url q = Some b \<and> buf_holds b (urldecode q (cstr s)) \<and>
     b_size b = b_size url"
proof (cases "s = []")
  case True
  then show ?thesis
    using assms buf_holdsD(7) [OF assms] by (simp add: buffer_urldecode_internal_def)
next
  case False
  let ?m = "b_ptr url"
  from cstr_split obtain rest where rest: "s @ [NUL] = cstr s @ NUL # rest" .
  have len: "length s + 1 \<le> length ?m" and all: "holds_at ?m 0 (s @ [NUL])"
    and szm: "length ?m = b_size url" and max: "b_size url < SIZE_T"
    using assms by (auto simp: buf_holds_def buf_shape_def holds_at_iff)
  have h: "holds_at ?m 0 (cstr s @ [NUL])"
    using all unfolding rest by (simp add: holds_at_append)
  obtain m1 p t where scan: "urldecode_scan q ?m 0 = Some (m1, length p)" "length m1 = length ?m"
    "holds_at m1 0 (p @ t @ [NUL])" "NUL \<notin> set t" "urldecode q (cstr s) = p @ urldecode q t"
    using urldecode_scan_ok [OF h] by fastforce
  have "holds_at m1 (length p) (t @ [NUL])" and p: "holds_at m1 0 p"
    using scan(3) by (simp_all add: holds_at_append)
  then obtain m2 where mv: "urldecode_move q m1 (length p) (length p)
        = Some (m2, length p + length (urldecode q t))" "length m2 = length m1"
    "take (length p) m2 = take (length p) m1" "holds_at m2 (length p) (urldecode q t)"
    using urldecode_move_ok [OF _ order.refl scan(4)] by blast
  let ?r = "urldecode q (cstr s)"
  have r: "holds_at m2 0 ?r"
    using p mv(3,4) scan(5) by (simp add: holds_at_append) (simp add: holds_at_iff mv(2))
  have shorter: "length ?r < length ?m"
    using length_urldecode [of q "cstr s"] len length_takeWhile_le [of "\<lambda>c. c \<noteq> NUL" s]
    by (simp add: cstr_def)
  have "buf_holds (url\<lparr>b_ptr := m2[length ?r := Some NUL], b_used := length ?r + 1\<rparr>) ?r"
    using r shorter mv(2) scan(2) szm max take_update_snoc [of "length ?r" m2 "map Some ?r" "Some NUL"]
    by (simp add: buf_holds_def buf_shape_def holds_at_iff)
  moreover have "buffer_urldecode_internal url q
      = Some (url\<lparr>b_ptr := m2[length ?r := Some NUL], b_used := length ?r + 1\<rparr>)"
    using False assms buf_holdsD(2,7) [OF assms] buf_holds_read_NUL [OF assms] scan(1,2,5) mv(1,2) shorter
    by (simp add: buffer_urldecode_internal_def mem_write_def add.commute)
  ultimately show ?thesis by auto
qed

section \<open>Encoding and decoding a URI\<close>

text \<open>What decoding does to control characters; everything else comes back unchanged.\<close>

definition mask_ctrl :: "char \<Rightarrow> char" where
  "mask_ctrl c = (if byte c < 32 \<or> byte c = 127 then CHR ''_'' else c)"

lemma hex_digits_table:
  "\<forall>c. hex2int (hex_hi c) = byte c div 16 \<and> hex2int (hex_lo c) = byte c mod 16"
proof -
  have *: "n AND 0x0F = n mod 16" for n :: nat
    using take_bit_eq_mask [of 4 n] take_bit_eq_mod [of 4 n] by (simp add: mask_eq_exp_minus_1)
  have "byte c div 16 < 16" for c by (simp add: div_less_iff_less_mult)
  then show ?thesis
    by (simp add: hex_hi_def hex_lo_def * drop_bit_eq_div)
qed

lemma urldecode_byte_table: "\<forall>c. urldecode_byte (byte c div 16) (byte c mod 16) = mask_ctrl c"
  unfolding all_bytes_upt upt_256 urldecode_byte_def mask_ctrl_def
  by (simp add: push_bit_eq_mult)

lemma urldecode_encoded_byte:
  "urldecode_byte (hex2int (hex_hi c)) (hex2int (hex_lo c)) = mask_ctrl c"
  "hex2int (hex_hi c) \<noteq> 0xff" "hex2int (hex_lo c) \<noteq> 0xff"
proof -
  have "byte c div 16 < 16" by (simp add: div_less_iff_less_mult)
  moreover have "byte c mod 16 < 16" by simp
  ultimately have "byte c div 16 \<noteq> 255" "byte c mod 16 \<noteq> 255" by linarith+
  then show "urldecode_byte (hex2int (hex_hi c)) (hex2int (hex_lo c)) = mask_ctrl c"
    "hex2int (hex_hi c) \<noteq> 0xff" "hex2int (hex_lo c) \<noteq> 0xff"
    using hex_digits_table urldecode_byte_table by simp_all
qed

lemma unreserved_plain:
  "uri_unreserved (byte c) \<Longrightarrow> c \<noteq> CHR ''%'' \<and> c \<noteq> CHR ''+'' \<and> mask_ctrl c = c"
  by (auto simp: uri_unreserved_def mask_ctrl_def)

lemma urldecode_fill_encoded:
  assumes "enc = ENCODING_REL_URI \<or> enc = ENCODING_REL_URI_PART"
  shows "urldecode q (fill_encoded enc s) = map mask_ctrl s"
proof (induction s)
  case (Cons c s)
  show ?case
  proof (cases "to_encode enc c")
    case True
    then have "fill_encoded enc (c # s) = CHR ''%'' # hex_hi c # hex_lo c # fill_encoded enc s"
      using assms by auto
    then show ?thesis using Cons by (simp add: urldecode_pct urldecode_encoded_byte)
  next
    case False
    then have "uri_unreserved (byte c) \<or> c = CHR ''/''" using assms by auto
    then have "c \<noteq> CHR ''%''" "c \<noteq> CHR ''+''" "mask_ctrl c = c"
      using unreserved_plain [of c] by (auto simp: mask_ctrl_def)
    then show ?thesis using Cons False by (simp add: urldecode_plain)
  qed
qed simp

text \<open>A decoded path has no control character, whatever was sent.\<close>

lemma urldecode_byte_no_ctrl:
  "h < 16 \<Longrightarrow> l < 16 \<Longrightarrow> 32 \<le> byte (urldecode_byte h l) \<and> byte (urldecode_byte h l) \<noteq> 127"
proof -
  have "\<forall>h < 16. \<forall>l < 16. 32 \<le> byte (urldecode_byte h l) \<and> byte (urldecode_byte h l) \<noteq> 127"
    unfolding all_less_upt upt_16 urldecode_byte_def by (simp add: push_bit_eq_mult)
  then show "h < 16 \<Longrightarrow> l < 16 \<Longrightarrow> ?thesis" by blast
qed

lemma urldecode_no_ctrl:
  assumes "\<forall>c \<in> set s. 32 \<le> byte c \<and> byte c \<noteq> 127"
  shows "\<forall>c \<in> set (urldecode q s). 32 \<le> byte c \<and> byte c \<noteq> 127"
  using assms
proof (induction s rule: length_induct)
  case (1 s)
  note IH = "1.IH" [rule_format]
  note dec = urldecode_byte_no_ctrl
  show ?case
  proof (cases s)
    case (Cons c cs)
    show ?thesis unfolding Cons
    proof (rule urldecode_stepE [where q = q and c = c and cs = cs], goal_cases plus plain pct bad)
      case (pct h l r)
      then show ?case
        using IH [of r] "1.prems" Cons dec [of "hex2int h" "hex2int l"]
          hex2int_range [of h] hex2int_range [of l] by auto
    qed (use IH [of cs] "1.prems" Cons in auto)
  qed simp
qed

section \<open>Case conversion\<close>

lemma lower_byte_table: "\<forall>c. lower_byte c = to_lower c"
  unfolding all_bytes_upt upt_256 lower_byte_def to_lower_def is_upper_def by simp

lemma upper_byte_table: "\<forall>c. upper_byte c = c"
  unfolding all_bytes_upt upt_256 upper_byte_def by simp

lemma buffer_map_used_ok:
  assumes "buf_holds b s" and "f NUL = NUL"
  shows "\<exists>b'. buffer_map_used f b = Some b' \<and> buf_holds b' (map f s)"
proof -
  have len: "length s + 1 \<le> length (b_ptr b)" and u: "b_used b = length s + 1"
    using assms(1) by (auto simp: buf_holds_def buf_shape_def)
  have "buffer_map_used f b = Some (b\<lparr>b_ptr := map Some (map f (s @ [NUL])) @ drop (length s + 1) (b_ptr b)\<rparr>)"
    using buf_holds_get_all [OF assms(1)] len u by (simp add: buffer_map_used_def mem_copy_def)
  moreover have "buf_holds (b\<lparr>b_ptr := map Some (map f (s @ [NUL])) @ drop (length s + 1) (b_ptr b)\<rparr>) (map f s)"
    using assms len u by (auto simp: buf_holds_def buf_shape_def)
  ultimately show ?thesis by blast
qed

lemma buffer_to_lower_ok:
  "buf_holds b s \<Longrightarrow> \<exists>b'. buffer_to_lower b = Some b' \<and> buf_holds b' (map to_lower s)"
  using buffer_map_used_ok [of b s lower_byte] lower_byte_table
  by (simp add: buffer_to_lower_def to_lower_def is_upper_def cong: map_cong)

lemma buffer_to_upper_ok:
  "buf_holds b s \<Longrightarrow> \<exists>b'. buffer_to_upper b = Some b' \<and> buf_holds b' s"
  using buffer_map_used_ok [of b s upper_byte] upper_byte_table
  by (simp add: buffer_to_upper_def map_idI)

text \<open>The hexadecimal copy aborts on the empty string and succeeds on every other.\<close>

lemma buffer_copy_string_hex_empty: "buffer_copy_string_hex b [] = None"
  by (simp add: buffer_copy_string_hex_def umul_def force_assert_def)

section \<open>Guarantees\<close>

lemma fill_uri_no_NUL:
  assumes "enc = ENCODING_REL_URI \<or> enc = ENCODING_REL_URI_PART"
  shows "NUL \<notin> set (fill_encoded enc s)"
proof (induction s)
  case (Cons c s)
  have "x \<noteq> NUL" if "0 < byte x" for x using that by (auto simp: NUL_def)
  then have "NUL \<noteq> hex_hi c" "NUL \<noteq> hex_lo c" using hex_nibble_range [of c] by fastforce+
  moreover have "\<not> uri_unreserved (byte NUL)" by (simp add: uri_unreserved_def NUL_def)
  ultimately show ?case using Cons assms by (auto simp: NUL_def)
qed simp

text \<open>C32: Escaping a string for a URI and decoding the result in place gives the string back, with
  each control character replaced by an underscore.\<close>

theorem urlencode_decode:
  assumes enc: "enc = ENCODING_REL_URI \<or> enc = ENCODING_REL_URI_PART"
    and b: "buf_holds b []" and room: "length (fill_encoded enc s) + 1 < SIZE_T"
  shows "\<exists>b1 b2. buffer_append_string_encoded b s enc = Some b1 \<and>
    buffer_urldecode_internal b1 is_query = Some b2 \<and> buf_holds b2 (map mask_ctrl s)"
proof -
  note b = buf_holdsD [OF b]
  obtain b1 where b1: "buffer_append_string_encoded b s enc = Some b1" "buf_ok b1"
    "buf_str b1 = fill_encoded enc s"
    using buffer_append_string_encoded_ok [OF b(4), of enc s] b(3) room by auto
  have "buf_holds b1 (fill_encoded enc s)"
    using b1(2)
  proof (cases rule: buf_ok_cases)
    case unset
    then have "s = []" using b1(3) fill_encoded_not_Nil [of s enc] by auto
    then show ?thesis using b1(1) assms(2) by (simp add: buffer_append_string_encoded_def)
  qed (simp add: b1(3))
  from buffer_urldecode_internal_ok [OF this, of is_query] show ?thesis
    using b1(1) fill_uri_no_NUL [OF enc, of s] by (auto simp: cstr_no_NUL urldecode_fill_encoded [OF enc])
qed

theorem urlencode_decode_witness:
  "\<exists>b1 b2. buffer_append_string_encoded (buf_lit []) ''a/b c%'' ENCODING_REL_URI_PART = Some b1 \<and>
    buffer_urldecode_internal b1 True = Some b2 \<and> buf_holds b2 ''a/b c%''"
proof -
  have "map mask_ctrl ''a/b c%'' = ''a/b c%''" by (simp add: mask_ctrl_def)
  then show ?thesis
    using urlencode_decode [of ENCODING_REL_URI_PART "buf_lit []" "''a/b c%''" True] buf_lit_holds [of "[]"]
    by (simp add: SIZE_T_def)
qed

text \<open>C31: Decoding a URL in place, in path or query mode, stays inside the buffer and leaves the
  string \<open>urldecode\<close> specifies for what precedes the first NUL, at the same allocation.\<close>

theorem buffer_urldecode_refines:
  assumes "buf_holds url s"
  shows "\<exists>b. (if is_query then buffer_urldecode_query url else buffer_urldecode_path url) = Some b \<and>
    buf_holds b (urldecode is_query (cstr s)) \<and> b_size b = b_size url"
  using buffer_urldecode_internal_ok [OF assms, of is_query]
  by (cases is_query) (simp_all add: buffer_urldecode_query_def buffer_urldecode_path_def)

theorem buffer_urldecode_refines_witness:
  "\<exists>b. buffer_urldecode_query (buf_lit ''a%2Fb+c%zz%0a'') = Some b \<and> buf_holds b ''a/b c%zz_''"
proof -
  have "urldecode True (cstr ''a%2Fb+c%zz%0a'') = ''a/b c%zz_''"
    by (simp add: cstr_def NUL_def urldecode.simps hex2int_def urldecode_byte_def char_of_def bit_0)
  then show ?thesis
    using buffer_urldecode_refines [OF buf_lit_holds, of "''a%2Fb+c%zz%0a''" True]
    by (simp add: SIZE_T_def) blast
qed

text \<open>Text appended in HTML or XML encoding adds no byte that is markup or a control character,
  apart from the ampersands that start the character references.\<close>

theorem html_encoding_safe:
  assumes "enc = ENCODING_HTML \<or> enc = ENCODING_MINIMAL_XML" and "buf_ok b"
    and "length (buf_str b) + length (fill_encoded enc s) + 1 < SIZE_T"
  shows "\<exists>b' t. buffer_append_string_encoded b s enc = Some b' \<and> buf_ok b' \<and> buf_str b' = buf_str b @ t \<and>
    (\<forall>c \<in> set t. \<not> xml_special (byte c) \<or> c = CHR ''&'')"
  using buffer_append_string_encoded_ok [OF assms(2,3)] fill_html_safe [OF assms(1)] by blast

theorem html_encoding_safe_witness:
  "\<exists>b' t. buffer_append_string_encoded buffer_init ''<a>'' ENCODING_HTML = Some b' \<and> buf_str b' = t \<and>
    (\<forall>c \<in> set t. \<not> xml_special (byte c) \<or> c = CHR ''&'')"
  using html_encoding_safe [of ENCODING_HTML buffer_init "''<a>''"] by (simp add: SIZE_T_def xml_special_def) blast

end
