(* ===== verification/Path_Simplify.thy ===== *)
theory Path_Simplify
  imports Buffer_Text
begin

text \<open>
  \<open>buffer_path_simplify\<close> of \<open>buffer.c\<close>: the loop that resolves \<open>/./\<close>, \<open>//\<close> and \<open>/../\<close> while
  copying, with the three pointers \<open>walk\<close>, \<open>out\<close> and \<open>slash\<close> as offsets and the source either
  another block or the destination itself. It is shown to compute, in place or not, the
  normalisation of the list of path segments, and the result to be free of dot segments.
\<close>

section \<open>The loop on memory blocks\<close>

text \<open>\<open>None\<close>: source and destination are the same buffer.\<close>

definition path_read :: "mem option \<Rightarrow> mem \<Rightarrow> nat \<Rightarrow> char option" where
  "path_read src m walk = (case src of None \<Rightarrow> mem_read m walk | Some sm \<Rightarrow> mem_read sm walk)"

text \<open>\<open>while (out > start && *out != '/') out--;\<close>\<close>

fun path_pop :: "mem \<Rightarrow> nat \<Rightarrow> nat option" where
  "path_pop m 0 = Some 0"
| "path_pop m (Suc out) = do {
     c \<leftarrow> mem_read m (Suc out);
     if c = CHR ''/'' then Some (Suc out) else path_pop m out
   }"

definition path_token_end :: "mem \<Rightarrow> char \<Rightarrow> char \<Rightarrow> char \<Rightarrow> nat \<Rightarrow> nat \<Rightarrow> nat option" where
  "path_token_end m c pre1 pre2 slash out =
     (let toklen = out - slash
      in if toklen = 3 \<and> pre2 = CHR ''.'' \<and> pre1 = CHR ''.''
         then do {
           out \<leftarrow> (if slash > 0 then path_pop m (slash - 1) else Some slash);
           Some (if c = NUL then out + 1 else out)
         }
         else if toklen = 1 \<or> (pre2 = CHR ''/'' \<and> pre1 = CHR ''.'')
         then Some (if c = NUL then slash + 1 else slash)
         else Some out)"

lemma path_read_bound:
  "path_read src m walk = Some c \<Longrightarrow> walk < (case src of None \<Rightarrow> length m | Some sm \<Rightarrow> length sm)"
  by (auto simp: path_read_def mem_read_def split: option.splits if_splits)

function path_loop :: "mem option \<Rightarrow> mem \<Rightarrow> char \<Rightarrow> char \<Rightarrow> nat \<Rightarrow> nat \<Rightarrow> nat \<Rightarrow> (mem \<times> nat) option" where
  "path_loop src m c pre1 slash walk out =
     (if c = NUL then Some (m, out)
      else do {
        let pre2 = pre1;
        let pre1 = c;
        c \<leftarrow> path_read src m walk;
        m \<leftarrow> mem_write m out pre1;
        let out = out + 1;
        let walk = walk + 1;
        if c = CHR ''/'' \<or> c = NUL
        then do {
          out \<leftarrow> path_token_end m c pre1 pre2 slash out;
          path_loop src m c pre1 out walk out
        }
        else path_loop src m c pre1 slash walk out
      })"
  by pat_completeness auto
termination
  by (relation "measure (\<lambda>(src, m, c, pre1, slash, walk, out).
      (case src of None \<Rightarrow> length m | Some sm \<Rightarrow> length sm) - walk)")
    (auto simp: mem_write_def dest!: path_read_bound split: option.splits if_splits)

declare path_loop.simps [simp del]

text \<open>Leading spaces are skipped first.\<close>

function path_skip_spaces :: "mem \<Rightarrow> nat \<Rightarrow> nat option" where
  "path_skip_spaces m walk = do {
     c \<leftarrow> mem_read m walk;
     if c = SP then path_skip_spaces m (walk + 1) else Some walk
   }"
  by pat_completeness auto
termination
  by (relation "measure (\<lambda>(m, walk). length m - walk)") (auto simp: mem_read_def split: if_splits)

declare path_skip_spaces.simps [simp del]

definition buffer_path_simplify :: "buffer \<Rightarrow> buffer option \<Rightarrow> buffer option" where
  "buffer_path_simplify dest src =
     (let from = (case src of None \<Rightarrow> dest | Some b \<Rightarrow> b)
      in if buffer_string_is_empty from then buffer_string_prepare_copy dest 0
      else do {
        c \<leftarrow> mem_read (b_ptr from) (b_used from - 1);
        force_assert (c = NUL);
        dest \<leftarrow> (case src of
          None \<Rightarrow> map_option fst (buffer_string_prepare_append dest 1)
        | Some b \<Rightarrow> buffer_string_prepare_copy dest (uadd (buffer_string_length b) 1));
        let sm = map_option b_ptr src;
        walk \<leftarrow> path_skip_spaces (case sm of None \<Rightarrow> b_ptr dest | Some m \<Rightarrow> m) 0;
        c \<leftarrow> path_read sm (b_ptr dest) walk;
        (m, pre1, out) \<leftarrow>
          (if c \<noteq> CHR ''/''
           then map_option (\<lambda>m. (m, CHR ''/'', 1)) (mem_write (b_ptr dest) 0 (CHR ''/''))
           else Some (b_ptr dest, NUL, 0));
        (m, out) \<leftarrow> path_loop sm m c pre1 0 (walk + 1) out;
        buffer_string_set_length (dest\<lparr>b_ptr := m\<rparr>) out
      })"

section \<open>Segments\<close>

text \<open>
  The specification: \<open>path_run\<close> reads the rest of a path in the middle of segment \<open>cur\<close>, with
  the segments \<open>segs\<close> already resolved; \<open>path_render\<close> writes segments back.
\<close>

definition path_render :: "string list \<Rightarrow> string" where
  "path_render segs = concat (map (Cons (CHR ''/'')) segs)"

definition dot_segment :: "string \<Rightarrow> bool" where
  "dot_segment s \<longleftrightarrow> s = [] \<or> s = ''.'' \<or> s = ''..''"

definition path_push :: "string list \<Rightarrow> string \<Rightarrow> string list" where
  "path_push segs cur =
     (if cur = [] \<or> cur = ''.'' then segs else if cur = ''..'' then butlast segs else segs @ [cur])"

definition path_finish :: "string list \<Rightarrow> string \<Rightarrow> string" where
  "path_finish segs cur = path_render (path_push segs cur) @ (if dot_segment cur then ''/'' else [])"

fun path_run :: "string list \<Rightarrow> string \<Rightarrow> string \<Rightarrow> string" where
  "path_run segs cur [] = path_finish segs cur"
| "path_run segs cur (c # r) =
     (if c = CHR ''/'' then path_run (path_push segs cur) [] r else path_run segs (cur @ [c]) r)"

definition path_simplified :: "string \<Rightarrow> string" where
  "path_simplified s =
     (if s = [] then []
      else case dropWhile (\<lambda>c. c = SP) (cstr s) of
        [] \<Rightarrow> ''/''
      | c # r \<Rightarrow> (if c = CHR ''/'' then path_run [] [] r else path_run [] [] (c # r)))"

text \<open>The same by splitting at the slashes and folding over the segments.\<close>

fun split_slash :: "string \<Rightarrow> string list" where
  "split_slash [] = [[]]"
| "split_slash (c # r) =
     (if c = CHR ''/'' then [] # split_slash r
      else (c # hd (split_slash r)) # tl (split_slash r))"

lemma split_slash_not_Nil [simp]: "split_slash s \<noteq> []"
  by (cases s) auto

lemma path_run_split:
  "path_run segs cur r =
     (let ts = (cur @ hd (split_slash r)) # tl (split_slash r)
      in path_finish (foldl path_push segs (butlast ts)) (last ts))"
proof (induction r arbitrary: segs cur)
  case (Cons c r)
  then show ?case by (cases "split_slash r") (auto simp: Let_def)
qed simp

lemma path_render_simps [simp]:
  "path_render [] = []" "path_render (s # segs) = CHR ''/'' # s @ path_render segs"
  "path_render (segs @ segs') = path_render segs @ path_render segs'"
  by (auto simp: path_render_def)

section \<open>Resolved segments\<close>

definition segs_ok :: "string list \<Rightarrow> bool" where
  "segs_ok segs \<longleftrightarrow> (\<forall>s \<in> set segs. \<not> dot_segment s \<and> CHR ''/'' \<notin> set s)"

lemma segs_ok_push: "segs_ok segs \<Longrightarrow> CHR ''/'' \<notin> set cur \<Longrightarrow> segs_ok (path_push segs cur)"
  by (auto simp: segs_ok_def path_push_def dot_segment_def dest: in_set_butlastD)

text \<open>The result of a run: resolved segments, and a slash more where the path ended in a directory.\<close>

lemma path_run_shape:
  assumes "segs_ok segs" and "CHR ''/'' \<notin> set cur"
  shows "\<exists>segs'. segs_ok segs' \<and> (path_run segs cur r = path_render segs' @ ''/'' \<or>
    path_run segs cur r = path_render segs' \<and> segs' \<noteq> [])"
  using assms
proof (induction r arbitrary: segs cur)
  case Nil
  have "path_push segs cur \<noteq> []" if "\<not> dot_segment cur"
    using that by (auto simp: path_push_def dot_segment_def)
  then show ?case using segs_ok_push [OF Nil] by (auto simp: path_finish_def)
next
  case (Cons c r)
  then show ?case using segs_ok_push [OF Cons.prems] by auto
qed

lemma path_simplified_shape:
  assumes "s \<noteq> []"
  shows "\<exists>segs. segs_ok segs \<and> (path_simplified s = path_render segs @ ''/'' \<or>
    path_simplified s = path_render segs \<and> segs \<noteq> [])"
proof -
  have e: "segs_ok []" by (simp add: segs_ok_def)
  let ?r = "dropWhile (\<lambda>c. c = SP) (cstr s)"
  consider "?r = []" | r where "path_simplified s = path_run [] [] r"
  proof (cases ?r)
    case (Cons c r)
    then have "path_simplified s = path_run [] [] (if c = CHR ''/'' then r else c # r)"
      using assms by (simp add: path_simplified_def)
    then show ?thesis using that(2) by blast
  qed (use that(1) in blast)
  then show ?thesis
  proof cases
    case 1
    then have "path_simplified s = path_render [] @ ''/''" using assms by (simp add: path_simplified_def del: dropWhile_eq_Nil_conv)
    then show ?thesis using e by blast
  next
    case 2
    then show ?thesis using path_run_shape [OF e, of "[]" r] by simp
  qed
qed

lemma split_slash_render:
  assumes "\<And>t. t \<in> set segs \<Longrightarrow> CHR ''/'' \<notin> set t"
  shows "split_slash (path_render segs @ CHR ''/'' # r) = [] # segs @ split_slash r"
proof -
  have *: "CHR ''/'' \<notin> set u \<Longrightarrow> split_slash (u @ CHR ''/'' # v) = u # split_slash v" for u v
    by (induction u) auto
  show ?thesis using assms
  proof (induction segs)
    case (Cons t segs)
    then have IH: "split_slash (path_render segs @ CHR ''/'' # r) = [] # segs @ split_slash r" by simp
    show ?case
    proof (cases segs)
      case Nil
      then show ?thesis using Cons.prems by (simp add: *)
    next
      case (Cons u us)
      then show ?thesis using IH Cons.prems by (simp add: *)
    qed
  qed simp
qed

lemma split_slash_plain: "CHR ''/'' \<notin> set u \<Longrightarrow> split_slash u = [u]"
  by (induction u) auto

text \<open>No segment of the result is a dot segment, except that the last may be empty.\<close>

lemma path_simplified_segments:
  assumes "s \<noteq> []"
  shows "\<exists>ts. split_slash (path_simplified s) = [] # ts \<and> ts \<noteq> [] \<and>
    segs_ok (butlast ts) \<and> (last ts = [] \<or> segs_ok ts)"
proof -
  obtain segs where ok: "segs_ok segs" and r: "path_simplified s = path_render segs @ ''/'' \<or>
      path_simplified s = path_render segs \<and> segs \<noteq> []"
    using path_simplified_shape [OF assms] by blast
  from r show ?thesis
  proof (elim disjE conjE)
    assume "path_simplified s = path_render segs @ ''/''"
    then have "split_slash (path_simplified s) = [] # segs @ [[]]"
      using split_slash_render [of segs "[]"] ok by (auto simp: segs_ok_def)
    then show ?thesis using ok by auto
  next
    assume p: "path_simplified s = path_render segs" and "segs \<noteq> []"
    then obtain us u where u: "segs = us @ [u]" by (cases segs rule: rev_cases) auto
    have "CHR ''/'' \<notin> set t" if "t \<in> set us \<or> t = u" for t
      using ok u that by (auto simp: segs_ok_def)
    then have "split_slash (path_simplified s) = [] # segs"
      using split_slash_render [of us u] split_slash_plain [of u] p u by simp
    then show ?thesis using ok u by (auto simp: segs_ok_def)
  qed
qed

section \<open>Simplifying twice\<close>

lemma path_run_chars: "CHR ''/'' \<notin> set u \<Longrightarrow> path_run segs cur (u @ r) = path_run segs (cur @ u) r"
  by (induction u arbitrary: cur) auto

lemma path_run_render:
  assumes "segs_ok segs" and "segs \<noteq> []"
  shows "path_run pre [] (tl (path_render segs)) = path_render (pre @ segs)"
    and "path_run pre [] (tl (path_render segs @ ''/'')) = path_render (pre @ segs) @ ''/''"
proof -
  have "path_run pre [] (tl (path_render segs)) = path_render (pre @ segs) \<and>
      path_run pre [] (tl (path_render segs @ ''/'')) = path_render (pre @ segs) @ ''/''"
    using assms
  proof (induction segs arbitrary: pre)
    case (Cons u us)
    then have u: "CHR ''/'' \<notin> set u" "\<not> dot_segment u" and us: "segs_ok us"
      by (auto simp: segs_ok_def)
    have push: "path_push pre u = pre @ [u]" using u(2) by (auto simp: path_push_def dot_segment_def)
    show ?case
    proof (cases us)
      case Nil
      then show ?thesis
        using path_run_chars [OF u(1), of pre "[]" "[]"] path_run_chars [OF u(1), of pre "[]" "''/''"] u(2) push
        by (simp add: path_finish_def dot_segment_def) (simp add: path_push_def)
    next
      case (Cons v vs)
      have "path_render us = CHR ''/'' # tl (path_render us)" using Cons by simp
      then have "path_run pre [] (u @ path_render us) = path_run (pre @ [u]) [] (tl (path_render us))"
        "path_run pre [] (u @ path_render us @ ''/'') = path_run (pre @ [u]) [] (tl (path_render us @ ''/''))"
        using path_run_chars [OF u(1), of pre "[]"] push Cons by simp_all
      then show ?thesis using Cons.IH [OF us, of "pre @ [u]"] Cons by simp
    qed
  qed simp
  then show "path_run pre [] (tl (path_render segs)) = path_render (pre @ segs)"
    and "path_run pre [] (tl (path_render segs @ ''/'')) = path_render (pre @ segs) @ ''/''" by auto
qed

lemma set_path_render:
  "c \<in> set (path_render segs) \<longleftrightarrow> (segs \<noteq> [] \<and> c = CHR ''/'') \<or> (\<exists>t \<in> set segs. c \<in> set t)"
  by (induction segs) auto

lemma set_path_push: "t \<in> set (path_push segs cur) \<Longrightarrow> t \<in> set segs \<or> t = cur"
  by (auto simp: path_push_def dest: in_set_butlastD split: if_splits)

lemma set_path_finish:
  "c \<in> set (path_finish segs cur) \<Longrightarrow> c = CHR ''/'' \<or> c \<in> set cur \<or> (\<exists>t \<in> set segs. c \<in> set t)"
  using set_path_push [of _ segs cur]
  by (auto simp: path_finish_def set_path_render split: if_splits)

text \<open>A run writes slashes and characters it has read, nothing else.\<close>

lemma set_path_run:
  "c \<in> set (path_run segs cur r) \<Longrightarrow>
     c = CHR ''/'' \<or> c \<in> set cur \<or> c \<in> set r \<or> (\<exists>t \<in> set segs. c \<in> set t)"
proof (induction r arbitrary: segs cur)
  case Nil
  then show ?case using set_path_finish [of c segs cur] by simp
next
  case (Cons x r)
  show ?case
  proof (cases "x = CHR ''/''")
    case True
    then show ?thesis using Cons.IH [of "path_push segs cur" "[]"] Cons.prems set_path_push [of _ segs cur]
      by auto
  next
    case False
    then show ?thesis using Cons.IH [of segs "cur @ [x]"] Cons.prems by auto
  qed
qed

lemma NUL_notin_path_simplified: "NUL \<notin> set (path_simplified s)"
proof -
  let ?r = "dropWhile (\<lambda>c. c = SP) (cstr s)"
  have r: "NUL \<notin> set ?r"
  proof
    assume "NUL \<in> set ?r"
    then have "NUL \<in> set (cstr s)" by (rule set_dropWhileD)
    then show False by simp
  qed
  have ne: "NUL \<noteq> CHR ''/''" by (simp add: NUL_def)
  show ?thesis
  proof
    assume n: "NUL \<in> set (path_simplified s)"
    show False
    proof (cases ?r)
      case Nil
      with n ne show False by (simp add: path_simplified_def del: dropWhile_eq_Nil_conv split: if_splits)
    next
      case (Cons c cs)
      with n have "NUL \<in> set (path_run [] [] cs) \<or> NUL \<in> set (path_run [] [] (c # cs))"
        by (simp add: path_simplified_def split: if_splits)
      then show False
        using set_path_run [of NUL "[]" "[]" cs] set_path_run [of NUL "[]" "[]" "c # cs"] ne r Cons
        by (auto simp del: path_run.simps)
    qed
  qed
qed

lemma path_simplified_idem: "path_simplified (path_simplified s) = path_simplified s"
proof (cases "s = []")
  case False
  obtain segs where ok: "segs_ok segs" and r: "path_simplified s = path_render segs @ ''/'' \<or>
      path_simplified s = path_render segs \<and> segs \<noteq> []"
    using path_simplified_shape [OF False] by blast
  have lead: "path_simplified (CHR ''/'' # u) = path_run [] [] u" if "NUL \<notin> set u" for u
    using that cstr_no_NUL [of "CHR ''/'' # u"] by (simp add: path_simplified_def NUL_def)
  obtain u where u: "path_simplified s = CHR ''/'' # u"
    using r by (cases segs) auto
  then have "NUL \<notin> set u"
    using NUL_notin_path_simplified [of s] by simp
  then have "path_simplified (path_simplified s) = path_run [] [] u"
    unfolding u by (rule lead)
  also have "\<dots> = path_simplified s"
  proof (cases "segs = []")
    case True
    then have "u = []" using r u by auto
    then show ?thesis unfolding u by (simp add: path_finish_def path_push_def dot_segment_def)
  next
    case False
    have "u = tl (path_simplified s)" by (simp add: u)
    with r consider "u = tl (path_render segs @ ''/'')" "path_simplified s = path_render segs @ ''/''"
      | "u = tl (path_render segs)" "path_simplified s = path_render segs" by auto
    then show ?thesis
      using path_run_render [OF ok False, of "[]"] by cases simp_all
  qed
  finally show ?thesis .
qed (simp add: path_simplified_def)

section \<open>The loop computes the specification\<close>

lemma holds_at_snoc_update:
  "holds_at m 0 s \<Longrightarrow> length s < length m \<Longrightarrow> holds_at (m[length s := Some c]) 0 (s @ [c])"
  using take_update_snoc [of "length s" m "map Some s" "Some c"] by (simp add: holds_at_iff)

lemma path_pop_ok:
  "holds_at m k (CHR ''/'' # u) \<Longrightarrow> CHR ''/'' \<notin> set u \<Longrightarrow> path_pop m (k + length u) = Some k"
proof (induction u rule: rev_induct)
  case Nil
  then show ?case by (cases k) (auto simp: mem_read_def)
next
  case (snoc x u)
  have "holds_at m k (CHR ''/'' # u)" and x: "holds_at m (Suc (k + length u)) [x]"
    using snoc.prems(1) by (auto simp: holds_at_append)
  then show ?case using snoc by (auto simp: mem_read_def)
qed

text \<open>What the end of a token leaves: the pushed segment, or the finished path.\<close>

definition path_after :: "char \<Rightarrow> string list \<Rightarrow> string \<Rightarrow> string" where
  "path_after c segs cur = (if c = NUL then path_finish segs cur else path_render (path_push segs cur))"

lemma path_token_end_ok:
  assumes held: "holds_at m 0 (path_render segs @ CHR ''/'' # cur)"
    and segs: "segs_ok segs" and cur: "CHR ''/'' \<notin> set cur"
    and pre1: "pre1 = last (CHR ''/'' # cur)"
    and pre2: "cur \<noteq> [] \<longrightarrow> pre2 = last (CHR ''/'' # butlast cur)"
  shows "path_token_end m c pre1 pre2 (length (path_render segs)) (Suc (length (path_render segs) + length cur))
       = Some (length (path_after c segs cur))"
    and "holds_at m 0 (path_after c segs cur)"
    and "length (path_after c segs cur) \<le> Suc (length (path_render segs) + length cur)"
proof -
  let ?n = "length (path_render segs)"
  have dots: "(length cur = 2 \<and> pre2 = CHR ''.'' \<and> pre1 = CHR ''.'') = (cur = ''..'')"
    and skip: "(cur = [] \<or> (pre2 = CHR ''/'' \<and> pre1 = CHR ''.'')) = (cur = [] \<or> cur = ''.'')"
  proof (atomize (full), cases cur rule: rev_cases)
    case (snoc ys y)
    have p: "pre1 = y" "pre2 = (if ys = [] then CHR ''/'' else last ys)" using pre1 pre2 snoc by auto
    have "last ys \<noteq> CHR ''/''" if "ys \<noteq> []" using last_in_set [OF that] cur snoc by auto
    then show "((length cur = 2 \<and> pre2 = CHR ''.'' \<and> pre1 = CHR ''.'') = (cur = ''..'')) \<and>
        ((cur = [] \<or> (pre2 = CHR ''/'' \<and> pre1 = CHR ''.'')) = (cur = [] \<or> cur = ''.''))"
      using p snoc by (cases ys rule: rev_cases) (auto simp: append_eq_Cons_conv)
  qed simp
  have pop: "(if 0 < ?n then path_pop m (?n - 1) else Some ?n) = Some (length (path_render (butlast segs)))"
  proof (cases segs rule: rev_cases)
    case (snoc us u)
    have "holds_at m (length (path_render us)) (CHR ''/'' # u)"
      using held snoc by (simp add: holds_at_append)
    then have "path_pop m (length (path_render us) + length u) = Some (length (path_render us))"
      using segs snoc by (intro path_pop_ok) (auto simp: segs_ok_def)
    then show ?thesis using snoc by simp
  qed simp
  have pre: "holds_at m 0 (path_render segs @ ''/'')"
    using held holds_at_append [of m ?n "''/''" cur] by (simp add: holds_at_append)
  have pre': "holds_at m 0 (path_render (butlast segs) @ ''/'')"
  proof (cases segs rule: rev_cases)
    case (snoc us u)
    then show ?thesis using held holds_at_append [of m _ "''/''" "u"] by (auto simp: holds_at_append)
  qed (use pre in simp)
  have le: "length (path_render (butlast segs)) \<le> ?n"
    by (cases segs rule: rev_cases) simp_all
  consider "cur = ''..''" | "cur = [] \<or> cur = ''.''" | "\<not> dot_segment cur"
    by (auto simp: dot_segment_def)
  then have "path_token_end m c pre1 pre2 ?n (Suc (?n + length cur)) = Some (length (path_after c segs cur)) \<and>
    holds_at m 0 (path_after c segs cur) \<and> length (path_after c segs cur) \<le> Suc (?n + length cur)"
  proof cases
    case 1
    then have d: "pre2 = CHR ''.''" "pre1 = CHR ''.''" using dots by auto
    have a: "path_after c segs cur = path_render (butlast segs) @ (if c = NUL then ''/'' else [])"
      using 1 by (simp add: path_after_def path_finish_def path_push_def dot_segment_def)
    show ?thesis
      using pop pre' le 1 d unfolding a
      by (simp add: path_token_end_def Let_def numeral_3_eq_3 holds_at_append)
  next
    case 2
    then have d: "\<not> (length cur = 2 \<and> pre2 = CHR ''.'' \<and> pre1 = CHR ''.'')"
      "cur = [] \<or> (pre2 = CHR ''/'' \<and> pre1 = CHR ''.'')" using dots skip by auto
    have a: "path_after c segs cur = path_render segs @ (if c = NUL then ''/'' else [])"
      using 2 by (auto simp: path_after_def path_finish_def path_push_def dot_segment_def)
    show ?thesis
      using pre 2 d unfolding a
      by (auto simp add: path_token_end_def Let_def numeral_3_eq_3 numeral_2_eq_2 holds_at_append)
  next
    case 3
    then have d: "\<not> (length cur = 2 \<and> pre2 = CHR ''.'' \<and> pre1 = CHR ''.'')"
      "\<not> (cur = [] \<or> (pre2 = CHR ''/'' \<and> pre1 = CHR ''.''))" 
      unfolding dots skip by (auto simp: dot_segment_def)
    have a: "path_after c segs cur = path_render segs @ CHR ''/'' # cur"
      using 3 by (auto simp: path_after_def path_finish_def path_push_def dot_segment_def)
    show ?thesis
      using held d unfolding a
      by (auto simp add: path_token_end_def Let_def numeral_3_eq_3 numeral_2_eq_2)
  qed
  then show "path_token_end m c pre1 pre2 ?n (Suc (?n + length cur)) = Some (length (path_after c segs cur))"
    and "holds_at m 0 (path_after c segs cur)"
    and "length (path_after c segs cur) \<le> Suc (?n + length cur)" by blast+
qed

lemma path_loop_ok:
  assumes "segs_ok segs" and "CHR ''/'' \<notin> set cur" and "NUL \<notin> set cur" and "NUL \<notin> set r"
    and "holds_at m 0 (path_render segs @ butlast (CHR ''/'' # cur))"
    and "c = last (CHR ''/'' # cur)"
    and "cur \<noteq> [] \<longrightarrow> pre1 = last (CHR ''/'' # butlast cur)"
    and "slash = length (path_render segs)" and "out = slash + length cur"
    and "holds_at (case src of None \<Rightarrow> m | Some sm \<Rightarrow> sm) walk (r @ [NUL])"
    and "src = None \<longrightarrow> out \<le> walk" and "out + length r + 1 < length m"
  shows "\<exists>m'. path_loop src m c pre1 slash walk out = Some (m', length (path_run segs cur r)) \<and>
     length m' = length m \<and> holds_at m' 0 (path_run segs cur r) \<and>
     length (path_run segs cur r) < length m"
  using assms
proof (induction r arbitrary: segs cur m c pre1 slash walk out)
  case Nil
  note p = Nil.prems
  let ?m = "m[out := Some c]"
  have "c \<in> set (CHR ''/'' # cur)" unfolding p(6) by (rule last_in_set) simp
  then have c: "c \<noteq> NUL" using p(3) by (auto simp: NUL_def)
  have rd: "path_read src m walk = Some NUL"
    using p(10) by (auto simp: path_read_def mem_read_def split: option.splits)
  have out: "out < length m" "Suc out < length m" using p(12) by auto
  have len: "out = length (path_render segs @ butlast (CHR ''/'' # cur))" using p(8,9) by simp
  have snoc: "butlast (CHR ''/'' # cur) @ [c] = CHR ''/'' # cur"
    unfolding p(6) by (rule append_butlast_last_id) simp
  have h: "holds_at ?m 0 (path_render segs @ CHR ''/'' # cur)"
    using holds_at_snoc_update [OF p(5), of c] out(1) unfolding len append_assoc snoc by simp
  note te = path_token_end_ok [OF h p(1,2,6,7), of NUL]
  have fin: "path_after NUL segs cur = path_run segs cur []" by (simp add: path_after_def)
  have "path_loop src m c pre1 slash walk out
      = Some (?m, length (path_run segs cur []))"
    using c rd out te(1) p(8,9) fin
    by (subst path_loop.simps) (simp add: mem_write_def Let_def path_loop.simps [of _ _ NUL])
  then show ?case using te(2,3) out p(8,9) unfolding fin by auto
next
  case (Cons d r)
  note p = Cons.prems
  let ?m = "m[out := Some c]"
  have "c \<in> set (CHR ''/'' # cur)" unfolding p(6) by (rule last_in_set) simp
  then have c: "c \<noteq> NUL" using p(3) by (auto simp: NUL_def)
  have d: "d \<noteq> NUL" and r: "NUL \<notin> set r" using p(4) by auto
  have rd: "path_read src m walk = Some d"
    using p(10) by (auto simp: path_read_def mem_read_def split: option.splits)
  have out: "out < length m" "Suc out + length r + 1 < length ?m" using p(12) by auto
  have len: "out = length (path_render segs @ butlast (CHR ''/'' # cur))" using p(8,9) by simp
  have snoc: "butlast (CHR ''/'' # cur) @ [c] = CHR ''/'' # cur"
    unfolding p(6) by (rule append_butlast_last_id) simp
  have h: "holds_at ?m 0 (path_render segs @ CHR ''/'' # cur)"
    using holds_at_snoc_update [OF p(5), of c] out(1) unfolding len append_assoc snoc by simp
  have src: "holds_at (case src of None \<Rightarrow> ?m | Some sm \<Rightarrow> sm) (Suc walk) (r @ [NUL])"
    using p(10,11) by (auto simp: holds_at_update_before split: option.splits)
  have trail: "src = None \<longrightarrow> Suc out \<le> Suc walk" using p(11) by simp
  show ?case
  proof (cases "d = CHR ''/''")
    case True
    note te = path_token_end_ok [OF h p(1,2,6,7), of d]
    have after: "path_after d segs cur = path_render (path_push segs cur)"
      using d by (simp add: path_after_def)
    have push: "segs_ok (path_push segs cur)" using p(1,2) by (rule segs_ok_push)
    let ?o = "length (path_render (path_push segs cur))"
    have o: "?o \<le> Suc out" using te(3) p(8,9) by (simp add: after)
    have "path_loop src m c pre1 slash walk out = path_loop src ?m d c ?o (Suc walk) ?o"
      using c rd out(1) te(1) p(8,9) True
      by (subst path_loop.simps) (simp add: mem_write_def Let_def after [unfolded True])
    moreover have "\<exists>m'. path_loop src ?m d c ?o (Suc walk) ?o
        = Some (m', length (path_run (path_push segs cur) [] r)) \<and> length m' = length ?m \<and>
        holds_at m' 0 (path_run (path_push segs cur) [] r) \<and>
        length (path_run (path_push segs cur) [] r) < length ?m"
      using o out(2) trail te(2) src r push True
      by (intro Cons.IH) (auto simp: after [unfolded True])
    ultimately show ?thesis using True by simp
  next
    case False
    have "path_loop src m c pre1 slash walk out = path_loop src ?m d c slash (Suc walk) (Suc out)"
      using c rd out(1) False d
      by (subst path_loop.simps) (simp add: mem_write_def Let_def)
    moreover have "\<exists>m'. path_loop src ?m d c slash (Suc walk) (Suc out)
        = Some (m', length (path_run segs (cur @ [d]) r)) \<and> length m' = length ?m \<and>
        holds_at m' 0 (path_run segs (cur @ [d]) r) \<and>
        length (path_run segs (cur @ [d]) r) < length ?m"
      using out(2) trail src r p(1,2,3,6,8,9) False d h
      by (intro Cons.IH) (auto simp: butlast_append)
    ultimately show ?thesis using False by simp
  qed
qed

section \<open>Correctness\<close>

lemma path_skip_spaces_ok:
  assumes "holds_at m i (s @ [NUL])" and "NUL \<notin> set s"
  shows "\<exists>k. path_skip_spaces m i = Some k \<and> i \<le> k \<and> k + length (dropWhile (\<lambda>c. c = SP) s) = i + length s \<and>
    holds_at m k (dropWhile (\<lambda>c. c = SP) s @ [NUL])"
  using assms
proof (induction s arbitrary: i)
  case Nil
  then show ?case by (subst path_skip_spaces.simps) (auto simp: mem_read_def NUL_def)
next
  case (Cons c s)
  show ?case
  proof (cases "c = SP")
    case True
    have "holds_at m (Suc i) (s @ [NUL])" "NUL \<notin> set s" using Cons.prems by auto
    from Cons.IH [OF this] obtain k where "path_skip_spaces m (Suc i) = Some k" "Suc i \<le> k"
      "k + length (dropWhile (\<lambda>c. c = SP) s) = Suc i + length s"
      "holds_at m k (dropWhile (\<lambda>c. c = SP) s @ [NUL])" by blast
    moreover have "path_skip_spaces m i = path_skip_spaces m (Suc i)"
      using Cons.prems True by (subst path_skip_spaces.simps) (simp add: mem_read_def)
    ultimately show ?thesis using True by (intro exI [of _ k]) auto
  next
    case False
    then have "path_skip_spaces m i = Some i"
      using Cons.prems by (subst path_skip_spaces.simps) (simp add: mem_read_def)
    then show ?thesis using False Cons.prems by simp
  qed
qed

lemma buffer_string_set_length_raw:
  assumes "buf_shape b" and "holds_at (b_ptr b) 0 t" and "length t < b_size b"
  shows "\<exists>b'. buffer_string_set_length b (length t) = Some b' \<and> buf_holds b' t"
proof -
  let ?b = "b\<lparr>b_used := length t + 1, b_ptr := (b_ptr b)[length t := Some NUL]\<rparr>"
  have "buffer_realloc b (length t + 1) = b"
    using assms by (simp add: buffer_realloc_def)
  then have "buffer_string_set_length b (length t) = Some ?b"
    using assms by (simp add: buffer_string_set_length_def mem_write_def Let_def buf_shape_def)
  moreover have "buf_holds ?b t"
    using assms holds_at_snoc_update [of "b_ptr b" t NUL]
    by (simp add: buf_holds_def buf_shape_def holds_at_iff)
  ultimately show ?thesis by blast
qed

text \<open>The part after the destination has been sized, for either kind of source.\<close>

definition path_core :: "buffer \<Rightarrow> mem option \<Rightarrow> buffer option" where
  "path_core dest sm = do {
     walk \<leftarrow> path_skip_spaces (case sm of None \<Rightarrow> b_ptr dest | Some m \<Rightarrow> m) 0;
     c \<leftarrow> path_read sm (b_ptr dest) walk;
     (m, pre1, out) \<leftarrow>
       (if c \<noteq> CHR ''/''
        then map_option (\<lambda>m. (m, CHR ''/'', 1)) (mem_write (b_ptr dest) 0 (CHR ''/''))
        else Some (b_ptr dest, NUL, 0));
     (m, out) \<leftarrow> path_loop sm m c pre1 0 (walk + 1) out;
     buffer_string_set_length (dest\<lparr>b_ptr := m\<rparr>) out
   }"

lemma path_core_ok:
  assumes shape: "buf_shape dest" and s: "s \<noteq> []" "NUL \<notin> set t" "t = cstr s"
    and src: "holds_at (case sm of None \<Rightarrow> b_ptr dest | Some m \<Rightarrow> m) 0 (t @ [NUL])"
    and room: "length t + 1 < b_size dest"
  shows "\<exists>b. path_core dest sm = Some b \<and> buf_holds b (path_simplified s)"
proof -
  let ?d = "b_ptr dest" and ?r = "dropWhile (\<lambda>c. c = SP) t"
  have len: "length ?d = b_size dest" using shape by (simp add: buf_shape_def)
  from path_skip_spaces_ok [OF src s(2)] obtain k where
    k: "path_skip_spaces (case sm of None \<Rightarrow> ?d | Some m \<Rightarrow> m) 0 = Some k"
    "k + length ?r = length t" and at: "holds_at (case sm of None \<Rightarrow> ?d | Some m \<Rightarrow> m) k (?r @ [NUL])"
    by auto
  have nr: "NUL \<notin> set ?r" using s(2) by (meson set_dropWhileD)
  have ok: "segs_ok []" by (simp add: segs_ok_def)
  have finish: "\<exists>b. (do { (m, out) \<leftarrow> Some (m', length u); buffer_string_set_length (dest\<lparr>b_ptr := m\<rparr>) out })
      = Some b \<and> buf_holds b u"
    if "length m' = length ?d" "holds_at m' 0 u" "length u < length ?d" for m' u
    using buffer_string_set_length_raw [of "dest\<lparr>b_ptr := m'\<rparr>" u] that shape len
    by (simp add: buf_shape_def)
  show ?thesis
  proof (cases ?r)
    case Nil
    have c: "path_read sm ?d k = Some NUL"
      using at [unfolded Nil] by (auto simp: path_read_def mem_read_def split: option.splits)
    have w: "mem_write ?d 0 (CHR ''/'') = Some (?d[0 := Some (CHR ''/'')])"
      using room len by (simp add: mem_write_def)
    have ne: "NUL \<noteq> CHR ''/''" by (simp add: NUL_def)
    have "holds_at (?d[0 := Some (CHR ''/'')]) 0 ''/''" using room len by simp
    from finish [OF _ this] have "\<exists>b. path_core dest sm = Some b \<and> buf_holds b ''/''"
      using room len k(1) c w ne by (simp add: path_core_def path_loop.simps [of _ _ NUL])
    then show ?thesis using s(1,3) Nil by (simp add: path_simplified_def del: dropWhile_eq_Nil_conv)
  next
    case (Cons c r)
    have c: "path_read sm ?d k = Some c"
      using at Cons by (auto simp: path_read_def mem_read_def split: option.splits)
    have n: "c \<noteq> NUL" "NUL \<notin> set r" using nr Cons by auto
    have at': "holds_at (case sm of None \<Rightarrow> ?d | Some m \<Rightarrow> m) (Suc k) (r @ [NUL])" using at Cons by simp
    show ?thesis
    proof (cases "c = CHR ''/''")
      case True
      have "\<exists>m'. path_loop sm ?d c NUL 0 (Suc k) 0 = Some (m', length (path_run [] [] r)) \<and>
          length m' = length ?d \<and> holds_at m' 0 (path_run [] [] r) \<and> length (path_run [] [] r) < length ?d"
        using k(2) room len n at' True Cons by (intro path_loop_ok [OF ok]) auto
      then obtain m' where m': "path_loop sm ?d c NUL 0 (Suc k) 0 = Some (m', length (path_run [] [] r))"
        "length m' = length ?d" "holds_at m' 0 (path_run [] [] r)" "length (path_run [] [] r) < length ?d"
        by blast
      then have "\<exists>b. path_core dest sm = Some b \<and> buf_holds b (path_run [] [] r)"
        using finish [OF m'(2-4)] True k(1) c by (simp add: path_core_def)
      then show ?thesis using True Cons s(1,3) by (simp add: path_simplified_def)
    next
      case False
      let ?m = "?d[0 := Some (CHR ''/'')]"
      have src': "holds_at (case sm of None \<Rightarrow> ?m | Some m \<Rightarrow> m) (Suc k) (r @ [NUL])"
        using at' by (auto simp: holds_at_update_before split: option.splits)
      have w: "mem_write ?d 0 (CHR ''/'') = Some ?m"
        using room len by (simp add: mem_write_def)
      have "holds_at ?m 0 ''/''" using room len by simp
      then have "\<exists>m'. path_loop sm ?m c (CHR ''/'') 0 (Suc k) 1 = Some (m', length (path_run [] [c] r)) \<and>
          length m' = length ?m \<and> holds_at m' 0 (path_run [] [c] r) \<and> length (path_run [] [c] r) < length ?m"
        using k(2) room len n src' False Cons by (intro path_loop_ok [OF ok]) auto
      then obtain m' where m': "path_loop sm ?m c (CHR ''/'') 0 (Suc k) 1 = Some (m', length (path_run [] [c] r))"
        "length m' = length ?d" "holds_at m' 0 (path_run [] [c] r)" "length (path_run [] [c] r) < length ?d"
        by auto
      then have "\<exists>b. path_core dest sm = Some b \<and> buf_holds b (path_run [] [c] r)"
        using finish [OF m'(2-4)] False k(1) c w by (simp add: path_core_def)
      then show ?thesis using False Cons s(1,3) by (simp add: path_simplified_def)
    qed
  qed
qed

lemma buf_holds_cstr: "buf_holds b s \<Longrightarrow> holds_at (b_ptr b) 0 (cstr s @ [NUL])"
proof -
  obtain rest where "s @ [NUL] = cstr s @ NUL # rest" by (rule cstr_split)
  then have "s @ [NUL] = (cstr s @ [NUL]) @ rest" by simp
  moreover assume "buf_holds b s"
  then have "holds_at (b_ptr b) 0 (s @ [NUL])" by (auto simp: buf_holds_def buf_shape_def holds_at_iff)
  ultimately show ?thesis by (simp only: holds_at_append [of _ _ "cstr s @ [NUL]"])
qed

lemma length_cstr_le: "length (cstr s) \<le> length s"
  by (simp add: cstr_def length_takeWhile_le)

lemma buffer_path_simplify_ok:
  assumes "buf_shape dest" and "buf_ok src" and "length (buf_str src) + 2 < SIZE_T"
  shows "\<exists>b. buffer_path_simplify dest (Some src) = Some b \<and> buf_holds b (path_simplified (buf_str src))"
proof (cases "buffer_string_is_empty src")
  case True
  then have "buf_str src = []"
    using assms(2) by (simp add: buffer_string_is_empty_def buffer_string_length_eq)
  moreover obtain b where "buffer_string_prepare_copy dest 0 = Some b" "buf_holds b []"
    using buffer_string_prepare_copy_ok [OF assms(1), of 0] assms(3) by auto
  ultimately show ?thesis using True by (simp add: buffer_path_simplify_def path_simplified_def)
next
  case False
  with assms(2) have h: "buf_holds src (buf_str src)" by (auto elim: buf_ok_cases)
  have ne: "buf_str src \<noteq> []" using False buf_holdsD(7) [OF h] by simp
  obtain d where d: "buffer_string_prepare_copy dest (length (buf_str src) + 1) = Some d"
    "buf_holds d []" "length (buf_str src) + 1 < b_size d"
    using buffer_string_prepare_copy_ok [OF assms(1), of "length (buf_str src) + 1"] assms(3) by auto
  have "\<exists>b. path_core d (Some (b_ptr src)) = Some b \<and> buf_holds b (path_simplified (buf_str src))"
    using d buf_holds_cstr [OF h] length_cstr_le [of "buf_str src"] ne
    by (intro path_core_ok [OF _ _ _ refl]) (auto dest: buf_holdsD)
  moreover have "buffer_path_simplify dest (Some src) = path_core d (Some (b_ptr src))"
    using False d(1) assms(3) buf_holds_read_NUL [OF h] buf_holdsD(2,6) [OF h]
    by (simp add: buffer_path_simplify_def path_core_def Let_def)
  ultimately show ?thesis by simp
qed

lemma buffer_path_simplify_in_place_ok:
  assumes "buf_ok dest" and "length (buf_str dest) + 2 < SIZE_T"
  shows "\<exists>b. buffer_path_simplify dest None = Some b \<and> buf_holds b (path_simplified (buf_str dest))"
proof (cases "buffer_string_is_empty dest")
  case True
  then have "buf_str dest = []"
    using assms(1) by (simp add: buffer_string_is_empty_def buffer_string_length_eq)
  moreover obtain b where "buffer_string_prepare_copy dest 0 = Some b" "buf_holds b []"
    using buffer_string_prepare_copy_ok [of dest 0] assms by (auto dest: buf_ok_shape)
  ultimately show ?thesis using True by (simp add: buffer_path_simplify_def path_simplified_def)
next
  case False
  with assms(1) have h: "buf_holds dest (buf_str dest)" by (auto elim: buf_ok_cases)
  have ne: "buf_str dest \<noteq> []" using False buf_holdsD(7) [OF h] by simp
  obtain d where d: "buffer_string_prepare_append dest 1 = Some (d, length (buf_str dest))"
    "buf_holds d (buf_str dest)" "length (buf_str dest) + 1 < b_size d"
    using buffer_string_prepare_append_ok [OF assms(1), of 1] assms(2) by auto
  have "\<exists>b. path_core d None = Some b \<and> buf_holds b (path_simplified (buf_str dest))"
    using d buf_holds_cstr [OF d(2)] length_cstr_le [of "buf_str dest"] ne
    by (intro path_core_ok [OF _ _ _ refl]) (auto dest: buf_holdsD)
  moreover have "buffer_path_simplify dest None = path_core d None"
    using False d(1) buf_holds_read_NUL [OF h] buf_holdsD(2) [OF h]
    by (simp add: buffer_path_simplify_def path_core_def Let_def)
  ultimately show ?thesis by simp
qed

section \<open>Guarantees\<close>

text \<open>C1: Whatever the input, unless it is empty, the simplified path is a slash followed by segments none of
  which is \<open>.\<close> or \<open>..\<close>, nor empty before the last one: no path leads above the document root.\<close>

theorem path_simplify_no_traversal:
  assumes "buf_shape dest" and "buf_ok src" and "buf_str src \<noteq> []" and "length (buf_str src) + 2 < SIZE_T"
  shows "\<exists>b r. buffer_path_simplify dest (Some src) = Some b \<and> buf_holds b (CHR ''/'' # r) \<and>
    (\<forall>u \<in> set (split_slash r). u \<noteq> ''.'' \<and> u \<noteq> ''..'') \<and> [] \<notin> set (butlast (split_slash r))"
proof -
  obtain b where b: "buffer_path_simplify dest (Some src) = Some b"
    "buf_holds b (path_simplified (buf_str src))"
    using buffer_path_simplify_ok [OF assms(1,2,4)] by blast
  obtain ts where ts: "split_slash (path_simplified (buf_str src)) = [] # ts" "ts \<noteq> []"
    "segs_ok (butlast ts)" "last ts = [] \<or> segs_ok ts"
    using path_simplified_segments [OF assms(3)] by blast
  have "set ts \<subseteq> set (butlast ts) \<union> {last ts}"
    using append_butlast_last_id [OF ts(2)] by (metis Un_commute list.simps(15) set_append set_empty2 subset_refl insert_is_Un empty_set)
  then have "\<forall>u \<in> set ts. u \<noteq> ''.'' \<and> u \<noteq> ''..''"
    using ts(3,4) by (auto simp: segs_ok_def dot_segment_def)
  moreover have "[] \<notin> set (butlast ts)" using ts(3) by (auto simp: segs_ok_def dot_segment_def)
  moreover obtain r where "path_simplified (buf_str src) = CHR ''/'' # r" "ts = split_slash r"
    using ts(1,2) by (cases "path_simplified (buf_str src)") (auto split: if_splits)
  ultimately show ?thesis using b by auto
qed

theorem path_simplify_no_traversal_witness:
  "\<exists>b r. buffer_path_simplify buffer_init (Some (buf_lit ''/../a/./..//etc/..'')) = Some b \<and> buf_holds b (CHR ''/'' # r) \<and>
    (\<forall>u \<in> set (split_slash r). u \<noteq> ''.'' \<and> u \<noteq> ''..'') \<and> [] \<notin> set (butlast (split_slash r))"
  by (rule path_simplify_no_traversal)
    (use buf_lit_holds [of "''/../a/./..//etc/..''"] in \<open>simp_all add: buf_holdsD SIZE_T_def buf_ok_shape\<close>)

lemma length_path_push: "length (path_render (path_push segs cur)) \<le> length (path_render segs) + 1 + length cur"
  by (cases segs rule: rev_cases) (auto simp: path_push_def)

lemma length_path_run: "length (path_run segs cur r) \<le> length (path_render segs) + 1 + length cur + length r"
proof (induction r arbitrary: segs cur)
  case Nil
  show ?case
    by (cases segs rule: rev_cases) (auto simp: path_finish_def path_push_def dot_segment_def)
next
  case (Cons c r)
  show ?case
    using Cons.IH [of "path_push segs cur" "[]"] Cons.IH [of segs "cur @ [c]"] length_path_push [of segs cur]
    by auto
qed

lemma length_path_simplified: "length (path_simplified s) \<le> length s + 1"
proof -
  let ?w = "dropWhile (\<lambda>c. c = SP) (cstr s)"
  have "length ?w \<le> length s"
    using length_dropWhile_le [of "\<lambda>c. c = SP" "cstr s"] length_cstr_le [of s] by linarith
  moreover have "length (path_run [] [] r) \<le> Suc (length r)" for r
    using length_path_run [of "[]" "[]" r] by simp
  ultimately show ?thesis
  proof (cases ?w)
    case Nil
    show ?thesis unfolding path_simplified_def Nil by simp
  next
    case (Cons c r)
    have "length (path_simplified s) \<le> Suc (length ?w)"
      using Cons \<open>\<And>r. length (path_run [] [] r) \<le> Suc (length r)\<close> [of r]
        \<open>\<And>r. length (path_run [] [] r) \<le> Suc (length r)\<close> [of "c # r"]
      by (simp add: path_simplified_def del: path_run.simps)
    then show ?thesis using \<open>length ?w \<le> length s\<close> by simp
  qed
qed

text \<open>C6: Simplifying in place gives the string \<open>path_simplified\<close> specifies, and simplifying the
  result again, in place or into another buffer, changes nothing.\<close>

theorem path_simplify_in_place_idem:
  assumes "buf_ok b" and "buf_shape dest" and "length (buf_str b) + 3 < SIZE_T"
  shows "\<exists>b1 b2 b3 t. buffer_path_simplify b None = Some b1 \<and> buf_holds b1 t \<and>
    t = path_simplified (buf_str b) \<and> buffer_path_simplify b1 None = Some b2 \<and> buf_holds b2 t \<and>
    buffer_path_simplify dest (Some b1) = Some b3 \<and> buf_holds b3 t"
proof -
  let ?t = "path_simplified (buf_str b)"
  obtain b1 where b1: "buffer_path_simplify b None = Some b1" "buf_holds b1 ?t"
    using buffer_path_simplify_in_place_ok [OF assms(1)] assms(3) by auto
  have room: "length (buf_str b1) + 2 < SIZE_T"
    using length_path_simplified [of "buf_str b"] assms(3) buf_holdsD(3) [OF b1(2)] by simp
  have ok: "buf_ok b1" using b1(2) by (rule buf_holdsD)
  show ?thesis
    using buffer_path_simplify_in_place_ok [OF ok room] buffer_path_simplify_ok [OF assms(2) ok room] b1
    by (auto simp: buf_holdsD(3) [OF b1(2)] path_simplified_idem)
qed

theorem path_simplify_in_place_idem_witness:
  "\<exists>b1 b2 b3 t. buffer_path_simplify (buf_lit '' /a/../b/.'') None = Some b1 \<and> buf_holds b1 t \<and>
    t = ''/b/'' \<and> buffer_path_simplify b1 None = Some b2 \<and> buf_holds b2 t \<and>
    buffer_path_simplify buffer_init (Some b1) = Some b3 \<and> buf_holds b3 t"
proof -
  have "path_simplified '' /a/../b/.'' = ''/b/''"
    by (simp add: path_simplified_def cstr_def NUL_def path_push_def path_finish_def dot_segment_def)
  then show ?thesis
    using path_simplify_in_place_idem [of "buf_lit '' /a/../b/.''" buffer_init]
      buf_lit_holds [of "'' /a/../b/.''"]
    by (simp add: buf_holdsD SIZE_T_def buf_ok_shape)
qed

end
