(* ===== verification/Array.thy ===== *)
theory Array
  imports Buffer_Cmp Buffer_Num
begin

text \<open>
  The sorted array of \<open>array.c\<close> with its element types (\<open>data_string.c\<close>, \<open>data_count.c\<close>,
  \<open>data_integer.c\<close>, \<open>data_array.c\<close>, \<open>data_fastcgi.c\<close>): elements in insertion order, and an
  index sorted by caseless key that is searched by bisection. Keys and values are the
  values of their buffers (\<open>buf_val\<close>: unset, or a string). The invariant is that the index is
  a strictly sorted permutation of the positions in use.
\<close>

section \<open>Elements and arrays\<close>

datatype data_type =
  TYPE_UNSET | TYPE_STRING | TYPE_COUNT | TYPE_ARRAY | TYPE_INTEGER | TYPE_FASTCGI | TYPE_CONFIG

text \<open>
  An element has a key, the mark of a generated key, and the fields of its type. A string
  element carries which of the two \<open>insert_dup\<close> functions it has. An index cell is \<open>None\<close>
  where \<open>malloc\<close> left it, or where \<open>ARRAY_NOT_FOUND\<close> was stored.
\<close>

datatype data_unset = Data_Unset
    (du_key: "string option") (du_is_index_key: bool) (du_payload: payload)
and payload =
    DString (ds_value: "string option") (ds_response: bool)
  | DCount (dc_count: int)
  | DInteger (di_value: int)
  | DArray (da_value: arr)
  | DFastcgi (df_host: "string option") (df_port: nat) (df_is_disabled: bool)
and arr = Arr
    (a_data: "data_unset option list") (a_sorted: "nat option list")
    (a_used: nat) (a_size: nat) (a_unique_ndx: nat)

definition SSIZE_MAX :: nat where
  "SSIZE_MAX = 2 ^ 63 - 1"

fun payload_type :: "payload \<Rightarrow> data_type" where
  "payload_type (DString v r) = TYPE_STRING"
| "payload_type (DCount n) = TYPE_COUNT"
| "payload_type (DInteger n) = TYPE_INTEGER"
| "payload_type (DArray a) = TYPE_ARRAY"
| "payload_type (DFastcgi h p d) = TYPE_FASTCGI"

definition du_type :: "data_unset \<Rightarrow> data_type" where
  "du_type du = payload_type (du_payload du)"

text \<open>The bytes \<open>CONST_BUF_LEN\<close> sees of a buffer value.\<close>

definition bstr :: "string option \<Rightarrow> string" where
  "bstr v = (case v of None \<Rightarrow> [] | Some s \<Rightarrow> s)"

lemma bstr_simps [simp]: "bstr None = []" "bstr (Some s) = s"
  by (simp_all add: bstr_def)

definition array_init :: arr where
  "array_init = Arr [] [] 0 0 0"

definition data_string_init :: data_unset where
  "data_string_init = Data_Unset None False (DString None False)"

definition data_response_init :: data_unset where
  "data_response_init = Data_Unset None False (DString None True)"

definition data_count_init :: data_unset where
  "data_count_init = Data_Unset None False (DCount 1)"

definition data_integer_init :: data_unset where
  "data_integer_init = Data_Unset None False (DInteger 0)"

definition data_array_init :: data_unset where
  "data_array_init = Data_Unset None False (DArray array_init)"

definition data_fastcgi_init :: data_unset where
  "data_fastcgi_init = Data_Unset None False (DFastcgi None 0 False)"

text \<open>
  Copies. A copied string element is built by \<open>data_string_init\<close>, so it has the plain
  \<open>insert_dup\<close>; an array is copied with its reserve elements and its index.
\<close>

primrec data_copy :: "data_unset \<Rightarrow> data_unset"
  and payload_copy :: "payload \<Rightarrow> payload"
  and array_init_array :: "arr \<Rightarrow> arr" where
  "data_copy (Data_Unset key ik p) = Data_Unset key ik (payload_copy p)"
| "payload_copy (DString v r) = DString v False"
| "payload_copy (DCount n) = DCount n"
| "payload_copy (DInteger n) = DInteger n"
| "payload_copy (DArray a) = DArray (array_init_array a)"
| "payload_copy (DFastcgi h p d) = DFastcgi h 0 False"
| "array_init_array (Arr dat srt used sz un) =
     (if sz = 0 then array_init else Arr (map (map_option data_copy) dat) srt used sz un)"

text \<open>Resetting an array resets the elements in use and keeps them as its reserve.\<close>

primrec data_reset :: "data_unset \<Rightarrow> data_unset"
  and payload_reset :: "payload \<Rightarrow> payload"
  and array_reset :: "arr \<Rightarrow> arr" where
  "data_reset (Data_Unset key ik p) = Data_Unset None ik (payload_reset p)"
| "payload_reset (DString v r) = DString None r"
| "payload_reset (DCount n) = DCount 0"
| "payload_reset (DInteger n) = DInteger 0"
| "payload_reset (DArray a) = DArray (array_reset a)"
| "payload_reset (DFastcgi h p d) = DFastcgi None p d"
| "array_reset (Arr dat srt used sz un) =
     Arr (take used (map (map_option data_reset) dat) @ drop used dat) srt 0 sz 0"

section \<open>Merging an element into one with the same key\<close>

definition data_string_insert_dup :: "string option \<Rightarrow> string option \<Rightarrow> string option" where
  "data_string_insert_dup dst src =
     (case dst of None \<Rightarrow> src | Some v \<Rightarrow> Some (v @ '', '' @ bstr src))"

definition data_response_insert_dup :: "string option \<Rightarrow> string option \<Rightarrow> string option \<Rightarrow> string option" where
  "data_response_insert_dup key dst src =
     (case dst of None \<Rightarrow> src | Some v \<Rightarrow> Some (v @ CRLF @ bstr key @ '': '' @ bstr src))"

text \<open>Counts are added as 32-bit integers; the other types keep what is there.\<close>

definition data_count_insert_dup :: "int \<Rightarrow> int \<Rightarrow> int" where
  "data_count_insert_dup dst src = sint (word_of_int (dst + src) :: 32 word)"

definition data_integer_insert_dup :: "int \<Rightarrow> int \<Rightarrow> int" where
  "data_integer_insert_dup dst src = dst"

definition data_array_insert_dup :: "arr \<Rightarrow> arr \<Rightarrow> arr" where
  "data_array_insert_dup dst src = dst"

text \<open>\<open>entry->insert_dup(dst, entry)\<close>: the function is the one of the new entry, whose type is that of the old one.\<close>

fun payload_insert_dup :: "string option \<Rightarrow> payload \<Rightarrow> payload \<Rightarrow> payload" where
  "payload_insert_dup key (DString v r) (DString w r') =
     DString (if r' then data_response_insert_dup key v w else data_string_insert_dup v w) r"
| "payload_insert_dup key (DCount n) (DCount k) = DCount (data_count_insert_dup n k)"
| "payload_insert_dup key (DInteger n) (DInteger k) = DInteger (data_integer_insert_dup n k)"
| "payload_insert_dup key (DArray a) (DArray b) = DArray (data_array_insert_dup a b)"
| "payload_insert_dup key dst src = dst"

definition data_insert_dup :: "data_unset \<Rightarrow> data_unset \<Rightarrow> data_unset" where
  "data_insert_dup dst src =
     Data_Unset (du_key dst) (du_is_index_key dst)
       (payload_insert_dup (du_key dst) (du_payload dst) (du_payload src))"

section \<open>The index\<close>

definition cell_read :: "'a option list \<Rightarrow> nat \<Rightarrow> 'a option" where
  "cell_read xs i = (if i < length xs then xs ! i else None)"

text \<open>The bisection loop, over a comparison with the element at a position of the index.\<close>

function array_search :: "(nat \<Rightarrow> int option) \<Rightarrow> nat \<Rightarrow> nat \<Rightarrow> (bool \<times> nat) option" where
  "array_search probe_cmp lower upper =
     (if lower = upper then Some (False, lower)
      else if \<not> lower < upper then None
      else do {
        let probe = (lower + upper) div 2;
        cmp \<leftarrow> probe_cmp probe;
        if cmp = 0 then Some (True, probe)
        else if cmp < 0 then array_search probe_cmp lower probe
        else array_search probe_cmp (probe + 1) upper
      })"
  by pat_completeness auto
termination
  by (relation "measure (\<lambda>(probe_cmp, lower, upper). upper - lower)") auto

declare array_search.simps [simp del]

definition array_probe :: "arr \<Rightarrow> string \<Rightarrow> nat \<Rightarrow> int option" where
  "array_probe a key probe = do {
     ndx \<leftarrow> cell_read (a_sorted a) probe;
     du \<leftarrow> cell_read (a_data a) ndx;
     Some (buffer_caseless_compare key (bstr (du_key du)))
   }"

text \<open>The index found (\<open>None\<close> is \<open>ARRAY_NOT_FOUND\<close>) and the position in \<open>sorted\<close>.\<close>

definition array_get_index :: "arr \<Rightarrow> string \<Rightarrow> (nat option \<times> nat) option" where
  "array_get_index a key = do {
     force_assert (a_used a \<le> SSIZE_MAX);
     (found, pos) \<leftarrow> array_search (array_probe a key) 0 (a_used a);
     if found then do { ndx \<leftarrow> cell_read (a_sorted a) pos; Some (Some ndx, pos) }
     else Some (None, pos)
   }"

section \<open>Operations\<close>

text \<open>The inner option is the returned pointer, \<open>NULL\<close> when the key is absent.\<close>

definition array_get_element :: "arr \<Rightarrow> string \<Rightarrow> data_unset option option" where
  "array_get_element a key = do {
     (ndx, _) \<leftarrow> array_get_index a (cstr key);
     case ndx of
       None \<Rightarrow> Some None
     | Some ndx \<Rightarrow> map_option Some (cell_read (a_data a) ndx)
   }"

definition list_memmove :: "'a list \<Rightarrow> nat \<Rightarrow> nat \<Rightarrow> nat \<Rightarrow> 'a list" where
  "list_memmove xs dst src n = take dst xs @ take n (drop src xs) @ drop (dst + n) xs"

definition array_pop :: "arr \<Rightarrow> (arr \<times> data_unset option) option" where
  "array_pop a = do {
     force_assert (a_used a \<noteq> 0);
     let used = a_used a - 1;
     ndx \<leftarrow> cell_read (a_sorted a) used;
     force_assert (ndx = used);
     force_assert (used < length (a_data a));
     Some (Arr ((a_data a)[used := None]) (a_sorted a) used (a_size a) (a_unique_ndx a),
           a_data a ! used)
   }"

definition array_extract_element :: "arr \<Rightarrow> string \<Rightarrow> (arr \<times> data_unset option) option" where
  "array_extract_element a key = do {
     (found, pos) \<leftarrow> array_get_index a (cstr key);
     case found of
       None \<Rightarrow> Some (a, None)
     | Some ndx \<Rightarrow> do {
         let last_ndx = a_used a - 1;
         entry \<leftarrow> cell_read (a_data a) ndx;
         (dat, srt) \<leftarrow>
           (if ndx \<noteq> last_ndx
            then do {
              last_du \<leftarrow> cell_read (a_data a) last_ndx;
              (last_found, last_elem_pos) \<leftarrow> array_get_index a (bstr (du_key last_du));
              force_assert (last_found = Some last_ndx);
              Some ((a_data a)[ndx := Some last_du, last_ndx := None],
                    (a_sorted a)[last_elem_pos := Some ndx])
            }
            else Some ((a_data a)[ndx := None], a_sorted a));
         let srt = (if pos \<noteq> last_ndx then list_memmove srt pos (pos + 1) (last_ndx - pos) else srt);
         Some (Arr dat (srt[last_ndx := None]) (a_used a - 1) (a_size a) (a_unique_ndx a), Some entry)
       }
   }"

text \<open>An element of the reserve, taken out; the slot at \<open>used\<close> is left empty.\<close>

function unused_from :: "arr \<Rightarrow> data_type \<Rightarrow> nat \<Rightarrow> nat option" where
  "unused_from a t i =
     (if i < a_size a
      then case cell_read (a_data a) i of
          Some du \<Rightarrow> (if du_type du = t then Some i else unused_from a t (i + 1))
        | None \<Rightarrow> unused_from a t (i + 1)
      else None)"
  by pat_completeness auto
termination
  by (relation "measure (\<lambda>(a, t, i). a_size a - i)") auto

declare unused_from.simps [simp del]

definition array_get_unused_element :: "arr \<Rightarrow> data_type \<Rightarrow> arr \<times> data_unset option" where
  "array_get_unused_element a t =
     (case unused_from a t (a_used a) of
        None \<Rightarrow> (a, None)
      | Some i \<Rightarrow>
          (Arr ((a_data a)[i := a_data a ! a_used a, a_used a := None])
             (a_sorted a) (a_used a) (a_size a) (a_unique_ndx a),
           a_data a ! i))"

text \<open>The entry as it was stored (its key may have been generated), and the collision.\<close>

definition array_name_entry :: "arr \<Rightarrow> data_unset \<Rightarrow> (arr \<times> data_unset) option" where
  "array_name_entry a entry =
     (if du_key entry = None \<or> du_is_index_key entry
      then do {
        let n = uadd (a_unique_ndx a) 1;
        force_assert (n \<noteq> 0);
        Some (Arr (a_data a) (a_sorted a) (a_used a) (a_size a) n,
              Data_Unset (Some (itostr (of_nat (a_unique_ndx a)) [])) True (du_payload entry))
      }
      else Some (a, entry))"

definition array_grow :: "arr \<Rightarrow> arr" where
  "array_grow a =
     (if a_size a = 0
      then Arr (replicate 16 None) (replicate 16 None) (a_used a) 16 (a_unique_ndx a)
      else if a_size a = a_used a
      then Arr (a_data a @ replicate 16 None) (a_sorted a @ replicate 16 None)
             (a_used a) (a_size a + 16) (a_unique_ndx a)
      else a)"

definition array_find_or_insert :: "arr \<Rightarrow> data_unset \<Rightarrow> (arr \<times> data_unset \<times> nat option) option" where
  "array_find_or_insert a entry = do {
     (a, entry) \<leftarrow> array_name_entry a entry;
     (found, pos) \<leftarrow> array_get_index a (bstr (du_key entry));
     case found of
       Some ndx \<Rightarrow> Some (a, entry, Some ndx)
     | None \<Rightarrow> do {
         force_assert (a_used a + 1 \<le> SSIZE_MAX);
         let a = array_grow a;
         let ndx = a_used a;
         force_assert (ndx < length (a_data a) \<and> ndx < length (a_sorted a));
         let srt = (if pos \<noteq> ndx then list_memmove (a_sorted a) (pos + 1) pos (ndx - pos)
                    else a_sorted a);
         Some (Arr ((a_data a)[ndx := Some entry]) (srt[pos := Some ndx]) (ndx + 1)
                 (a_size a) (a_unique_ndx a), entry, None)
       }
   }"

definition array_replace :: "arr \<Rightarrow> data_unset \<Rightarrow> arr option" where
  "array_replace a entry = do {
     (a, entry, old) \<leftarrow> array_find_or_insert a entry;
     case old of
       None \<Rightarrow> Some a
     | Some ndx \<Rightarrow> Some (Arr ((a_data a)[ndx := Some entry]) (a_sorted a) (a_used a) (a_size a) (a_unique_ndx a))
   }"

definition array_insert_unique :: "arr \<Rightarrow> data_unset \<Rightarrow> arr option" where
  "array_insert_unique a entry = do {
     (a, entry, old) \<leftarrow> array_find_or_insert a entry;
     case old of
       None \<Rightarrow> Some a
     | Some ndx \<Rightarrow> do {
         du \<leftarrow> cell_read (a_data a) ndx;
         force_assert (du_type du = du_type entry);
         Some (Arr ((a_data a)[ndx := Some (data_insert_dup du entry)])
                 (a_sorted a) (a_used a) (a_size a) (a_unique_ndx a))
       }
   }"

text \<open>
  Setting a string under a key. An element found is written in place as a \<open>data_string\<close>, so
  it has to be one; a new element is taken from the reserve when there is one.
\<close>

definition array_set_key_value :: "arr \<Rightarrow> string \<Rightarrow> string \<Rightarrow> arr option" where
  "array_set_key_value hdrs key v = do {
     (found, _) \<leftarrow> array_get_index hdrs (cstr key);
     case found of
       Some ndx \<Rightarrow> do {
         du \<leftarrow> cell_read (a_data hdrs) ndx;
         case du_payload du of
           DString _ r \<Rightarrow>
             Some (Arr ((a_data hdrs)[ndx := Some (Data_Unset (du_key du) (du_is_index_key du)
                      (DString (Some v) r))])
                 (a_sorted hdrs) (a_used hdrs) (a_size hdrs) (a_unique_ndx hdrs))
         | _ \<Rightarrow> None
       }
     | None \<Rightarrow> do {
         let (hdrs, unused) = array_get_unused_element hdrs TYPE_STRING;
         let ds_dst = (case unused of None \<Rightarrow> data_string_init | Some du \<Rightarrow> du);
         array_insert_unique hdrs
           (Data_Unset (Some key) (du_is_index_key ds_dst)
              (case du_payload ds_dst of DString _ r \<Rightarrow> DString (Some v) r | p \<Rightarrow> p))
       }
   }"

definition array_get_max_key_length :: "arr \<Rightarrow> nat" where
  "array_get_max_key_length a =
     foldl (\<lambda>maxlen du. let len = length (cstr (bstr (du_key du))) in if len > maxlen then len else maxlen)
       0 (map the (take (a_used a) (a_data a)))"

end
