(* ===== verification/Array_Inv.thy ===== *)
theory Array_Inv
  imports Array
begin

text \<open>
  Correctness of the sorted array: bisection over any comparison that orders its keys
  (locale \<open>ordered_cmp\<close>, provided by \<open>buffer_caseless_compare\<close>), the representation
  invariant \<open>arr_holds\<close>, and what each operation does to the list of elements.
\<close>

section \<open>Bisection\<close>

locale ordered_cmp =
  fixes cmp :: "'k \<Rightarrow> 'k \<Rightarrow> int" and rank :: "'k \<Rightarrow> 'o :: linorder"
  assumes cmp_zero: "cmp a b = 0 \<longleftrightarrow> rank a = rank b"
    and cmp_neg: "cmp a b < 0 \<longleftrightarrow> rank a < rank b"
begin

definition strictly_up :: "'k list \<Rightarrow> bool" where
  "strictly_up ks \<longleftrightarrow> sorted_wrt (<) (map rank ks)"

lemma strictly_up_nth: "strictly_up ks \<Longrightarrow> i < j \<Longrightarrow> j < length ks \<Longrightarrow> rank (ks ! i) < rank (ks ! j)"
  by (simp add: strictly_up_def sorted_wrt_iff_nth_less)

text \<open>Where a key belongs: everything before is smaller, everything from there on larger.\<close>

definition slot :: "'k \<Rightarrow> 'k list \<Rightarrow> nat \<Rightarrow> bool" where
  "slot k ks pos \<longleftrightarrow> pos \<le> length ks \<and> (\<forall>i < pos. rank (ks ! i) < rank k) \<and>
     (\<forall>i. pos \<le> i \<and> i < length ks \<longrightarrow> rank k < rank (ks ! i))"

lemma search_ok:
  assumes "\<And>i. i < length ks \<Longrightarrow> probe i = Some (cmp k (ks ! i))" and "strictly_up ks"
    and "lo \<le> hi" and "hi \<le> length ks" and "\<forall>i < lo. rank (ks ! i) < rank k"
    and "\<forall>i. hi \<le> i \<and> i < length ks \<longrightarrow> rank k < rank (ks ! i)"
  shows "(\<exists>pos. array_search probe lo hi = Some (True, pos) \<and> pos < length ks \<and> rank (ks ! pos) = rank k) \<or>
    (\<exists>pos. array_search probe lo hi = Some (False, pos) \<and> slot k ks pos)"
  using assms
proof (induction probe lo hi rule: array_search.induct)
  case (1 probe lo hi)
  note ih = "1.IH" and p = "1.prems"
  show ?case
  proof (cases "lo = hi")
    case True
    then have "array_search probe lo hi = Some (False, lo)" by (simp add: array_search.simps)
    moreover have "slot k ks lo" using p True by (simp add: slot_def)
    ultimately show ?thesis by blast
  next
    case False
    let ?m = "(lo + hi) div 2"
    have m: "lo \<le> ?m" "?m < hi" using False p(3) by auto
    then have rd: "probe ?m = Some (cmp k (ks ! ?m))" using p(1,4) by simp
    have step: "array_search probe lo hi =
        (if cmp k (ks ! ?m) = 0 then Some (True, ?m)
         else if cmp k (ks ! ?m) < 0 then array_search probe lo ?m else array_search probe (?m + 1) hi)"
      using False p(3) rd by (subst array_search.simps) (simp add: Let_def)
    consider "rank k = rank (ks ! ?m)" | "rank k < rank (ks ! ?m)" | "rank (ks ! ?m) < rank k"
      by fastforce
    then show ?thesis
    proof cases
      case 1
      then show ?thesis using step cmp_zero p(4) m by (intro disjI1 exI [of _ ?m]) auto
    next
      case 2
      then have c: "cmp k (ks ! ?m) < 0" "cmp k (ks ! ?m) \<noteq> 0"
        using cmp_neg [of k "ks ! ?m"] by auto
      have "\<forall>i. ?m \<le> i \<and> i < length ks \<longrightarrow> rank k < rank (ks ! i)"
        using 2 strictly_up_nth [OF p(2)] by (metis le_neq_implies_less less_trans)
      then show ?thesis
        unfolding step using c False p m rd by (simp add: ih(1))
    next
      case 3
      then have c: "\<not> cmp k (ks ! ?m) < 0" "cmp k (ks ! ?m) \<noteq> 0"
        using cmp_neg [of k "ks ! ?m"] cmp_zero [of k "ks ! ?m"] by auto
      have "\<forall>i < ?m + 1. rank (ks ! i) < rank k"
      proof (intro allI impI)
        fix i assume "i < ?m + 1"
        then show "rank (ks ! i) < rank k"
          using 3 strictly_up_nth [OF p(2), of i ?m] m p(4) by (cases "i = ?m") auto
      qed
      then show ?thesis
        using ih(2) [OF False _ refl rd] c p m unfolding step by simp
    qed
  qed
qed

lemma search_whole:
  assumes "\<And>i. i < length ks \<Longrightarrow> probe i = Some (cmp k (ks ! i))" and "strictly_up ks"
  obtains (found) pos where "array_search probe 0 (length ks) = Some (True, pos)" "pos < length ks"
      "rank (ks ! pos) = rank k"
  | (absent) pos where "array_search probe 0 (length ks) = Some (False, pos)" "slot k ks pos"
proof -
  have "\<forall>i. length ks \<le> i \<and> i < length ks \<longrightarrow> rank k < rank (ks ! i)" by auto
  then show ?thesis
    using search_ok [of ks probe k 0 "length ks"] assms that by blast
qed

end

interpretation caseless: ordered_cmp buffer_caseless_compare lkey
  by unfold_locales (rule buffer_caseless_compare_zero, rule buffer_caseless_compare_neg)

section \<open>The invariant\<close>

definition ekey :: "data_unset \<Rightarrow> nat list" where
  "ekey e = lkey (bstr (du_key e))"

definition index_ok :: "nat list \<Rightarrow> data_unset list \<Rightarrow> bool" where
  "index_ok ixs es \<longleftrightarrow> distinct ixs \<and> set ixs = {..<length es} \<and>
     sorted_wrt (<) (map (\<lambda>i. ekey (es ! i)) ixs)"

text \<open>\<open>es\<close> are the elements in insertion order, \<open>ixs\<close> the index over them.\<close>

definition arr_holds :: "arr \<Rightarrow> nat list \<Rightarrow> data_unset list \<Rightarrow> bool" where
  "arr_holds a ixs es \<longleftrightarrow>
     length (a_data a) = a_size a \<and> length (a_sorted a) = a_size a \<and> length es \<le> SSIZE_MAX \<and>
     a_used a = length es \<and> length es \<le> a_size a \<and>
     take (length es) (a_data a) = map Some es \<and> take (length es) (a_sorted a) = map Some ixs \<and>
     index_ok ixs es"

definition arr_list :: "arr \<Rightarrow> data_unset list" where
  "arr_list a = map the (take (a_used a) (a_data a))"

definition arr_ok :: "arr \<Rightarrow> bool" where
  "arr_ok a \<longleftrightarrow> (\<exists>ixs. arr_holds a ixs (arr_list a))"

text \<open>Lookup in a list of elements.\<close>

definition elem_of :: "data_unset list \<Rightarrow> nat list \<Rightarrow> data_unset option" where
  "elem_of es k = find (\<lambda>e. ekey e = k) es"

lemma arr_holds_list: "arr_holds a ixs es \<Longrightarrow> arr_list a = es"
  by (simp add: arr_holds_def arr_list_def comp_def)

lemma arr_okI: "arr_holds a ixs es \<Longrightarrow> arr_ok a \<and> arr_list a = es"
  using arr_holds_list by (auto simp: arr_ok_def)

lemma array_init_holds: "arr_holds array_init [] []"
  by (simp add: arr_holds_def array_init_def index_ok_def)

lemma index_ok_length: "index_ok ixs es \<Longrightarrow> length ixs = length es"
  by (metis index_ok_def distinct_card card_lessThan)

lemma index_ok_nth: "index_ok ixs es \<Longrightarrow> p < length es \<Longrightarrow> ixs ! p < length es"
  using index_ok_length nth_mem by (fastforce simp: index_ok_def)

text \<open>Distinct positions have distinct keys.\<close>

lemma index_ok_inj:
  assumes "index_ok ixs es" and "i < length es" and "j < length es" and "ekey (es ! i) = ekey (es ! j)"
  shows "i = j"
proof -
  have "distinct (map (\<lambda>i. ekey (es ! i)) ixs)"
    using assms(1) by (simp add: index_ok_def strict_sorted_iff)
  then have "inj_on (\<lambda>i. ekey (es ! i)) {..<length es}"
    using assms(1) by (simp add: index_ok_def distinct_map)
  then show ?thesis using assms(2-4) by (simp add: inj_on_def)
qed

lemma elem_of_None: "elem_of es k = None \<longleftrightarrow> (\<forall>i < length es. ekey (es ! i) \<noteq> k)"
  by (auto simp: elem_of_def find_None_iff in_set_conv_nth)

lemma elem_of_nth:
  assumes "index_ok ixs es" and "i < length es"
  shows "elem_of es (ekey (es ! i)) = Some (es ! i)"
proof -
  obtain e where e: "elem_of es (ekey (es ! i)) = Some e"
    using assms(2) elem_of_None by blast
  then obtain j where "j < length es" "e = es ! j" "ekey (es ! j) = ekey (es ! i)"
    by (auto simp: elem_of_def find_Some_iff)
  then show ?thesis using e index_ok_inj [OF assms(1) _ assms(2)] by metis
qed

section \<open>Searching\<close>

lemma arr_holds_cells:
  assumes "arr_holds a ixs es"
  shows "i < length es \<Longrightarrow> cell_read (a_data a) i = Some (es ! i)"
    and "i < length es \<Longrightarrow> cell_read (a_sorted a) i = Some (ixs ! i)"
proof -
  have d: "take (length es) (a_data a) = map Some es" "take (length es) (a_sorted a) = map Some ixs"
    and l: "length es \<le> length (a_data a)" "length es \<le> length (a_sorted a)" "length ixs = length es"
    using assms index_ok_length by (auto simp: arr_holds_def)
  show "cell_read (a_data a) i = Some (es ! i)" if "i < length es"
    using that l d(1) nth_take [of i "length es" "a_data a"] by (simp add: cell_read_def)
  show "cell_read (a_sorted a) i = Some (ixs ! i)" if "i < length es"
    using that l d(2) nth_take [of i "length es" "a_sorted a"] by (simp add: cell_read_def)
qed

definition index_keys :: "nat list \<Rightarrow> data_unset list \<Rightarrow> string list" where
  "index_keys ixs es = map (\<lambda>i. bstr (du_key (es ! i))) ixs"

lemma array_get_index_cases:
  assumes "arr_holds a ixs es"
  obtains (found) pos where "array_get_index a key = Some (Some (ixs ! pos), pos)" "pos < length es"
      "ixs ! pos < length es" "ekey (es ! (ixs ! pos)) = lkey key"
      "elem_of es (lkey key) = Some (es ! (ixs ! pos))"
  | (absent) pos where "array_get_index a key = Some (None, pos)"
      "caseless.slot key (index_keys ixs es) pos" "pos \<le> length es" "elem_of es (lkey key) = None"
proof -
  have ix: "index_ok ixs es" and used: "a_used a = length es" and max: "a_used a \<le> SSIZE_MAX"
    and len: "length ixs = length es"
    using assms index_ok_length by (auto simp: arr_holds_def)
  let ?ks = "index_keys ixs es"
  have probe: "array_probe a key i = Some (buffer_caseless_compare key (?ks ! i))" if "i < length ?ks" for i
  proof -
    have "i < length es" using that len by (simp add: index_keys_def)
    then show ?thesis
      using arr_holds_cells [OF assms] index_ok_nth [OF ix] len
      by (simp add: array_probe_def index_keys_def)
  qed
  have lk: "length ?ks = length es" by (simp add: index_keys_def len)
  have "caseless.strictly_up ?ks"
    using ix by (simp add: caseless.strictly_up_def index_keys_def index_ok_def ekey_def comp_def)
  then consider
    (found) pos where "array_search (array_probe a key) 0 (length ?ks) = Some (True, pos)"
      "pos < length ?ks" "lkey (?ks ! pos) = lkey key"
    | (absent) pos where "array_search (array_probe a key) 0 (length ?ks) = Some (False, pos)"
      "caseless.slot key ?ks pos"
    using caseless.search_whole [of ?ks "array_probe a key" key] probe by blast
  then show ?thesis
  proof cases
    case (found pos)
    then have pos: "pos < length es" and k: "ekey (es ! (ixs ! pos)) = lkey key"
      using len by (auto simp: index_keys_def ekey_def)
    show ?thesis
      using found(1) max pos k used lk arr_holds_cells(2) [OF assms pos] index_ok_nth [OF ix pos]
        elem_of_nth [OF ix index_ok_nth [OF ix pos]]
      by (intro that(1) [of pos]) (simp_all add: array_get_index_def)
  next
    case (absent pos)
    have "ekey (es ! i) \<noteq> lkey key" if "i < length es" for i
    proof -
      have "i \<in> set ixs" using that ix by (simp add: index_ok_def)
      then obtain j where j: "j < length ixs" "ixs ! j = i" by (auto simp: in_set_conv_nth)
      have "j < length ?ks" using j(1) len lk by simp
      then have "lkey (?ks ! j) < lkey key \<or> lkey key < lkey (?ks ! j)"
        using absent(2) unfolding caseless.slot_def by (meson not_less)
      moreover have "lkey (?ks ! j) = ekey (es ! i)" using j by (simp add: index_keys_def ekey_def)
      ultimately show ?thesis by auto
    qed
    then have none: "elem_of es (lkey key) = None" by (simp add: elem_of_None)
    have "array_get_index a key = Some (None, pos)"
      using absent(1) max used lk by (simp add: array_get_index_def)
    moreover have "pos \<le> length es" using absent(2) lk by (simp add: caseless.slot_def)
    ultimately show ?thesis using absent(2) none by (intro that(2))
  qed
qed

theorem array_get_element_ok:
  assumes "arr_holds a ixs es"
  shows "array_get_element a key = Some (elem_of es (lkey (cstr key)))"
  using assms
  by (cases rule: array_get_index_cases [of a ixs es "cstr key"])
    (simp_all add: array_get_element_def arr_holds_cells [OF assms])

section \<open>Changing an element in place\<close>

lemma index_ok_update:
  assumes "index_ok ixs es" and "n < length es" and "ekey e = ekey (es ! n)"
  shows "index_ok ixs (es[n := e])"
proof -
  have "map (\<lambda>i. ekey (es[n := e] ! i)) ixs = map (\<lambda>i. ekey (es ! i)) ixs"
    using assms(2,3) by (simp add: nth_list_update)
  then show ?thesis using assms(1) by (simp only: index_ok_def length_list_update)
qed

lemma arr_holds_update:
  assumes "arr_holds a ixs es" and "n < length es" and "ekey e = ekey (es ! n)"
  shows "arr_holds (Arr ((a_data a)[n := Some e]) (a_sorted a) (a_used a) (a_size a) (a_unique_ndx a))
    ixs (es[n := e])"
  using assms index_ok_update [of ixs es n e]
  by (simp add: arr_holds_def take_update_swap map_update)

lemma elem_of_update:
  assumes "index_ok ixs es" and "n < length es" and "ekey e = ekey (es ! n)"
  shows "elem_of (es[n := e]) = (elem_of es)(ekey e \<mapsto> e)"
proof
  fix k
  have up: "index_ok ixs (es[n := e])" using assms by (rule index_ok_update)
  show "elem_of (es[n := e]) k = ((elem_of es)(ekey e \<mapsto> e)) k"
  proof (cases "elem_of es k")
    case None
    then have "\<forall>i < length es. ekey (es ! i) \<noteq> k" by (simp add: elem_of_None)
    then have "\<forall>i < length (es[n := e]). ekey (es[n := e] ! i) \<noteq> k" "ekey e \<noteq> k"
      using assms(2,3) by (auto simp: nth_list_update)
    then have "elem_of (es[n := e]) k = None" unfolding elem_of_None by blast
    then show ?thesis using None \<open>ekey e \<noteq> k\<close> by simp
  next
    case (Some d)
    then obtain i where i: "i < length es" "es ! i = d" "ekey d = k"
      by (auto simp: elem_of_def find_Some_iff)
    then show ?thesis
      using elem_of_nth [OF up, of i] elem_of_nth [OF up, of n] Some assms
        index_ok_inj [OF assms(1) i(1) assms(2)]
      by (cases "i = n") (auto simp: nth_list_update)
  qed
qed

section \<open>Inserting an element\<close>

lemma memmove_right:
  assumes "length A = pos" and "length B = k"
  shows "(list_memmove (A @ B @ z # R) (pos + 1) pos k)[pos := y] = A @ y # B @ R"
  using assms by (cases B) (auto simp: list_memmove_def list_update_append)

lemma index_ok_insert:
  assumes ix: "index_ok ixs es" and slot: "caseless.slot key (index_keys ixs es) pos"
    and e: "ekey e = lkey key"
  shows "index_ok (take pos ixs @ length es # drop pos ixs) (es @ [e])"
proof -
  let ?f = "\<lambda>i. ekey (es ! i)" and ?g = "\<lambda>i. ekey ((es @ [e]) ! i)"
  have len: "length ixs = length es" using ix by (rule index_ok_length)
  have pos: "pos \<le> length ixs" using slot by (simp add: caseless.slot_def index_keys_def)
  have lt: "i < length es" if "i \<in> set ixs" for i using that ix by (simp add: index_ok_def)
  have g: "map ?g xs = map ?f xs" if "set xs \<subseteq> set ixs" for xs
    using that lt by (auto simp: nth_append)
  have sets: "set (take pos ixs) \<subseteq> set ixs" "set (drop pos ixs) \<subseteq> set ixs"
    by (auto dest: in_set_takeD in_set_dropD)
  have below: "?f i < lkey key" if "i \<in> set (take pos ixs)" for i
    using that slot pos by (auto simp: in_set_conv_nth caseless.slot_def index_keys_def ekey_def)
  have above: "lkey key < ?f i" if i: "i \<in> set (drop pos ixs)" for i
  proof -
    obtain j where "j < length ixs - pos" "i = ixs ! (pos + j)"
      using i by (auto simp: in_set_conv_nth)
    then show ?thesis
      using slot unfolding caseless.slot_def
      by (auto simp: index_keys_def ekey_def dest!: spec [of _ "pos + j"])
  qed
  have "sorted_wrt (<) (map ?f (take pos ixs) @ map ?f (drop pos ixs))"
    using ix by (simp add: index_ok_def flip: map_append)
  then have "sorted_wrt (<) (map ?f (take pos ixs) @ lkey key # map ?f (drop pos ixs))"
    using below above by (auto simp: sorted_wrt_append)
  moreover have "map ?g (take pos ixs @ length es # drop pos ixs)
      = map ?f (take pos ixs) @ lkey key # map ?f (drop pos ixs)"
    using g [OF sets(1)] g [OF sets(2)] e by simp
  moreover have "distinct (take pos ixs @ length es # drop pos ixs)"
  proof -
    have "distinct (take pos ixs @ drop pos ixs)" using ix by (simp add: index_ok_def)
    moreover have "length es \<notin> set (take pos ixs)" "length es \<notin> set (drop pos ixs)"
      using sets lt by blast+
    ultimately show ?thesis by (simp only: distinct_append distinct.simps) auto
  qed
  moreover have "set (take pos ixs @ length es # drop pos ixs) = {..<length (es @ [e])}"
  proof -
    have "set (take pos ixs @ drop pos ixs) = {..<length es}"
      using ix by (simp add: index_ok_def)
    then have "set (take pos ixs) \<union> set (drop pos ixs) = {..<length es}"
      by (simp only: set_append)
    then have "insert (length es) (set (take pos ixs) \<union> set (drop pos ixs)) = {..<Suc (length es)}"
      by (simp only: lessThan_Suc)
    then show ?thesis by simp
  qed
  ultimately show ?thesis by (simp only: index_ok_def)
qed

lemma elem_of_append:
  "elem_of (es @ fs) k = (case elem_of es k of None \<Rightarrow> elem_of fs k | Some e \<Rightarrow> Some e)"
  unfolding elem_of_def by (induction es) auto

lemma elem_of_snoc:
  "elem_of es (ekey e) = None \<Longrightarrow> elem_of (es @ [e]) = (elem_of es)(ekey e \<mapsto> e)"
  by (rule ext) (auto simp: elem_of_append elem_of_def [of "[e]"] split: option.splits)

lemma array_grow_holds:
  assumes "arr_holds a ixs es"
  shows "arr_holds (array_grow a) ixs es" and "length es < a_size (array_grow a)"
  using assms index_ok_length [of ixs es] by (auto simp: arr_holds_def array_grow_def)

lemma array_name_entry_holds:
  "arr_holds a ixs es \<Longrightarrow> array_name_entry a entry = Some (a', e) \<Longrightarrow> arr_holds a' ixs es"
  by (auto simp: array_name_entry_def arr_holds_def Let_def bind_eq_Some_conv split: if_splits)

lemma array_name_entry_keyed:
  "du_key entry = Some k \<Longrightarrow> \<not> du_is_index_key entry \<Longrightarrow> array_name_entry a entry = Some (a, entry)"
  by (simp add: array_name_entry_def)

lemma arr_holds_insert:
  assumes h: "arr_holds a ixs es" and room: "length es < a_size a" and max: "length es + 1 \<le> SSIZE_MAX"
    and slot: "caseless.slot key (index_keys ixs es) pos" and e: "ekey e = lkey key"
  shows "arr_holds
    (Arr ((a_data a)[length es := Some e])
       ((if pos \<noteq> length es then list_memmove (a_sorted a) (pos + 1) pos (length es - pos)
         else a_sorted a)[pos := Some (length es)])
       (length es + 1) (a_size a) (a_unique_ndx a))
    (take pos ixs @ length es # drop pos ixs) (es @ [e])"
proof -
  let ?n = "length es"
  have ix: "index_ok ixs es" and len: "length ixs = ?n" using h index_ok_length by (auto simp: arr_holds_def)
  have pos: "pos \<le> ?n" using slot len by (simp add: caseless.slot_def index_keys_def)
  have ls: "length (a_sorted a) = a_size a" and ts: "take ?n (a_sorted a) = map Some ixs"
    using h by (auto simp: arr_holds_def)
  define A B where "A = map Some (take pos ixs)" and "B = map Some (drop pos ixs)"
  obtain z R where zR: "drop ?n (a_sorted a) = z # R" "length R = a_size a - ?n - 1"
    using room ls by (cases "drop ?n (a_sorted a)") (auto dest: arg_cong [where f = length])
  have "a_sorted a = take ?n (a_sorted a) @ drop ?n (a_sorted a)" by simp
  then have srt: "a_sorted a = A @ B @ z # R"
    unfolding ts zR(1) by (simp add: A_def B_def flip: map_append)
  have lA: "length A = pos" and lB: "length B = ?n - pos" using pos len by (auto simp: A_def B_def)
  have new: "(if pos \<noteq> ?n then list_memmove (a_sorted a) (pos + 1) pos (?n - pos)
      else a_sorted a)[pos := Some ?n] = A @ Some ?n # B @ R"
  proof (cases "pos = ?n")
    case True
    then show ?thesis using lA lB by (simp add: srt list_update_append)
  next
    case False
    then show ?thesis unfolding srt using memmove_right [OF lA lB, of z R "Some ?n"] by simp
  qed
  have t: "take (Suc ?n) (A @ Some ?n # B @ R) = map Some (take pos ixs @ ?n # drop pos ixs)"
    using lA lB pos by (simp add: A_def B_def Suc_diff_le)
  have d: "take (Suc ?n) ((a_data a)[?n := Some e]) = map Some (es @ [e])"
    using h room take_update_snoc [of ?n "a_data a" "map Some es" "Some e"] by (simp add: arr_holds_def)
  have "length (A @ Some ?n # B @ R) = a_size a" using lA lB zR(2) pos room by simp
  then show ?thesis
    unfolding new using h t d max room index_ok_insert [OF ix slot e] by (simp add: arr_holds_def)
qed

lemma array_find_or_insert_cases:
  assumes h: "arr_holds a ixs es" and n: "array_name_entry a entry = Some (a1, e)"
    and max: "length es + 1 \<le> SSIZE_MAX"
  obtains (found) ndx where "array_find_or_insert a entry = Some (a1, e, Some ndx)" "ndx < length es"
      "ekey (es ! ndx) = ekey e" "elem_of es (ekey e) = Some (es ! ndx)"
  | (new) a' ixs' where "array_find_or_insert a entry = Some (a', e, None)" "arr_holds a' ixs' (es @ [e])"
      "elem_of es (ekey e) = None"
proof -
  have h1: "arr_holds a1 ixs es" by (rule array_name_entry_holds [OF h n])
  show ?thesis
    using h1
  proof (cases rule: array_get_index_cases [of a1 ixs es "bstr (du_key e)"])
    case (found pos)
    then show ?thesis using n by (intro that(1)) (auto simp: array_find_or_insert_def ekey_def)
  next
    case (absent pos)
    let ?a = "array_grow a1"
    note g = array_grow_holds [OF h1]
    have used: "a_used ?a = length es" "a_used a1 = length es"
      "length (a_data ?a) = a_size ?a" "length (a_sorted ?a) = a_size ?a"
      using g(1) h1 by (auto simp: arr_holds_def)
    have "ekey e = lkey (bstr (du_key e))" by (simp add: ekey_def)
    note new = arr_holds_insert [OF g max absent(2) this]
    have "array_find_or_insert a entry = Some
      (Arr ((a_data ?a)[length es := Some e])
         ((if pos \<noteq> length es then list_memmove (a_sorted ?a) (pos + 1) pos (length es - pos)
           else a_sorted ?a)[pos := Some (length es)])
         (length es + 1) (a_size ?a) (a_unique_ndx ?a), e, None)"
      using n absent(1) max used g(2) by (simp add: array_find_or_insert_def Let_def)
    then show ?thesis using new absent(4) by (intro that(2)) (auto simp: ekey_def)
  qed
qed

text \<open>What inserting and replacing do to the elements.\<close>

lemma array_insert_unique_new:
  assumes "arr_holds a ixs es" and "array_name_entry a entry = Some (a1, e)"
    and "length es + 1 \<le> SSIZE_MAX" and "elem_of es (ekey e) = None"
  shows "\<exists>a' ixs'. array_insert_unique a entry = Some a' \<and> arr_holds a' ixs' (es @ [e])"
  using assms
  by (cases rule: array_find_or_insert_cases [OF assms(1-3)]) (auto simp: array_insert_unique_def)

lemma array_insert_unique_dup:
  assumes "arr_holds a ixs es" and "array_name_entry a entry = Some (a1, e)"
    and "length es + 1 \<le> SSIZE_MAX" and "elem_of es (ekey e) = Some d"
  shows "if du_type d = du_type e
    then \<exists>a' n. array_insert_unique a entry = Some a' \<and> n < length es \<and> es ! n = d \<and>
      arr_holds a' ixs (es[n := data_insert_dup d e])
    else array_insert_unique a entry = None"
  using assms(1-3)
proof (cases rule: array_find_or_insert_cases)
  case (found n)
  have h1: "arr_holds a1 ixs es" by (rule array_name_entry_holds [OF assms(1,2)])
  have "es ! n = d" using found(4) assms(4) by simp
  then show ?thesis
    using found(1,2) arr_holds_cells(1) [OF h1 found(2)]
      arr_holds_update [OF h1 found(2), of "data_insert_dup d e"]
    by (auto simp: array_insert_unique_def data_insert_dup_def ekey_def)
qed (use assms in simp)

lemma array_replace_ok:
  assumes "arr_holds a ixs es" and "array_name_entry a entry = Some (a1, e)"
    and "length es + 1 \<le> SSIZE_MAX"
  shows "\<exists>a' ixs' es'. array_replace a entry = Some a' \<and> arr_holds a' ixs' es' \<and>
    elem_of es' = (elem_of es)(ekey e \<mapsto> e) \<and>
    (case elem_of es (ekey e) of None \<Rightarrow> es' = es @ [e] | Some d \<Rightarrow> length es' = length es)"
  using assms
proof (cases rule: array_find_or_insert_cases)
  case (found n)
  have h1: "arr_holds a1 ixs es" by (rule array_name_entry_holds [OF assms(1,2)])
  then have ix: "index_ok ixs es" by (simp add: arr_holds_def)
  show ?thesis
    using found arr_holds_update [OF h1 found(2) found(3) [symmetric]]
      elem_of_update [OF ix found(2) found(3) [symmetric]]
    by (intro exI [of _ ixs] exI [of _ "es[n := e]"] exI)
      (auto simp: array_replace_def)
next
  case (new a' ixs')
  then show ?thesis
    using elem_of_snoc [OF new(3)] by (auto simp: array_replace_def)
qed

section \<open>Removing an element\<close>

lemma memmove_left:
  assumes "length A = pos" and "length B = k"
  shows "take (pos + k) (list_memmove (A @ x # B @ R) pos (pos + 1) k) = A @ B"
  using assms by (simp add: list_memmove_def)

text \<open>The last element takes the place of the removed one.\<close>

definition remove_elem :: "data_unset list \<Rightarrow> nat \<Rightarrow> data_unset list" where
  "remove_elem es n = butlast (es[n := last es])"

definition remove_index :: "nat list \<Rightarrow> nat \<Rightarrow> nat list" where
  "remove_index ixs pos =
     map (\<lambda>i. if i = length ixs - 1 then ixs ! pos else i) (take pos ixs @ drop (Suc pos) ixs)"

lemma last_by_nth: "i < length es \<Longrightarrow> last es = es ! (length es - 1)"
  by (rule last_conv_nth) auto

lemma remove_elem_nth:
  assumes "n < length es" and "i < length es" and "i \<noteq> n"
  shows "remove_elem es n ! (if i = length es - 1 then n else i) = es ! i"
    and "(if i = length es - 1 then n else i) < length es - 1"
  using assms last_by_nth [OF assms(1)] by (auto simp: remove_elem_def nth_butlast nth_list_update)

lemma length_remove_elem [simp]: "length (remove_elem es n) = length es - 1"
  by (simp add: remove_elem_def)

lemma index_ok_remove:
  assumes ix: "index_ok ixs es" and pos: "pos < length es"
  shows "index_ok (remove_index ixs pos) (remove_elem es (ixs ! pos))"
proof -
  let ?n = "ixs ! pos" and ?rest = "take pos ixs @ drop (Suc pos) ixs"
  let ?f = "\<lambda>i. if i = length es - 1 then ?n else i"
  have len: "length ixs = length es" using ix by (rule index_ok_length)
  have n: "?n < length es" using ix pos by (rule index_ok_nth)
  have whole: "ixs = take pos ixs @ ?n # drop (Suc pos) ixs"
    using pos len by (simp add: id_take_nth_drop)
  have dist: "distinct (take pos ixs @ ?n # drop (Suc pos) ixs)"
    and all: "set (take pos ixs @ ?n # drop (Suc pos) ixs) = {..<length es}"
    and up: "sorted_wrt (<) (map (\<lambda>i. ekey (es ! i)) (take pos ixs @ ?n # drop (Suc pos) ixs))"
    using ix unfolding index_ok_def by (simp_all only: whole [symmetric])
  have rest: "set ?rest = {..<length es} - {?n}" "distinct ?rest" "?n \<notin> set ?rest"
    using dist all by auto
  have inj: "inj_on ?f (set ?rest)"
    using rest(3) by (auto simp: inj_on_def)
  have "length (remove_index ixs pos) = length es - 1"
    using len pos by (simp add: remove_index_def)
  have eq: "remove_index ixs pos = map ?f ?rest" by (simp add: remove_index_def len)
  have d: "distinct (remove_index ixs pos)"
    unfolding eq using rest(2) inj by (simp only: distinct_map)
  have sub: "set (remove_index ixs pos) \<subseteq> {..<length es - 1}"
  proof
    fix j assume "j \<in> set (remove_index ixs pos)"
    then obtain i where i: "i \<in> set ?rest" "j = ?f i" unfolding eq set_map by blast
    then have "i < length es" "i \<noteq> ?n" unfolding rest(1) by auto
    from remove_elem_nth(2) [OF n this] show "j \<in> {..<length es - 1}" by (simp only: i(2) lessThan_iff)
  qed
  have "card (set (remove_index ixs pos)) = length es - 1"
    using d \<open>length (remove_index ixs pos) = _\<close> by (simp add: distinct_card)
  then have s: "set (remove_index ixs pos) = {..<length es - 1}"
    using sub by (intro card_subset_eq) auto
  have "map (\<lambda>i. ekey (remove_elem es ?n ! i)) (remove_index ixs pos) = map (\<lambda>i. ekey (es ! i)) ?rest"
    unfolding eq map_map using rest(1) remove_elem_nth(1) [OF n] by (intro map_cong) auto
  moreover have "sorted_wrt (<) (map (\<lambda>i. ekey (es ! i)) ?rest)"
    using up by (simp add: sorted_wrt_append)
  ultimately show ?thesis using d s by (simp only: index_ok_def length_remove_elem)
qed

lemma elem_of_remove:
  assumes ix: "index_ok ixs es" and pos: "pos < length es"
  shows "elem_of (remove_elem es (ixs ! pos)) = (elem_of es)(ekey (es ! (ixs ! pos)) := None)"
proof
  fix k
  let ?n = "ixs ! pos"
  have n: "?n < length es" using ix pos by (rule index_ok_nth)
  note ix' = index_ok_remove [OF ix pos]
  note rn = remove_elem_nth [OF n]
  show "elem_of (remove_elem es ?n) k = ((elem_of es)(ekey (es ! ?n) := None)) k"
  proof (cases "elem_of (remove_elem es ?n) k")
    case None
    have "elem_of es k = None" if "k \<noteq> ekey (es ! ?n)"
      unfolding elem_of_None
    proof (intro allI impI)
      fix i assume i: "i < length es"
      show "ekey (es ! i) \<noteq> k"
      proof (cases "i = ?n")
        case False
        then show ?thesis using None rn [OF i False] unfolding elem_of_None by (metis length_remove_elem)
      qed (use that in simp)
    qed
    then show ?thesis using None by auto
  next
    case (Some d)
    then obtain j where j: "j < length es - 1" "remove_elem es ?n ! j = d" "ekey d = k"
      by (auto simp: elem_of_def find_Some_iff)
    define i where "i = (if j = ?n then length es - 1 else j)"
    have i: "i < length es" "i \<noteq> ?n" and ij: "(if i = length es - 1 then ?n else i) = j"
      using j(1) by (auto simp: i_def)
    have "es ! i = d" using rn(1) [OF i] j(2) by (simp only: ij)
    then have "elem_of es k = Some d" and "k \<noteq> ekey (es ! ?n)"
      using elem_of_nth [OF ix i(1)] index_ok_inj [OF ix i(1) n] i(2) j(3) by auto
    then show ?thesis using Some by simp
  qed
qed

lemma index_update_map:
  "distinct ixs \<Longrightarrow> p < length ixs \<Longrightarrow> ixs[p := y] = map (\<lambda>i. if i = ixs ! p then y else i) ixs"
  by (rule nth_equalityI) (auto simp: nth_list_update nth_eq_iff_index_eq)

lemma arr_holds_remove:
  assumes h: "arr_holds a ixs es" and pos: "pos < length es"
    and dat: "length dat = a_size a" "take (length es - 1) dat = map Some (remove_elem es (ixs ! pos))"
    and srt: "length srt = a_size a"
      "take (length es) srt = map Some (map (\<lambda>i. if i = length ixs - 1 then ixs ! pos else i) ixs)"
  shows "arr_holds
    (Arr dat ((if pos \<noteq> length es - 1 then list_memmove srt pos (pos + 1) (length es - 1 - pos) else srt)
        [length es - 1 := None]) (length es - 1) (a_size a) (a_unique_ndx a))
    (remove_index ixs pos) (remove_elem es (ixs ! pos))"
proof -
  let ?f = "\<lambda>i. if i = length ixs - 1 then ixs ! pos else i"
  have ix: "index_ok ixs es" and len: "length ixs = length es" and le: "length es \<le> a_size a"
    "length es \<le> SSIZE_MAX"
    using h index_ok_length by (auto simp: arr_holds_def)
  define A B R where "A = map Some (map ?f (take pos ixs))"
    and "B = map Some (map ?f (drop (Suc pos) ixs))" and "R = drop (length es) srt"
  have "ixs = take pos ixs @ ixs ! pos # drop (Suc pos) ixs"
    using pos len by (simp add: id_take_nth_drop)
  then have "map Some (map ?f ixs)
      = map Some (map ?f (take pos ixs @ ixs ! pos # drop (Suc pos) ixs))" by (rule arg_cong)
  then have "map Some (map ?f ixs) = A @ Some (?f (ixs ! pos)) # B"
    unfolding A_def B_def by (simp only: map_append list.map)
  moreover have "srt = take (length es) srt @ R" by (simp add: R_def)
  ultimately have s: "srt = A @ Some (?f (ixs ! pos)) # B @ R" using srt(2) by simp
  have lA: "length A = pos" and lB: "length B = length es - 1 - pos"
    using pos len by (simp_all add: A_def B_def)
  have n: "length es - 1 = pos + length B" using lB pos by simp
  let ?s = "if pos \<noteq> length es - 1 then list_memmove srt pos (pos + 1) (length es - 1 - pos) else srt"
  have t: "take (length es - 1) ?s = A @ B"
  proof (cases "pos = length es - 1")
    case True
    then have "B = []" using lB by simp
    then show ?thesis using True lA by (simp add: s)
  next
    case False
    then have "?s = list_memmove srt pos (pos + 1) (length B)" by (simp add: lB)
    then show ?thesis
      unfolding n s by (simp only: memmove_left [OF lA refl])
  qed
  have ls: "length ?s = a_size a"
    using srt(1) pos le(1) by (auto simp: list_memmove_def)
  have "A @ B = map Some (remove_index ixs pos)" by (simp add: A_def B_def remove_index_def)
  then have "take (length es - 1) (?s[length es - 1 := None]) = map Some (remove_index ixs pos)"
    using t by simp
  moreover have "length es - 1 \<le> SSIZE_MAX" "length es - 1 \<le> a_size a" using le by linarith+
  ultimately show ?thesis
    using index_ok_remove [OF ix pos] dat ls by (simp add: arr_holds_def)
qed

lemma array_extract_element_ok:
  assumes h: "arr_holds a ixs es"
  shows "case elem_of es (lkey (cstr key)) of
      None \<Rightarrow> array_extract_element a key = Some (a, None)
    | Some e \<Rightarrow> \<exists>a' ixs' es'. array_extract_element a key = Some (a', Some e) \<and>
        arr_holds a' ixs' es' \<and> elem_of es' = (elem_of es)(lkey (cstr key) := None) \<and>
        length es' = length es - 1"
  using h
proof (cases rule: array_get_index_cases [of a ixs es "cstr key"])
  case (absent pos)
  then show ?thesis by (simp add: array_extract_element_def)
next
  case (found pos)
  let ?n = "ixs ! pos" and ?l = "length es - 1"
  have ix: "index_ok ixs es" and used: "a_used a = length es" and len: "length ixs = length es"
    and ld: "length (a_data a) = a_size a" "length (a_sorted a) = a_size a" "length es \<le> a_size a"
    and td: "take (length es) (a_data a) = map Some es" "take (length es) (a_sorted a) = map Some ixs"
    using h index_ok_length by (auto simp: arr_holds_def)
  note cells = arr_holds_cells [OF h]
  have l: "?l < length es" using found(2) by simp
  have tl: "take ?l (a_data a) = map Some (butlast es)"
    using td(1) take_take [of ?l "length es" "a_data a"] l by (simp add: butlast_conv_take take_map min_def)
  have last: "last es = es ! ?l" using l by (rule last_by_nth)
  obtain dat srt where step: "array_extract_element a key = Some
      (Arr dat ((if pos \<noteq> ?l then list_memmove srt pos (pos + 1) (?l - pos) else srt)[?l := None])
        ?l (a_size a) (a_unique_ndx a), Some (es ! ?n))"
    and dat: "length dat = a_size a" "take ?l dat = map Some (remove_elem es ?n)"
    and srt: "length srt = a_size a"
      "take (length es) srt = map Some (map (\<lambda>i. if i = length ixs - 1 then ?n else i) ixs)"
  proof (cases "?n = ?l")
    case True
    have "map (\<lambda>i. if i = length ixs - 1 then ?n else i) ixs = ixs"
      using True len by (intro map_idI) auto
    moreover have "remove_elem es ?n = butlast es"
      using True last by (simp add: remove_elem_def)
    ultimately show ?thesis
      using that [of "(a_data a)[?n := None]" "a_sorted a"] found(1,3) used cells(1) True ld td tl
      by (simp add: array_extract_element_def Let_def)
  next
    case False
    let ?k = "bstr (du_key (es ! ?l))"
    obtain p where p: "array_get_index a ?k = Some (Some ?l, p)" "p < length es" "ixs ! p = ?l"
      using h
    proof (cases rule: array_get_index_cases [of a ixs es ?k])
      case (found p)
      have "ixs ! p = ?l"
        using found(3,4) by (intro index_ok_inj [OF ix _ l]) (simp_all add: ekey_def)
      then show ?thesis using that found by simp
    next
      case (absent p)
      then show ?thesis using elem_of_nth [OF ix l] by (simp add: ekey_def)
    qed
    have "take (length es) ((a_sorted a)[p := Some ?n]) = map Some (ixs[p := ?n])"
      using td(2) by (simp add: take_update_swap map_update)
    also have "ixs[p := ?n] = map (\<lambda>i. if i = length ixs - 1 then ?n else i) ixs"
      using index_update_map [of ixs p ?n] ix p len by (simp add: index_ok_def)
    finally have s: "take (length es) ((a_sorted a)[p := Some ?n])
        = map Some (map (\<lambda>i. if i = length ixs - 1 then ?n else i) ixs)" .
    have "take ?l ((a_data a)[?n := Some (es ! ?l), ?l := None]) = (take ?l (a_data a))[?n := Some (es ! ?l)]"
      by (simp add: take_update_swap list_update_beyond)
    also have "\<dots> = (map Some (butlast es))[?n := Some (es ! ?l)]" by (simp only: tl)
    also have "\<dots> = map Some (remove_elem es ?n)"
      using found(3) False by (simp add: remove_elem_def last map_update butlast_list_update)
    finally show ?thesis
      using that [of "(a_data a)[?n := Some (es ! ?l), ?l := None]" "(a_sorted a)[p := Some ?n]"]
        found(1,3) used cells(1) False ld p(1) s
      by (simp add: array_extract_element_def Let_def)
  qed
  have "elem_of (remove_elem es ?n) = (elem_of es)(lkey (cstr key) := None)"
    using elem_of_remove [OF ix found(2)] found(4) by simp
  then show ?thesis
    using arr_holds_remove [OF h found(2) dat srt] step length_remove_elem [of es ?n]
    unfolding found(5) option.case by blast
qed

section \<open>Reset and reserve\<close>

lemma array_reset_holds: "arr_holds a ixs es \<Longrightarrow> arr_holds (array_reset a) [] []"
  by (cases a) (simp add: arr_holds_def index_ok_def)

lemma unused_from_Some:
  "unused_from a t i = Some k \<Longrightarrow> i \<le> k \<and> k < a_size a \<and> (\<exists>du. cell_read (a_data a) k = Some du \<and> du_type du = t)"
proof (induction a t i rule: unused_from.induct)
  case (1 a t i)
  from "1.prems" show ?case
    by (subst (asm) unused_from.simps) (auto split: if_splits option.splits dest: "1.IH")
qed

lemma array_get_unused_element_ok:
  assumes h: "arr_holds a ixs es" and r: "array_get_unused_element a t = (a', u)"
  shows "arr_holds a' ixs es" and "u = Some du \<Longrightarrow> du_type du = t \<and> Some du \<in> set (a_data a)"
    and "Some d \<in> set (a_data a') \<Longrightarrow> Some d \<in> set (a_data a)" and "a_used a' = length es"
proof -
  have ld: "length (a_data a) = a_size a" and used: "a_used a = length es"
    and td: "take (length es) (a_data a) = map Some es"
    using h by (auto simp: arr_holds_def)
  have "arr_holds a' ixs es \<and> (\<forall>du. u = Some du \<longrightarrow> du_type du = t \<and> Some du \<in> set (a_data a)) \<and>
      (\<forall>d. Some d \<in> set (a_data a') \<longrightarrow> Some d \<in> set (a_data a)) \<and> a_used a' = length es"
  proof (cases "unused_from a t (a_used a)")
    case None
    then show ?thesis using h r used by (auto simp: array_get_unused_element_def)
  next
    case (Some i)
    from unused_from_Some [OF this] have i: "length es \<le> i" "i < a_size a"
      and du: "\<exists>du. cell_read (a_data a) i = Some du \<and> du_type du = t" using used by auto
    have a': "a' = Arr ((a_data a)[i := a_data a ! length es, length es := None])
        (a_sorted a) (length es) (a_size a) (a_unique_ndx a)" and u: "u = a_data a ! i"
      using r Some used by (auto simp: array_get_unused_element_def)
    have "take (length es) ((a_data a)[i := a_data a ! length es, length es := None]) = map Some es"
      using i(1) td by (simp add: take_update_swap list_update_beyond)
    then have "arr_holds a' ixs es" using h unfolding a' by (simp add: arr_holds_def)
    moreover have "u = Some du \<Longrightarrow> du_type du = t \<and> Some du \<in> set (a_data a)" for du
      using u du i(2) ld nth_mem [of i "a_data a"] by (auto simp: cell_read_def split: if_splits)
    moreover have "Some d \<in> set (a_data a)" if "Some d \<in> set (a_data a')" for d
    proof -
      have "Some d \<in> insert None (insert (a_data a ! length es) (set (a_data a)))"
        using that set_update_subset_insert [of "(a_data a)[i := a_data a ! length es]" "length es" None]
          set_update_subset_insert [of "a_data a" i "a_data a ! length es"] by (auto simp: a')
      moreover have "a_data a ! length es \<in> set (a_data a)" using i ld by simp
      ultimately show ?thesis by auto
    qed
    ultimately show ?thesis by (simp add: a')
  qed
  then show "arr_holds a' ixs es" and "u = Some du \<Longrightarrow> du_type du = t \<and> Some du \<in> set (a_data a)"
    and "Some d \<in> set (a_data a') \<Longrightarrow> Some d \<in> set (a_data a)" and "a_used a' = length es"
    by auto
qed

text \<open>The cells of an array after an insertion or an update hold no new element but the given one.\<close>

lemma array_insert_unique_cells:
  assumes h: "arr_holds a ixs es" and k: "du_key e = Some k" "\<not> du_is_index_key e"
    and max: "length es + 1 \<le> SSIZE_MAX" and none: "elem_of es (ekey e) = None"
  obtains a' ixs' where "array_insert_unique a e = Some a'" "arr_holds a' ixs' (es @ [e])"
    and "\<And>d. Some d \<in> set (a_data a') \<Longrightarrow> d = e \<or> Some d \<in> set (a_data a)"
    and "a_used a' = length es + 1"
proof -
  have n: "array_name_entry a e = Some (a, e)" using k by (simp add: array_name_entry_def)
  from array_insert_unique_new [OF h n max none] obtain a' ixs' where
    a': "array_insert_unique a e = Some a'" "arr_holds a' ixs' (es @ [e])" by blast
  have "Some d \<in> set (a_data a') \<Longrightarrow> d = e \<or> Some d \<in> set (a_data a)" for d
    using h
  proof (cases rule: array_get_index_cases [of a ixs es "bstr (du_key e)"])
    case (found pos)
    then show ?thesis using none by (simp add: ekey_def)
  next
    case (absent pos)
    have "a_data a' = (a_data (array_grow a))[a_used (array_grow a) := Some e]"
      using a'(1) n absent(1)
      by (auto simp: array_insert_unique_def array_find_or_insert_def Let_def bind_eq_Some_conv)
    then have "set (a_data a') \<subseteq> insert (Some e) (set (a_data (array_grow a)))"
      by (simp add: set_update_subset_insert)
    moreover have "set (a_data (array_grow a)) \<subseteq> insert None (set (a_data a))"
      by (auto simp: array_grow_def)
    ultimately show "Some d \<in> set (a_data a') \<Longrightarrow> d = e \<or> Some d \<in> set (a_data a)" by auto
  qed
  then show ?thesis using that a' by (auto simp: arr_holds_def)
qed

section \<open>Guarantees\<close>

text \<open>The keys of a list of elements, for concrete arrays.\<close>

definition dstring :: "string \<Rightarrow> string \<Rightarrow> data_unset" where
  "dstring k v = Data_Unset (Some k) False (DString (Some v) False)"

text \<open>An array holding one such element.\<close>

definition one_string :: "string \<Rightarrow> string \<Rightarrow> arr" where
  "one_string k v = Arr [Some (dstring k v)] [Some 0] 1 1 0"

lemma one_string_ok: "arr_ok (one_string k v)" and one_string_list: "arr_list (one_string k v) = [dstring k v]"
proof -
  have "arr_holds (one_string k v) [0] [dstring k v]"
    by (auto simp: arr_holds_def one_string_def index_ok_def SSIZE_MAX_def)
  then show "arr_ok (one_string k v)" "arr_list (one_string k v) = [dstring k v]"
    by (auto dest: arr_okI)
qed

lemma one_string_get:
  "array_get_element (one_string k v) k' = Some (if lkey k = lkey (cstr k') then Some (dstring k v) else None)"
proof -
  obtain ixs where "arr_holds (one_string k v) ixs [dstring k v]"
    using one_string_ok [of k v] one_string_list [of k v] by (auto simp: arr_ok_def)
  from array_get_element_ok [OF this, of k'] show ?thesis
    by (simp add: elem_of_def ekey_def bstr_def dstring_def)
qed

text \<open>C24: Inserting an element under a key the array does not hold keeps the sorted index valid,
  adds the element behind the others, and the binary search then finds it under its own key and
  everything else as before.\<close>

theorem array_insert_then_get:
  assumes "arr_ok a" and "a_used a < SSIZE_MAX" and "du_key e = Some k" and "\<not> du_is_index_key e"
    and "NUL \<notin> set k" and "array_get_element a k = Some None"
  shows "\<exists>a'. array_insert_unique a e = Some a' \<and> arr_ok a' \<and> arr_list a' = arr_list a @ [e] \<and>
    (\<forall>k'. array_get_element a' k' =
       (if lkey (cstr k') = lkey k then Some (Some e) else array_get_element a k'))"
proof -
  from assms(1) obtain ixs where h: "arr_holds a ixs (arr_list a)" by (auto simp: arr_ok_def)
  have e: "ekey e = lkey k" by (simp add: ekey_def assms(3) bstr_def)
  have none: "elem_of (arr_list a) (ekey e) = None"
    using array_get_element_ok [OF h, of k] assms(5,6) e by simp
  have "length (arr_list a) + 1 \<le> SSIZE_MAX" using assms(2) h by (simp add: arr_holds_def)
  from array_insert_unique_new [OF h array_name_entry_keyed [OF assms(3,4)] this none]
  obtain a' ixs' where a': "array_insert_unique a e = Some a'" "arr_holds a' ixs' (arr_list a @ [e])"
    by blast
  have "array_get_element a' k' =
      (if lkey (cstr k') = lkey k then Some (Some e) else array_get_element a k')" for k'
    using array_get_element_ok [OF a'(2), of k'] array_get_element_ok [OF h, of k'] elem_of_snoc [OF none] e
    by simp
  then show ?thesis using a'(1) arr_okI [OF a'(2)] by blast
qed

theorem array_insert_then_get_witness:
  "\<exists>a'. array_insert_unique (one_string ''Host'' ''a'') (dstring ''Via'' ''b'') = Some a' \<and>
     array_get_element a' ''VIA'' = Some (Some (dstring ''Via'' ''b'')) \<and>
     array_get_element a' ''HOST'' = Some (Some (dstring ''Host'' ''a''))"
proof -
  have "array_get_element (one_string ''Host'' ''a'') ''Via'' = Some None"
    by (simp add: one_string_get cstr_def NUL_def lkey_def fold_case_def)
  moreover have "a_used (one_string ''Host'' ''a'') < SSIZE_MAX"
    by (simp add: one_string_def SSIZE_MAX_def)
  ultimately obtain a' where
    "array_insert_unique (one_string ''Host'' ''a'') (dstring ''Via'' ''b'') = Some a'"
    "\<forall>k'. array_get_element a' k' = (if lkey (cstr k') = lkey ''Via'' then Some (Some (dstring ''Via'' ''b''))
       else array_get_element (one_string ''Host'' ''a'') k')"
    using array_insert_then_get [OF one_string_ok, of "''Host''" "''a''" "dstring ''Via'' ''b''" "''Via''"]
    by (auto simp: dstring_def NUL_def)
  then show ?thesis by (simp add: one_string_get cstr_def NUL_def lkey_def fold_case_def)
qed

text \<open>C26: Removing a key returns the element stored under it (or nothing), leaves a valid index,
  and afterwards the key is absent while every other lookup is unchanged.\<close>

theorem array_extract_then_get:
  assumes "arr_ok a" and "array_get_element a k = Some (Some e)"
  shows "\<exists>a'. array_extract_element a k = Some (a', Some e) \<and> arr_ok a' \<and>
    length (arr_list a') = length (arr_list a) - 1 \<and>
    (\<forall>k'. array_get_element a' k' =
       (if lkey (cstr k') = lkey (cstr k) then Some None else array_get_element a k'))"
proof -
  from assms(1) obtain ixs where h: "arr_holds a ixs (arr_list a)" by (auto simp: arr_ok_def)
  have "elem_of (arr_list a) (lkey (cstr k)) = Some e"
    using array_get_element_ok [OF h, of k] assms(2) by simp
  with array_extract_element_ok [OF h, of k] obtain a' ixs' es' where
    a': "array_extract_element a k = Some (a', Some e)" "arr_holds a' ixs' es'"
    "elem_of es' = (elem_of (arr_list a))(lkey (cstr k) := None)" "length es' = length (arr_list a) - 1"
    by auto
  then show ?thesis
    using array_get_element_ok [OF a'(2)] array_get_element_ok [OF h] arr_okI [OF a'(2)] by auto
qed

theorem array_extract_then_get_witness:
  "\<exists>a'. array_extract_element (one_string ''Host'' ''a'') ''host'' = Some (a', Some (dstring ''Host'' ''a'')) \<and>
     array_get_element a' ''Host'' = Some None"
proof -
  have "lkey ''Host'' = lkey (cstr ''host'')" "lkey (cstr ''Host'') = lkey (cstr ''host'')"
    by (simp_all add: cstr_def NUL_def lkey_def fold_case_def)
  then show ?thesis
    using array_extract_then_get [OF one_string_ok, of "''Host''" "''a''" "''host''" "dstring ''Host'' ''a''"]
    by (auto simp: one_string_get)
qed

text \<open>Replacing an element, by an entry with a key of its own, makes every lookup of that key
  return the new entry and leaves all others alone, whether or not the key was there.\<close>

theorem array_replace_then_get:
  assumes "arr_ok a" and "a_used a < SSIZE_MAX" and "du_key e = Some k" and "\<not> du_is_index_key e"
  shows "\<exists>a'. array_replace a e = Some a' \<and> arr_ok a' \<and>
    (\<forall>k'. array_get_element a' k' =
       (if lkey (cstr k') = lkey k then Some (Some e) else array_get_element a k'))"
proof -
  from assms(1) obtain ixs where h: "arr_holds a ixs (arr_list a)" by (auto simp: arr_ok_def)
  have e: "ekey e = lkey k" by (simp add: ekey_def assms(3) bstr_def)
  have "length (arr_list a) + 1 \<le> SSIZE_MAX" using assms(2) h by (simp add: arr_holds_def)
  from array_replace_ok [OF h array_name_entry_keyed [OF assms(3,4)] this] obtain a' ixs' es' where
    a': "array_replace a e = Some a'" "arr_holds a' ixs' es'"
    "elem_of es' = (elem_of (arr_list a))(ekey e \<mapsto> e)" by blast
  then show ?thesis
    using array_get_element_ok [OF a'(2)] array_get_element_ok [OF h] arr_okI [OF a'(2)] e by auto
qed

theorem array_replace_then_get_witness:
  "\<exists>a'. array_replace (one_string ''Host'' ''a'') (dstring ''HOST'' ''b'') = Some a' \<and>
     array_get_element a' ''host'' = Some (Some (dstring ''HOST'' ''b''))"
proof -
  have "lkey (cstr ''host'') = lkey ''HOST''"
    by (simp add: cstr_def NUL_def lkey_def fold_case_def)
  moreover have "a_used (one_string ''Host'' ''a'') < SSIZE_MAX"
    by (simp add: one_string_def SSIZE_MAX_def)
  ultimately show ?thesis
    using array_replace_then_get [OF one_string_ok, of "''Host''" "''a''" "dstring ''HOST'' ''b''" "''HOST''"]
    by (auto simp: dstring_def)
qed

end
