(* ===== verification/Store.thy ===== *)
theory Store
  imports Array_Inv
begin

text \<open>
  Sorted arrays as key-value stores. The interface \<open>keyed_store\<close> states what the users of
  an array rely on: what a lookup returns after a store under a caselessly compared key. The
  string arrays (\<open>array_set_key_value\<close>) and the status counters (\<open>status_counter.c\<close>) provide it.
\<close>

section \<open>The interface\<close>

locale keyed_store =
  fixes ok :: "'s \<Rightarrow> bool" and look :: "'s \<Rightarrow> 'k \<Rightarrow> 'v option"
    and get :: "'s \<Rightarrow> string \<Rightarrow> 'v option option" and put :: "'s \<Rightarrow> string \<Rightarrow> 'v \<Rightarrow> 's option"
    and key_of :: "string \<Rightarrow> 'k" and valid :: "string \<Rightarrow> bool" and fill :: "'s \<Rightarrow> nat" and cap :: nat
  assumes get_ok: "ok s \<Longrightarrow> valid k \<Longrightarrow> get s k = Some (look s (key_of k))"
    and put_ok: "ok s \<Longrightarrow> valid k \<Longrightarrow> fill s < cap \<Longrightarrow>
      \<exists>s'. put s k v = Some s' \<and> ok s' \<and> look s' = (look s)(key_of k \<mapsto> v) \<and> fill s' \<le> fill s + 1"
begin

lemma get_put:
  assumes "ok s" and "valid k" and "valid k'" and "fill s < cap"
  shows "\<exists>s'. put s k v = Some s' \<and> ok s' \<and>
    get s' k' = (if key_of k' = key_of k then Some (Some v) else get s k')"
proof -
  obtain s' where "put s k v = Some s'" "ok s'" "look s' = (look s)(key_of k \<mapsto> v)"
    using put_ok [OF assms(1,2,4)] by blast
  then show ?thesis using get_ok assms(1,3) by auto
qed

primrec put_all :: "'s \<Rightarrow> (string \<times> 'v) list \<Rightarrow> 's option" where
  "put_all s [] = Some s"
| "put_all s (kv # kvs) = Option.bind (put s (fst kv) (snd kv)) (\<lambda>s. put_all s kvs)"

lemma put_all_ok:
  assumes "ok s" and "\<forall>(k, v) \<in> set kvs. valid k" and "fill s + length kvs \<le> cap"
  shows "\<exists>s'. put_all s kvs = Some s' \<and> ok s' \<and>
    look s' = look s ++ map_of (rev (map (\<lambda>(k, v). (key_of k, v)) kvs))"
  using assms
proof (induction kvs arbitrary: s)
  case (Cons kv kvs)
  obtain k v where kv: "kv = (k, v)" by (cases kv)
  have "valid k" "fill s < cap" using Cons.prems kv by auto
  then obtain s1 where s1: "put s k v = Some s1" "ok s1" "look s1 = (look s)(key_of k \<mapsto> v)"
    "fill s1 \<le> fill s + 1"
    using put_ok [OF Cons.prems(1)] by blast
  have "\<forall>(k, v) \<in> set kvs. valid k" "fill s1 + length kvs \<le> cap"
    using Cons.prems s1(4) by auto
  from Cons.IH [OF s1(2) this] obtain s' where s': "put_all s1 kvs = Some s'" "ok s'"
    "look s' = look s1 ++ map_of (rev (map (\<lambda>(k, v). (key_of k, v)) kvs))" by blast
  have "look s ++ map_of (rev (map (\<lambda>(k, v). (key_of k, v)) (kv # kvs)))
      = (look s ++ [key_of k \<mapsto> v]) ++ map_of (rev (map (\<lambda>(k, v). (key_of k, v)) kvs))"
    by (simp only: kv map_add_assoc list.map prod.case rev.simps map_of_append map_of.simps fst_conv snd_conv)
  also have "\<dots> = look s'" by (simp only: s'(3) s1(3) map_add_upd map_add_empty)
  finally show ?case using s1(1) s'(1,2) kv by simp
qed simp

end

section \<open>Arrays whose elements have given keys and one type\<close>

definition arr_of :: "(payload \<Rightarrow> bool) \<Rightarrow> arr \<Rightarrow> bool" where
  "arr_of P a \<longleftrightarrow> (\<forall>d. Some d \<in> set (a_data a) \<longrightarrow> \<not> du_is_index_key d \<and> P (du_payload d))"

definition is_dstring :: "payload \<Rightarrow> bool" where
  "is_dstring p \<longleftrightarrow> payload_type p = TYPE_STRING"

definition is_dinteger :: "payload \<Rightarrow> bool" where
  "is_dinteger p \<longleftrightarrow> payload_type p = TYPE_INTEGER"

lemma is_dstringE: "is_dstring p \<Longrightarrow> (\<And>v r. p = DString v r \<Longrightarrow> thesis) \<Longrightarrow> thesis"
  by (cases p) (auto simp: is_dstring_def)

lemma is_dintegerE: "is_dinteger p \<Longrightarrow> (\<And>n. p = DInteger n \<Longrightarrow> thesis) \<Longrightarrow> thesis"
  by (cases p) (auto simp: is_dinteger_def)

lemma arr_of_elem: "arr_of P a \<Longrightarrow> cell_read (a_data a) i = Some d \<Longrightarrow> \<not> du_is_index_key d \<and> P (du_payload d)"
  using nth_mem [of i "a_data a"] by (fastforce simp: arr_of_def cell_read_def split: if_splits)

lemma arr_of_update:
  "arr_of P a \<Longrightarrow> \<not> du_is_index_key e \<Longrightarrow> P (du_payload e) \<Longrightarrow>
     arr_of P (Arr ((a_data a)[n := Some e]) srt used sz un)"
  using set_update_subset_insert [of "a_data a" n "Some e"] by (auto simp: arr_of_def)

definition store_ok :: "(payload \<Rightarrow> bool) \<Rightarrow> arr \<Rightarrow> bool" where
  "store_ok P a \<longleftrightarrow> arr_ok a \<and> arr_of P a"

definition store_look :: "(payload \<Rightarrow> 'v) \<Rightarrow> arr \<Rightarrow> nat list \<Rightarrow> 'v option" where
  "store_look f a k = map_option (\<lambda>d. f (du_payload d)) (elem_of (arr_list a) k)"

definition store_get :: "(payload \<Rightarrow> 'v) \<Rightarrow> arr \<Rightarrow> string \<Rightarrow> 'v option option" where
  "store_get f a k = map_option (map_option (\<lambda>d. f (du_payload d))) (array_get_element a k)"

lemma store_get_ok: "store_ok P a \<Longrightarrow> NUL \<notin> set k \<Longrightarrow> store_get f a k = Some (store_look f a (lkey k))"
  by (auto simp: store_ok_def arr_ok_def store_get_def store_look_def array_get_element_ok)

lemma store_okE:
  assumes "store_ok P a"
  obtains ixs where "arr_holds a ixs (arr_list a)" "arr_of P a" "index_ok ixs (arr_list a)"
  using assms by (auto simp: store_ok_def arr_ok_def arr_holds_def)

text \<open>Writing a payload under a key that is there, and under one that is not.\<close>

lemma store_update:
  assumes ok: "store_ok P a" and n: "n < length (arr_list a)" and k: "ekey (arr_list a ! n) = lkey key"
    and p: "P p" and d: "d = arr_list a ! n"
  shows "store_ok P (Arr ((a_data a)[n := Some (Data_Unset (du_key d) (du_is_index_key d) p)])
       (a_sorted a) (a_used a) (a_size a) (a_unique_ndx a)) \<and>
    store_look f (Arr ((a_data a)[n := Some (Data_Unset (du_key d) (du_is_index_key d) p)])
       (a_sorted a) (a_used a) (a_size a) (a_unique_ndx a)) = (store_look f a)(lkey key \<mapsto> f p)"
proof -
  from ok obtain ixs where h: "arr_holds a ixs (arr_list a)" and of: "arr_of P a"
    and ix: "index_ok ixs (arr_list a)" by (rule store_okE)
  let ?e = "Data_Unset (du_key d) (du_is_index_key d) p"
  have e: "ekey ?e = ekey (arr_list a ! n)" "\<not> du_is_index_key d"
    using arr_of_elem [OF of arr_holds_cells(1) [OF h n]] by (auto simp: ekey_def d)
  note h' = arr_holds_update [OF h n e(1)]
  have "arr_of P (Arr ((a_data a)[n := Some ?e]) (a_sorted a) (a_used a) (a_size a) (a_unique_ndx a))"
    using e(2) p by (intro arr_of_update [OF of]) auto
  then show ?thesis
    using arr_okI [OF h'] elem_of_update [OF ix n e(1)] k
    by (auto simp: store_ok_def store_look_def fun_eq_iff e(1) [symmetric])
qed

lemma store_insert:
  assumes h: "arr_holds a ixs es" and of: "arr_of P a" and none: "elem_of es (lkey key) = None"
    and max: "length es + 1 \<le> SSIZE_MAX" and p: "P p"
  obtains a' ixs' where "array_insert_unique a (Data_Unset (Some key) False p) = Some a'"
    and "arr_holds a' ixs' (es @ [Data_Unset (Some key) False p])" and "store_ok P a'"
    and "store_look f a' = (store_look f a)(lkey key \<mapsto> f p)" and "a_used a' = length es + 1"
proof -
  let ?e = "Data_Unset (Some key) False p"
  have e: "ekey ?e = lkey key" by (simp add: ekey_def)
  have key: "du_key ?e = Some key" "\<not> du_is_index_key ?e" by simp_all
  have "elem_of es (ekey ?e) = None" using none by (simp add: e)
  from array_insert_unique_cells [OF h key max this] obtain a' ixs' where
    a': "array_insert_unique a ?e = Some a'" "arr_holds a' ixs' (es @ [?e])"
    and cells: "\<And>d. Some d \<in> set (a_data a') \<Longrightarrow> d = ?e \<or> Some d \<in> set (a_data a)"
    and used: "a_used a' = length es + 1"
    by blast
  have "arr_of P a'" using of cells p by (fastforce simp: arr_of_def)
  then have "store_ok P a'" using arr_okI [OF a'(2)] by (simp add: store_ok_def)
  moreover have "store_look f a' = (store_look f a)(lkey key \<mapsto> f p)"
    using elem_of_snoc [of es ?e] none arr_holds_list [OF a'(2)] arr_holds_list [OF h]
    by (auto simp: store_look_def fun_eq_iff e)
  ultimately show ?thesis using that a' used by blast
qed

section \<open>String arrays\<close>

definition dstr :: "payload \<Rightarrow> string" where
  "dstr p = bstr (case p of DString v r \<Rightarrow> v | _ \<Rightarrow> None)"

lemma array_set_key_value_ok:
  assumes ok: "store_ok is_dstring a" and k: "NUL \<notin> set key" and max: "a_used a < SSIZE_MAX"
  shows "\<exists>a'. array_set_key_value a key v = Some a' \<and> store_ok is_dstring a' \<and>
    store_look dstr a' = (store_look dstr a)(lkey key \<mapsto> v) \<and> a_used a' \<le> a_used a + 1"
proof -
  from ok obtain ixs where h: "arr_holds a ixs (arr_list a)" and of: "arr_of is_dstring a"
    and ix: "index_ok ixs (arr_list a)" by (rule store_okE)
  have used: "a_used a = length (arr_list a)" using h by (simp add: arr_holds_def)
  show ?thesis
    using h
  proof (cases rule: array_get_index_cases [of a ixs "arr_list a" key])
    case (found pos)
    let ?n = "ixs ! pos"
    obtain w r where p: "du_payload (arr_list a ! ?n) = DString w r"
      using arr_of_elem [OF of arr_holds_cells(1) [OF h found(3)]] by (auto elim: is_dstringE)
    have "is_dstring (DString (Some v) r)" by (simp add: is_dstring_def)
    from store_update [OF ok found(3,4) this refl, of dstr]
    show ?thesis
      using found(1) k p arr_holds_cells(1) [OF h found(3)] by (simp add: array_set_key_value_def dstr_def)
  next
    case (absent pos)
    obtain a1 u where u: "array_get_unused_element a TYPE_STRING = (a1, u)" by (meson surj_pair)
    note un = array_get_unused_element_ok [OF h u]
    have of1: "arr_of is_dstring a1" using of un(3) by (auto simp: arr_of_def)
    define ds where "ds = (case u of None \<Rightarrow> data_string_init | Some du \<Rightarrow> du)"
    have "\<not> du_is_index_key ds \<and> is_dstring (du_payload ds)"
      using un(2) of by (auto simp: ds_def data_string_init_def is_dstring_def arr_of_def split: option.splits)
    then obtain w r where ds: "\<not> du_is_index_key ds" "du_payload ds = DString w r"
      by (auto elim: is_dstringE)
    have P: "is_dstring (DString (Some v) r)" by (simp add: is_dstring_def)
    have "length (arr_list a) + 1 \<le> SSIZE_MAX" using max used by simp
    from store_insert [OF un(1) of1 absent(4) this P, of dstr] obtain a' where
      a': "array_insert_unique a1 (Data_Unset (Some key) False (DString (Some v) r)) = Some a'"
      "store_ok is_dstring a'" "store_look dstr a' = (store_look dstr a1)(lkey key \<mapsto> dstr (DString (Some v) r))"
      "a_used a' = length (arr_list a) + 1"
      by blast
    have "store_look dstr a1 = store_look dstr a"
      using arr_holds_list [OF un(1)] by (simp add: store_look_def fun_eq_iff)
    then show ?thesis
      using a' absent(1) k u ds used
      by (simp add: array_set_key_value_def ds_def [symmetric] dstr_def)
  qed
qed

interpretation strings: keyed_store "store_ok is_dstring" "store_look dstr" "store_get dstr"
  array_set_key_value lkey "\<lambda>k. NUL \<notin> set k" a_used SSIZE_MAX
  by unfold_locales (rule store_get_ok, assumption+, rule array_set_key_value_ok)

section \<open>Status counters\<close>

definition INT_MAX :: int where
  "INT_MAX = 2 ^ 31 - 1"

text \<open>
  The returned pointer is the element's cell. A freshly inserted counter is the last element;
  had the insertion merged it into another, it would have been freed.
\<close>

definition status_counter_get_counter :: "arr \<Rightarrow> string \<Rightarrow> (arr \<times> nat) option" where
  "status_counter_get_counter status s = do {
     (found, _) \<leftarrow> array_get_index status (cstr s);
     case found of
       Some ndx \<Rightarrow> Some (status, ndx)
     | None \<Rightarrow> do {
         let (status, unused) = array_get_unused_element status TYPE_INTEGER;
         let di = (case unused of None \<Rightarrow> data_integer_init | Some du \<Rightarrow> du);
         status' \<leftarrow> array_insert_unique status (Data_Unset (Some s) (du_is_index_key di) (DInteger 0));
         force_assert (a_used status' = a_used status + 1);
         Some (status', a_used status)
       }
   }"

definition status_counter_write :: "arr \<Rightarrow> nat \<Rightarrow> (int \<Rightarrow> int option) \<Rightarrow> arr option" where
  "status_counter_write status ndx f = do {
     du \<leftarrow> cell_read (a_data status) ndx;
     case du_payload du of
       DInteger v \<Rightarrow> do {
         v \<leftarrow> f v;
         Some (Arr ((a_data status)[ndx := Some (Data_Unset (du_key du) (du_is_index_key du) (DInteger v))])
                 (a_sorted status) (a_used status) (a_size status) (a_unique_ndx status))
       }
     | _ \<Rightarrow> None
   }"

text \<open>\<open>di->value++\<close> is undefined at \<open>INT_MAX\<close>.\<close>

definition status_counter_inc :: "arr \<Rightarrow> string \<Rightarrow> arr option" where
  "status_counter_inc status s = do {
     (status, di) \<leftarrow> status_counter_get_counter status s;
     status_counter_write status di (\<lambda>v. if v < INT_MAX then Some (v + 1) else None)
   }"

definition status_counter_dec :: "arr \<Rightarrow> string \<Rightarrow> arr option" where
  "status_counter_dec status s = do {
     (status, di) \<leftarrow> status_counter_get_counter status s;
     status_counter_write status di (\<lambda>v. Some (if v > 0 then v - 1 else v))
   }"

definition status_counter_set :: "arr \<Rightarrow> string \<Rightarrow> int \<Rightarrow> arr option" where
  "status_counter_set status s v = do {
     (status, di) \<leftarrow> status_counter_get_counter status s;
     status_counter_write status di (\<lambda>_. Some v)
   }"

definition dint :: "payload \<Rightarrow> int" where
  "dint p = (case p of DInteger n \<Rightarrow> n | _ \<Rightarrow> 0)"

text \<open>A counter that was never touched counts from zero.\<close>

definition counter_val :: "arr \<Rightarrow> string \<Rightarrow> int" where
  "counter_val status s = (case store_look dint status (lkey s) of None \<Rightarrow> 0 | Some v \<Rightarrow> v)"

lemma status_counter_get_counter_ok:
  assumes ok: "store_ok is_dinteger a" and k: "NUL \<notin> set s" and max: "a_used a < SSIZE_MAX"
  shows "\<exists>a' n. status_counter_get_counter a s = Some (a', n) \<and> store_ok is_dinteger a' \<and>
    n < length (arr_list a') \<and> ekey (arr_list a' ! n) = lkey s \<and>
    du_payload (arr_list a' ! n) = DInteger (counter_val a s) \<and>
    store_look dint a' = (store_look dint a)(lkey s \<mapsto> counter_val a s) \<and> a_used a' \<le> a_used a + 1"
proof -
  from ok obtain ixs where h: "arr_holds a ixs (arr_list a)" and of: "arr_of is_dinteger a"
    and ix: "index_ok ixs (arr_list a)" by (rule store_okE)
  have used: "a_used a = length (arr_list a)" using h by (simp add: arr_holds_def)
  show ?thesis
    using h
  proof (cases rule: array_get_index_cases [of a ixs "arr_list a" s])
    case (found pos)
    let ?n = "ixs ! pos"
    obtain v where p: "du_payload (arr_list a ! ?n) = DInteger v"
      using arr_of_elem [OF of arr_holds_cells(1) [OF h found(3)]] by (auto elim: is_dintegerE)
    then have "store_look dint a (lkey s) = Some v" using found(5) by (simp add: store_look_def dint_def)
    then show ?thesis
      using found k p ok by (auto simp: status_counter_get_counter_def counter_val_def fun_eq_iff)
  next
    case (absent pos)
    obtain a1 u where u: "array_get_unused_element a TYPE_INTEGER = (a1, u)" by (meson surj_pair)
    note un = array_get_unused_element_ok [OF h u]
    have of1: "arr_of is_dinteger a1" using of un(3) by (auto simp: arr_of_def)
    define di where "di = (case u of None \<Rightarrow> data_integer_init | Some du \<Rightarrow> du)"
    have di: "\<not> du_is_index_key di"
      using un(2) of by (auto simp: di_def data_integer_init_def arr_of_def split: option.splits)
    have P: "is_dinteger (DInteger 0)" by (simp add: is_dinteger_def)
    have "length (arr_list a) + 1 \<le> SSIZE_MAX" using max used by simp
    from store_insert [OF un(1) of1 absent(4) this P, of dint] obtain a' ixs' where
      a': "array_insert_unique a1 (Data_Unset (Some s) False (DInteger 0)) = Some a'"
      "arr_holds a' ixs' (arr_list a @ [Data_Unset (Some s) False (DInteger 0)])"
      "store_ok is_dinteger a'" "store_look dint a' = (store_look dint a1)(lkey s \<mapsto> dint (DInteger 0))"
      "a_used a' = length (arr_list a) + 1"
      by blast
    have "store_look dint a1 = store_look dint a"
      using arr_holds_list [OF un(1)] by (simp add: store_look_def fun_eq_iff)
    moreover have "counter_val a s = 0" using absent(4) by (simp add: counter_val_def store_look_def)
    ultimately show ?thesis
      using a' absent(1) k u di used un(4) arr_holds_list [OF a'(2)]
      by (auto simp: status_counter_get_counter_def di_def [symmetric] dint_def ekey_def)
  qed
qed

lemma status_counter_write_ok:
  assumes ok: "store_ok is_dinteger a" and n: "n < length (arr_list a)" "ekey (arr_list a ! n) = lkey s"
    and v: "du_payload (arr_list a ! n) = DInteger v" and f: "f v = Some w"
  shows "\<exists>a'. status_counter_write a n f = Some a' \<and> store_ok is_dinteger a' \<and>
    store_look dint a' = (store_look dint a)(lkey s \<mapsto> w) \<and> a_used a' = a_used a"
proof -
  from ok obtain ixs where h: "arr_holds a ixs (arr_list a)" by (rule store_okE)
  have "is_dinteger (DInteger w)" by (simp add: is_dinteger_def)
  from store_update [OF ok n this refl, of dint]
  show ?thesis
    using arr_holds_cells(1) [OF h n(1)] v f by (simp add: status_counter_write_def dint_def)
qed

lemma status_counter_upd_ok:
  assumes ok: "store_ok is_dinteger a" and k: "NUL \<notin> set s" and max: "a_used a < SSIZE_MAX"
    and f: "f (counter_val a s) = Some w"
  shows "\<exists>a'. do { (status, di) \<leftarrow> status_counter_get_counter a s; status_counter_write status di f } = Some a' \<and>
    store_ok is_dinteger a' \<and> store_look dint a' = (store_look dint a)(lkey s \<mapsto> w) \<and>
    a_used a' \<le> a_used a + 1"
proof -
  obtain a1 n where 1: "status_counter_get_counter a s = Some (a1, n)" "store_ok is_dinteger a1"
    "n < length (arr_list a1)" "ekey (arr_list a1 ! n) = lkey s"
    "du_payload (arr_list a1 ! n) = DInteger (counter_val a s)"
    "store_look dint a1 = (store_look dint a)(lkey s \<mapsto> counter_val a s)" "a_used a1 \<le> a_used a + 1"
    using status_counter_get_counter_ok [OF ok k max] by blast
  from status_counter_write_ok [OF 1(2-5), of f, OF f] obtain a' where
    "status_counter_write a1 n f = Some a'" "store_ok is_dinteger a'"
    "store_look dint a' = (store_look dint a1)(lkey s \<mapsto> w)" "a_used a' = a_used a1" by blast
  then show ?thesis using 1(1,6,7) by simp
qed

interpretation counters: keyed_store "store_ok is_dinteger" "store_look dint" "store_get dint"
  status_counter_set lkey "\<lambda>k. NUL \<notin> set k" a_used SSIZE_MAX
  unfolding status_counter_set_def
  by unfold_locales (rule store_get_ok, assumption+, rule status_counter_upd_ok, assumption+, rule refl)

section \<open>Guarantees\<close>

text \<open>C30: Setting header fields one after the other gives an array in which each name, compared
  without case, has the value it was set to last.\<close>

theorem array_set_key_value_run:
  assumes "store_ok is_dstring a" and "\<forall>(k, v) \<in> set kvs. NUL \<notin> set k"
    and "a_used a + length kvs \<le> SSIZE_MAX"
  shows "\<exists>a'. foldl (\<lambda>r (k, v). Option.bind r (\<lambda>a. array_set_key_value a k v)) (Some a) kvs = Some a' \<and>
    store_ok is_dstring a' \<and>
    store_look dstr a' = store_look dstr a ++ map_of (rev (map (\<lambda>(k, v). (lkey k, v)) kvs))"
proof -
  have *: "foldl (\<lambda>r (k, v). Option.bind r (\<lambda>a. array_set_key_value a k v)) r kvs =
      Option.bind r (\<lambda>a. strings.put_all a kvs)" for r
    by (induction kvs arbitrary: r) (auto simp: Option.bind_assoc)
  show ?thesis using strings.put_all_ok [OF assms] by (simp add: *)
qed

theorem array_set_key_value_run_witness:
  "\<exists>a'. foldl (\<lambda>r (k, v). Option.bind r (\<lambda>a. array_set_key_value a k v)) (Some array_init)
      [(''Host'', ''a''), (''Via'', ''b''), (''HOST'', ''c'')] = Some a' \<and>
    store_look dstr a' (lkey ''host'') = Some ''c'' \<and> store_look dstr a' (lkey ''via'') = Some ''b''"
proof -
  have ok: "store_ok is_dstring array_init"
    using array_init_holds by (auto simp: store_ok_def arr_of_def array_init_def dest: arr_okI)
  obtain a' where a': "foldl (\<lambda>r (k, v). Option.bind r (\<lambda>a. array_set_key_value a k v)) (Some array_init)
      [(''Host'', ''a''), (''Via'', ''b''), (''HOST'', ''c'')] = Some a'"
    "store_look dstr a' = store_look dstr array_init ++
      map_of (rev (map (\<lambda>(k, v). (lkey k, v)) [(''Host'', ''a''), (''Via'', ''b''), (''HOST'', ''c'')]))"
    using array_set_key_value_run [OF ok, of "[(''Host'', ''a''), (''Via'', ''b''), (''HOST'', ''c'')]"]
    by (auto simp: NUL_def array_init_def SSIZE_MAX_def)
  have "store_look dstr a' (lkey ''host'') = Some ''c''" "store_look dstr a' (lkey ''via'') = Some ''b''"
    by (simp_all add: a'(2) fold_case_def)
  with a'(1) show ?thesis by blast
qed

text \<open>Incrementing a status counter adds one to it, starting from zero for a counter that was
  never touched, as long as it does not overflow an \<open>int\<close>; decrementing subtracts one but never
  goes below zero; no other counter changes.\<close>

theorem status_counter_inc_dec:
  assumes "store_ok is_dinteger a" and "NUL \<notin> set s" and "a_used a < SSIZE_MAX"
    and "0 \<le> counter_val a s" and "counter_val a s < INT_MAX"
  shows "\<exists>a1 a2. status_counter_inc a s = Some a1 \<and> store_ok is_dinteger a1 \<and>
    (\<forall>k. counter_val a1 k = (if lkey k = lkey s then counter_val a s + 1 else counter_val a k)) \<and>
    status_counter_dec a s = Some a2 \<and> store_ok is_dinteger a2 \<and>
    (\<forall>k. counter_val a2 k = (if lkey k = lkey s then max 0 (counter_val a s - 1) else counter_val a k))"
proof -
  note upd = status_counter_upd_ok [OF assms(1-3)]
  obtain a1 where a1: "status_counter_inc a s = Some a1" "store_ok is_dinteger a1"
    "store_look dint a1 = (store_look dint a)(lkey s \<mapsto> counter_val a s + 1)"
    using upd [of "\<lambda>v. if v < INT_MAX then Some (v + 1) else None"] assms(5)
    by (auto simp: status_counter_inc_def)
  obtain a2 where a2: "status_counter_dec a s = Some a2" "store_ok is_dinteger a2"
    "store_look dint a2 = (store_look dint a)(lkey s \<mapsto> max 0 (counter_val a s - 1))"
  proof -
    have "Some (if counter_val a s > 0 then counter_val a s - 1 else counter_val a s)
        = Some (max 0 (counter_val a s - 1))" using assms(4) by auto
    from upd [of "\<lambda>v. Some (if v > 0 then v - 1 else v)", OF this] show ?thesis
      using that unfolding status_counter_dec_def by blast
  qed
  show ?thesis
    by (intro exI [of _ a1] exI [of _ a2]) (simp add: a1 a2 counter_val_def)
qed

theorem status_counter_inc_dec_witness:
  "\<exists>a1. status_counter_inc array_init ''fastcgi.requests'' = Some a1 \<and>
    counter_val a1 ''fastcgi.requests'' = 1 \<and> counter_val a1 ''fastcgi.died'' = 0"
proof -
  have ok: "store_ok is_dinteger array_init"
    using array_init_holds by (auto simp: store_ok_def arr_of_def array_init_def dest: arr_okI)
  have zero: "counter_val array_init k = 0" for k
    by (simp add: counter_val_def store_look_def arr_list_def array_init_def elem_of_def)
  have "lkey ''fastcgi.died'' \<noteq> lkey ''fastcgi.requests''" by (simp add: lkey_def fold_case_def)
  then show ?thesis
    using status_counter_inc_dec [OF ok, of "''fastcgi.requests''"] zero
    by (auto simp: NUL_def array_init_def SSIZE_MAX_def INT_MAX_def)
qed

end
