(* ===== verification/Base64.thy ===== *)
theory Base64
  imports Buffer_Num
begin

text \<open>
  \<open>base64.c\<close>: encoding with and without padding, and the decoder that writes partial octets
  straight into the reserved space of the output buffer. Decoding what was encoded gives the
  input back in both character sets; the decoder stays inside the reserved space on every
  input.
\<close>

section \<open>Tables\<close>

datatype base64_charset = BASE64_STANDARD | BASE64_URL

definition base64_standard_table :: string where
  "base64_standard_table = ''ABCDEFGHIJKLMNOPQRSTUVWXYZabcdefghijklmnopqrstuvwxyz0123456789+/=''"

definition base64_url_table :: string where
  "base64_url_table = ''ABCDEFGHIJKLMNOPQRSTUVWXYZabcdefghijklmnopqrstuvwxyz0123456789-_.''"

definition base64_standard_reverse_table :: "int list" where
  "base64_standard_reverse_table =
     [-1, -2, -2, -2, -2, -2, -2, -2, -2, -2, -2, -2, -2, -2, -2, -2,
      -2, -2, -2, -2, -2, -2, -2, -2, -2, -2, -2, -2, -2, -2, -2, -2,
      -2, -1, -1, -1, -1, -1, -1, -1, -1, -1, -1, 62, -1, -1, -1, 63,
      52, 53, 54, 55, 56, 57, 58, 59, 60, 61, -1, -1, -1, -3, -1, -1,
      -1,  0,  1,  2,  3,  4,  5,  6,  7,  8,  9, 10, 11, 12, 13, 14,
      15, 16, 17, 18, 19, 20, 21, 22, 23, 24, 25, -1, -1, -1, -1, -1,
      -1, 26, 27, 28, 29, 30, 31, 32, 33, 34, 35, 36, 37, 38, 39, 40,
      41, 42, 43, 44, 45, 46, 47, 48, 49, 50, 51, -1, -1, -1, -1, -1]"

definition base64_url_reverse_table :: "int list" where
  "base64_url_reverse_table =
     [-1, -2, -2, -2, -2, -2, -2, -2, -2, -2, -2, -2, -2, -2, -2, -2,
      -2, -2, -2, -2, -2, -2, -2, -2, -2, -2, -2, -2, -2, -2, -2, -2,
      -2, -1, -1, -1, -1, -1, -1, -1, -1, -1, -1, -1, -1, 62, -3, -1,
      52, 53, 54, 55, 56, 57, 58, 59, 60, 61, -1, -1, -1, -1, -1, -1,
      -1,  0,  1,  2,  3,  4,  5,  6,  7,  8,  9, 10, 11, 12, 13, 14,
      15, 16, 17, 18, 19, 20, 21, 22, 23, 24, 25, -1, -1, -1, -1, 63,
      -1, 26, 27, 28, 29, 30, 31, 32, 33, 34, 35, 36, 37, 38, 39, 40,
      41, 42, 43, 44, 45, 46, 47, 48, 49, 50, 51, -1, -1, -1, -1, -1]"

fun base64_table :: "base64_charset \<Rightarrow> string" where
  "base64_table BASE64_STANDARD = base64_standard_table"
| "base64_table BASE64_URL = base64_url_table"

fun base64_reverse_table :: "base64_charset \<Rightarrow> int list" where
  "base64_reverse_table BASE64_STANDARD = base64_standard_reverse_table"
| "base64_reverse_table BASE64_URL = base64_url_reverse_table"

section \<open>Encoding\<close>

definition base64_char :: "base64_charset \<Rightarrow> nat \<Rightarrow> char" where
  "base64_char cs v = base64_table cs ! (v AND 0x3f)"

text \<open>Three octets at a time; the characters of a tuple are stored from the last to the first.\<close>

fun base64_tuples :: "base64_charset \<Rightarrow> string \<Rightarrow> string" where
  "base64_tuples cs (a # b # c # r) =
     (let v = (push_bit 16 (byte a) OR push_bit 8 (byte b)) OR byte c
      in base64_char cs (drop_bit 18 v) # base64_char cs (drop_bit 12 v) #
         base64_char cs (drop_bit 6 v) # base64_char cs v # base64_tuples cs r)"
| "base64_tuples cs [a, b] =
     (let v = push_bit 10 (byte a) OR push_bit 2 (byte b)
      in [base64_char cs (drop_bit 12 v), base64_char cs (drop_bit 6 v), base64_char cs v])"
| "base64_tuples cs [a] =
     (let v = push_bit 4 (byte a)
      in [base64_char cs (drop_bit 6 v), base64_char cs v])"
| "base64_tuples cs [] = []"

definition li_to_base64_no_padding :: "nat \<Rightarrow> string \<Rightarrow> base64_charset \<Rightarrow> string option" where
  "li_to_base64_no_padding out_length s cs = do {
     let full_tuples = length s div 3;
     let in_tuple_remainder = length s mod 3;
     let out_tuple_remainder = (if in_tuple_remainder \<noteq> 0 then 1 + in_tuple_remainder else 0);
     let require_space = uadd (umul 4 full_tuples) out_tuple_remainder;
     force_assert (full_tuples \<le> umul 2 full_tuples);
     force_assert (full_tuples \<le> umul 4 full_tuples);
     force_assert (umul 4 full_tuples \<le> uadd (umul 4 full_tuples) out_tuple_remainder);
     force_assert (require_space \<le> out_length);
     let out = base64_tuples cs s;
     force_assert (length out \<le> out_length);
     Some out
   }"

definition li_to_base64 :: "nat \<Rightarrow> string \<Rightarrow> base64_charset \<Rightarrow> string option" where
  "li_to_base64 out_length s cs = do {
     let in_tuple_remainder = length s mod 3;
     let padding_length = (if in_tuple_remainder \<noteq> 0 then 3 - in_tuple_remainder else 0);
     let padding = base64_table cs ! 64;
     force_assert (out_length \<ge> padding_length);
     out \<leftarrow> li_to_base64_no_padding (out_length - padding_length) s cs;
     let out = out @ replicate padding_length padding;
     force_assert (length out \<le> out_length);
     Some out
   }"

definition buffer_append_base64_encode_no_padding :: "buffer \<Rightarrow> string \<Rightarrow> base64_charset \<Rightarrow> buffer option" where
  "buffer_append_base64_encode_no_padding out s cs = do {
     let reserve = uadd (umul 4 (length s div 3)) 4;
     (out, d) \<leftarrow> buffer_string_prepare_append out reserve;
     r \<leftarrow> li_to_base64_no_padding reserve s cs;
     m \<leftarrow> mem_copy (b_ptr out) d r;
     buffer_commit (out\<lparr>b_ptr := m\<rparr>) (length r)
   }"

definition buffer_append_base64_encode :: "buffer \<Rightarrow> string \<Rightarrow> base64_charset \<Rightarrow> buffer option" where
  "buffer_append_base64_encode out s cs = do {
     let reserve = uadd (umul 4 (length s div 3)) 4;
     (out, d) \<leftarrow> buffer_string_prepare_append out reserve;
     r \<leftarrow> li_to_base64 reserve s cs;
     m \<leftarrow> mem_copy (b_ptr out) d r;
     buffer_commit (out\<lparr>b_ptr := m\<rparr>) (length r)
   }"

section \<open>Decoding\<close>

text \<open>
  \<open>result[out_pos]\<close> is the byte at \<open>d + out_pos\<close> of the block. The loop ends with the block and
  \<open>Some (out_pos, grp)\<close>, the position and the number of digits in the current group, or with \<open>None\<close> where the function returns \<open>NULL\<close>.
\<close>

definition base64_or :: "mem \<Rightarrow> nat \<Rightarrow> nat \<Rightarrow> mem option" where
  "base64_or m i v = do { c \<leftarrow> mem_read m i; mem_write m i (char_of (byte c OR v)) }"

definition base64_digit :: "mem \<Rightarrow> nat \<Rightarrow> nat \<Rightarrow> nat \<Rightarrow> nat \<Rightarrow> (mem \<times> nat \<times> nat) option" where
  "base64_digit m d out_pos grp ch =
     (if grp = 0 then do {
        m \<leftarrow> mem_write m (d + out_pos) (char_of (push_bit 2 ch));
        Some (m, out_pos, 1)
      } else if grp = 1 then do {
        m \<leftarrow> base64_or m (d + out_pos) (drop_bit 4 ch);
        m \<leftarrow> mem_write m (d + (out_pos + 1)) (char_of (push_bit 4 (ch AND 0x0f)));
        Some (m, out_pos + 1, 2)
      } else if grp = 2 then do {
        m \<leftarrow> base64_or m (d + out_pos) (drop_bit 2 ch);
        m \<leftarrow> mem_write m (d + (out_pos + 1)) (char_of (push_bit 6 (ch AND 0x03)));
        Some (m, out_pos + 1, 3)
      } else do {
        m \<leftarrow> base64_or m (d + out_pos) ch;
        Some (m, out_pos + 1, 0)
      })"

fun base64_loop :: "base64_charset \<Rightarrow> mem \<Rightarrow> nat \<Rightarrow> nat \<Rightarrow> nat \<Rightarrow> string \<Rightarrow> (mem \<times> (nat \<times> nat) option) option" where
  "base64_loop cs m d out_pos grp [] = Some (m, Some (out_pos, grp))"
| "base64_loop cs m d out_pos grp (c # r) =
     (if c = NUL then Some (m, Some (out_pos, grp))
      else if byte c \<ge> 128 then Some (m, None)
      else let ch = base64_reverse_table cs ! byte c
        in if ch = -3
           then (if grp < 2 then Some (m, None) else Some (m, Some (out_pos, grp)))
           else if ch = -2 then base64_loop cs m d out_pos grp r
           else if ch < 0 then Some (m, None)
           else do {
             (m, out_pos, grp) \<leftarrow> base64_digit m d out_pos grp (nat ch);
             base64_loop cs m d out_pos grp r
           })"

text \<open>The result says whether a pointer other than \<open>NULL\<close> was returned.\<close>

definition buffer_append_base64_decode :: "buffer \<Rightarrow> string \<Rightarrow> base64_charset \<Rightarrow> (buffer \<times> bool) option" where
  "buffer_append_base64_decode out s cs = do {
     (out, d) \<leftarrow> buffer_string_prepare_append out (uadd (umul 3 (length s div 4)) 3);
     (m, r) \<leftarrow> base64_loop cs (b_ptr out) d 0 0 s;
     let out = out\<lparr>b_ptr := m\<rparr>;
     case r of
       None \<Rightarrow> Some (out, False)
     | Some (out_pos, grp) \<Rightarrow>
         if grp = 1 then Some (out, False)
         else do {
           last \<leftarrow> (if grp = 0 then Some NUL else mem_read m (d + out_pos));
           if last \<noteq> NUL then Some (out, False)
           else do { out \<leftarrow> buffer_commit out out_pos; Some (out, True) }
         }
   }"

section \<open>Digits\<close>

text \<open>The reverse table inverts the table; the padding character is marked, and invalid in the other set.\<close>

lemma reverse_table:
  "\<forall>d < 64. byte (base64_table cs ! d) < 128 \<and> base64_table cs ! d \<noteq> NUL \<and>
     base64_reverse_table cs ! byte (base64_table cs ! d) = int d"
  unfolding all_less_upt upt_64
  by (cases cs) (simp_all add: base64_standard_table_def base64_url_table_def
      base64_standard_reverse_table_def base64_url_reverse_table_def NUL_def)

lemma reverse_padding:
  "byte (base64_table cs ! 64) < 128" "base64_table cs ! 64 \<noteq> NUL"
  "base64_reverse_table cs ! byte (base64_table cs ! 64) = - 3"
  by (cases cs; simp add: base64_standard_table_def base64_url_table_def
      base64_standard_reverse_table_def base64_url_reverse_table_def NUL_def)+

lemma reverse_table_range: "n < 128 \<Longrightarrow> base64_reverse_table cs ! n < 64"
proof -
  have "list_all (\<lambda>v. v < 64) (base64_reverse_table cs)" and l: "length (base64_reverse_table cs) = 128"
    by (cases cs; simp add: base64_standard_reverse_table_def base64_url_reverse_table_def)+
  then show "n < 128 \<Longrightarrow> base64_reverse_table cs ! n < 64" by (simp add: list_all_length)
qed

lemma and_63: "v AND 0x3f = v mod 64" for v :: nat
  using take_bit_eq_mask [of 6 v] take_bit_eq_mod [of 6 v] by (simp add: mask_eq_exp_minus_1)

lemma and_15: "v AND 0x0f = v mod 16" for v :: nat
  using take_bit_eq_mask [of 4 v] take_bit_eq_mod [of 4 v] by (simp add: mask_eq_exp_minus_1)

lemma and_3: "v AND 0x03 = v mod 4" for v :: nat
  using take_bit_eq_mask [of 2 v] take_bit_eq_mod [of 2 v] by (simp add: mask_eq_exp_minus_1)

lemma or_eq_plus: "y < 2 ^ k \<Longrightarrow> push_bit k x OR y = x * 2 ^ k + y" for x y :: nat
proof -
  assume y: "y < 2 ^ k"
  have "push_bit k x AND y = 0"
  proof (rule bit_eqI)
    fix n
    show "bit (push_bit k x AND y) n \<longleftrightarrow> bit (0 :: nat) n"
    proof (cases "k \<le> n")
      case True
      then have "y < 2 ^ n" using y by (meson less_le_trans one_le_numeral power_increasing)
      then have "\<not> bit y n" by (simp add: bit_iff_odd)
      then show ?thesis by (simp add: bit_and_iff)
    qed (simp add: bit_and_iff bit_push_bit_iff)
  qed
  then have "push_bit k x OR y = push_bit k x + y" by (rule disjunctive_add_eq_or [symmetric])
  then show ?thesis by (simp add: push_bit_eq_mult)
qed

text \<open>The digits of three, two and one octets.\<close>

definition digits3 :: "nat \<Rightarrow> nat \<Rightarrow> nat \<Rightarrow> nat list" where
  "digits3 a b c = [a div 4, (a mod 4) * 16 + b div 16, (b mod 16) * 4 + c div 64, c mod 64]"

lemma base64_of_digits:
  fixes d0 :: nat
  assumes "d0 < 64" "d1 < 64" "d2 < 64" "d3 < 64"
  defines "v \<equiv> ((d0 * 64 + d1) * 64 + d2) * 64 + d3"
  shows "v div 262144 mod 64 = d0" "v div 4096 mod 64 = d1" "v div 64 mod 64 = d2" "v mod 64 = d3"
proof -
  have 1: "v div 64 = (d0 * 64 + d1) * 64 + d2" using assms by simp
  have 0: "((d0 * 64 + d1) * 64 + d2) mod 64 = d2" "v mod 64 = d3"
    using assms(3,4) unfolding v_def by (simp_all only: mod_mult_self4 mod_mult_self3 mod_less)
  have "v div 4096 = v div 64 div 64" by (simp add: div_mult2_eq [symmetric])
  then have 2: "v div 4096 = d0 * 64 + d1" using assms(3) by (simp add: 1)
  have "v div 262144 = v div 4096 div 64" by (simp add: div_mult2_eq [symmetric])
  then have 3: "v div 262144 = d0" using assms(2) by (simp add: 2)
  show "v div 262144 mod 64 = d0" "v div 4096 mod 64 = d1" "v div 64 mod 64 = d2" "v mod 64 = d3"
    using assms(1-4) unfolding 1 2 3 0 by (simp_all only: mod_mult_self3 mod_less)
qed

lemma split_bytes:
  fixes a b c :: nat
  assumes "a < 256" and "b < 256" and "c < 256"
  shows "a * 65536 + b * 256 + c
      = ((a div 4 * 64 + (a mod 4 * 16 + b div 16)) * 64 + (b mod 16 * 4 + c div 64)) * 64 + c mod 64"
    and "a div 4 < 64" "a mod 4 * 16 + b div 16 < 64" "b mod 16 * 4 + c div 64 < 64"
proof -
  define a1 a0 b1 b0 c1 c0 where "a1 = a div 4" "a0 = a mod 4" "b1 = b div 16" "b0 = b mod 16"
    "c1 = c div 64" "c0 = c mod 64"
  note defs = this
  have a: "a = 4 * a1 + a0" "a0 < 4" "a1 < 64" using assms by (auto simp: defs)
  have b: "b = 16 * b1 + b0" "b0 < 16" "b1 < 16" using assms by (auto simp: defs)
  have c: "c = 64 * c1 + c0" "c0 < 64" "c1 < 4" using assms by (auto simp: defs)
  show "a * 65536 + b * 256 + c
      = ((a div 4 * 64 + (a mod 4 * 16 + b div 16)) * 64 + (b mod 16 * 4 + c div 64)) * 64 + c mod 64"
    unfolding defs [symmetric] by (subst a(1), subst b(1), subst c(1)) simp
  show "a div 4 < 64" "a mod 4 * 16 + b div 16 < 64" "b mod 16 * 4 + c div 64 < 64"
    unfolding defs [symmetric] using a b c by simp_all
qed

lemma base64_tuples_digits:
  "base64_tuples cs (a # b # c # r) =
     map ((!) (base64_table cs)) (digits3 (byte a) (byte b) (byte c)) @ base64_tuples cs r"
  "base64_tuples cs [a, b] =
     map ((!) (base64_table cs)) [byte a div 4, byte a mod 4 * 16 + byte b div 16, byte b mod 16 * 4]"
  "base64_tuples cs [a] = map ((!) (base64_table cs)) [byte a div 4, byte a mod 4 * 16]"
proof -
  have lt: "byte x < 256" for x by simp
  have v3: "(push_bit 16 (byte a) OR push_bit 8 (byte b)) OR byte c = byte a * 65536 + byte b * 256 + byte c"
  proof -
    have "push_bit 16 (byte a) OR (push_bit 8 (byte b) OR byte c) = byte a * 2 ^ 16 + (byte b * 2 ^ 8 + byte c)"
      using lt [of b] lt [of c] by (subst or_eq_plus [of "byte c" 8], simp, subst or_eq_plus, simp, linarith, simp)
    then show ?thesis by (simp add: or.assoc)
  qed
  have pow: "(2 :: nat) ^ 18 = 262144" "(2 :: nat) ^ 12 = 4096" "(2 :: nat) ^ 6 = 64" by simp_all
  have d: "byte a div 4 < 64" "byte a mod 4 * 16 + byte b div 16 < 64"
    "byte b mod 16 * 4 + byte c div 64 < 64" "byte c mod 64 < 64"
    using split_bytes(2-4) [OF lt [of a] lt [of b] lt [of c]] by simp_all
  show "base64_tuples cs (a # b # c # r) =
     map ((!) (base64_table cs)) (digits3 (byte a) (byte b) (byte c)) @ base64_tuples cs r"
    unfolding base64_tuples.simps v3 Let_def base64_char_def and_63 drop_bit_eq_div
      split_bytes(1) [OF lt [of a] lt [of b] lt [of c]] pow
    by (simp only: base64_of_digits [OF d] digits3_def list.map append_Cons append_Nil)
next
  have a: "byte a < 256" and b: "byte b < 256" by simp_all
  have "push_bit 10 (byte a) OR push_bit 2 (byte b) = byte a * 1024 + byte b * 4"
    using b by (subst or_eq_plus) (simp_all add: push_bit_eq_mult)
  also have "\<dots> = ((0 * 64 + byte a div 4) * 64 + (byte a mod 4 * 16 + byte b div 16)) * 64 + byte b mod 16 * 4"
  proof -
    have "(q * 4 + r) * 1024 + (q' * 16 + r') * 4 = ((0 * 64 + q) * 64 + (r * 16 + q')) * 64 + r' * 4"
      for q r q' r' :: nat by simp
    from this [of "byte a div 4" "byte a mod 4" "byte b div 16" "byte b mod 16"]
    show ?thesis by (simp only: div_mult_mod_eq)
  qed
  finally have v: "push_bit 10 (byte a) OR push_bit 2 (byte b)
      = ((0 * 64 + byte a div 4) * 64 + (byte a mod 4 * 16 + byte b div 16)) * 64 + byte b mod 16 * 4" .
  have pow2: "(2 :: nat) ^ 12 = 4096" "(2 :: nat) ^ 6 = 64" by simp_all
  have d: "(0 :: nat) < 64" "byte a div 4 < 64" "byte a mod 4 * 16 + byte b div 16 < 64" "byte b mod 16 * 4 < 64"
    using split_bytes(2-4) [OF a b, of 0] by simp_all
  show "base64_tuples cs [a, b] =
     map ((!) (base64_table cs)) [byte a div 4, byte a mod 4 * 16 + byte b div 16, byte b mod 16 * 4]"
    unfolding base64_tuples.simps Let_def base64_char_def and_63 drop_bit_eq_div v pow2
    by (simp only: base64_of_digits [OF d] list.map)
  have v1: "push_bit 4 (byte a) = byte a div 4 * 64 + byte a mod 4 * 16"
  proof -
    have "(q * 4 + r) * 16 = q * 64 + r * 16" for q r :: nat by simp
    from this [of "byte a div 4" "byte a mod 4"]
    show ?thesis by (simp add: push_bit_eq_mult)
  qed
  have "byte a mod 4 * 16 < 64" "byte a div 4 < 64" using a by (simp_all add: less_mult_imp_div_less)
  then show "base64_tuples cs [a] = map ((!) (base64_table cs)) [byte a div 4, byte a mod 4 * 16]"
    unfolding base64_tuples.simps Let_def base64_char_def and_63 drop_bit_eq_div v1 by simp
qed

lemma length_base64_tuples:
  "length (base64_tuples cs s) = 4 * (length s div 3) + (if length s mod 3 = 0 then 0 else 1 + length s mod 3)"
proof (induction cs s rule: base64_tuples.induct)
  case (1 cs a b c r)
  then show ?case by (simp add: Let_def div_add_self1 numeral_3_eq_3 [symmetric])
qed (simp_all add: Let_def)

section \<open>Encoding fits the reserved space\<close>

text \<open>Committing bytes that are already in place.\<close>

lemma buffer_commit_in_place:
  assumes "buf_shape b" and "b_used b = length s + 1" and "holds_at (b_ptr b) 0 (s @ t)"
    and "length s + length t < b_size b"
  shows "\<exists>b'. buffer_commit b (length t) = Some b' \<and> buf_holds b' (s @ t)"
proof -
  let ?n = "length s + length t"
  let ?b = "b\<lparr>b_used := ?n + 1, b_ptr := (b_ptr b)[?n := Some NUL]\<rparr>"
  have len: "length (b_ptr b) = b_size b" "b_size b < SIZE_T" using assms(1) by (auto simp: buf_shape_def)
  have "buffer_commit b (length t) = Some ?b"
    using assms(2,4) len by (auto simp: buffer_commit_def mem_write_def Let_def)
  moreover have "take (Suc ?n) ((b_ptr b)[?n := Some NUL]) = map Some (s @ t) @ [Some NUL]"
    using assms(3,4) len by (intro take_update_snoc) (auto simp: holds_at_iff)
  then have "buf_holds ?b (s @ t)"
    using assms(4) len by (simp add: buf_holds_def buf_shape_def)
  ultimately show ?thesis by blast
qed

definition base64_padding :: "base64_charset \<Rightarrow> string \<Rightarrow> string" where
  "base64_padding cs s =
     replicate (if length s mod 3 \<noteq> 0 then 3 - length s mod 3 else 0) (base64_table cs ! 64)"

definition base64_enc :: "base64_charset \<Rightarrow> string \<Rightarrow> string" where
  "base64_enc cs s = base64_tuples cs s @ base64_padding cs s"

lemma li_to_base64_no_padding_ok:
  assumes "4 * (length s div 3) + 8 < SIZE_T" and "length (base64_tuples cs s) \<le> n"
  shows "li_to_base64_no_padding n s cs = Some (base64_tuples cs s)"
  using assms by (auto simp add: li_to_base64_no_padding_def length_base64_tuples Let_def)

lemma li_to_base64_ok:
  assumes "4 * (length s div 3) + 8 < SIZE_T" and "length (base64_enc cs s) \<le> n"
  shows "li_to_base64 n s cs = Some (base64_enc cs s)"
proof -
  have l: "length (base64_tuples cs s) \<le> n - length (base64_padding cs s)" "length (base64_padding cs s) \<le> n"
    using assms(2) by (auto simp: base64_enc_def)
  have k: "(if length s mod 3 \<noteq> 0 then 3 - length s mod 3 else 0) = length (base64_padding cs s)"
    by (simp add: base64_padding_def)
  have "replicate (length (base64_padding cs s)) (base64_table cs ! 64) = base64_padding cs s"
    by (simp add: base64_padding_def)
  then show ?thesis
    using l(2) assms(2) li_to_base64_no_padding_ok [OF assms(1) l(1)]
    unfolding li_to_base64_def Let_def k by (simp add: base64_enc_def)
qed

lemma append_reserved:
  assumes "buf_ok out" and "length (buf_str out) + n + 1 < SIZE_T" and "length r \<le> n"
  shows "\<exists>out'. do { (out, d) \<leftarrow> buffer_string_prepare_append out n;
      m \<leftarrow> mem_copy (b_ptr out) d r; buffer_commit (out\<lparr>b_ptr := m\<rparr>) (length r) } = Some out' \<and>
    buf_holds out' (buf_str out @ r)"
proof -
  from assms(1,2) obtain b where p: "buffer_string_prepare_append out n = Some (b, length (buf_str out))"
    and h: "buf_holds b (buf_str out)" and fits: "length (buf_str out) + n < b_size b"
    by (rule buffer_string_prepare_append_ok)
  let ?d = "length (buf_str out)"
  have len: "length (b_ptr b) = b_size b" and u: "b_used b = ?d + 1" and sh: "buf_shape b"
    using h by (auto simp: buf_holds_def buf_shape_def)
  let ?m = "take ?d (b_ptr b) @ map Some r @ drop (?d + length r) (b_ptr b)"
  have m: "mem_copy (b_ptr b) ?d r = Some ?m" using fits len assms(3) by (simp add: mem_copy_def)
  have "holds_at ?m 0 (buf_str out @ r)"
    using buf_holds_take [OF h] fits assms(3) len by (simp add: holds_at_iff)
  then show ?thesis
    using buffer_commit_in_place [of "b\<lparr>b_ptr := ?m\<rparr>" "buf_str out" r] p m u sh fits assms(3) len
    by (simp add: buf_shape_def)
qed

lemma buffer_append_base64_encode_ok:
  assumes "buf_ok out" and "length (buf_str out) + 4 * (length s div 3) + 8 < SIZE_T"
  shows "\<exists>out'. buffer_append_base64_encode out s cs = Some out' \<and>
      buf_holds out' (buf_str out @ base64_enc cs s)"
    and "\<exists>out'. buffer_append_base64_encode_no_padding out s cs = Some out' \<and>
      buf_holds out' (buf_str out @ base64_tuples cs s)"
proof -
  let ?n = "4 * (length s div 3) + 4"
  have m3: "length s mod 3 = 0 \<or> length s mod 3 = 1 \<or> length s mod 3 = 2" by linarith
  have small: "4 * (length s div 3) + 8 < SIZE_T" using assms(2) by simp
  have l: "length (base64_enc cs s) \<le> ?n" "length (base64_tuples cs s) \<le> ?n"
    using m3 by (auto simp: base64_enc_def base64_padding_def length_base64_tuples)
  have r: "uadd (umul 4 (length s div 3)) 4 = ?n" using small by simp
  have room: "length (buf_str out) + ?n + 1 < SIZE_T" using assms(2) by simp
  show "\<exists>out'. buffer_append_base64_encode out s cs = Some out' \<and> buf_holds out' (buf_str out @ base64_enc cs s)"
    using append_reserved [OF assms(1) room l(1)] li_to_base64_ok [OF small l(1)]
    unfolding buffer_append_base64_encode_def Let_def r by (auto simp: bind_eq_Some_conv split: prod.splits)
  show "\<exists>out'. buffer_append_base64_encode_no_padding out s cs = Some out' \<and>
      buf_holds out' (buf_str out @ base64_tuples cs s)"
    using append_reserved [OF assms(1) room l(2)] li_to_base64_no_padding_ok [OF small l(2)]
    unfolding buffer_append_base64_encode_no_padding_def Let_def r
    by (auto simp: bind_eq_Some_conv split: prod.splits)
qed

section \<open>Decoding stays in the reserved space\<close>

text \<open>
  After \<open>k\<close> digits the position and the group are determined; a byte has been written at the
  position whenever a group is open.
\<close>

definition base64_pos :: "nat \<Rightarrow> nat" where
  "base64_pos k = 3 * (k div 4) + (k mod 4 - 1)"

definition base64_inv :: "mem \<Rightarrow> nat \<Rightarrow> nat \<Rightarrow> bool" where
  "base64_inv m d k \<longleftrightarrow> (\<forall>i < base64_pos k. m ! (d + i) \<noteq> None) \<and>
     (k mod 4 \<noteq> 0 \<longrightarrow> m ! (d + base64_pos k) \<noteq> None)"

lemma base64_pos_bound: "k \<le> n \<Longrightarrow> base64_pos k < 3 * (n div 4) + 3"
proof -
  assume "k \<le> n"
  then have "k div 4 \<le> n div 4" by (rule div_le_mono)
  moreover have "k mod 4 - 1 < 3" using mod_less_divisor [of 4 k] by linarith
  ultimately show ?thesis unfolding base64_pos_def by linarith
qed

lemma base64_digit_ok:
  assumes inv: "base64_inv m d k" and room: "d + 3 * (n div 4) + 3 \<le> length m" and k: "k < n"
  shows "\<exists>m'. base64_digit m d (base64_pos k) (k mod 4) v = Some (m', base64_pos (Suc k), Suc k mod 4) \<and>
    length m' = length m \<and> take d m' = take d m \<and> base64_inv m' d (Suc k)"
proof -
  define q where "q = k div 4"
  have pos: "d + base64_pos k < length m" "d + base64_pos (Suc k) < length m"
    using base64_pos_bound [of k n] base64_pos_bound [of "Suc k" n] room k by linarith+
  consider "k = 4 * q" | "k = 4 * q + 1" | "k = 4 * q + 2" | "k = 4 * q + 3"
    using mult_div_mod_eq [of 4 k] mod_less_divisor [of 4 k] unfolding q_def by linarith
  then show ?thesis
  proof cases
    case 1
    then have "k mod 4 = 0" "Suc k mod 4 = 1" "base64_pos k = 3 * q" "base64_pos (Suc k) = 3 * q"
      by (simp_all add: base64_pos_def mod_Suc)
    then show ?thesis
      using pos inv by (auto simp: base64_digit_def mem_write_def base64_inv_def nth_list_update)
  next
    case 2
    then have "k mod 4 = 1" "Suc k mod 4 = 2" "base64_pos k = 3 * q" "base64_pos (Suc k) = Suc (3 * q)"
      by (simp_all add: base64_pos_def mod_Suc)
    then show ?thesis
      using pos inv
      by (auto simp: base64_digit_def base64_or_def mem_write_def mem_read_def base64_inv_def
          nth_list_update less_Suc_eq)
  next
    case 3
    then have "k mod 4 = 2" "Suc k mod 4 = 3" "base64_pos k = Suc (3 * q)"
      "base64_pos (Suc k) = Suc (Suc (3 * q))"
      by (simp_all add: base64_pos_def mod_Suc)
    then show ?thesis
      using pos inv
      by (auto simp: base64_digit_def base64_or_def mem_write_def mem_read_def base64_inv_def
          nth_list_update less_Suc_eq)
  next
    case 4
    then have "Suc k = 4 * Suc q" by simp
    then have "Suc k mod 4 = 0" "base64_pos (Suc k) = Suc (Suc (Suc (3 * q)))"
      unfolding base64_pos_def by simp_all
    moreover have "k mod 4 = 3" "base64_pos k = Suc (Suc (3 * q))"
      using 4 by (simp_all add: base64_pos_def)
    ultimately show ?thesis
      using pos inv
      by (auto simp: base64_digit_def base64_or_def mem_write_def mem_read_def base64_inv_def
          nth_list_update less_Suc_eq)
  qed
qed

lemma base64_loop_ok:
  assumes "base64_inv m d k" and "d + 3 * (n div 4) + 3 \<le> length m" and "k + length s \<le> n"
  shows "\<exists>m' r. base64_loop cs m d (base64_pos k) (k mod 4) s = Some (m', r) \<and> length m' = length m \<and>
    take d m' = take d m \<and>
    (case r of None \<Rightarrow> True | Some (pos, g) \<Rightarrow>
       \<exists>k'. pos = base64_pos k' \<and> g = k' mod 4 \<and> k' \<le> n \<and> base64_inv m' d k')"
  using assms
proof (induction s arbitrary: m k)
  case (Cons c s)
  show ?case
  proof (cases "c = NUL \<or> byte c \<ge> 128 \<or> base64_reverse_table cs ! byte c = -3 \<or>
      (base64_reverse_table cs ! byte c < 0 \<and> base64_reverse_table cs ! byte c \<noteq> -2)")
    case True
    then show ?thesis using Cons.prems
      by (cases "c = NUL"; cases "byte c \<ge> 128"; cases "base64_reverse_table cs ! byte c = -3";
        cases "k mod 4 < 2") (auto simp: Let_def intro!: exI [of _ k])
  next
    case False
    show ?thesis
    proof (cases "base64_reverse_table cs ! byte c = -2")
      case True
      then have "base64_loop cs m d (base64_pos k) (k mod 4) (c # s) = base64_loop cs m d (base64_pos k) (k mod 4) s"
        using False by (simp add: Let_def)
      then show ?thesis using Cons.IH [of m k] Cons.prems by simp
    next
      case skip: False
      have "k < n" using Cons.prems(3) by simp
      from base64_digit_ok [OF Cons.prems(1,2) this, of "nat (base64_reverse_table cs ! byte c)"]
      obtain m1 where m1: "base64_digit m d (base64_pos k) (k mod 4) (nat (base64_reverse_table cs ! byte c))
          = Some (m1, base64_pos (Suc k), Suc k mod 4)" "length m1 = length m" "take d m1 = take d m"
        "base64_inv m1 d (Suc k)" by blast
      then have "base64_loop cs m d (base64_pos k) (k mod 4) (c # s)
          = base64_loop cs m1 d (base64_pos (Suc k)) (Suc k mod 4) s"
        using False skip by (simp add: Let_def)
      then show ?thesis using Cons.IH [of m1 "Suc k"] Cons.prems m1 by simp
    qed
  qed
qed fastforce

text \<open>Whatever the input, the decoder neither leaves the block nor reads what was not written.\<close>

lemma buffer_append_base64_decode_safe:
  assumes "buf_ok out" and "length (buf_str out) + 3 * (length s div 4) + 4 < SIZE_T"
  shows "\<exists>out' ok. buffer_append_base64_decode out s cs = Some (out', ok) \<and>
    (ok \<longrightarrow> (\<exists>t. buf_holds out' (buf_str out @ t)))"
proof -
  let ?n = "3 * (length s div 4) + 3" and ?d = "length (buf_str out)"
  have "length (buf_str out) + ?n + 1 < SIZE_T" using assms(2) by simp
  with assms(1) obtain b where p: "buffer_string_prepare_append out ?n = Some (b, ?d)"
    and h: "buf_holds b (buf_str out)" and fits: "?d + ?n < b_size b"
    by (rule buffer_string_prepare_append_ok)
  have r: "uadd (umul 3 (length s div 4)) 3 = ?n" using assms(2) by simp
  have len: "length (b_ptr b) = b_size b" and u: "b_used b = ?d + 1" and sh: "buf_shape b"
    using h by (auto simp: buf_holds_def buf_shape_def)
  have "base64_inv (b_ptr b) ?d 0" by (simp add: base64_inv_def base64_pos_def)
  from base64_loop_ok [OF this, of "length s" s cs] fits len obtain m' r where
    m': "base64_loop cs (b_ptr b) ?d 0 0 s = Some (m', r)" "length m' = b_size b"
      "take ?d m' = take ?d (b_ptr b)"
    and fin: "case r of None \<Rightarrow> True | Some (pos, g) \<Rightarrow>
       \<exists>k'. pos = base64_pos k' \<and> g = k' mod 4 \<and> k' \<le> length s \<and> base64_inv m' ?d k'"
    by (auto simp: base64_pos_def)
  show ?thesis
  proof (cases r)
    case None
    then show ?thesis using p m' unfolding buffer_append_base64_decode_def r
      by (auto intro!: exI [of _ False])
  next
    case (Some pg)
    then obtain k where k: "r = Some (base64_pos k, k mod 4)" "k \<le> length s" "base64_inv m' ?d k"
      using fin by auto
    have pos: "?d + base64_pos k < length m'"
      using base64_pos_bound [OF k(2)] fits m'(2) by linarith
    let ?t = "map (\<lambda>i. the (m' ! (?d + i))) [0..<base64_pos k]"
    have "take (base64_pos k) (drop ?d m') = map Some ?t"
      using k(3) pos by (intro nth_equalityI) (auto simp: base64_inv_def)
    moreover have "take ?d m' = map Some (buf_str out)" using buf_holds_take [OF h] m'(3) by simp
    ultimately have "holds_at m' 0 (buf_str out @ ?t)"
      using pos by (simp add: holds_at_append) (simp add: holds_at_iff)
    then have c: "\<exists>b'. buffer_commit (b\<lparr>b_ptr := m'\<rparr>) (length ?t) = Some b' \<and> buf_holds b' (buf_str out @ ?t)"
      using sh m'(2) u pos by (intro buffer_commit_in_place) (auto simp: buf_shape_def)
    have rd: "k mod 4 \<noteq> 0 \<Longrightarrow> \<exists>x. mem_read m' (?d + base64_pos k) = Some x"
      using k(3) pos by (auto simp: base64_inv_def mem_read_def)
    obtain b' where b': "buffer_commit (b\<lparr>b_ptr := m'\<rparr>) (base64_pos k) = Some b'"
      "buf_holds b' (buf_str out @ ?t)" using c by auto
    have "buffer_append_base64_decode out s cs = Some (b', True) \<or>
        (\<exists>out'. buffer_append_base64_decode out s cs = Some (out', False))"
    proof (cases "k mod 4 = 0")
      case True
      then show ?thesis using b' p m'(1) k(1) unfolding buffer_append_base64_decode_def r by simp
    next
      case False
      then obtain x where "mem_read m' (?d + base64_pos k) = Some x" using rd by blast
      then show ?thesis
        using False b' p m'(1) k(1) unfolding buffer_append_base64_decode_def r
        by (cases "k mod 4 = 1"; cases "x = NUL") simp_all
    qed
    then show ?thesis using b'(2) by blast
  qed
qed

section \<open>Round trip\<close>

lemma char_of_0 [simp]: "char_of (0 :: nat) = NUL"
proof -
  have "char_of (byte NUL) = NUL" by (rule char_of_char)
  then show ?thesis by simp
qed


lemma base64_loop_digit:
  "v < 64 \<Longrightarrow> base64_loop cs m d pos g (base64_table cs ! v # r) =
     do { (m, pos, g) \<leftarrow> base64_digit m d pos g v; base64_loop cs m d pos g r }"
  using reverse_table [of cs] by (auto simp: Let_def)

lemma base64_or_write:
  "i < length m \<Longrightarrow> base64_or (m[i := Some c]) i v = Some (m[i := Some (char_of (byte c OR v))])"
  by (simp add: base64_or_def mem_read_def mem_write_def)

lemma glue_bits:
  fixes x y :: nat
  assumes "x < 2 ^ (8 - k)" and "y < 2 ^ k" and "k \<le> 8"
  shows "byte (char_of (push_bit k x)) OR y = x * 2 ^ k + y"
proof -
  have "x * 2 ^ k < 2 ^ (8 - k) * 2 ^ k" using assms(1) by simp
  also have "\<dots> = 256" using assms(3) by (simp flip: power_add)
  finally have "push_bit k x mod 256 = push_bit k x" by (simp add: push_bit_eq_mult)
  then show ?thesis using or_eq_plus [OF assms(2), of x] by simp
qed

lemma base64_loop_octet1:
  assumes "x < 64" "y < 64" and "d + (p + 1) < length m"
  shows "base64_loop cs m d p 0 (base64_table cs ! x # base64_table cs ! y # r) =
    base64_loop cs (m[d + p := Some (char_of (x * 4 + y div 16)), d + (p + 1) := Some (char_of (y mod 16 * 16))])
      d (p + 1) 2 r"
proof -
  have "byte (char_of (push_bit 2 x)) OR y div 16 = x * 4 + y div 16"
    using glue_bits [of x 2 "y div 16"] assms(1,2) by (simp add: div_less_iff_less_mult)
  then show ?thesis
    using assms
    by (simp add: base64_loop_digit base64_digit_def mem_write_def base64_or_write drop_bit_eq_div
        and_15 push_bit_eq_mult del: base64_loop.simps(2))
qed

lemma base64_loop_octet2:
  assumes "x < 16" "y < 64" and "d + (p + 1) < length m" "m ! (d + p) = Some (char_of (x * 16))"
  shows "base64_loop cs m d p 2 (base64_table cs ! y # r) =
    base64_loop cs (m[d + p := Some (char_of (x * 16 + y div 4)), d + (p + 1) := Some (char_of (y mod 4 * 64))])
      d (p + 1) 3 r"
proof -
  have "byte (char_of (push_bit 4 x)) OR y div 4 = x * 16 + y div 4"
    using glue_bits [of x 4 "y div 4"] assms(1,2) by (simp add: div_less_iff_less_mult)
  moreover have "m = m[d + p := Some (char_of (push_bit 4 x))]"
    using assms(4) list_update_id [of m "d + p"] by (simp add: push_bit_eq_mult)
  ultimately have "base64_or m (d + p) (y div 4) = Some (m[d + p := Some (char_of (x * 16 + y div 4))])"
    using base64_or_write [of "d + p" m "char_of (push_bit 4 x)" "y div 4"] assms(3) by simp
  then show ?thesis
    using assms(2,3)
    by (simp add: base64_loop_digit base64_digit_def mem_write_def drop_bit_eq_div and_3 push_bit_eq_mult
        del: base64_loop.simps(2))
qed

lemma base64_loop_octet3:
  assumes "x < 4" "y < 64" and "d + p < length m" "m ! (d + p) = Some (char_of (x * 64))"
  shows "base64_loop cs m d p 3 (base64_table cs ! y # r) =
    base64_loop cs (m[d + p := Some (char_of (x * 64 + y))]) d (p + 1) 0 r"
proof -
  have "byte (char_of (push_bit 6 x)) OR y = x * 64 + y"
    using glue_bits [of x 6 y] assms(1,2) by simp
  moreover have "m = m[d + p := Some (char_of (push_bit 6 x))]"
    using assms(4) list_update_id [of m "d + p"] by (simp add: push_bit_eq_mult)
  ultimately have "base64_or m (d + p) y = Some (m[d + p := Some (char_of (x * 64 + y))])"
    using base64_or_write [of "d + p" m "char_of (push_bit 6 x)" y] assms(3) by simp
  then show ?thesis
    using assms(2,3) by (simp add: base64_loop_digit base64_digit_def del: base64_loop.simps(2))
qed

lemma base64_loop_end:
  "base64_loop cs m d pos g [] = Some (m, Some (pos, g))"
  "2 \<le> g \<Longrightarrow> base64_loop cs m d pos g (base64_table cs ! 64 # r) = Some (m, Some (pos, g))"
  using reverse_padding [of cs] by (auto simp: Let_def)

lemma base64_loop_tuple:
  assumes "d + (p + 2) < length m"
  shows "base64_loop cs m d p 0 (base64_tuples cs (a # b # c # s) @ r) =
    base64_loop cs (m[d + p := Some a, d + (p + 1) := Some b, d + (p + 2) := Some c]) d (p + 3) 0
      (base64_tuples cs s @ r)"
proof -
  have lt: "byte a < 256" "byte b < 256" "byte c < 256" by simp_all
  note d = split_bytes(2-4) [OF lt]
  let ?x = "byte a div 4" and ?y = "byte a mod 4 * 16 + byte b div 16"
    and ?z = "byte b mod 16 * 4 + byte c div 64" and ?w = "byte c mod 64"
  have s1: "?x * 4 + ?y div 16 = byte a" "?y mod 16 * 16 = byte b div 16 * 16" "byte b div 16 < 16"
    using lt(2) div_mult_mod_eq [of "byte a" 4] by (simp_all add: less_mult_imp_div_less)
  have s2: "byte b div 16 * 16 + ?z div 4 = byte b" "?z mod 4 * 64 = byte c div 64 * 64" "byte c div 64 < 4"
    using lt(3) div_mult_mod_eq [of "byte b" 16] by (simp_all add: less_mult_imp_div_less)
  have s3: "byte c div 64 * 64 + ?w = byte c" and w: "?w < 64" by simp_all
  let ?m1 = "m[d + p := Some a, d + (p + 1) := Some (char_of (byte b div 16 * 16))]"
  let ?m2 = "?m1[d + (p + 1) := Some b, d + (p + 2) := Some (char_of (byte c div 64 * 64))]"
  have lens: "d + (p + 1) < length m" "d + (p + 1 + 1) < length ?m1" "d + (p + 2) < length ?m2"
    using assms by simp_all
  have nth: "?m1 ! (d + (p + 1)) = Some (char_of (byte b div 16 * 16))"
    "?m2 ! (d + (p + 2)) = Some (char_of (byte c div 64 * 64))"
    using assms by (simp_all del: mult_eq_if)
  have pos: "p + 1 + 1 = p + 2" "p + 2 + 1 = p + 3" by simp_all
  have "base64_tuples cs (a # b # c # s) @ r = base64_table cs ! ?x # base64_table cs ! ?y #
      base64_table cs ! ?z # base64_table cs ! ?w # base64_tuples cs s @ r"
    by (simp only: base64_tuples_digits digits3_def list.map append_Cons append_Nil)
  then have "base64_loop cs m d p 0 (base64_tuples cs (a # b # c # s) @ r) =
      base64_loop cs ?m1 d (p + 1) 2 (base64_table cs ! ?z # base64_table cs ! ?w # base64_tuples cs s @ r)"
    by (simp only: base64_loop_octet1 [OF d(1,2) lens(1)] s1 char_of_char)
  also have "\<dots> = base64_loop cs ?m2 d (p + 2) 3 (base64_table cs ! ?w # base64_tuples cs s @ r)"
    by (simp only: base64_loop_octet2 [OF s1(3) d(3) lens(2) nth(1)] s2 char_of_char pos)
  also have "\<dots> = base64_loop cs (?m2[d + (p + 2) := Some c]) d (p + 3) 0 (base64_tuples cs s @ r)"
    by (simp only: base64_loop_octet3 [OF s2(3) w lens(3) nth(2)] s3 char_of_char pos)
  finally show ?thesis by simp
qed

text \<open>Decoding the tuples of \<open>s\<close>, with or without padding, stores \<open>s\<close>.\<close>

lemma base64_loop_roundtrip:
  assumes "d + (p + length s) < length m" and "pad = [] \<or> pad = base64_padding cs s"
  shows "\<exists>m' g. base64_loop cs m d p 0 (base64_tuples cs s @ pad) = Some (m', Some (p + length s, g)) \<and>
    length m' = length m \<and> take (d + p) m' = take (d + p) m \<and> holds_at m' (d + p) s \<and> g \<noteq> 1 \<and>
    (g \<noteq> 0 \<longrightarrow> m' ! (d + (p + length s)) = Some NUL)"
  using assms
proof (induction cs s arbitrary: m p rule: base64_tuples.induct)
  case (1 cs a b c s)
  let ?m = "m[d + p := Some a, d + (p + 1) := Some b, d + (p + 2) := Some c]"
  have "base64_padding cs (a # b # c # s) = base64_padding cs s"
    by (simp add: base64_padding_def numeral_3_eq_3 [symmetric])
  then have "pad = [] \<or> pad = base64_padding cs s" using "1.prems"(2) by simp
  moreover have "d + (p + 3 + length s) < length ?m" using "1.prems"(1) by simp
  ultimately obtain m' g where m': "base64_loop cs ?m d (p + 3) 0 (base64_tuples cs s @ pad)
      = Some (m', Some (p + 3 + length s, g))" "length m' = length m"
    "take (d + (p + 3)) m' = take (d + (p + 3)) ?m" "holds_at m' (d + (p + 3)) s" "g \<noteq> 1"
    "g \<noteq> 0 \<longrightarrow> m' ! (d + (p + 3 + length s)) = Some NUL"
    using "1.IH" [OF refl, of "p + 3" ?m] by auto
  have nth: "m' ! i = ?m ! i" if "i < d + (p + 3)" for i
    using m'(3) that nth_take [of i "d + (p + 3)" m'] nth_take [of i "d + (p + 3)" ?m] by simp
  have "take (d + p) m' = take (d + p) m"
    using m'(2) nth "1.prems"(1) by (intro nth_equalityI) auto
  moreover have "holds_at m' (d + p) (a # b # c # s)"
    using m'(2,4) nth [of "d + p"] nth [of "Suc (d + p)"] nth [of "Suc (Suc (d + p))"] "1.prems"(1)
    by (simp add: numeral_3_eq_3)
  moreover have "base64_loop cs m d p 0 (base64_tuples cs (a # b # c # s) @ pad)
      = Some (m', Some (p + 3 + length s, g))"
    using base64_loop_tuple [of d p m] "1.prems"(1) m'(1) by simp
  ultimately show ?case
    using m'(2,5,6) by (intro exI [of _ m'] exI [of _ g]) (simp add: numeral_3_eq_3 add.assoc)
next
  case (2 cs a b)
  have lt: "byte a < 256" "byte b < 256" "(0 :: nat) < 256" by simp_all
  note d = split_bytes(2-4) [OF lt]
  have s1: "byte a div 4 * 4 + (byte a mod 4 * 16 + byte b div 16) div 16 = byte a"
    "(byte a mod 4 * 16 + byte b div 16) mod 16 * 16 = byte b div 16 * 16" "byte b div 16 < 16"
    using lt(2) div_mult_mod_eq [of "byte a" 4] by (simp_all add: less_mult_imp_div_less)
  have s2: "byte b div 16 * 16 + byte b mod 16 * 4 div 4 = byte b" "byte b mod 16 * 4 mod 4 * 64 = 0"
    by simp_all
  let ?m1 = "m[d + p := Some a, d + (p + 1) := Some (char_of (byte b div 16 * 16))]"
  let ?m2 = "?m1[d + (p + 1) := Some b, d + (p + 2) := Some (char_of (0 :: nat))]"
  have lens: "d + (p + 1) < length m" "d + (p + 1 + 1) < length ?m1" using "2.prems"(1) by simp_all
  have nth: "?m1 ! (d + (p + 1)) = Some (char_of (byte b div 16 * 16))"
    using "2.prems"(1) by simp
  have pos: "p + 1 + 1 = p + 2" by simp
  have d3: "byte b mod 16 * 4 < 64" by simp
  have "base64_tuples cs [a, b] @ pad = base64_table cs ! (byte a div 4) #
      base64_table cs ! (byte a mod 4 * 16 + byte b div 16) # base64_table cs ! (byte b mod 16 * 4) # pad"
    by (simp only: base64_tuples_digits list.map append_Cons append_Nil)
  then have "base64_loop cs m d p 0 (base64_tuples cs [a, b] @ pad)
      = base64_loop cs ?m1 d (p + 1) 2 (base64_table cs ! (byte b mod 16 * 4) # pad)"
    by (simp only: base64_loop_octet1 [OF d(1,2) lens(1)] s1 char_of_char)
  also have "\<dots> = base64_loop cs ?m2 d (p + 2) 3 pad"
    by (simp only: base64_loop_octet2 [OF s1(3) d3 lens(2) nth] s2 char_of_char pos)
  also have "\<dots> = Some (?m2, Some (p + 2, 3))"
    using "2.prems"(2) by (auto simp: base64_padding_def base64_loop_end simp del: base64_loop.simps(2))
  finally show ?case
    using "2.prems"(1)
    by (intro exI [of _ ?m2] exI [of _ 3]) (simp add: numeral_2_eq_2)
next
  case (3 cs a)
  have lt: "byte a < 256" "(0 :: nat) < 256" by simp_all
  note d = split_bytes(2-4) [OF lt lt(2)]
  have s1: "byte a div 4 * 4 + byte a mod 4 * 16 div 16 = byte a" "byte a mod 4 * 16 mod 16 * 16 = 0"
    by simp_all
  let ?m1 = "m[d + p := Some a, d + (p + 1) := Some (char_of (0 :: nat))]"
  have lens: "d + (p + 1) < length m" using "3.prems"(1) by simp
  have d2: "byte a mod 4 * 16 < 64" by simp
  have "base64_tuples cs [a] @ pad = base64_table cs ! (byte a div 4) #
      base64_table cs ! (byte a mod 4 * 16) # pad"
    by (simp only: base64_tuples_digits list.map append_Cons append_Nil)
  then have "base64_loop cs m d p 0 (base64_tuples cs [a] @ pad) = base64_loop cs ?m1 d (p + 1) 2 pad"
    by (simp only: base64_loop_octet1 [OF d(1) d2 lens(1)] s1 char_of_char)
  also have "\<dots> = Some (?m1, Some (p + 1, 2))"
    using "3.prems"(2)
    by (auto simp: base64_padding_def base64_loop_end numeral_2_eq_2 simp del: base64_loop.simps(2))
  finally show ?case
    using "3.prems"(1)
    by (intro exI [of _ ?m1] exI [of _ 2]) simp
next
  case (4 cs)
  then show ?case by (auto simp: base64_padding_def)
qed

lemma buffer_base64_roundtrip:
  assumes "buf_ok out" and "length (buf_str out) + length s + 16 < SIZE_T"
    and "e = base64_tuples cs s \<or> e = base64_enc cs s"
  shows "\<exists>out'. buffer_append_base64_decode out e cs = Some (out', True) \<and> buf_holds out' (buf_str out @ s)"
proof -
  obtain pad where e: "e = base64_tuples cs s @ pad" and pad: "pad = [] \<or> pad = base64_padding cs s"
    using assms(3) by (auto simp: base64_enc_def)
  let ?n = "3 * (length e div 4) + 3" and ?d = "length (buf_str out)"
  have "length s div 3 \<le> length e div 4"
    unfolding e by (simp add: length_base64_tuples div_add_self1)
  then have ge: "length s < ?n" using div_mult_mod_eq [of "length s" 3] mod_less_divisor [of 3 "length s"] by linarith
  have "length e \<le> 4 * (length s div 3) + 7"
    unfolding e using pad by (auto simp: length_base64_tuples base64_padding_def)
  then have le: "?n \<le> length s + 9" by linarith
  have "length (buf_str out) + ?n + 1 < SIZE_T" using assms(2) le by linarith
  with assms(1) obtain b where p: "buffer_string_prepare_append out ?n = Some (b, ?d)"
    and h: "buf_holds b (buf_str out)" and fits: "?d + ?n < b_size b"
    by (rule buffer_string_prepare_append_ok)
  have r: "uadd (umul 3 (length e div 4)) 3 = ?n" using assms(2) le by simp
  have len: "length (b_ptr b) = b_size b" and u: "b_used b = ?d + 1" and sh: "buf_shape b"
    using h by (auto simp: buf_holds_def buf_shape_def)
  have "?d + (0 + length s) < length (b_ptr b)" using fits ge len by linarith
  from base64_loop_roundtrip [OF this pad] obtain m' g where
    m': "base64_loop cs (b_ptr b) ?d 0 0 e = Some (m', Some (length s, g))" "length m' = b_size b"
      "take ?d m' = take ?d (b_ptr b)" "holds_at m' ?d s" "g \<noteq> 1"
      "g \<noteq> 0 \<longrightarrow> m' ! (?d + length s) = Some NUL"
    using len e by auto
  have "take ?d m' = map Some (buf_str out)" using buf_holds_take [OF h] m'(3) by simp
  then have "holds_at m' 0 (buf_str out @ s)"
    using m'(4) fits m'(2) by (simp add: holds_at_append) (simp add: holds_at_iff)
  then have c: "\<exists>b'. buffer_commit (b\<lparr>b_ptr := m'\<rparr>) (length s) = Some b' \<and> buf_holds b' (buf_str out @ s)"
    using sh m'(2) u fits ge by (intro buffer_commit_in_place) (auto simp: buf_shape_def)
  have "g \<noteq> 0 \<Longrightarrow> mem_read m' (?d + length s) = Some NUL"
    using m'(2,6) fits ge by (simp add: mem_read_def)
  then show ?thesis
    using c p m'(1,5) unfolding buffer_append_base64_decode_def r by (cases "g = 0") auto
qed

text \<open>
  A failing decode has already overwritten the terminator of the output buffer and does not
  put it back: the buffer is left in use without a terminating zero.
\<close>

lemma base64_decode_failure_unterminated:
  "\<exists>out'. buffer_append_base64_decode buffer_init ''QQ?'' BASE64_STANDARD = Some (out', False) \<and>
    \<not> buf_ok out'"
proof -
  let ?m = "mem_fresh 64"
  let ?b = "\<lparr>b_ptr = ?m[0 := Some NUL], b_used = 1, b_size = 64\<rparr>"
  have prep: "buffer_string_prepare_append buffer_init 3 = Some (?b, 0)"
    by (simp add: buffer_string_prepare_append_def buffer_string_prepare_copy_def buffer_init_def
        buffer_string_is_empty_def buffer_string_length_def buffer_alloc_def buffer_align_size_def
        BUFFER_PIECE_SIZE_def SIZE_T_def uadd_def mem_write_def Let_def mem_fresh_def)
  let ?m2 = "?m[0 := Some (char_of (65 :: nat)), 1 := Some (char_of (0 :: nat))]"
  have "(16 :: nat) < 64" by simp
  then have q: "base64_loop BASE64_STANDARD (b_ptr ?b) 0 0 0 ''QQ?'' = base64_loop BASE64_STANDARD ?m2 0 1 2 ''?''"
    using base64_loop_octet1 [of 16 16 0 0 "b_ptr ?b" BASE64_STANDARD "''?''"]
    by (simp add: base64_standard_table_def mem_fresh_def del: base64_loop.simps)
  have "base64_loop BASE64_STANDARD ?m2 0 1 2 ''?'' = Some (?m2, None)"
    by (simp add: base64_standard_reverse_table_def NUL_def Let_def)
  then have "buffer_append_base64_decode buffer_init ''QQ?'' BASE64_STANDARD = Some (?b\<lparr>b_ptr := ?m2\<rparr>, False)"
    using prep q by (simp add: buffer_append_base64_decode_def SIZE_T_def uadd_def umul_def del: base64_loop.simps)
  moreover have "\<not> buf_ok (?b\<lparr>b_ptr := ?m2\<rparr>)"
    using byte_eq_iff [of "char_of (65 :: nat)" NUL]
    by (auto simp: buf_ok_def mem_fresh_def take_Suc_conv_app_nth)
  ultimately show ?thesis by blast
qed

section \<open>Guarantees\<close>

text \<open>C33: Appending the base64 encoding of any bytes, padded or not, in either alphabet, and
  decoding the appended text again yields the bytes.\<close>

theorem base64_encode_decode:
  assumes "buf_holds b []" and "buf_ok out" and "length (buf_str out) + 4 * length s + 16 < SIZE_T"
  shows "\<exists>b' out'. (if pad then buffer_append_base64_encode b s cs
      else buffer_append_base64_encode_no_padding b s cs) = Some b' \<and>
    buffer_append_base64_decode out (buf_str b') cs = Some (out', True) \<and> buf_holds out' (buf_str out @ s)"
proof -
  note b = buf_holdsD [OF assms(1)]
  have room: "length (buf_str b) + 4 * (length s div 3) + 8 < SIZE_T"
    using assms(3) b(3) by simp
  define e where "e = (if pad then base64_enc cs s else base64_tuples cs s)"
  obtain b' where b': "(if pad then buffer_append_base64_encode b s cs
      else buffer_append_base64_encode_no_padding b s cs) = Some b'" "buf_holds b' e"
    using buffer_append_base64_encode_ok [OF b(4) room, of cs] b(3) by (cases pad) (auto simp: e_def)
  have "e = base64_tuples cs s \<or> e = base64_enc cs s" by (simp add: e_def)
  moreover have "length (buf_str out) + length s + 16 < SIZE_T" using assms(3) by simp
  ultimately obtain out' where "buffer_append_base64_decode out e cs = Some (out', True)"
    "buf_holds out' (buf_str out @ s)"
    using buffer_base64_roundtrip [OF assms(2)] by blast
  then show ?thesis using b' buf_holdsD(3) [OF b'(2)] by auto
qed

theorem base64_encode_decode_witness:
  "\<exists>b' out'. buffer_append_base64_encode (buf_lit []) ''ab'' BASE64_URL = Some b' \<and>
    buffer_append_base64_decode buffer_init (buf_str b') BASE64_URL = Some (out', True) \<and>
    buf_holds out' ''ab''"
  using base64_encode_decode [of "buf_lit []" buffer_init "''ab''" True BASE64_URL] buf_lit_holds [of "[]"]
  by (simp add: SIZE_T_def)

text \<open>C34: On any input, well-formed or not, decoding base64 stays inside the memory it reserved and
  returns; when it reports success the output buffer is valid and extends the old content.\<close>

theorem base64_decode_safe:
  assumes "buf_ok out" and "length (buf_str out) + 3 * (length s div 4) + 4 < SIZE_T"
  shows "\<exists>out' ok. buffer_append_base64_decode out s cs = Some (out', ok) \<and>
    (ok \<longrightarrow> (\<exists>t. buf_holds out' (buf_str out @ t)))"
  using assms by (rule buffer_append_base64_decode_safe)

theorem base64_decode_safe_witness:
  "\<exists>out' ok. buffer_append_base64_decode buffer_init ''Q=Q?'' BASE64_STANDARD = Some (out', ok) \<and>
    (ok \<longrightarrow> (\<exists>t. buf_holds out' t))"
  using base64_decode_safe [of buffer_init "''Q=Q?''" BASE64_STANDARD] by (simp add: SIZE_T_def)

end
