(* ===== verification/Etag.thy ===== *)
theory Etag
  imports Buffer_Num
begin

text \<open>
  \<open>etag.c\<close>: creating an entity tag from a file's status, hashing it into a quoted tag, and
  the state machine that matches a tag against an \<open>If-None-Match\<close> list. The machine is
  characterised exactly on lists of well-formed tags, and it never reads past the end of a
  well-formed stored tag.
\<close>

section \<open>Matching\<close>

datatype etag_state = START | CHECK | CHECK_QUOTED | SKIP | SKIP_QUOTED | TAIL

text \<open>\<open>*tok\<close>: the stored tag and its terminator are readable, nothing behind it is.\<close>

definition tag_read :: "string \<Rightarrow> nat \<Rightarrow> char option" where
  "tag_read etag i = (if i < length etag then Some (etag ! i) else if i = length etag then Some NUL else None)"

definition list_blank :: "char \<Rightarrow> bool" where
  "list_blank c \<longleftrightarrow> c = SP \<or> c = TAB \<or> c = CR \<or> c = LF"

text \<open>
  The loop over the rest of the line. \<open>Some True\<close> and \<open>Some False\<close> are the values 1 and 0
  returned; \<open>tok\<close> is the offset of the token pointer.
\<close>

fun etag_loop :: "string \<Rightarrow> nat \<Rightarrow> bool \<Rightarrow> etag_state \<Rightarrow> nat \<Rightarrow> string \<Rightarrow> bool option" where
  "etag_loop etag tok_start weak_ok state tok [] = Some False"
| "etag_loop etag tok_start weak_ok START tok (c # r) =
     (if c = CHR ''W''
      then (case r of
          s # q # r' \<Rightarrow>
            (if s \<noteq> CHR ''/'' then Some False
             else if q \<noteq> DQUOTE then Some False
             else if \<not> weak_ok then etag_loop etag tok_start weak_ok SKIP tok r'
             else etag_loop etag tok_start weak_ok CHECK tok_start r')
        | _ \<Rightarrow> Some False)
      else if c = DQUOTE then etag_loop etag tok_start weak_ok CHECK tok_start r
      else if list_blank c \<or> c = CHR '','' then etag_loop etag tok_start weak_ok START tok r
      else Some False)"
| "etag_loop etag tok_start weak_ok CHECK tok (c # r) = do {
     t \<leftarrow> tag_read etag tok;
     let matched = (t \<noteq> NUL \<and> t = c);
     let tok = tok + 1;
     if c = BSLASH
     then etag_loop etag tok_start weak_ok (if matched then CHECK_QUOTED else SKIP_QUOTED) tok r
     else if c = DQUOTE
     then do {
       t \<leftarrow> tag_read etag tok;
       if t \<noteq> NUL then Some False
       else if matched then Some True
       else etag_loop etag tok_start weak_ok TAIL tok r
     }
     else etag_loop etag tok_start weak_ok (if matched then CHECK else SKIP) tok r
   }"
| "etag_loop etag tok_start weak_ok CHECK_QUOTED tok (c # r) = do {
     t \<leftarrow> tag_read etag tok;
     if t = NUL \<or> t \<noteq> c then etag_loop etag tok_start weak_ok SKIP tok r
     else etag_loop etag tok_start weak_ok CHECK (tok + 1) r
   }"
| "etag_loop etag tok_start weak_ok SKIP tok (c # r) =
     etag_loop etag tok_start weak_ok
       (if c = BSLASH then SKIP_QUOTED else if c = DQUOTE then TAIL else SKIP) tok r"
| "etag_loop etag tok_start weak_ok SKIP_QUOTED tok (c # r) = etag_loop etag tok_start weak_ok SKIP tok r"
| "etag_loop etag tok_start weak_ok TAIL tok (c # r) =
     (if c = CHR '','' then etag_loop etag tok_start weak_ok START tok r
      else if list_blank c then etag_loop etag tok_start weak_ok TAIL tok r
      else Some False)"

text \<open>The \<open>etag\<close> pointer may be \<open>NULL\<close>.\<close>

definition etag_is_equal :: "string option \<Rightarrow> string \<Rightarrow> bool \<Rightarrow> bool option" where
  "etag_is_equal etag line weak_ok =
     (let line = cstr line
      in if line = ''*'' then Some True
      else case etag of
        None \<Rightarrow> Some False
      | Some e \<Rightarrow>
          (if e = [] then Some False
           else do {
             c0 \<leftarrow> tag_read e 0;
             tok_start \<leftarrow>
               (if c0 = CHR ''W'' then do {
                  c1 \<leftarrow> tag_read e 1;
                  Some (if \<not> weak_ok \<or> c1 \<noteq> CHR ''/'' then None else Some 2)
                } else Some (Some 0));
             case tok_start of
               None \<Rightarrow> Some False
             | Some i \<Rightarrow> do {
                 q \<leftarrow> tag_read e i;
                 if q \<noteq> DQUOTE then Some False
                 else etag_loop e (i + 1) weak_ok START 0 line
               }
           }))"

section \<open>Well-formed tags\<close>

text \<open>The inside of a tag: plain characters, and any character after a backslash.\<close>

fun tag_body :: "string \<Rightarrow> bool" where
  "tag_body [] = True"
| "tag_body (c # s) =
     (if c = BSLASH then (case s of [] \<Rightarrow> False | x # r \<Rightarrow> x \<noteq> NUL \<and> tag_body r)
      else c \<noteq> DQUOTE \<and> c \<noteq> NUL \<and> tag_body s)"

declare tag_body.simps(2) [simp del]

lemma tag_body_plain: "c \<noteq> BSLASH \<Longrightarrow> tag_body (c # s) \<longleftrightarrow> c \<noteq> DQUOTE \<and> c \<noteq> NUL \<and> tag_body s"
  by (simp add: tag_body.simps(2))

lemma tag_body_quoted: "tag_body (BSLASH # x # r) \<longleftrightarrow> x \<noteq> NUL \<and> tag_body r"
  by (simp add: tag_body.simps(2))

lemma NUL_neq_tag [simp]: "NUL \<noteq> BSLASH" "NUL \<noteq> DQUOTE" "BSLASH \<noteq> NUL" "DQUOTE \<noteq> NUL"
  "NUL \<noteq> CHR '',''"
  by (simp_all add: NUL_def)

lemma not_tag_body_bslash [simp]: "\<not> tag_body [BSLASH]"
  by (simp add: tag_body.simps(2))

text \<open>Case analysis along the structure of a body.\<close>

lemma tag_body_induct [consumes 1, case_names Nil Plain Quoted]:
  assumes "tag_body s" and "P []"
    and "\<And>c s. c \<noteq> BSLASH \<Longrightarrow> c \<noteq> DQUOTE \<Longrightarrow> c \<noteq> NUL \<Longrightarrow> tag_body s \<Longrightarrow> P s \<Longrightarrow> P (c # s)"
    and "\<And>x s. x \<noteq> NUL \<Longrightarrow> tag_body s \<Longrightarrow> P s \<Longrightarrow> P (BSLASH # x # s)"
  shows "P s"
  using assms(1)
proof (induction s rule: length_induct)
  case (1 s)
  show ?case
  proof (cases s)
    case Nil
    then show ?thesis using assms(2) by simp
  next
    case (Cons c t)
    show ?thesis
    proof (cases "c = BSLASH")
      case True
      with "1.prems" Cons obtain x r where "t = x # r" "x \<noteq> NUL" "tag_body r"
        by (cases t) (auto simp: tag_body_quoted)
      then show ?thesis using "1.IH" Cons True assms(4) by simp
    next
      case False
      then show ?thesis using "1.IH" "1.prems" Cons assms(3) by (simp add: tag_body_plain)
    qed
  qed
qed

record etag =
  et_weak :: bool
  et_body :: string

definition tag_text :: "etag \<Rightarrow> string" where
  "tag_text t = (if et_weak t then ''W/'' else []) @ DQUOTE # et_body t @ [DQUOTE]"

text \<open>
  What the machine decides for a list of tags: tags that may not be compared are skipped, the
  first equal one matches, and one that is a proper prefix of the stored tag ends the search.
\<close>

fun tag_match :: "string \<Rightarrow> bool \<Rightarrow> etag list \<Rightarrow> bool" where
  "tag_match b weak_ok [] = False"
| "tag_match b weak_ok (t # ts) =
     (if et_weak t \<and> \<not> weak_ok then tag_match b weak_ok ts
      else if et_body t = b then True
      else if take (length (et_body t)) b = et_body t then False
      else tag_match b weak_ok ts)"

text \<open>Tags separated by commas with optional blanks around them.\<close>

definition blanks :: "string \<Rightarrow> bool" where
  "blanks s \<longleftrightarrow> (\<forall>c \<in> set s. list_blank c)"

fun list_text :: "(string \<times> etag \<times> string) list \<Rightarrow> string" where
  "list_text [] = []"
| "list_text ((pre, t, post) # ts) =
     pre @ tag_text t @ post @ (if ts = [] then [] else CHR '','' # list_text ts)"

section \<open>Steps of the machine\<close>

lemma list_blank_simps [simp]:
  "\<not> list_blank DQUOTE" "\<not> list_blank BSLASH" "\<not> list_blank (CHR ''W'')" "\<not> list_blank (CHR '','')"
  by (simp_all add: list_blank_def)

lemma loop_start_blanks:
  "blanks s \<Longrightarrow> etag_loop e ts w START tok (s @ r) = etag_loop e ts w START tok r"
  by (induction s) (auto simp: blanks_def)

lemma loop_tail_blanks:
  "blanks s \<Longrightarrow> etag_loop e ts w TAIL tok (s @ r) = etag_loop e ts w TAIL tok r"
  by (induction s) (auto simp: blanks_def)

text \<open>A tag that is skipped.\<close>

lemma loop_skip:
  "tag_body s \<Longrightarrow> etag_loop e ts w SKIP tok (s @ DQUOTE # r) = etag_loop e ts w TAIL tok r"
  by (induction s rule: tag_body_induct) auto

text \<open>
  A tag that is compared. \<open>b\<close> is what is left of the stored tag in front of its closing quote;
  after a mismatch or at the end of the stored tag the rest of the candidate is skipped.
\<close>

lemma tag_read_at: "etag = p @ c # q \<Longrightarrow> tag_read etag (length p) = Some c"
  by (simp add: tag_read_def)

lemma tag_read_next: "etag = p @ [c] \<Longrightarrow> tag_read etag (Suc (length p)) = Some NUL"
  "etag = p @ c # d # q \<Longrightarrow> tag_read etag (Suc (length p)) = Some d"
  by (simp_all add: tag_read_def nth_append)

lemma loop_check:
  assumes "tag_body s" and "tag_body b" and "etag = p @ b @ [DQUOTE]"
  shows "if s = b then etag_loop etag ts w CHECK (length p) (s @ DQUOTE # r) = Some True
    else if take (length s) b = s then etag_loop etag ts w CHECK (length p) (s @ DQUOTE # r) = Some False
    else \<exists>tok. etag_loop etag ts w CHECK (length p) (s @ DQUOTE # r) = etag_loop etag ts w TAIL tok r"
  using assms
proof (induction s arbitrary: p b rule: tag_body_induct)
  case Nil
  show ?case
  proof (cases b)
    case b: Nil
    have "tag_read etag (length p) = Some DQUOTE" "tag_read etag (Suc (length p)) = Some NUL"
      using Nil.prems(2) b by (simp_all add: tag_read_def)
    then show ?thesis using b by (simp add: NUL_def)
  next
    case (Cons c b')
    then obtain d q where dq: "b' @ [DQUOTE] = d # q" by (cases b') auto
    have "d \<noteq> NUL"
      using Nil.prems(1) Cons dq by (cases b') (auto simp: tag_body.simps(2) NUL_def split: if_splits list.splits)
    moreover have "tag_read etag (length p) = Some c" "tag_read etag (Suc (length p)) = Some d"
      using Nil.prems(2) Cons dq by (simp_all add: tag_read_at tag_read_next)
    ultimately show ?thesis using Cons by simp
  qed
next
  case (Plain c s)
  show ?case
  proof (cases b)
    case Nil
    have t: "tag_read etag (length p) = Some DQUOTE" using Plain.prems(2) Nil by (simp add: tag_read_at)
    have "etag_loop etag ts w CHECK (length p) ((c # s) @ DQUOTE # r)
        = etag_loop etag ts w TAIL (Suc (length p)) r"
      using t Plain.hyps loop_skip [OF Plain.hyps(4)] by simp
    then show ?thesis using Nil by auto
  next
    case (Cons d b')
    have t: "tag_read etag (length p) = Some d" using Plain.prems(2) Cons by (simp add: tag_read_at)
    show ?thesis
    proof (cases "c = d")
      case True
      have "etag = (p @ [d]) @ b' @ [DQUOTE]" "tag_body b'"
        using Plain.prems Cons Plain.hyps True by (simp_all add: tag_body_plain)
      from Plain.IH [OF this(2,1)] show ?thesis
        using t True Cons Plain.hyps by (cases "s = b'"; cases "take (length s) b' = s") simp_all
    next
      case False
      have "etag_loop etag ts w CHECK (length p) ((c # s) @ DQUOTE # r)
          = etag_loop etag ts w TAIL (Suc (length p)) r"
        using t False Plain.hyps loop_skip [OF Plain.hyps(4)] by simp
      then show ?thesis using Cons False by auto
    qed
  qed
next
  case (Quoted x s)
  show ?case
  proof (cases "\<exists>b'. b = BSLASH # b'")
    case False
    obtain d q where dq: "b @ [DQUOTE] = d # q" "d \<noteq> BSLASH"
      using False by (cases b) auto
    have t: "tag_read etag (length p) = Some d"
      using Quoted.prems(2) dq by (simp add: tag_read_at)
    have "etag_loop etag ts w CHECK (length p) ((BSLASH # x # s) @ DQUOTE # r)
        = etag_loop etag ts w TAIL (Suc (length p)) r"
      using t dq(2) loop_skip [OF Quoted.hyps(2)] by simp
    moreover have "BSLASH # x # s \<noteq> b" "take (length (BSLASH # x # s)) b \<noteq> BSLASH # x # s"
      using False by (cases b; auto)+
    ultimately show ?thesis by (simp only: if_False simp_thms) blast
  next
    case True
    then obtain y b' where b: "b = BSLASH # y # b'" "y \<noteq> NUL" "tag_body b'"
      using Quoted.prems(1) by (auto simp: tag_body.simps(2) split: list.splits)
    have t: "tag_read etag (length p) = Some BSLASH" "tag_read etag (Suc (length p)) = Some y"
      using Quoted.prems(2) b(1) by (simp_all add: tag_read_at tag_read_next)
    have step: "etag_loop etag ts w CHECK (length p) ((BSLASH # x # s) @ DQUOTE # r)
        = (if y \<noteq> x then etag_loop etag ts w SKIP (Suc (length p)) (s @ DQUOTE # r)
           else etag_loop etag ts w CHECK (Suc (Suc (length p))) (s @ DQUOTE # r))"
      using t b(2) by (simp add: NUL_def)
    show ?thesis
    proof (cases "y = x")
      case True
      have "etag = (p @ [BSLASH, y]) @ b' @ [DQUOTE]" using Quoted.prems(2) b(1) by simp
      from Quoted.IH [OF b(3) this] show ?thesis
        using step True b(1) by (cases "s = b'"; cases "take (length s) b' = s") simp_all
    next
      case False
      then show ?thesis using step loop_skip [OF Quoted.hyps(2)] b(1) by auto
    qed
  qed
qed

text \<open>The token pointer is set afresh for every tag, so its value in between does not matter.\<close>

lemma loop_tok:
  "state = START \<or> state = SKIP \<or> state = SKIP_QUOTED \<or> state = TAIL \<Longrightarrow>
     etag_loop e ts w state tok r = etag_loop e ts w state tok' r"
proof (induction r arbitrary: state rule: length_induct)
  case (1 r)
  note IH = "1.IH" [rule_format]
  show ?case
  proof (cases r)
    case (Cons c s)
    then have s: "state' = START \<or> state' = SKIP \<or> state' = SKIP_QUOTED \<or> state' = TAIL \<Longrightarrow>
        etag_loop e ts w state' tok s = etag_loop e ts w state' tok' s" for state'
      using IH [of s] by simp
    have s2: "etag_loop e ts w SKIP tok s2 = etag_loop e ts w SKIP tok' s2" if "s = a # b # s2" for a b s2
      using IH [of s2 SKIP] that Cons by simp
    from "1.prems" show ?thesis
    proof (elim disjE)
      assume "state = START"
      then show ?thesis using Cons s [of START] s2 by (auto split: list.split)
    qed (use Cons s in simp_all)
  qed simp
qed

lemma loop_list:
  assumes "tag_body b" and "etag = p @ b @ [DQUOTE]"
    and "\<forall>(pre, t, post) \<in> set items. blanks pre \<and> blanks post \<and> tag_body (et_body t)"
  shows "etag_loop etag (length p) w START tok (list_text items)
    = Some (tag_match b w (map (\<lambda>(pre, t, post). t) items))"
  using assms(3)
proof (induction items arbitrary: tok)
  case (Cons it items)
  obtain pre t post where it: "it = (pre, t, post)" by (cases it)
  have wf: "blanks pre" "blanks post" "tag_body (et_body t)" using Cons.prems it by auto
  let ?rest = "if items = [] then [] else CHR '','' # list_text items"
  let ?ms = "tag_match b w (map (\<lambda>(pre, t, post). t) items)"
  have IH: "etag_loop etag (length p) w START tok (list_text items) = Some ?ms" for tok
    using Cons by simp
  have tail: "etag_loop etag (length p) w TAIL tok (post @ ?rest) = Some ?ms" for tok
    using loop_tail_blanks [OF wf(2), of etag "length p" w tok] IH
      loop_tail_blanks [OF wf(2), of etag "length p" w tok "[]"]
    by (cases items) simp_all
  have lay: "list_text (it # items) = pre @ (if et_weak t then ''W/'' else []) @
      DQUOTE # et_body t @ DQUOTE # post @ ?rest"
    by (simp add: it tag_text_def)
  have go: "etag_loop etag (length p) w START tok (list_text (it # items)) =
      (if et_weak t \<and> \<not> w
       then etag_loop etag (length p) w SKIP tok (et_body t @ DQUOTE # post @ ?rest)
       else etag_loop etag (length p) w CHECK (length p) (et_body t @ DQUOTE # post @ ?rest))"
    unfolding lay loop_start_blanks [OF wf(1)] by simp
  show ?case
  proof (cases "et_weak t \<and> \<not> w")
    case True
    then show ?thesis unfolding go using loop_skip [OF wf(3)] tail by (simp add: it)
  next
    case False
    from loop_check [OF wf(3) assms(1,2), of "length p" w "post @ ?rest"] show ?thesis
      unfolding go using False tail by (auto simp: it split: if_splits)
  qed
qed simp

section \<open>What matching decides\<close>

lemma tag_text_reads:
  "tag_read (tag_text t) 0 = Some (if et_weak t then CHR ''W'' else DQUOTE)"
  "et_weak t \<Longrightarrow> tag_read (tag_text t) 1 = Some (CHR ''/'') \<and> tag_read (tag_text t) 2 = Some DQUOTE"
  by (auto simp: tag_read_def tag_text_def)

lemma etag_is_equal_eq:
  assumes e: "tag_body (et_body e)" and items: "items \<noteq> []"
    and wf: "\<forall>(pre, t, post) \<in> set items. blanks pre \<and> blanks post \<and> tag_body (et_body t)"
  shows "etag_is_equal (Some (tag_text e)) (list_text items) weak_ok =
    Some ((et_weak e \<longrightarrow> weak_ok) \<and> tag_match (et_body e) weak_ok (map (\<lambda>(pre, t, post). t) items))"
proof -
  have body: "NUL \<notin> set s" if "tag_body s" for s
    using that by (induction s rule: tag_body_induct) auto
  have blank: "NUL \<notin> set s" if "blanks s" for s
  proof
    assume "NUL \<in> set s"
    then have "list_blank NUL" using that by (simp add: blanks_def)
    then show False by (simp add: list_blank_def NUL_def)
  qed
  have tag: "NUL \<notin> set (tag_text t)" if "tag_body (et_body t)" for t
    using body [OF that] by (auto simp: tag_text_def NUL_def)
  have "NUL \<notin> set (list_text items)"
    using wf
  proof (induction items)
    case (Cons it items)
    obtain pre t post where it: "it = (pre, t, post)" by (cases it)
    then have "NUL \<notin> set pre" "NUL \<notin> set post" "NUL \<notin> set (tag_text t)"
      using Cons.prems tag blank by auto
    then show ?case using Cons it by simp
  qed simp
  then have line: "cstr (list_text items) = list_text items" by simp
  have "DQUOTE \<in> set (list_text items)"
    using items by (cases items) (auto simp: tag_text_def)
  then have star: "list_text items \<noteq> ''*''" by auto
  have ne: "tag_text e \<noteq> []" by (simp add: tag_text_def)
  show ?thesis
  proof (cases "et_weak e")
    case True
    have "etag_loop (tag_text e) 3 weak_ok START 0 (list_text items)
        = Some (tag_match (et_body e) weak_ok (map (\<lambda>(pre, t, post). t) items))"
      using loop_list [OF e _ wf, of "tag_text e" "''W/'' @ [DQUOTE]" weak_ok 0] True
      by (simp add: tag_text_def numeral_3_eq_3)
    then show ?thesis
      using True tag_text_reads [of e] star ne
      by (cases weak_ok) (simp_all add: etag_is_equal_def line)
  next
    case False
    have "etag_loop (tag_text e) 1 weak_ok START 0 (list_text items)
        = Some (tag_match (et_body e) weak_ok (map (\<lambda>(pre, t, post). t) items))"
      using loop_list [OF e _ wf, of "tag_text e" "[DQUOTE]" weak_ok 0] False
      by (simp add: tag_text_def)
    then show ?thesis
      using False tag_text_reads [of e] star ne by (simp add: etag_is_equal_def line)
  qed
qed

text \<open>With no proper prefix among the candidates the machine finds the tag wherever it stands.\<close>

lemma tag_match_iff:
  assumes "\<forall>t \<in> set ts. \<not> (et_body t \<noteq> b \<and> take (length (et_body t)) b = et_body t)"
  shows "tag_match b w ts \<longleftrightarrow> (\<exists>t \<in> set ts. et_body t = b \<and> (et_weak t \<longrightarrow> w))"
  using assms by (induction ts) auto

section \<open>Creating and hashing\<close>

text \<open>The bits of \<open>etag_flags_t\<close>, and the fields of \<open>struct stat\<close> that are printed.\<close>

record etag_flags =
  use_inode :: bool
  use_mtime :: bool
  use_size :: bool

record stat_id =
  st_ino :: "64 word"
  st_size :: "64 word"
  st_mtime :: "64 word"

definition etag_create :: "buffer \<Rightarrow> stat_id \<Rightarrow> etag_flags \<Rightarrow> buffer option" where
  "etag_create b st flags =
     (if \<not> use_inode flags \<and> \<not> use_mtime flags \<and> \<not> use_size flags then Some b
      else do {
        let b = buffer_reset b;
        b \<leftarrow> (if use_inode flags then do {
               b \<leftarrow> buffer_append_int b (st_ino st);
               buffer_append_string_len b ''-''
             } else Some b);
        b \<leftarrow> (if use_size flags then do {
               b \<leftarrow> buffer_append_int b (st_size st);
               buffer_append_string_len b ''-''
             } else Some b);
        if use_mtime flags then buffer_append_int b (st_mtime st) else Some b
      })"

text \<open>\<open>h = (h << 5) ^ (h >> 27) ^ etag->ptr[i]\<close>, a sign-extended \<open>char\<close>.\<close>

fun etag_hash :: "32 word \<Rightarrow> string \<Rightarrow> 32 word" where
  "etag_hash h [] = h"
| "etag_hash h (c # s) = etag_hash ((push_bit 5 h XOR drop_bit 27 h) XOR word_of_int (schar c)) s"

definition etag_mutate :: "buffer \<Rightarrow> string \<Rightarrow> buffer option" where
  "etag_mutate mut etag = do {
     let h = etag_hash 0 etag;
     let mut = buffer_reset mut;
     mut \<leftarrow> buffer_copy_string_len mut [DQUOTE];
     mut \<leftarrow> buffer_append_int mut (ucast h);
     buffer_append_string_len mut [DQUOTE]
   }"

definition stat_text :: "stat_id \<Rightarrow> etag_flags \<Rightarrow> string" where
  "stat_text st flags =
     (if use_inode flags then itostr (st_ino st) [] @ ''-'' else []) @
     (if use_size flags then itostr (st_size st) [] @ ''-'' else []) @
     (if use_mtime flags then itostr (st_mtime st) [] else [])"

lemma etag_create_ok:
  assumes "buf_shape b" and "use_inode flags \<or> use_mtime flags \<or> use_size flags"
  shows "\<exists>b'. etag_create b st flags = Some b' \<and> buf_ok b' \<and> buf_str b' = stat_text st flags"
proof -
  have r: "buf_ok (buffer_reset b)" "buf_str (buffer_reset b) = []"
    using buffer_reset_ok [OF assms(1)] by auto
  define ss where "ss =
    (if use_inode flags then [itostr (st_ino st) [], ''-''] else []) @
    (if use_size flags then [itostr (st_size st) [], ''-''] else []) @
    (if use_mtime flags then [itostr (st_mtime st) []] else [])"
  have cat: "concat ss = stat_text st flags" by (simp add: ss_def stat_text_def)
  have "length (stat_text st flags) < 100"
    using length_itostr [of "st_ino st" "[]"] length_itostr [of "st_size st" "[]"]
      length_itostr [of "st_mtime st" "[]"] by (simp add: stat_text_def)
  then have "length (buf_str (buffer_reset b)) + length (concat ss) < SIZE_T - 1"
    by (simp add: r cat SIZE_T_def)
  from buf.app_list_ok [OF r(1) this] have
    "\<exists>b'. buf.app_list (buffer_reset b) ss = Some b' \<and> buf_ok b' \<and> buf_str b' = stat_text st flags"
    by (simp add: r cat)
  moreover have "etag_create b st flags = buf.app_list (buffer_reset b) ss"
    using assms(2)
    by (cases "use_inode flags"; cases "use_size flags"; cases "use_mtime flags")
      (simp_all add: etag_create_def ss_def buffer_append_int_eq)
  ultimately show ?thesis by simp
qed

lemma digits_tag_body: "\<forall>c \<in> set s. is_digit c \<Longrightarrow> tag_body s"
proof (induction s)
  case (Cons c s)
  then have "c \<noteq> BSLASH" "c \<noteq> DQUOTE" "c \<noteq> NUL" by (auto simp: is_digit_def)
  then show ?case using Cons by (simp add: tag_body_plain)
qed simp

text \<open>The decimal digits of the hash.\<close>

definition hash_digits :: "string \<Rightarrow> string" where
  "hash_digits s = utostr (ucast (etag_hash 0 s)) []"

lemma etag_mutate_ok:
  assumes "buf_shape mut"
  shows "\<exists>mut' b. etag_mutate mut etag = Some mut' \<and> buf_ok mut' \<and> tag_body b \<and>
    buf_str mut' = tag_text \<lparr>et_weak = False, et_body = b\<rparr> \<and> b = hash_digits etag"
proof -
  let ?h = "ucast (etag_hash 0 etag) :: 64 word"
  have shape: "buf_shape (buffer_reset mut)"
    using buffer_reset_ok(1) [OF assms] by (rule buf_ok_shape)
  have "length [DQUOTE] + 1 < SIZE_T" by (simp add: SIZE_T_def)
  with shape obtain m1 where m1: "buffer_copy_string_len (buffer_reset mut) [DQUOTE] = Some m1" "buf_holds m1 [DQUOTE]"
    by (rule buffer_copy_string_len_ok)
  have pos: "0 \<le> sint ?h"
  proof -
    have "uint ?h < 2 ^ 32" using uint_lt2p [of "etag_hash 0 etag"] 
      by (simp add: unsigned_ucast_eq take_bit_int_eq_self)
    then show ?thesis by (simp add: sint_uint signed_take_bit_eq_if_positive bit_iff_odd)
  qed
  then have plain: "itostr ?h [] = utostr ?h []" by (simp add: itostr_def)
  have "length (buf_str m1) + length (concat [itostr ?h [], [DQUOTE]]) < SIZE_T - 1"
    using length_itostr [of ?h "[]"] buf_holdsD(3) [OF m1(2)] by (simp add: SIZE_T_def)
  from buf.app_list_ok [OF buf_holdsD(4) [OF m1(2)] this] obtain m2 where
    "buf.app_list m1 [itostr ?h [], [DQUOTE]] = Some m2" "buf_ok m2"
    "buf_str m2 = [DQUOTE] @ utostr ?h [] @ [DQUOTE]"
    using buf_holdsD(3) [OF m1(2)] plain by auto
  moreover have "tag_body (utostr ?h [])"
    using utostr_digits [of ?h] by (rule digits_tag_body)
  ultimately show ?thesis
    using m1(1) by (auto simp: etag_mutate_def buffer_append_int_eq tag_text_def Let_def hash_digits_def)
qed

lemma tag_match_found:
  assumes "t \<in> set ts" and "et_body t = b" and "et_weak t \<longrightarrow> w"
    and "\<forall>u \<in> set ts. \<not> (et_body u \<noteq> b \<and> take (length (et_body u)) b = et_body u)"
  shows "tag_match b w ts"
  using assms tag_match_iff [OF assms(4)] by blast

section \<open>Guarantees\<close>

text \<open>C36: For a well-formed stored tag and list of tags, \<open>etag_is_equal\<close> decides exactly
  \<open>tag_match\<close>: weak tags are skipped unless weak comparison is allowed, the first equal tag
  matches, and a listed tag that is a proper prefix of the stored one ends the search.\<close>

theorem etag_is_equal_exact:
  assumes "tag_body (et_body e)" and "items \<noteq> []"
    and "\<forall>(pre, t, post) \<in> set items. blanks pre \<and> blanks post \<and> tag_body (et_body t)"
  shows "etag_is_equal (Some (tag_text e)) (list_text items) weak_ok =
    Some ((et_weak e \<longrightarrow> weak_ok) \<and> tag_match (et_body e) weak_ok (map (\<lambda>(pre, t, post). t) items))"
  using assms by (rule etag_is_equal_eq)

theorem etag_is_equal_exact_witness:
  "etag_is_equal (Some (DQUOTE # ''abc'' @ [DQUOTE]))
     (DQUOTE # ''x'' @ DQUOTE # '', '' @ DQUOTE # ''abc'' @ [DQUOTE]) False = Some True"
  using etag_is_equal_exact [of "\<lparr>et_weak = False, et_body = ''abc''\<rparr>"
      "[([], \<lparr>et_weak = False, et_body = ''x''\<rparr>, []), ('' '', \<lparr>et_weak = False, et_body = ''abc''\<rparr>, [])]" False]
  by (simp add: tag_text_def blanks_def list_blank_def NUL_def tag_body_plain)

text \<open>C37: The tag \<open>etag_create\<close> and \<open>etag_mutate\<close> make for a file is a strong tag: the decimal digits of the
  hash of the text of inode, size and time (those that are configured), in quotes. It is found
  in every list of well-formed tags in which a client sends it back, if no other tag of the list is a
  proper prefix of it.\<close>

theorem etag_own_tag_matches:
  assumes "buf_shape b" and "buf_shape mut" and "use_inode flags \<or> use_mtime flags \<or> use_size flags"
  shows "\<exists>b' mut' body. etag_create b st flags = Some b' \<and> buf_str b' = stat_text st flags \<and>
    etag_mutate mut (buf_str b') = Some mut' \<and> body = hash_digits (stat_text st flags) \<and>
    buf_str mut' = DQUOTE # body @ [DQUOTE] \<and> body \<noteq> [] \<and> (\<forall>c \<in> set body. is_digit c) \<and>
    (\<forall>items. (\<forall>(pre, t, post) \<in> set items. blanks pre \<and> blanks post \<and> tag_body (et_body t) \<and>
        \<not> (et_body t \<noteq> body \<and> take (length (et_body t)) body = et_body t)) \<and>
      (\<exists>pre post. (pre, \<lparr>et_weak = False, et_body = body\<rparr>, post) \<in> set items) \<longrightarrow>
      etag_is_equal (Some (buf_str mut')) (list_text items) weak_ok = Some True)"
proof -
  obtain b' where b': "etag_create b st flags = Some b'" "buf_str b' = stat_text st flags"
    using etag_create_ok [OF assms(1,3)] by blast
  define body where "body = hash_digits (stat_text st flags)"
  let ?t = "\<lparr>et_weak = False, et_body = body\<rparr>"
  obtain mut' where m: "etag_mutate mut (buf_str b') = Some mut'" "tag_body body" "buf_str mut' = tag_text ?t"
    using etag_mutate_ok [OF assms(2), of "buf_str b'"] b'(2) by (auto simp: body_def)
  have digits: "body \<noteq> []" "\<forall>c \<in> set body. is_digit c"
    using utostr_digits utostr_not_Nil by (auto simp: body_def hash_digits_def)
  have "etag_is_equal (Some (tag_text ?t)) (list_text items) weak_ok = Some True"
    if items: "\<forall>(pre, t, post) \<in> set items. blanks pre \<and> blanks post \<and> tag_body (et_body t) \<and>
        \<not> (et_body t \<noteq> body \<and> take (length (et_body t)) body = et_body t)" "(pre, ?t, post) \<in> set items" for items pre post
  proof -
    let ?ts = "map (\<lambda>(pre, t, post). t) items"
    have "?t \<in> set ?ts" using items(2) by force
    then have "tag_match body weak_ok ?ts" using items(1) by (intro tag_match_found [of ?t]) (auto split: prod.splits)
    moreover have "\<forall>(pre, t, post) \<in> set items. blanks pre \<and> blanks post \<and> tag_body (et_body t)" "items \<noteq> []"
      using items by auto
    ultimately show ?thesis using m(2) by (subst etag_is_equal_eq) simp_all
  qed
  then show ?thesis
    using b' m(1,3) digits by (intro exI [of _ b'] exI [of _ mut'] exI [of _ body]) (auto simp: body_def tag_text_def)
qed

theorem etag_own_tag_matches_witness:
  "\<exists>b' mut' body. etag_create buffer_init \<lparr>st_ino = 7, st_size = 42, st_mtime = 1500000000\<rparr>
      \<lparr>use_inode = True, use_mtime = True, use_size = True\<rparr> = Some b' \<and>
    etag_mutate buffer_init (buf_str b') = Some mut' \<and> buf_str mut' = DQUOTE # body @ [DQUOTE] \<and>
    etag_is_equal (Some (buf_str mut')) (DQUOTE # ''x'' @ DQUOTE # '', '' @ DQUOTE # body @ [DQUOTE]) False = Some True"
proof -
  let ?st = "\<lparr>st_ino = 7, st_size = 42, st_mtime = 1500000000\<rparr>"
  let ?fl = "\<lparr>use_inode = True, use_mtime = True, use_size = True\<rparr>"
  have sh: "buf_shape buffer_init" and fl: "use_inode ?fl \<or> use_mtime ?fl \<or> use_size ?fl" by (simp_all add: buf_ok_shape)
  from etag_own_tag_matches [OF sh sh fl, of ?st False] obtain b' mut' body where
    e: "etag_create buffer_init ?st ?fl = Some b'" "etag_mutate buffer_init (buf_str b') = Some mut'"
      "buf_str mut' = DQUOTE # body @ [DQUOTE]" "body \<noteq> []" "\<forall>c \<in> set body. is_digit c"
    and match: "\<forall>items. (\<forall>(pre, t, post) \<in> set items. blanks pre \<and> blanks post \<and> tag_body (et_body t) \<and>
        \<not> (et_body t \<noteq> body \<and> take (length (et_body t)) body = et_body t)) \<and>
      (\<exists>pre post. (pre, \<lparr>et_weak = False, et_body = body\<rparr>, post) \<in> set items) \<longrightarrow>
      etag_is_equal (Some (buf_str mut')) (list_text items) False = Some True"
    by (elim exE conjE) (rule that; assumption)
  have "\<not> is_digit (CHR ''x'')" by (simp add: is_digit_def)
  then have x: "take (length ''x'') body \<noteq> ''x''" using e(4,5) by (cases body) auto
  have "tag_body body" using e(5) by (rule digits_tag_body)
  then have "etag_is_equal (Some (buf_str mut')) (list_text
      [([], \<lparr>et_weak = False, et_body = ''x''\<rparr>, []), ('' '', \<lparr>et_weak = False, et_body = body\<rparr>, [])]) False = Some True"
    using x by (intro match [rule_format]) (auto simp: blanks_def list_blank_def tag_body_plain NUL_def)
  then show ?thesis using e(1-3) by (auto simp: tag_text_def)
qed



end
