(* ===== verification/Crc32.thy ===== *)
theory Crc32
  imports Prelude
begin

text \<open>
  \<open>crc32.c\<close>: the table-driven checksum, shown to be the bitwise division by the reflected
  polynomial \<open>0xEDB88320\<close> of CRC-32 (not Castagnoli's, which the name \<open>generate_crc32c\<close>
  suggests).
\<close>

unbundle bit_operations_syntax

definition crc_c :: "32 word list" where
  "crc_c =
     [0x00000000, 0x77073096, 0xee0e612c, 0x990951ba,
      0x076dc419, 0x706af48f, 0xe963a535, 0x9e6495a3,
      0x0edb8832, 0x79dcb8a4, 0xe0d5e91e, 0x97d2d988,
      0x09b64c2b, 0x7eb17cbd, 0xe7b82d07, 0x90bf1d91,
      0x1db71064, 0x6ab020f2, 0xf3b97148, 0x84be41de,
      0x1adad47d, 0x6ddde4eb, 0xf4d4b551, 0x83d385c7,
      0x136c9856, 0x646ba8c0, 0xfd62f97a, 0x8a65c9ec,
      0x14015c4f, 0x63066cd9, 0xfa0f3d63, 0x8d080df5,
      0x3b6e20c8, 0x4c69105e, 0xd56041e4, 0xa2677172,
      0x3c03e4d1, 0x4b04d447, 0xd20d85fd, 0xa50ab56b,
      0x35b5a8fa, 0x42b2986c, 0xdbbbc9d6, 0xacbcf940,
      0x32d86ce3, 0x45df5c75, 0xdcd60dcf, 0xabd13d59,
      0x26d930ac, 0x51de003a, 0xc8d75180, 0xbfd06116,
      0x21b4f4b5, 0x56b3c423, 0xcfba9599, 0xb8bda50f,
      0x2802b89e, 0x5f058808, 0xc60cd9b2, 0xb10be924,
      0x2f6f7c87, 0x58684c11, 0xc1611dab, 0xb6662d3d,
      0x76dc4190, 0x01db7106, 0x98d220bc, 0xefd5102a,
      0x71b18589, 0x06b6b51f, 0x9fbfe4a5, 0xe8b8d433,
      0x7807c9a2, 0x0f00f934, 0x9609a88e, 0xe10e9818,
      0x7f6a0dbb, 0x086d3d2d, 0x91646c97, 0xe6635c01,
      0x6b6b51f4, 0x1c6c6162, 0x856530d8, 0xf262004e,
      0x6c0695ed, 0x1b01a57b, 0x8208f4c1, 0xf50fc457,
      0x65b0d9c6, 0x12b7e950, 0x8bbeb8ea, 0xfcb9887c,
      0x62dd1ddf, 0x15da2d49, 0x8cd37cf3, 0xfbd44c65,
      0x4db26158, 0x3ab551ce, 0xa3bc0074, 0xd4bb30e2,
      0x4adfa541, 0x3dd895d7, 0xa4d1c46d, 0xd3d6f4fb,
      0x4369e96a, 0x346ed9fc, 0xad678846, 0xda60b8d0,
      0x44042d73, 0x33031de5, 0xaa0a4c5f, 0xdd0d7cc9,
      0x5005713c, 0x270241aa, 0xbe0b1010, 0xc90c2086,
      0x5768b525, 0x206f85b3, 0xb966d409, 0xce61e49f,
      0x5edef90e, 0x29d9c998, 0xb0d09822, 0xc7d7a8b4,
      0x59b33d17, 0x2eb40d81, 0xb7bd5c3b, 0xc0ba6cad,
      0xedb88320, 0x9abfb3b6, 0x03b6e20c, 0x74b1d29a,
      0xead54739, 0x9dd277af, 0x04db2615, 0x73dc1683,
      0xe3630b12, 0x94643b84, 0x0d6d6a3e, 0x7a6a5aa8,
      0xe40ecf0b, 0x9309ff9d, 0x0a00ae27, 0x7d079eb1,
      0xf00f9344, 0x8708a3d2, 0x1e01f268, 0x6906c2fe,
      0xf762575d, 0x806567cb, 0x196c3671, 0x6e6b06e7,
      0xfed41b76, 0x89d32be0, 0x10da7a5a, 0x67dd4acc,
      0xf9b9df6f, 0x8ebeeff9, 0x17b7be43, 0x60b08ed5,
      0xd6d6a3e8, 0xa1d1937e, 0x38d8c2c4, 0x4fdff252,
      0xd1bb67f1, 0xa6bc5767, 0x3fb506dd, 0x48b2364b,
      0xd80d2bda, 0xaf0a1b4c, 0x36034af6, 0x41047a60,
      0xdf60efc3, 0xa867df55, 0x316e8eef, 0x4669be79,
      0xcb61b38c, 0xbc66831a, 0x256fd2a0, 0x5268e236,
      0xcc0c7795, 0xbb0b4703, 0x220216b9, 0x5505262f,
      0xc5ba3bbe, 0xb2bd0b28, 0x2bb45a92, 0x5cb36a04,
      0xc2d7ffa7, 0xb5d0cf31, 0x2cd99e8b, 0x5bdeae1d,
      0x9b64c2b0, 0xec63f226, 0x756aa39c, 0x026d930a,
      0x9c0906a9, 0xeb0e363f, 0x72076785, 0x05005713,
      0x95bf4a82, 0xe2b87a14, 0x7bb12bae, 0x0cb61b38,
      0x92d28e9b, 0xe5d5be0d, 0x7cdcefb7, 0x0bdbdf21,
      0x86d3d2d4, 0xf1d4e242, 0x68ddb3f8, 0x1fda836e,
      0x81be16cd, 0xf6b9265b, 0x6fb077e1, 0x18b74777,
      0x88085ae6, 0xff0f6a70, 0x66063bca, 0x11010b5c,
      0x8f659eff, 0xf862ae69, 0x616bffd3, 0x166ccf45,
      0xa00ae278, 0xd70dd2ee, 0x4e048354, 0x3903b3c2,
      0xa7672661, 0xd06016f7, 0x4969474d, 0x3e6e77db,
      0xaed16a4a, 0xd9d65adc, 0x40df0b66, 0x37d83bf0,
      0xa9bcae53, 0xdebb9ec5, 0x47b2cf7f, 0x30b5ffe9,
      0xbdbdf21c, 0xcabac28a, 0x53b39330, 0x24b4a3a6,
      0xbad03605, 0xcdd70693, 0x54de5729, 0x23d967bf,
      0xb3667a2e, 0xc4614ab8, 0x5d681b02, 0x2a6f2b94,
      0xb40bbe37, 0xc30c8ea1, 0x5a05df1b, 0x2d02ef8d]"

definition CRC32C :: "32 word \<Rightarrow> nat \<Rightarrow> 32 word" where
  "CRC32C c d = drop_bit 8 c XOR crc_c ! unat ((c XOR of_nat d) AND 0xFF)"

definition generate_crc32c :: "string \<Rightarrow> 32 word" where
  "generate_crc32c s = NOT (foldl (\<lambda>crc c. CRC32C crc (byte c)) (NOT 0) s)"

section \<open>The bitwise checksum\<close>

definition crc_step :: "32 word \<Rightarrow> 32 word" where
  "crc_step c = drop_bit 1 c XOR (if bit c 0 then 0xEDB88320 else 0)"

definition crc_shift8 :: "32 word \<Rightarrow> 32 word" where
  "crc_shift8 c = (crc_step ^^ 8) c"

definition crc_bitwise :: "string \<Rightarrow> 32 word" where
  "crc_bitwise s = NOT (foldl (\<lambda>crc c. crc_shift8 (crc XOR of_nat (byte c))) (NOT 0) s)"

text \<open>A step is linear, and only shifts while the low bits are zero.\<close>

lemma crc_step_xor: "crc_step (a XOR b) = crc_step a XOR crc_step b"
proof (cases "bit a 0"; cases "bit b 0")
qed (simp_all add: crc_step_def bit_xor_iff ac_simps)

lemma crc_steps_xor: "(crc_step ^^ n) (a XOR b) = (crc_step ^^ n) a XOR (crc_step ^^ n) b"
  by (induction n) (simp_all add: crc_step_xor)

lemma crc_steps_shift: "(\<And>i. i < n \<Longrightarrow> \<not> bit c i) \<Longrightarrow> (crc_step ^^ n) c = drop_bit n c"
proof (induction n)
  case (Suc n)
  then have IH: "(crc_step ^^ n) c = drop_bit n c" by simp
  have "\<not> bit (drop_bit n c) 0" using Suc.prems [of n] by (simp add: bit_drop_bit_eq)
  then have "crc_step (drop_bit n c) = drop_bit (Suc n) c" by (simp add: crc_step_def)
  then show ?case by (simp only: funpow.simps comp_apply IH)
qed simp

lemma crc_shift8_eq: "crc_shift8 c =
    crc_step (crc_step (crc_step (crc_step (crc_step (crc_step (crc_step (crc_step c)))))))"
  by (simp add: crc_shift8_def eval_nat_numeral)

text \<open>Every entry of the table is the eight steps of its index: by linearity, of its two halves.\<close>

lemma crc_low: "map (\<lambda>n. crc_shift8 (of_nat n)) [0..<16] =
     [0x00000000, 0x77073096, 0xee0e612c, 0x990951ba,
      0x076dc419, 0x706af48f, 0xe963a535, 0x9e6495a3,
      0x0edb8832, 0x79dcb8a4, 0xe0d5e91e, 0x97d2d988,
      0x09b64c2b, 0x7eb17cbd, 0xe7b82d07, 0x90bf1d91]"
  unfolding upt_16 crc_shift8_eq by (simp add: crc_step_def)

lemma crc_high: "map (\<lambda>n. crc_shift8 (of_nat (16 * n))) [0..<16] =
     [0x00000000, 0x1db71064, 0x3b6e20c8, 0x26d930ac,
      0x76dc4190, 0x6b6b51f4, 0x4db26158, 0x5005713c,
      0xedb88320, 0xf00f9344, 0xd6d6a3e8, 0xcb61b38c,
      0x9b64c2b0, 0x86d3d2d4, 0xa00ae278, 0xbdbdf21c]"
  unfolding upt_16 crc_shift8_eq by (simp add: crc_step_def)

lemma crc_table: "crc_c = concat (map (\<lambda>h. map (\<lambda>l.
    crc_shift8 (of_nat (16 * h)) XOR crc_shift8 (of_nat l)) [0..<16]) [0..<16])"
proof -
  have "concat (map (\<lambda>h. map (\<lambda>l. f h XOR g l) [0..<16]) [0..<16])
      = concat (map (\<lambda>a. map ((XOR) a) (map g [0..<16])) (map f [0..<16]))"
    for f g :: "nat \<Rightarrow> 32 word"
    by (simp add: comp_def)
  then show ?thesis
    by (simp only: crc_low crc_high) (simp add: crc_c_def)
qed

lemma join_nibbles: "\<forall>h < 16. \<forall>l < 16. (of_nat (16 * h) XOR of_nat l :: 32 word) = of_nat (16 * h + l)"
  unfolding all_less_upt upt_16 by simp

lemma concat_nibbles: "concat (map (\<lambda>h. map (\<lambda>l. f (16 * h + l)) [0..<16]) [0..<16]) = map f [0..<256]"
  unfolding upt_16 upt_256 by (simp add: numeral_2_eq_2)

lemma crc_table_map: "crc_c = map (\<lambda>n. crc_shift8 (of_nat n)) [0..<256]"
proof -
  have "crc_shift8 (of_nat (16 * h)) XOR crc_shift8 (of_nat l) = crc_shift8 (of_nat (16 * h + l))"
    if "h < 16" "l < 16" for h l
    using join_nibbles that by (simp only: crc_shift8_def crc_steps_xor [symmetric])
  then have "crc_c = concat (map (\<lambda>h. map (\<lambda>l. crc_shift8 (of_nat (16 * h + l))) [0..<16]) [0..<16])"
    unfolding crc_table by (intro arg_cong [where f = concat] map_cong refl) auto
  also have "\<dots> = map (\<lambda>n. crc_shift8 (of_nat n)) [0..<256]"
    by (rule concat_nibbles)
  finally show ?thesis .
qed

lemma crc_entry: "crc_c ! unat (c AND 0xFF) = crc_shift8 (c AND 0xFF)"
proof -
  have "unat (c AND 0xFF) < 256"
    using word_and_le1 [of c "0xFF"] by (simp add: word_le_nat_alt)
  then show ?thesis unfolding crc_table_map by (simp del: upt_Suc)
qed

lemma crc32_step: "CRC32C c d = crc_shift8 (c XOR of_nat d)" if "d < 256"
proof -
  let ?x = "c XOR of_nat d"
  have ff: "(0xFF :: 32 word) = mask 8" by (simp add: mask_eq_exp_minus_1)
  have d: "drop_bit 8 (of_nat d :: 32 word) = 0"
  proof -
    have "unat (drop_bit 8 (of_nat d :: 32 word)) = 0"
      using that unfolding unsigned_drop_bit_eq by (simp add: unat_of_nat drop_bit_eq_div take_bit_eq_mod)
    then show ?thesis by (simp add: unat_eq_zero)
  qed
  have x: "?x = (?x AND 0xFF) XOR (?x AND NOT 0xFF)"
    by (rule bit_word_eqI) (auto simp: bit_simps)
  have high: "crc_shift8 (?x AND NOT 0xFF) = drop_bit 8 (?x AND NOT 0xFF)"
    unfolding crc_shift8_def
  proof (rule crc_steps_shift)
    fix i :: nat
    assume "i < 8"
    then show "\<not> bit (?x AND NOT 0xFF) i" unfolding ff by (simp add: bit_simps)
  qed
  have "drop_bit 8 (?x AND NOT 0xFF) = drop_bit 8 c"
  proof -
    have "drop_bit 8 (?x AND NOT 0xFF) = drop_bit 8 ?x"
      unfolding ff by (intro bit_word_eqI) (auto simp: bit_simps dest: bit_imp_le_length)
    then show ?thesis using d by (simp add: drop_bit_xor)
  qed
  moreover have "crc_shift8 ?x = crc_shift8 (?x AND 0xFF) XOR crc_shift8 (?x AND NOT 0xFF)"
    by (subst x) (simp only: crc_shift8_def crc_steps_xor)
  ultimately show ?thesis
    unfolding CRC32C_def crc_entry high by (simp add: xor.commute)
qed

lemma generate_crc32c_bitwise: "generate_crc32c s = crc_bitwise s"
proof -
  have "foldl (\<lambda>crc c. CRC32C crc (byte c)) a s = foldl (\<lambda>crc c. crc_shift8 (crc XOR of_nat (byte c))) a s" for a
    by (induction s arbitrary: a) (simp_all add: crc32_step)
  then show ?thesis by (simp add: generate_crc32c_def crc_bitwise_def)
qed

section \<open>Guarantees\<close>

text \<open>The table-driven checksum equals the bitwise one of the reflected polynomial
  0xEDB88320 on every string: it is CRC-32, not the CRC-32C its name says.\<close>

theorem generate_crc32c_is_crc32: "generate_crc32c s = crc_bitwise s"
  by (rule generate_crc32c_bitwise)

end
