(* ===== verification/Keyvalue.thy ===== *)
theory Keyvalue
  imports Buffer_Cmp
begin

text \<open>
  \<open>keyvalue.c\<close>: the enumerations of methods and protocol versions, the tables that name them
  and the response statuses, and lookup in either direction; and the growing array of
  compiled patterns. Looking a name up and naming the result are inverse.
\<close>

section \<open>Enumerations\<close>

datatype http_method =
    HTTP_METHOD_UNSET | HTTP_METHOD_GET | HTTP_METHOD_HEAD |
    HTTP_METHOD_POST | HTTP_METHOD_PUT | HTTP_METHOD_DELETE |
    HTTP_METHOD_CONNECT | HTTP_METHOD_OPTIONS | HTTP_METHOD_TRACE |
    HTTP_METHOD_ACL | HTTP_METHOD_BASELINE_CONTROL | HTTP_METHOD_BIND |
    HTTP_METHOD_CHECKIN | HTTP_METHOD_CHECKOUT | HTTP_METHOD_COPY |
    HTTP_METHOD_LABEL | HTTP_METHOD_LINK | HTTP_METHOD_LOCK |
    HTTP_METHOD_MERGE | HTTP_METHOD_MKACTIVITY | HTTP_METHOD_MKCALENDAR |
    HTTP_METHOD_MKCOL | HTTP_METHOD_MKREDIRECTREF | HTTP_METHOD_MKWORKSPACE |
    HTTP_METHOD_MOVE | HTTP_METHOD_ORDERPATCH | HTTP_METHOD_PATCH |
    HTTP_METHOD_PROPFIND | HTTP_METHOD_PROPPATCH | HTTP_METHOD_REBIND |
    HTTP_METHOD_REPORT | HTTP_METHOD_SEARCH | HTTP_METHOD_UNBIND |
    HTTP_METHOD_UNCHECKOUT | HTTP_METHOD_UNLINK | HTTP_METHOD_UNLOCK |
    HTTP_METHOD_UPDATE | HTTP_METHOD_UPDATEREDIRECTREF | HTTP_METHOD_VERSION_CONTROL

text \<open>The value of each enumerator: \<open>HTTP_METHOD_UNSET\<close> is -1.\<close>

fun http_method_num :: "http_method \<Rightarrow> int" where
  "http_method_num HTTP_METHOD_UNSET = -1"
| "http_method_num HTTP_METHOD_GET = 0"
| "http_method_num HTTP_METHOD_HEAD = 1"
| "http_method_num HTTP_METHOD_POST = 2"
| "http_method_num HTTP_METHOD_PUT = 3"
| "http_method_num HTTP_METHOD_DELETE = 4"
| "http_method_num HTTP_METHOD_CONNECT = 5"
| "http_method_num HTTP_METHOD_OPTIONS = 6"
| "http_method_num HTTP_METHOD_TRACE = 7"
| "http_method_num HTTP_METHOD_ACL = 8"
| "http_method_num HTTP_METHOD_BASELINE_CONTROL = 9"
| "http_method_num HTTP_METHOD_BIND = 10"
| "http_method_num HTTP_METHOD_CHECKIN = 11"
| "http_method_num HTTP_METHOD_CHECKOUT = 12"
| "http_method_num HTTP_METHOD_COPY = 13"
| "http_method_num HTTP_METHOD_LABEL = 14"
| "http_method_num HTTP_METHOD_LINK = 15"
| "http_method_num HTTP_METHOD_LOCK = 16"
| "http_method_num HTTP_METHOD_MERGE = 17"
| "http_method_num HTTP_METHOD_MKACTIVITY = 18"
| "http_method_num HTTP_METHOD_MKCALENDAR = 19"
| "http_method_num HTTP_METHOD_MKCOL = 20"
| "http_method_num HTTP_METHOD_MKREDIRECTREF = 21"
| "http_method_num HTTP_METHOD_MKWORKSPACE = 22"
| "http_method_num HTTP_METHOD_MOVE = 23"
| "http_method_num HTTP_METHOD_ORDERPATCH = 24"
| "http_method_num HTTP_METHOD_PATCH = 25"
| "http_method_num HTTP_METHOD_PROPFIND = 26"
| "http_method_num HTTP_METHOD_PROPPATCH = 27"
| "http_method_num HTTP_METHOD_REBIND = 28"
| "http_method_num HTTP_METHOD_REPORT = 29"
| "http_method_num HTTP_METHOD_SEARCH = 30"
| "http_method_num HTTP_METHOD_UNBIND = 31"
| "http_method_num HTTP_METHOD_UNCHECKOUT = 32"
| "http_method_num HTTP_METHOD_UNLINK = 33"
| "http_method_num HTTP_METHOD_UNLOCK = 34"
| "http_method_num HTTP_METHOD_UPDATE = 35"
| "http_method_num HTTP_METHOD_UPDATEREDIRECTREF = 36"
| "http_method_num HTTP_METHOD_VERSION_CONTROL = 37"

definition all_methods :: "http_method list" where
  "all_methods =
     [
      HTTP_METHOD_UNSET, HTTP_METHOD_GET, HTTP_METHOD_HEAD, HTTP_METHOD_POST,
      HTTP_METHOD_PUT, HTTP_METHOD_DELETE, HTTP_METHOD_CONNECT, HTTP_METHOD_OPTIONS,
      HTTP_METHOD_TRACE, HTTP_METHOD_ACL, HTTP_METHOD_BASELINE_CONTROL, HTTP_METHOD_BIND,
      HTTP_METHOD_CHECKIN, HTTP_METHOD_CHECKOUT, HTTP_METHOD_COPY, HTTP_METHOD_LABEL,
      HTTP_METHOD_LINK, HTTP_METHOD_LOCK, HTTP_METHOD_MERGE, HTTP_METHOD_MKACTIVITY,
      HTTP_METHOD_MKCALENDAR, HTTP_METHOD_MKCOL, HTTP_METHOD_MKREDIRECTREF,
      HTTP_METHOD_MKWORKSPACE, HTTP_METHOD_MOVE, HTTP_METHOD_ORDERPATCH, HTTP_METHOD_PATCH,
      HTTP_METHOD_PROPFIND, HTTP_METHOD_PROPPATCH, HTTP_METHOD_REBIND, HTTP_METHOD_REPORT,
      HTTP_METHOD_SEARCH, HTTP_METHOD_UNBIND, HTTP_METHOD_UNCHECKOUT, HTTP_METHOD_UNLINK,
      HTTP_METHOD_UNLOCK, HTTP_METHOD_UPDATE, HTTP_METHOD_UPDATEREDIRECTREF,
      HTTP_METHOD_VERSION_CONTROL]"

text \<open>The cast from \<open>int\<close>; a value that is no enumerator is not produced by the tables.\<close>

definition http_method_of :: "int \<Rightarrow> http_method option" where
  "http_method_of n = (if - 1 \<le> n \<and> n < 38 then Some (all_methods ! nat (n + 1)) else None)"

datatype http_version = HTTP_VERSION_UNSET | HTTP_VERSION_1_0 | HTTP_VERSION_1_1

fun http_version_num :: "http_version \<Rightarrow> int" where
  "http_version_num HTTP_VERSION_UNSET = -1"
| "http_version_num HTTP_VERSION_1_0 = 0"
| "http_version_num HTTP_VERSION_1_1 = 1"

lemma http_method_of_num [simp]: "http_method_of (http_method_num m) = Some m"
  by (cases m) (simp_all add: http_method_of_def all_methods_def)

lemma http_method_num_inject: "http_method_num m = http_method_num n \<longleftrightarrow> m = n"
  by (metis http_method_of_num option.inject)

lemma http_version_num_inject: "http_version_num m = http_version_num n \<longleftrightarrow> m = n"
  by (cases m; cases n) simp_all

text \<open>Enumerators compare by their values, as in C.\<close>

instantiation http_method :: linorder
begin

definition less_eq_http_method :: "http_method \<Rightarrow> http_method \<Rightarrow> bool" where
  "less_eq_http_method m n \<longleftrightarrow> http_method_num m \<le> http_method_num n"

definition less_http_method :: "http_method \<Rightarrow> http_method \<Rightarrow> bool" where
  "less_http_method m n \<longleftrightarrow> http_method_num m < http_method_num n"

instance
  by standard (auto simp: less_eq_http_method_def less_http_method_def http_method_num_inject)

end

instantiation http_version :: linorder
begin

definition less_eq_http_version :: "http_version \<Rightarrow> http_version \<Rightarrow> bool" where
  "less_eq_http_version m n \<longleftrightarrow> http_version_num m \<le> http_version_num n"

definition less_http_version :: "http_version \<Rightarrow> http_version \<Rightarrow> bool" where
  "less_http_version m n \<longleftrightarrow> http_version_num m < http_version_num n"

instance
  by standard (auto simp: less_eq_http_version_def less_http_version_def http_version_num_inject)

end

section \<open>Tables\<close>

text \<open>A table ends at the entry whose value is \<open>NULL\<close>, which is left out here.\<close>

type_synonym keyvalue = "int \<times> string"

definition http_versions :: "keyvalue list" where
  "http_versions = [(http_version_num HTTP_VERSION_1_1, ''HTTP/1.1''), (http_version_num HTTP_VERSION_1_0, ''HTTP/1.0'')]"

definition http_methods :: "keyvalue list" where
  "http_methods = map (\<lambda>(m, s). (http_method_num m, s))
     [
      (HTTP_METHOD_GET, ''GET''), (HTTP_METHOD_HEAD, ''HEAD''),
      (HTTP_METHOD_POST, ''POST''), (HTTP_METHOD_PUT, ''PUT''),
      (HTTP_METHOD_DELETE, ''DELETE''), (HTTP_METHOD_CONNECT, ''CONNECT''),
      (HTTP_METHOD_OPTIONS, ''OPTIONS''), (HTTP_METHOD_TRACE, ''TRACE''),
      (HTTP_METHOD_ACL, ''ACL''), (HTTP_METHOD_BASELINE_CONTROL, ''BASELINE-CONTROL''),
      (HTTP_METHOD_BIND, ''BIND''), (HTTP_METHOD_CHECKIN, ''CHECKIN''),
      (HTTP_METHOD_CHECKOUT, ''CHECKOUT''), (HTTP_METHOD_COPY, ''COPY''),
      (HTTP_METHOD_LABEL, ''LABEL''), (HTTP_METHOD_LINK, ''LINK''),
      (HTTP_METHOD_LOCK, ''LOCK''), (HTTP_METHOD_MERGE, ''MERGE''),
      (HTTP_METHOD_MKACTIVITY, ''MKACTIVITY''), (HTTP_METHOD_MKCALENDAR, ''MKCALENDAR''),
      (HTTP_METHOD_MKCOL, ''MKCOL''), (HTTP_METHOD_MKREDIRECTREF, ''MKREDIRECTREF''),
      (HTTP_METHOD_MKWORKSPACE, ''MKWORKSPACE''), (HTTP_METHOD_MOVE, ''MOVE''),
      (HTTP_METHOD_ORDERPATCH, ''ORDERPATCH''), (HTTP_METHOD_PATCH, ''PATCH''),
      (HTTP_METHOD_PROPFIND, ''PROPFIND''), (HTTP_METHOD_PROPPATCH, ''PROPPATCH''),
      (HTTP_METHOD_REBIND, ''REBIND''), (HTTP_METHOD_REPORT, ''REPORT''),
      (HTTP_METHOD_SEARCH, ''SEARCH''), (HTTP_METHOD_UNBIND, ''UNBIND''),
      (HTTP_METHOD_UNCHECKOUT, ''UNCHECKOUT''), (HTTP_METHOD_UNLINK, ''UNLINK''),
      (HTTP_METHOD_UNLOCK, ''UNLOCK''), (HTTP_METHOD_UPDATE, ''UPDATE''),
      (HTTP_METHOD_UPDATEREDIRECTREF, ''UPDATEREDIRECTREF''),
      (HTTP_METHOD_VERSION_CONTROL, ''VERSION-CONTROL'')]"

definition http_status :: "keyvalue list" where
  "http_status =
     [
      (100, ''Continue''), (101, ''Switching Protocols''), (102, ''Processing''),
      (200, ''OK''), (201, ''Created''), (202, ''Accepted''),
      (203, ''Non-Authoritative Information''), (204, ''No Content''),
      (205, ''Reset Content''), (206, ''Partial Content''), (207, ''Multi-status''),
      (300, ''Multiple Choices''), (301, ''Moved Permanently''), (302, ''Found''),
      (303, ''See Other''), (304, ''Not Modified''), (305, ''Use Proxy''),
      (306, ''(Unused)''), (307, ''Temporary Redirect''), (400, ''Bad Request''),
      (401, ''Unauthorized''), (402, ''Payment Required''), (403, ''Forbidden''),
      (404, ''Not Found''), (405, ''Method Not Allowed''), (406, ''Not Acceptable''),
      (407, ''Proxy Authentication Required''), (408, ''Request Timeout''),
      (409, ''Conflict''), (410, ''Gone''), (411, ''Length Required''),
      (412, ''Precondition Failed''), (413, ''Request Entity Too Large''),
      (414, ''Request-URI Too Long''), (415, ''Unsupported Media Type''),
      (416, ''Requested Range Not Satisfiable''), (417, ''Expectation Failed''),
      (422, ''Unprocessable Entity''), (423, ''Locked''), (424, ''Failed Dependency''),
      (426, ''Upgrade Required''), (500, ''Internal Server Error''),
      (501, ''Not Implemented''), (502, ''Bad Gateway''), (503, ''Service Not Available''),
      (504, ''Gateway Timeout''), (505, ''HTTP Version Not Supported''),
      (507, ''Insufficient Storage'')]"

definition http_status_body :: "keyvalue list" where
  "http_status_body =
     [
      (400, ''400.html''), (401, ''401.html''), (403, ''403.html''), (404, ''404.html''),
      (411, ''411.html''), (416, ''416.html''), (500, ''500.html''), (501, ''501.html''),
      (503, ''503.html''), (505, ''505.html'')]"

fun keyvalue_get_value :: "keyvalue list \<Rightarrow> int \<Rightarrow> string option" where
  "keyvalue_get_value [] k = None"
| "keyvalue_get_value ((key, v) # kvs) k = (if key = k then Some v else keyvalue_get_value kvs k)"

text \<open>\<open>strcmp\<close> compares up to the terminators.\<close>

fun keyvalue_get_key :: "keyvalue list \<Rightarrow> string \<Rightarrow> int" where
  "keyvalue_get_key [] s = - 1"
| "keyvalue_get_key ((key, v) # kvs) s = (if cstr v = cstr s then key else keyvalue_get_key kvs s)"

definition get_http_version_name :: "int \<Rightarrow> string option" where
  "get_http_version_name i = keyvalue_get_value http_versions i"

definition get_http_status_name :: "int \<Rightarrow> string option" where
  "get_http_status_name i = keyvalue_get_value http_status i"

definition get_http_method_name :: "http_method \<Rightarrow> string option" where
  "get_http_method_name m = keyvalue_get_value http_methods (http_method_num m)"

definition get_http_status_body_name :: "int \<Rightarrow> string option" where
  "get_http_status_body_name i = keyvalue_get_value http_status_body i"

definition get_http_version_key :: "string \<Rightarrow> int" where
  "get_http_version_key s = keyvalue_get_key http_versions s"

definition get_http_method_key :: "string \<Rightarrow> int" where
  "get_http_method_key s = keyvalue_get_key http_methods s"

section \<open>Lookup both ways\<close>

definition table_ok :: "keyvalue list \<Rightarrow> bool" where
  "table_ok kvs \<longleftrightarrow> distinct (map fst kvs) \<and> distinct (map snd kvs) \<and> (\<forall>(k, v) \<in> set kvs. k \<noteq> - 1 \<and> NUL \<notin> set v)"

lemma get_value_iff:
  "distinct (map fst kvs) \<Longrightarrow> keyvalue_get_value kvs k = Some v \<longleftrightarrow> (k, v) \<in> set kvs"
  by (induction kvs k rule: keyvalue_get_value.induct) force+

lemma get_key_iff:
  assumes "table_ok kvs" and "NUL \<notin> set s" and "k \<noteq> - 1"
  shows "keyvalue_get_key kvs s = k \<longleftrightarrow> (k, s) \<in> set kvs"
  using assms
proof (induction kvs s rule: keyvalue_get_key.induct)
  case (2 key v kvs s)
  have ok: "table_ok kvs" "cstr v = v" "key \<noteq> - 1" using "2.prems"(1) by (auto simp: table_ok_def)
  show ?case
  proof (cases "v = s")
    case True
    have "k \<noteq> key \<Longrightarrow> (k, s) \<notin> set kvs"
      using "2.prems"(1) True by (force simp: table_ok_def)
    then show ?thesis using True ok "2.prems"(2) by auto
  next
    case False
    then show ?thesis using "2.IH" ok "2.prems" by simp
  qed
qed simp

lemma get_value_key:
  assumes "table_ok kvs" and "NUL \<notin> set s" and "k \<noteq> - 1"
  shows "keyvalue_get_value kvs k = Some s \<longleftrightarrow> keyvalue_get_key kvs s = k"
  using get_key_iff [OF assms] get_value_iff [of kvs k s] assms(1) by (simp add: table_ok_def)

lemma http_methods_ok: "table_ok http_methods"
  by (simp add: table_ok_def http_methods_def NUL_def)

lemma http_versions_ok: "table_ok http_versions"
  by (simp add: table_ok_def http_versions_def NUL_def)

lemma http_status_ok: "table_ok http_status"
  by (simp add: table_ok_def http_status_def NUL_def)

text \<open>Every method but \<open>HTTP_METHOD_UNSET\<close> has a name, and the name is read back as the method.\<close>

lemma http_method_named: "m \<noteq> HTTP_METHOD_UNSET \<longleftrightarrow> (\<exists>s. get_http_method_name m = Some s)"
  by (cases m) (simp_all add: get_http_method_name_def http_methods_def)

lemma http_method_roundtrip:
  assumes "NUL \<notin> set s" and "m \<noteq> HTTP_METHOD_UNSET"
  shows "get_http_method_name m = Some s \<longleftrightarrow> get_http_method_key s = http_method_num m"
proof -
  have "http_method_num m \<noteq> - 1"
    using assms(2) http_method_num_inject [of m HTTP_METHOD_UNSET] by simp
  then show ?thesis
    unfolding get_http_method_name_def get_http_method_key_def
    using get_value_key [OF http_methods_ok assms(1)] by simp
qed

lemma keyvalue_get_key_cstr: "keyvalue_get_key kvs (cstr s) = keyvalue_get_key kvs s"
  by (induction kvs s rule: keyvalue_get_key.induct) simp_all

lemma get_http_method_key_valid: "\<exists>m. http_method_of (get_http_method_key s) = Some m"
proof -
  have "get_http_method_key s = - 1 \<or> (\<exists>m. get_http_method_key s = http_method_num m)"
  proof (cases "get_http_method_key s = - 1")
    case False
    have "(get_http_method_key s, cstr s) \<in> set http_methods"
      using get_key_iff [OF http_methods_ok, of "cstr s" "get_http_method_key s"] False
      unfolding get_http_method_key_def by (simp add: keyvalue_get_key_cstr)
    then show ?thesis
      unfolding http_methods_def set_map by (auto simp del: http_method_num.simps list.set)
  qed simp
  then show ?thesis using http_method_of_num [of HTTP_METHOD_UNSET] by auto
qed

section \<open>Pattern tables\<close>

text \<open>
  Compiling and studying a pattern is PCRE's: \<open>pcre_compile\<close> returns a pattern or nothing,
  \<open>pcre_study\<close> its study data (\<open>NULL\<close> when there is nothing to add) and whether it reported an
  error. An entry is \<open>None\<close> until used; a failed study leaves its pattern in the entry.
\<close>

record 'p pcre_keyvalue =
  kv_key :: "'p option"
  kv_key_extra :: "'p option"
  kv_value :: "buffer option"

record 'p pcre_keyvalue_buffer =
  kvb_kv :: "'p pcre_keyvalue list"
  kvb_used :: nat
  kvb_size :: nat

definition kv_empty :: "'p pcre_keyvalue" where
  "kv_empty = \<lparr>kv_key = None, kv_key_extra = None, kv_value = None\<rparr>"

definition pcre_keyvalue_buffer_init :: "'p pcre_keyvalue_buffer" where
  "pcre_keyvalue_buffer_init = \<lparr>kvb_kv = [], kvb_used = 0, kvb_size = 0\<rparr>"

definition kvb_grow :: "'p pcre_keyvalue_buffer \<Rightarrow> 'p pcre_keyvalue_buffer" where
  "kvb_grow kvb =
     (if kvb_size kvb = 0
      then kvb\<lparr>kvb_size := 4, kvb_used := 0, kvb_kv := replicate 4 kv_empty\<rparr>
      else if kvb_used kvb = kvb_size kvb
      then kvb\<lparr>kvb_size := kvb_size kvb + 4, kvb_kv := kvb_kv kvb @ replicate 4 kv_empty\<rparr>
      else kvb)"

text \<open>The result is the array and whether 0 was returned.\<close>

definition pcre_keyvalue_buffer_append ::
    "(string \<Rightarrow> 'p option) \<Rightarrow> ('p \<Rightarrow> 'p option \<times> bool) \<Rightarrow> 'p pcre_keyvalue_buffer \<Rightarrow>
     string option \<Rightarrow> string \<Rightarrow> ('p pcre_keyvalue_buffer \<times> bool) option" where
  "pcre_keyvalue_buffer_append pcre_compile pcre_study kvb key v =
     (case key of
        None \<Rightarrow> Some (kvb, False)
      | Some key \<Rightarrow> do {
          let kvb = kvb_grow kvb;
          force_assert (kvb_used kvb < length (kvb_kv kvb));
          let kv = kvb_kv kvb ! kvb_used kvb;
          case pcre_compile key of
            None \<Rightarrow> Some (kvb\<lparr>kvb_kv := (kvb_kv kvb)[kvb_used kvb := kv\<lparr>kv_key := None\<rparr>]\<rparr>, False)
          | Some p \<Rightarrow> do {
              let (extra, err) = pcre_study p;
              let kv = kv\<lparr>kv_key := Some p, kv_key_extra := extra\<rparr>;
              if extra = None \<and> err
              then Some (kvb\<lparr>kvb_kv := (kvb_kv kvb)[kvb_used kvb := kv]\<rparr>, False)
              else do {
                b \<leftarrow> buffer_init_string v;
                Some (kvb\<lparr>kvb_kv := (kvb_kv kvb)[kvb_used kvb := kv\<lparr>kv_value := Some b\<rparr>],
                         kvb_used := kvb_used kvb + 1\<rparr>, True)
              }
            }
        })"

text \<open>The entries in use, as patterns and replacement strings.\<close>

definition kvb_ok :: "'p pcre_keyvalue_buffer \<Rightarrow> bool" where
  "kvb_ok kvb \<longleftrightarrow> length (kvb_kv kvb) = kvb_size kvb \<and> kvb_used kvb \<le> kvb_size kvb \<and>
     (\<forall>i < kvb_used kvb. kv_key (kvb_kv kvb ! i) \<noteq> None \<and>
        (\<exists>b. kv_value (kvb_kv kvb ! i) = Some b \<and> buf_ok b))"

definition kvb_entries :: "'p pcre_keyvalue_buffer \<Rightarrow> ('p \<times> string) list" where
  "kvb_entries kvb =
     map (\<lambda>kv. (the (kv_key kv), buf_str (the (kv_value kv)))) (take (kvb_used kvb) (kvb_kv kvb))"

lemma kvb_grow_ok:
  assumes "kvb_ok kvb"
  shows "kvb_ok (kvb_grow kvb)" and "kvb_entries (kvb_grow kvb) = kvb_entries kvb"
    and "kvb_used (kvb_grow kvb) < length (kvb_kv (kvb_grow kvb))"
  using assms by (auto simp: kvb_ok_def kvb_grow_def kvb_entries_def nth_append)

lemma buffer_init_string_ok:
  assumes "length s + 1 < SIZE_T" and "NUL \<notin> set s"
  shows "\<exists>b. buffer_init_string s = Some b \<and> buf_holds b s"
proof -
  have shape: "buf_shape buffer_init" using buffer_init_ok(1) by (rule buf_ok_shape)
  with assms obtain b where "buffer_copy_string_len buffer_init s = Some b" "buf_holds b s"
    by (elim buffer_copy_string_len_ok)
  then show ?thesis using assms(2) by (simp add: buffer_init_string_def buffer_copy_string_def)
qed

lemma pcre_keyvalue_buffer_append_ok:
  assumes ok: "kvb_ok kvb" and v: "length v + 1 < SIZE_T" "NUL \<notin> set v"
  shows "\<exists>kvb' r. pcre_keyvalue_buffer_append cp st kvb (Some key) v = Some (kvb', r) \<and> kvb_ok kvb' \<and>
    (case cp key of
       None \<Rightarrow> \<not> r \<and> kvb_entries kvb' = kvb_entries kvb
     | Some p \<Rightarrow>
         (if fst (st p) = None \<and> snd (st p) then \<not> r \<and> kvb_entries kvb' = kvb_entries kvb
          else r \<and> kvb_entries kvb' = kvb_entries kvb @ [(p, v)]))"
proof -
  note g = kvb_grow_ok [OF ok]
  let ?g = "kvb_grow kvb"
  have keep: "kvb_ok (?g\<lparr>kvb_kv := (kvb_kv ?g)[kvb_used ?g := kv]\<rparr>)"
    "kvb_entries (?g\<lparr>kvb_kv := (kvb_kv ?g)[kvb_used ?g := kv]\<rparr>) = kvb_entries kvb" for kv
    using g by (auto simp: kvb_ok_def kvb_entries_def nth_list_update)
  obtain b where b: "buffer_init_string v = Some b" "buf_holds b v"
    using buffer_init_string_ok [OF v] by blast
  have add: "kvb_ok (?g\<lparr>kvb_kv := (kvb_kv ?g)[kvb_used ?g := kv], kvb_used := kvb_used ?g + 1\<rparr>)"
    "kvb_entries (?g\<lparr>kvb_kv := (kvb_kv ?g)[kvb_used ?g := kv], kvb_used := kvb_used ?g + 1\<rparr>)
      = kvb_entries kvb @ [(p, v)]"
    if "kv_key kv = Some p" "kv_value kv = Some b" for kv p
    using g that b buf_holdsD(3,4) [OF b(2)]
    by (auto simp: kvb_ok_def kvb_entries_def nth_list_update less_Suc_eq take_Suc_conv_app_nth)
  show ?thesis
    using g(3) keep add b(1)
    by (auto simp: pcre_keyvalue_buffer_append_def Let_def split: option.split prod.split)
qed

section \<open>Guarantees\<close>

text \<open>The method table is a bijection between the method names and the methods other than
  \<open>HTTP_METHOD_UNSET\<close>: looking a name up gives a method exactly when printing the method gives
  the name.\<close>

theorem http_method_name_key:
  assumes "NUL \<notin> set s" and "m \<noteq> HTTP_METHOD_UNSET"
  shows "get_http_method_name m = Some s \<longleftrightarrow> get_http_method_key s = http_method_num m"
  using assms by (rule http_method_roundtrip)

theorem http_method_name_key_witness: "get_http_method_key ''GET'' = http_method_num HTTP_METHOD_GET"
  using http_method_name_key [of "''GET''" HTTP_METHOD_GET]
  by (simp add: get_http_method_name_def http_methods_def NUL_def)

end
