(* ===== verification/Chunk.thy ===== *)
theory Chunk
  imports Buffer_Cmp
begin

text \<open>
  The chunk queue of \<open>chunk.c\<close>: a list of memory and file chunks with the cache of spare
  chunks and the byte counters. \<open>cq_stream\<close> is the sequence of octets a queue stands for;
  every operation is described by what it does to that sequence, to the counters and to the
  files (descriptors closed, temporary files removed).
\<close>

section \<open>Chunks\<close>

datatype chunk_type = MEM_CHUNK | FILE_CHUNK

text \<open>
  \<open>ck_mmap\<close> is the mapped area (length, offset), \<open>None\<close> for \<open>MAP_FAILED\<close>. Offsets and lengths
  of type \<open>off_t\<close> are integers.
\<close>

record chunk =
  ck_type :: chunk_type
  ck_mem :: buffer
  ck_name :: buffer
  ck_start :: int
  ck_length :: int
  ck_fd :: int
  ck_mmap :: "(nat \<times> int) option"
  ck_is_temp :: bool
  ck_offset :: int

text \<open>What happens to files when chunks are dropped.\<close>

datatype io_event = Unlink string | Close int | Munmap nat

definition chunk_init :: chunk where
  "chunk_init = \<lparr>ck_type = MEM_CHUNK, ck_mem = buffer_init, ck_name = buffer_init, ck_start = 0,
     ck_length = 0, ck_fd = - 1, ck_mmap = None, ck_is_temp = False, ck_offset = 0\<rparr>"

definition chunk_release :: "chunk \<Rightarrow> io_event list" where
  "chunk_release c =
     (if ck_is_temp c \<and> \<not> buffer_string_is_empty (ck_name c) then [Unlink (buf_str (ck_name c))] else []) @
     (if ck_fd c \<noteq> - 1 then [Close (ck_fd c)] else []) @
     (case ck_mmap c of None \<Rightarrow> [] | Some (len, _) \<Rightarrow> [Munmap len])"

definition chunk_reset :: "chunk \<Rightarrow> chunk \<times> io_event list" where
  "chunk_reset c =
     (c\<lparr>ck_type := MEM_CHUNK, ck_mem := buffer_reset (ck_mem c), ck_name := buffer_reset (ck_name c),
        ck_fd := - 1, ck_mmap := None, ck_start := 0, ck_length := 0, ck_is_temp := False, ck_offset := 0\<rparr>,
      chunk_release c)"

definition chunk_free :: "chunk \<Rightarrow> io_event list" where
  "chunk_free c = snd (chunk_reset c)"

definition chunk_remaining_length :: "chunk \<Rightarrow> int option" where
  "chunk_remaining_length c = do {
     let len = (case ck_type c of
         MEM_CHUNK \<Rightarrow> int (buffer_string_length (ck_mem c))
       | FILE_CHUNK \<Rightarrow> ck_length c);
     force_assert (ck_offset c \<le> len);
     Some (len - ck_offset c)
   }"

section \<open>The queue\<close>

text \<open>
  \<open>cq_chunks\<close> is the list from \<open>first\<close> to \<open>last\<close>, \<open>cq_unused\<close> the stack of spare chunks. The counters (\<open>off_t\<close>) and the
  index of the temporary directory (\<open>unsigned int\<close>) are not bounded: they count octets and failed writes.
\<close>

record chunkqueue =
  cq_chunks :: "chunk list"
  cq_unused :: "chunk list"
  cq_unused_chunks :: nat
  cq_bytes_in :: int
  cq_bytes_out :: int
  cq_tempdirs :: "buffer list option"
  cq_upload_temp_file_size :: nat
  cq_tempdir_idx :: nat

definition DEFAULT_TEMPFILE_SIZE :: nat where
  "DEFAULT_TEMPFILE_SIZE = 1 * 1024 * 1024"

definition MAX_TEMPFILE_SIZE :: nat where
  "MAX_TEMPFILE_SIZE = 128 * 1024 * 1024"

text \<open>The defaults new queues take: the temporary directories and the size of upload files.\<close>

definition chunkqueue_tempfile_size :: "nat \<Rightarrow> nat" where
  "chunkqueue_tempfile_size upload_temp_file_size =
     (if upload_temp_file_size = 0 then DEFAULT_TEMPFILE_SIZE
      else if upload_temp_file_size > MAX_TEMPFILE_SIZE then MAX_TEMPFILE_SIZE
      else upload_temp_file_size)"

definition chunkqueue_init :: "buffer list option \<Rightarrow> nat \<Rightarrow> chunkqueue" where
  "chunkqueue_init tempdirs tempfile_size =
     \<lparr>cq_chunks = [], cq_unused = [], cq_unused_chunks = 0, cq_bytes_in = 0, cq_bytes_out = 0,
      cq_tempdirs = tempdirs, cq_upload_temp_file_size = tempfile_size, cq_tempdir_idx = 0\<rparr>"

definition chunkqueue_free :: "chunkqueue \<Rightarrow> io_event list" where
  "chunkqueue_free cq = concat (map chunk_free (cq_chunks cq)) @ concat (map chunk_free (cq_unused cq))"

definition chunkqueue_push_unused_chunk :: "chunkqueue \<Rightarrow> chunk \<Rightarrow> chunkqueue \<times> io_event list" where
  "chunkqueue_push_unused_chunk cq c =
     (if cq_unused_chunks cq > 4 then (cq, chunk_free c)
      else let (c, io) = chunk_reset c
        in (cq\<lparr>cq_unused := c # cq_unused cq, cq_unused_chunks := cq_unused_chunks cq + 1\<rparr>, io))"

definition chunkqueue_get_unused_chunk :: "chunkqueue \<Rightarrow> chunkqueue \<times> chunk" where
  "chunkqueue_get_unused_chunk cq =
     (case cq_unused cq of
        [] \<Rightarrow> (cq, chunk_init)
      | c # cs \<Rightarrow> (cq\<lparr>cq_unused := cs, cq_unused_chunks := cq_unused_chunks cq - 1\<rparr>, c))"

definition chunkqueue_prepend_chunk :: "chunkqueue \<Rightarrow> chunk \<Rightarrow> chunkqueue option" where
  "chunkqueue_prepend_chunk cq c = do {
     len \<leftarrow> chunk_remaining_length c;
     Some (cq\<lparr>cq_chunks := c # cq_chunks cq, cq_bytes_in := cq_bytes_in cq + len\<rparr>)
   }"

definition chunkqueue_append_chunk :: "chunkqueue \<Rightarrow> chunk \<Rightarrow> chunkqueue option" where
  "chunkqueue_append_chunk cq c = do {
     len \<leftarrow> chunk_remaining_length c;
     Some (cq\<lparr>cq_chunks := cq_chunks cq @ [c], cq_bytes_in := cq_bytes_in cq + len\<rparr>)
   }"

fun push_unused_all :: "chunkqueue \<Rightarrow> chunk list \<Rightarrow> chunkqueue \<times> io_event list" where
  "push_unused_all cq [] = (cq, [])"
| "push_unused_all cq (c # cs) =
     (let (cq, io) = chunkqueue_push_unused_chunk cq c; (cq, io') = push_unused_all cq cs
      in (cq, io @ io'))"

definition chunkqueue_reset :: "chunkqueue \<Rightarrow> chunkqueue \<times> io_event list" where
  "chunkqueue_reset cq =
     (let (cq', io) = push_unused_all (cq\<lparr>cq_chunks := []\<rparr>) (cq_chunks cq)
      in (cq'\<lparr>cq_bytes_in := 0, cq_bytes_out := 0, cq_tempdir_idx := 0\<rparr>, io))"

definition chunkqueue_append_file_fd ::
    "chunkqueue \<Rightarrow> buffer \<Rightarrow> int \<Rightarrow> int \<Rightarrow> int \<Rightarrow> (chunkqueue \<times> io_event list) option" where
  "chunkqueue_append_file_fd cq fn fd offset len =
     (if len = 0 then Some (cq, [Close fd])
      else do {
        let (cq, c) = chunkqueue_get_unused_chunk cq;
        name \<leftarrow> buffer_copy_buffer (ck_name c) (Some fn);
        let c = c\<lparr>ck_type := FILE_CHUNK, ck_name := name, ck_start := offset, ck_length := len,
                  ck_fd := fd, ck_offset := 0\<rparr>;
        cq \<leftarrow> chunkqueue_append_chunk cq c;
        Some (cq, [])
      })"

definition chunkqueue_append_file :: "chunkqueue \<Rightarrow> buffer \<Rightarrow> int \<Rightarrow> int \<Rightarrow> chunkqueue option" where
  "chunkqueue_append_file cq fn offset len =
     (if len = 0 then Some cq
      else do {
        let (cq, c) = chunkqueue_get_unused_chunk cq;
        name \<leftarrow> buffer_copy_buffer (ck_name c) (Some fn);
        let c = c\<lparr>ck_type := FILE_CHUNK, ck_name := name, ck_start := offset, ck_length := len,
                  ck_offset := 0\<rparr>;
        chunkqueue_append_chunk cq c
      })"

text \<open>The buffer's storage is moved into the chunk; the caller's buffer is left empty.\<close>

definition chunkqueue_append_buffer :: "chunkqueue \<Rightarrow> buffer \<Rightarrow> (chunkqueue \<times> buffer) option" where
  "chunkqueue_append_buffer cq mem =
     (if buffer_string_is_empty mem then Some (cq, mem)
      else do {
        let (cq, c) = chunkqueue_get_unused_chunk cq;
        let (b, mem) = buffer_move (ck_mem c) mem;
        cq \<leftarrow> chunkqueue_append_chunk cq (c\<lparr>ck_type := MEM_CHUNK, ck_mem := b\<rparr>);
        Some (cq, mem)
      })"

definition chunkqueue_prepend_buffer :: "chunkqueue \<Rightarrow> buffer \<Rightarrow> (chunkqueue \<times> buffer) option" where
  "chunkqueue_prepend_buffer cq mem =
     (if buffer_string_is_empty mem then Some (cq, mem)
      else do {
        let (cq, c) = chunkqueue_get_unused_chunk cq;
        let (b, mem) = buffer_move (ck_mem c) mem;
        cq \<leftarrow> chunkqueue_prepend_chunk cq (c\<lparr>ck_type := MEM_CHUNK, ck_mem := b\<rparr>);
        Some (cq, mem)
      })"

definition chunkqueue_append_mem :: "chunkqueue \<Rightarrow> string \<Rightarrow> chunkqueue option" where
  "chunkqueue_append_mem cq mem =
     (if mem = [] then Some cq
      else do {
        let (cq, c) = chunkqueue_get_unused_chunk cq;
        b \<leftarrow> buffer_copy_string_len (ck_mem c) mem;
        chunkqueue_append_chunk cq (c\<lparr>ck_type := MEM_CHUNK, ck_mem := b\<rparr>)
      })"

text \<open>The result is the two queues.\<close>

definition chunkqueue_append_chunkqueue :: "chunkqueue \<Rightarrow> chunkqueue \<Rightarrow> chunkqueue \<times> chunkqueue" where
  "chunkqueue_append_chunkqueue cq src =
     (if cq_chunks src = [] then (cq, src)
      else (cq\<lparr>cq_chunks := cq_chunks cq @ cq_chunks src,
               cq_bytes_in := cq_bytes_in cq + (cq_bytes_in src - cq_bytes_out src)\<rparr>,
            src\<lparr>cq_chunks := [], cq_bytes_out := cq_bytes_in src\<rparr>))"

section \<open>Memory to read into\<close>

definition last_mem :: "chunkqueue \<Rightarrow> buffer option" where
  "last_mem cq =
     (if cq_chunks cq \<noteq> [] \<and> ck_type (last (cq_chunks cq)) = MEM_CHUNK
      then Some (ck_mem (last (cq_chunks cq))) else None)"

definition set_last_mem :: "chunkqueue \<Rightarrow> buffer \<Rightarrow> chunkqueue" where
  "set_last_mem cq b =
     cq\<lparr>cq_chunks := butlast (cq_chunks cq) @ [(last (cq_chunks cq))\<lparr>ck_mem := b\<rparr>]\<rparr>"

definition REALLOC_MAX_SIZE :: nat where
  "REALLOC_MAX_SIZE = 256"

text \<open>Making room at the end of the last buffer, in the three cases of the code.\<close>

definition get_memory_reuse :: "buffer \<Rightarrow> nat \<Rightarrow> nat \<Rightarrow> (buffer \<times> nat) option" where
  "get_memory_reuse b min_size alloc_size =
     (let have = buffer_string_space b
      in if buffer_string_is_empty b
         then map_option (\<lambda>b. (b, buffer_string_space b)) (buffer_string_prepare_copy b alloc_size)
         else if have < min_size \<and> b_size b \<le> REALLOC_MAX_SIZE
         then let cur_len = buffer_string_length b;
                  new_size = uadd cur_len min_size;
                  new_size = (if new_size < alloc_size then alloc_size else new_size);
                  append = (new_size + (SIZE_T - cur_len)) mod SIZE_T
              in if append \<ge> min_size
                 then map_option (\<lambda>(b, _). (b, buffer_string_space b)) (buffer_string_prepare_append b append)
                 else Some (b, have)
         else Some (b, have))"

text \<open>
  The memory handed out starts at the end of the string of the last chunk's buffer; the result
  is the queue and the number of bytes there.
\<close>

definition chunkqueue_get_memory :: "chunkqueue \<Rightarrow> nat \<Rightarrow> nat \<Rightarrow> (chunkqueue \<times> nat) option" where
  "chunkqueue_get_memory cq min_size alloc_size = do {
     let min_size = (if min_size = 0 then 1024 else min_size);
     let alloc_size = (if alloc_size = 0 then 4096 else alloc_size);
     let alloc_size = (if alloc_size < min_size then min_size else alloc_size);
     (cq, have) \<leftarrow>
       (case last_mem cq of
          None \<Rightarrow> Some (cq, 0)
        | Some b \<Rightarrow> map_option (\<lambda>(b, have). (set_last_mem cq b, have)) (get_memory_reuse b min_size alloc_size));
     if last_mem cq \<noteq> None \<and> have \<ge> min_size then Some (cq, have)
     else do {
       let (cq, c) = chunkqueue_get_unused_chunk cq;
       let c = c\<lparr>ck_type := MEM_CHUNK\<rparr>;
       cq \<leftarrow> chunkqueue_append_chunk cq c;
       (b, _) \<leftarrow> buffer_string_prepare_append (ck_mem c) alloc_size;
       Some (set_last_mem cq b, buffer_string_space b)
     }
   }"

text \<open>What the reader does with that memory before \<open>chunkqueue_use_memory\<close>.\<close>

definition chunkqueue_fill_memory :: "chunkqueue \<Rightarrow> string \<Rightarrow> chunkqueue option" where
  "chunkqueue_fill_memory cq s = do {
     b \<leftarrow> last_mem cq;
     m \<leftarrow> mem_copy (b_ptr b) (buffer_string_length b) s;
     Some (set_last_mem cq (b\<lparr>b_ptr := m\<rparr>))
   }"

definition chunkqueue_use_memory :: "chunkqueue \<Rightarrow> nat \<Rightarrow> chunkqueue option" where
  "chunkqueue_use_memory cq len = do {
     b \<leftarrow> last_mem cq;
     if len > 0 then do {
       b \<leftarrow> buffer_commit b len;
       Some ((set_last_mem cq b)\<lparr>cq_bytes_in := cq_bytes_in cq + int len\<rparr>)
     }
     else if buffer_string_is_empty b then Some (set_last_mem cq (buffer_reset b))
     else Some cq
   }"

section \<open>Consuming\<close>

text \<open>\<open>steal\<close> moves whole chunks while it can and copies a part of the one it stops in.\<close>

lemma chunks_push_unused [simp]:
  "cq_chunks (fst (chunkqueue_push_unused_chunk cq c)) = cq_chunks cq"
  by (simp add: chunkqueue_push_unused_chunk_def chunk_reset_def)

lemma chunks_push_unusedE:
  "chunkqueue_push_unused_chunk cq c = (cq', io) \<Longrightarrow> cq_chunks cq' = cq_chunks cq"
  using chunks_push_unused [of cq c] by simp

definition steal_use :: "int \<Rightarrow> int \<Rightarrow> int" where
  "steal_use len clen = (if len \<ge> clen then clen else len)"

function chunkqueue_steal ::
    "chunkqueue \<Rightarrow> chunkqueue \<Rightarrow> int \<Rightarrow> (chunkqueue \<times> chunkqueue \<times> io_event list) option" where
  "chunkqueue_steal dest src len =
     (if \<not> len > 0 then Some (dest, src, [])
      else case cq_chunks src of
        [] \<Rightarrow> Some (dest, src, [])
      | c # cs \<Rightarrow> do {
          clen \<leftarrow> chunk_remaining_length c;
          if clen = 0 then do {
            let (src, io) = chunkqueue_push_unused_chunk (src\<lparr>cq_chunks := cs\<rparr>) c;
            (dest, src, io') \<leftarrow> chunkqueue_steal dest src len;
            Some (dest, src, io @ io')
          }
          else if steal_use len clen \<noteq> clen then do {
            dest \<leftarrow> (case ck_type c of
                MEM_CHUNK \<Rightarrow> do {
                  s \<leftarrow> mem_get (b_ptr (ck_mem c)) (nat (ck_offset c)) (nat (steal_use len clen));
                  chunkqueue_append_mem dest s
                }
              | FILE_CHUNK \<Rightarrow> chunkqueue_append_file dest (ck_name c) (ck_start c + ck_offset c) (steal_use len clen));
            force_assert (len - steal_use len clen = 0);
            Some (dest, src\<lparr>cq_chunks := c\<lparr>ck_offset := ck_offset c + steal_use len clen\<rparr> # cs,
                            cq_bytes_out := cq_bytes_out src + steal_use len clen\<rparr>, [])
          }
          else do {
            dest \<leftarrow> chunkqueue_append_chunk dest c;
            chunkqueue_steal dest (src\<lparr>cq_chunks := cs, cq_bytes_out := cq_bytes_out src + steal_use len clen\<rparr>)
              (len - steal_use len clen)
          }
        })"
  by pat_completeness auto
termination
  by (relation "measure (\<lambda>(dest, src, len). length (cq_chunks src))")
    (auto dest: chunks_push_unusedE [OF sym])

declare chunkqueue_steal.simps [simp del]

fun chunks_length :: "chunk list \<Rightarrow> int option" where
  "chunks_length [] = Some 0"
| "chunks_length (c # cs) = do {
     n \<leftarrow> chunk_remaining_length c;
     k \<leftarrow> chunks_length cs;
     Some (n + k)
   }"

definition chunkqueue_length :: "chunkqueue \<Rightarrow> int option" where
  "chunkqueue_length cq = chunks_length (cq_chunks cq)"

definition chunkqueue_is_empty :: "chunkqueue \<Rightarrow> bool" where
  "chunkqueue_is_empty cq \<longleftrightarrow> cq_chunks cq = []"

text \<open>The loop of \<open>mark_written\<close>; the rest of \<open>written\<close> has to be 0 in the end.\<close>

fun mark_written_loop :: "chunkqueue \<Rightarrow> chunk list \<Rightarrow> int \<Rightarrow> (chunkqueue \<times> int \<times> io_event list) option" where
  "mark_written_loop cq [] written = Some (cq\<lparr>cq_chunks := []\<rparr>, written, [])"
| "mark_written_loop cq (c # cs) written = do {
     c_len \<leftarrow> chunk_remaining_length c;
     if written = 0 \<and> c_len \<noteq> 0 then Some (cq\<lparr>cq_chunks := c # cs\<rparr>, written, [])
     else if written \<ge> c_len then do {
       let (cq, io) = chunkqueue_push_unused_chunk cq (c\<lparr>ck_offset := ck_offset c + c_len\<rparr>);
       (cq, written, io') \<leftarrow> mark_written_loop cq cs (written - c_len);
       Some (cq, written, io @ io')
     }
     else Some (cq\<lparr>cq_chunks := c\<lparr>ck_offset := ck_offset c + written\<rparr> # cs\<rparr>, 0, [])
   }"

definition chunkqueue_mark_written :: "chunkqueue \<Rightarrow> int \<Rightarrow> (chunkqueue \<times> io_event list) option" where
  "chunkqueue_mark_written cq len = do {
     force_assert (len \<ge> 0);
     (cq, written, io) \<leftarrow> mark_written_loop cq (cq_chunks cq) len;
     force_assert (written = 0);
     Some (cq\<lparr>cq_bytes_out := cq_bytes_out cq + len\<rparr>, io)
   }"

fun remove_finished_loop :: "chunkqueue \<Rightarrow> chunk list \<Rightarrow> (chunkqueue \<times> io_event list) option" where
  "remove_finished_loop cq [] = Some (cq\<lparr>cq_chunks := []\<rparr>, [])"
| "remove_finished_loop cq (c # cs) = do {
     len \<leftarrow> chunk_remaining_length c;
     if len \<noteq> 0 then Some (cq\<lparr>cq_chunks := c # cs\<rparr>, [])
     else do {
       let (cq, io) = chunkqueue_push_unused_chunk cq c;
       (cq, io') \<leftarrow> remove_finished_loop cq cs;
       Some (cq, io @ io')
     }
   }"

definition chunkqueue_remove_finished_chunks :: "chunkqueue \<Rightarrow> (chunkqueue \<times> io_event list) option" where
  "chunkqueue_remove_finished_chunks cq = remove_finished_loop cq (cq_chunks cq)"

text \<open>
  \<open>for (c = cq->first; c->next; c = c->next)\<close>: \<open>c # cs\<close> is the list from \<open>c\<close> on, \<open>done\<close> what is
  in front of it. When the chunk after \<open>c\<close> was empty it is taken out and the loop steps to the
  chunk behind it; where there is none, \<open>c\<close> is \<open>NULL\<close> and \<open>c->next\<close> is read through it.
\<close>

fun remove_empty_loop :: "chunkqueue \<Rightarrow> chunk list \<Rightarrow> chunk list \<Rightarrow> (chunkqueue \<times> io_event list) option" where
  "remove_empty_loop cq before [] = None"
| "remove_empty_loop cq before [c] = Some (cq\<lparr>cq_chunks := before @ [c]\<rparr>, [])"
| "remove_empty_loop cq before (c # d # cs) = do {
     len \<leftarrow> chunk_remaining_length d;
     if len = 0 then do {
       let (cq, io) = chunkqueue_push_unused_chunk cq d;
       (cq, io') \<leftarrow> remove_empty_loop cq (before @ [c]) cs;
       Some (cq, io @ io')
     }
     else remove_empty_loop cq (before @ [c]) (d # cs)
   }"

definition chunkqueue_remove_empty_chunks :: "chunkqueue \<Rightarrow> (chunkqueue \<times> io_event list) option" where
  "chunkqueue_remove_empty_chunks cq = do {
     (cq, io) \<leftarrow> chunkqueue_remove_finished_chunks cq;
     if chunkqueue_is_empty cq then Some (cq, io)
     else do {
       (cq, io') \<leftarrow> remove_empty_loop cq [] (cq_chunks cq);
       Some (cq, io @ io')
     }
   }"

end
