(* ===== verification/Chunk_Inv.thy ===== *)
theory Chunk_Inv
  imports Chunk
begin

text \<open>
  What the operations on a chunk queue do to the octets it stands for, its counters and its
  cache of spare chunks.
\<close>

section \<open>The octets of a queue\<close>

text \<open>An octet of a queue: one kept in memory, or the one at some position of a named file.\<close>

datatype octet = Mem char | Disk string int

definition chunk_len :: "chunk \<Rightarrow> int" where
  "chunk_len c = (case ck_type c of
       MEM_CHUNK \<Rightarrow> int (length (buf_str (ck_mem c))) | FILE_CHUNK \<Rightarrow> ck_length c)"

definition chunk_data :: "chunk \<Rightarrow> octet list" where
  "chunk_data c = (case ck_type c of
       MEM_CHUNK \<Rightarrow> map Mem (drop (nat (ck_offset c)) (buf_str (ck_mem c)))
     | FILE_CHUNK \<Rightarrow> map (Disk (buf_str (ck_name c)))
         [ck_start c + ck_offset c..ck_start c + ck_length c - 1])"

definition cq_stream :: "chunkqueue \<Rightarrow> octet list" where
  "cq_stream cq = concat (map chunk_data (cq_chunks cq))"

section \<open>The invariant\<close>

definition chunk_ok :: "chunk \<Rightarrow> bool" where
  "chunk_ok c \<longleftrightarrow> buf_ok (ck_mem c) \<and> buf_ok (ck_name c) \<and> 0 \<le> ck_offset c \<and> ck_offset c \<le> chunk_len c"

text \<open>A spare chunk looks like a new one, apart from the storage its buffers keep.\<close>

definition spare_ok :: "chunk \<Rightarrow> bool" where
  "spare_ok c \<longleftrightarrow> ck_type c = MEM_CHUNK \<and> buf_ok (ck_mem c) \<and> buf_str (ck_mem c) = [] \<and>
     buf_ok (ck_name c) \<and> buf_str (ck_name c) = [] \<and> ck_start c = 0 \<and> ck_length c = 0 \<and> ck_fd c = - 1 \<and>
     ck_mmap c = None \<and> \<not> ck_is_temp c \<and> ck_offset c = 0"

definition spares_ok :: "chunkqueue \<Rightarrow> bool" where
  "spares_ok cq \<longleftrightarrow> list_all spare_ok (cq_unused cq) \<and> cq_unused_chunks cq = length (cq_unused cq) \<and>
     length (cq_unused cq) \<le> 5"

definition cq_ok :: "chunkqueue \<Rightarrow> bool" where
  "cq_ok cq \<longleftrightarrow> list_all chunk_ok (cq_chunks cq) \<and> spares_ok cq \<and>
     cq_bytes_in cq - cq_bytes_out cq = int (length (cq_stream cq))"

lemma chunk_remaining: "chunk_ok c \<Longrightarrow> chunk_remaining_length c = Some (chunk_len c - ck_offset c)"
  by (auto simp: chunk_remaining_length_def chunk_ok_def chunk_len_def buffer_string_length_eq
      split: chunk_type.splits)

lemma length_chunk_data: "chunk_ok c \<Longrightarrow> int (length (chunk_data c)) = chunk_len c - ck_offset c"
  by (auto simp: chunk_data_def chunk_ok_def chunk_len_def split: chunk_type.splits)

lemma chunk_data_Nil: "chunk_ok c \<Longrightarrow> chunk_data c = [] \<longleftrightarrow> chunk_len c - ck_offset c = 0"
  using length_chunk_data [of c] by auto

lemma chunk_init_spare: "spare_ok chunk_init"
  by (simp add: spare_ok_def chunk_init_def)

lemma buf_shapes: "chunk_ok c \<Longrightarrow> buf_shape (ck_mem c) \<and> buf_shape (ck_name c)"
  by (simp add: chunk_ok_def buf_ok_shape)

lemma chunk_reset_spare:
  "buf_shape (ck_mem c) \<Longrightarrow> buf_shape (ck_name c) \<Longrightarrow> spare_ok (fst (chunk_reset c))"
  by (simp add: spare_ok_def chunk_reset_def buffer_reset_ok)

lemma spare_chunk_ok: "spare_ok c \<Longrightarrow> chunk_ok c \<and> chunk_data c = []"
  by (simp add: spare_ok_def chunk_ok_def chunk_len_def chunk_data_def)

lemma cq_init_ok: "cq_ok (chunkqueue_init dirs sz)" "cq_stream (chunkqueue_init dirs sz) = []"
  by (simp_all add: cq_ok_def chunkqueue_init_def spares_ok_def cq_stream_def)

text \<open>The parts of a queue outside its cache.\<close>

definition same_but_spares :: "chunkqueue \<Rightarrow> chunkqueue \<Rightarrow> bool" where
  "same_but_spares cq cq' \<longleftrightarrow> cq' = cq\<lparr>cq_unused := cq_unused cq', cq_unused_chunks := cq_unused_chunks cq'\<rparr>"

lemma same_but_sparesD:
  assumes "same_but_spares cq cq'"
  shows "cq_chunks cq' = cq_chunks cq" and "cq_bytes_in cq' = cq_bytes_in cq"
    and "cq_bytes_out cq' = cq_bytes_out cq" and "cq_stream cq' = cq_stream cq"
    and "cq_tempdirs cq' = cq_tempdirs cq" and "cq_tempdir_idx cq' = cq_tempdir_idx cq"
    and "cq_upload_temp_file_size cq' = cq_upload_temp_file_size cq"
  using assms by (cases cq; cases cq'; simp add: same_but_spares_def cq_stream_def)+

lemma push_unused_ok:
  assumes "spares_ok cq" and "buf_shape (ck_mem c)" and "buf_shape (ck_name c)"
    and "chunkqueue_push_unused_chunk cq c = (cq', io)"
  shows "spares_ok cq'" and "same_but_spares cq cq'" and "io = chunk_release c"
proof -
  have io: "snd (chunk_reset c) = chunk_release c" by (simp add: chunk_reset_def)
  show "spares_ok cq'" and "same_but_spares cq cq'" and "io = chunk_release c"
    using assms(1,4) chunk_reset_spare [OF assms(2,3)] io
    by (auto simp: chunkqueue_push_unused_chunk_def spares_ok_def same_but_spares_def chunk_free_def
        split: if_splits prod.splits)
qed

lemma get_unused_ok:
  assumes "spares_ok cq" and "chunkqueue_get_unused_chunk cq = (cq', c)"
  shows "spares_ok cq'" and "same_but_spares cq cq'" and "spare_ok c"
  using assms chunk_init_spare
  by (auto simp: chunkqueue_get_unused_chunk_def spares_ok_def same_but_spares_def split: list.splits)

lemma cq_ok_spares: "cq_ok cq \<Longrightarrow> same_but_spares cq cq' \<Longrightarrow> spares_ok cq' \<Longrightarrow> cq_ok cq'"
  using same_but_sparesD [of cq cq'] by (simp add: cq_ok_def)

section \<open>Adding octets\<close>

lemma append_chunk_ok:
  assumes "cq_ok cq" and "chunk_ok c"
  shows "\<exists>cq'. chunkqueue_append_chunk cq c = Some cq' \<and> cq_ok cq' \<and>
    cq_stream cq' = cq_stream cq @ chunk_data c \<and> cq_chunks cq' = cq_chunks cq @ [c] \<and>
    cq_bytes_in cq' = cq_bytes_in cq + int (length (chunk_data c)) \<and> cq_bytes_out cq' = cq_bytes_out cq"
  using assms chunk_remaining [OF assms(2)] length_chunk_data [OF assms(2)]
  by (simp add: chunkqueue_append_chunk_def cq_ok_def spares_ok_def cq_stream_def)

lemma prepend_chunk_ok:
  assumes "cq_ok cq" and "chunk_ok c"
  shows "\<exists>cq'. chunkqueue_prepend_chunk cq c = Some cq' \<and> cq_ok cq' \<and>
    cq_stream cq' = chunk_data c @ cq_stream cq \<and>
    cq_bytes_in cq' = cq_bytes_in cq + int (length (chunk_data c)) \<and> cq_bytes_out cq' = cq_bytes_out cq"
  using assms chunk_remaining [OF assms(2)] length_chunk_data [OF assms(2)]
  by (simp add: chunkqueue_prepend_chunk_def cq_ok_def spares_ok_def cq_stream_def)

text \<open>The chunks the append functions build.\<close>

lemma mem_chunk_ok:
  assumes "spare_ok c" and "buf_ok b"
  shows "chunk_ok (c\<lparr>ck_type := MEM_CHUNK, ck_mem := b\<rparr>)"
    and "chunk_data (c\<lparr>ck_type := MEM_CHUNK, ck_mem := b\<rparr>) = map Mem (buf_str b)"
  using assms by (simp_all add: spare_ok_def chunk_ok_def chunk_len_def chunk_data_def)

lemma file_chunk_ok:
  assumes "spare_ok c" and "buf_ok nm" and "0 \<le> len"
    and "d = c\<lparr>ck_type := FILE_CHUNK, ck_name := nm, ck_start := off, ck_length := len, ck_fd := fd, ck_offset := 0\<rparr>"
  shows "chunk_ok d" and "chunk_data d = map (Disk (buf_str nm)) [off..off + len - 1]"
  using assms by (simp_all add: spare_ok_def chunk_ok_def chunk_len_def chunk_data_def)

lemma append_mem_ok:
  assumes "cq_ok cq" and "length s + 1 < SIZE_T"
  shows "\<exists>cq'. chunkqueue_append_mem cq s = Some cq' \<and> cq_ok cq' \<and> cq_stream cq' = cq_stream cq @ map Mem s \<and>
    cq_bytes_in cq' = cq_bytes_in cq + int (length s) \<and> cq_bytes_out cq' = cq_bytes_out cq"
proof (cases "s = []")
  case False
  obtain cq1 c where u: "chunkqueue_get_unused_chunk cq = (cq1, c)" by (meson surj_pair)
  note un = get_unused_ok [OF _ u] and s = assms(1) [unfolded cq_ok_def]
  have c: "spare_ok c" and ok1: "cq_ok cq1" using un s cq_ok_spares [OF assms(1)] by blast+
  note same = same_but_sparesD [OF un(2)]
  have "buf_shape (ck_mem c)" using c by (simp add: spare_ok_def buf_ok_shape)
  with assms(2) obtain b where b: "buffer_copy_string_len (ck_mem c) s = Some b" "buf_holds b s"
    by (elim buffer_copy_string_len_ok)
  from append_chunk_ok [OF ok1 mem_chunk_ok(1) [OF c buf_holdsD(4) [OF b(2)]]] show ?thesis
    using False u b(1) mem_chunk_ok(2) [OF c buf_holdsD(4) [OF b(2)]] buf_holdsD(3) [OF b(2)] same s
    by (auto simp: chunkqueue_append_mem_def)
qed (use assms(1) in \<open>simp add: chunkqueue_append_mem_def\<close>)


lemma append_buffer_ok:
  assumes "cq_ok cq" and "buf_ok mem"
  shows "\<exists>cq' mem'. chunkqueue_append_buffer cq mem = Some (cq', mem') \<and> cq_ok cq' \<and>
    cq_stream cq' = cq_stream cq @ map Mem (buf_str mem) \<and> buf_ok mem' \<and> buf_str mem' = [] \<and>
    cq_bytes_in cq' = cq_bytes_in cq + int (length (buf_str mem)) \<and> cq_bytes_out cq' = cq_bytes_out cq"
proof (cases "buffer_string_is_empty mem")
  case True
  then have "buf_str mem = []" using buf_ok_cases [OF assms(2)] buf_holdsD(7) by metis
  then show ?thesis using True assms by (simp add: chunkqueue_append_buffer_def)
next
  case False
  obtain cq1 c where u: "chunkqueue_get_unused_chunk cq = (cq1, c)" by (meson surj_pair)
  note un = get_unused_ok [OF _ u] and s = assms(1) [unfolded cq_ok_def]
  have c: "spare_ok c" and ok1: "cq_ok cq1" using un s cq_ok_spares [OF assms(1)] by blast+
  note same = same_but_sparesD [OF un(2)]
  obtain b mem' where m: "buffer_move (ck_mem c) mem = (b, mem')" by (meson surj_pair)
  have "buf_shape (ck_mem c)" using c by (simp add: spare_ok_def buf_ok_shape)
  note mv = buffer_move_ok [OF this assms(2) m]
  have b: "buf_ok b" using mv(1) assms(2) by simp
  from append_chunk_ok [OF ok1 mem_chunk_ok(1) [OF c b]] show ?thesis
    using False u m mv mem_chunk_ok(2) [OF c b] same s by (auto simp: chunkqueue_append_buffer_def)
qed

lemma prepend_buffer_ok:
  assumes "cq_ok cq" and "buf_ok mem"
  shows "\<exists>cq' mem'. chunkqueue_prepend_buffer cq mem = Some (cq', mem') \<and> cq_ok cq' \<and>
    cq_stream cq' = map Mem (buf_str mem) @ cq_stream cq \<and> buf_ok mem' \<and> buf_str mem' = [] \<and>
    cq_bytes_in cq' = cq_bytes_in cq + int (length (buf_str mem)) \<and> cq_bytes_out cq' = cq_bytes_out cq"
proof (cases "buffer_string_is_empty mem")
  case True
  then have "buf_str mem = []" using buf_ok_cases [OF assms(2)] buf_holdsD(7) by metis
  then show ?thesis using True assms by (simp add: chunkqueue_prepend_buffer_def)
next
  case False
  obtain cq1 c where u: "chunkqueue_get_unused_chunk cq = (cq1, c)" by (meson surj_pair)
  note un = get_unused_ok [OF _ u] and s = assms(1) [unfolded cq_ok_def]
  have c: "spare_ok c" and ok1: "cq_ok cq1" using un s cq_ok_spares [OF assms(1)] by blast+
  note same = same_but_sparesD [OF un(2)]
  obtain b mem' where m: "buffer_move (ck_mem c) mem = (b, mem')" by (meson surj_pair)
  have "buf_shape (ck_mem c)" using c by (simp add: spare_ok_def buf_ok_shape)
  note mv = buffer_move_ok [OF this assms(2) m]
  have b: "buf_ok b" using mv(1) assms(2) by simp
  from prepend_chunk_ok [OF ok1 mem_chunk_ok(1) [OF c b]] show ?thesis
    using False u m mv mem_chunk_ok(2) [OF c b] same s by (auto simp: chunkqueue_prepend_buffer_def)
qed

lemma append_file_fd_ok:
  assumes "cq_ok cq" and "buf_holds fn name" and "0 \<le> len"
  shows "\<exists>cq'. chunkqueue_append_file_fd cq fn fd off len = Some (cq', if len = 0 then [Close fd] else []) \<and>
    cq_ok cq' \<and> cq_stream cq' = cq_stream cq @ map (Disk name) [off..off + len - 1] \<and>
    cq_bytes_in cq' = cq_bytes_in cq + len \<and> cq_bytes_out cq' = cq_bytes_out cq"
    and "\<exists>cq'. chunkqueue_append_file cq fn off len = Some cq' \<and>
    cq_ok cq' \<and> cq_stream cq' = cq_stream cq @ map (Disk name) [off..off + len - 1] \<and>
    cq_bytes_in cq' = cq_bytes_in cq + len \<and> cq_bytes_out cq' = cq_bytes_out cq"
proof -
  obtain cq1 c where u: "chunkqueue_get_unused_chunk cq = (cq1, c)" by (meson surj_pair)
  note un = get_unused_ok [OF _ u] and s = assms(1) [unfolded cq_ok_def]
  have c: "spare_ok c" and ok1: "cq_ok cq1" using un s cq_ok_spares [OF assms(1)] by blast+
  note same = same_but_sparesD [OF un(2)]
  have "buf_shape (ck_name c)" using c by (simp add: spare_ok_def buf_ok_shape)
  with assms(2) obtain nm where nm: "buffer_copy_buffer (ck_name c) (Some fn) = Some nm" "buf_holds nm name"
    by (elim buffer_copy_buffer_ok)
  have nm': "buf_ok nm" "buf_str nm = name" using nm(2) by (auto dest: buf_holdsD)
  note f = file_chunk_ok [OF c nm'(1) assms(3) refl]
  have fd: "c\<lparr>ck_type := FILE_CHUNK, ck_name := nm, ck_start := off, ck_length := len, ck_offset := 0\<rparr>
      = c\<lparr>ck_type := FILE_CHUNK, ck_name := nm, ck_start := off, ck_length := len, ck_fd := - 1, ck_offset := 0\<rparr>"
    using c by (simp add: spare_ok_def)
  show "\<exists>cq'. chunkqueue_append_file_fd cq fn fd off len = Some (cq', if len = 0 then [Close fd] else []) \<and>
    cq_ok cq' \<and> cq_stream cq' = cq_stream cq @ map (Disk name) [off..off + len - 1] \<and>
    cq_bytes_in cq' = cq_bytes_in cq + len \<and> cq_bytes_out cq' = cq_bytes_out cq"
    using append_chunk_ok [OF ok1 f(1), of fd off] u nm(1) assms f(2) [of fd off] same s nm'(2)
    by (cases "len = 0") (auto simp: chunkqueue_append_file_fd_def)
  show "\<exists>cq'. chunkqueue_append_file cq fn off len = Some cq' \<and>
    cq_ok cq' \<and> cq_stream cq' = cq_stream cq @ map (Disk name) [off..off + len - 1] \<and>
    cq_bytes_in cq' = cq_bytes_in cq + len \<and> cq_bytes_out cq' = cq_bytes_out cq"
    using append_chunk_ok [OF ok1 f(1), of "- 1" off] u nm(1) assms f(2) [of "- 1" off] same s nm'(2)
    by (cases "len = 0") (auto simp: chunkqueue_append_file_def fd)
qed

lemma append_chunkqueue_ok:
  assumes "cq_ok cq" and "cq_ok src" and "chunkqueue_append_chunkqueue cq src = (cq', src')"
  shows "cq_ok cq'" and "cq_ok src'" and "cq_stream cq' = cq_stream cq @ cq_stream src" and "cq_stream src' = []"
  using assms
  by (auto simp: chunkqueue_append_chunkqueue_def cq_ok_def spares_ok_def cq_stream_def split: if_splits)

section \<open>Removing octets\<close>

lemma cq_stream_Cons: "cq_chunks cq = c # cs \<Longrightarrow> cq_stream cq = chunk_data c @ concat (map chunk_data cs)"
  by (simp add: cq_stream_def)

text \<open>Dropping the first chunk, which is used up, into the cache.\<close>

lemma drop_first_ok:
  assumes "cq_ok cq" and "cq_chunks cq = c # cs" and "chunk_data c = []"
    and "chunkqueue_push_unused_chunk (cq\<lparr>cq_chunks := cs\<rparr>) c = (cq', io)"
  shows "cq_ok cq'" and "cq_stream cq' = cq_stream cq" and "cq_chunks cq' = cs"
    and "cq_bytes_in cq' = cq_bytes_in cq" and "cq_bytes_out cq' = cq_bytes_out cq" and "io = chunk_release c"
proof -
  have c: "chunk_ok c" and sp: "spares_ok (cq\<lparr>cq_chunks := cs\<rparr>)"
    using assms(1,2) by (simp_all add: cq_ok_def spares_ok_def)
  note p = push_unused_ok [OF sp _ _ assms(4)] and same = same_but_sparesD
  have "cq_ok (cq\<lparr>cq_chunks := cs\<rparr>)" using assms(1-3) by (simp add: cq_ok_def spares_ok_def cq_stream_def)
  then show "cq_ok cq'" using cq_ok_spares p buf_shapes [OF c] by blast
  show "cq_stream cq' = cq_stream cq" and "cq_chunks cq' = cs"
    and "cq_bytes_in cq' = cq_bytes_in cq" and "cq_bytes_out cq' = cq_bytes_out cq" and "io = chunk_release c"
    using same [OF p(2)] p(3) buf_shapes [OF c] cq_stream_Cons [OF assms(2)] assms(3)
    by (simp_all add: cq_stream_def)
qed

lemma chunk_advance:
  assumes "chunk_ok c" and "0 \<le> k" and "ck_offset c + k \<le> chunk_len c"
  shows "chunk_ok (c\<lparr>ck_offset := ck_offset c + k\<rparr>)"
    and "chunk_data (c\<lparr>ck_offset := ck_offset c + k\<rparr>) = drop (nat k) (chunk_data c)"
proof -
  have "drop (nat k) [a..b] = [a + k..b]" if "0 \<le> k" "a + k \<le> b + 1" for a b k :: int
  proof -
    have "[a..b] = [a..a + k - 1] @ [a + k..b]"
    proof (cases "a + k \<le> b")
      case True
      then show ?thesis using that upto_split1 [of a "a + k" b] by simp
    next
      case False
      then have "b = a + k - 1" using that(2) by simp
      then show ?thesis by simp
    qed
    then show ?thesis using that by simp
  qed
  from this [of k "ck_start c + ck_offset c" "ck_start c + ck_length c - 1"]
  show "chunk_data (c\<lparr>ck_offset := ck_offset c + k\<rparr>) = drop (nat k) (chunk_data c)"
    using assms by (auto simp: chunk_data_def chunk_ok_def chunk_len_def drop_map nat_add_distrib ac_simps
      split: chunk_type.splits)
  show "chunk_ok (c\<lparr>ck_offset := ck_offset c + k\<rparr>)"
    using assms by (cases "ck_type c") (simp_all add: chunk_ok_def chunk_len_def)
qed

lemma mark_written_loop_ok:
  assumes "cq_ok (cq\<lparr>cq_chunks := cs, cq_bytes_out := cq_bytes_out cq + (len - written)\<rparr>)" and "0 \<le> written"
    and "written \<le> int (length (concat (map chunk_data cs)))" and "written \<le> len"
  shows "\<exists>cq' io. mark_written_loop cq cs written = Some (cq', 0, io) \<and>
    cq_ok (cq'\<lparr>cq_bytes_out := cq_bytes_out cq' + len\<rparr>) \<and> cq_bytes_in cq' = cq_bytes_in cq \<and>
    cq_bytes_out cq' = cq_bytes_out cq \<and>
    cq_stream cq' = drop (nat written) (concat (map chunk_data cs))"
  using assms
proof (induction cs arbitrary: cq written)
  case Nil
  then show ?case by (simp add: cq_stream_def)
next
  case (Cons c cs)
  have c: "chunk_ok c" using Cons.prems(1) by (simp add: cq_ok_def)
  note rem = chunk_remaining [OF c] length_chunk_data [OF c]
  show ?case
  proof (cases "written \<ge> chunk_len c - ck_offset c \<and> (written = 0 \<longrightarrow> chunk_len c - ck_offset c = 0)")
    case True
    define k where "k = chunk_len c - ck_offset c"
    have k: "0 \<le> k" "k = int (length (chunk_data c))" "written \<ge> k" using rem c True by (auto simp: k_def chunk_ok_def)
    let ?d = "c\<lparr>ck_offset := ck_offset c + k\<rparr>"
    have le: "ck_offset c + k \<le> chunk_len c" by (simp add: k_def)
    have d: "chunk_ok ?d" "chunk_data ?d = []"
      using chunk_advance [OF c k(1) le] k(2) by simp_all
    obtain cq1 io where p: "chunkqueue_push_unused_chunk cq ?d = (cq1, io)" by (meson surj_pair)
    have sp: "spares_ok cq" using Cons.prems(1) by (simp add: cq_ok_def spares_ok_def)
    note pu = push_unused_ok [OF sp _ _ p] 
    have pu': "spares_ok cq1" "same_but_spares cq cq1" using pu buf_shapes [OF d(1)] by blast+
    note same = same_but_sparesD [OF pu'(2)]
    have "cq_ok (cq1\<lparr>cq_chunks := cs, cq_bytes_out := cq_bytes_out cq1 + (len - (written - k))\<rparr>)"
      using Cons.prems(1) pu'(1) same(2,3) k(2) by (simp add: cq_ok_def spares_ok_def cq_stream_def)
    from Cons.IH [OF this] obtain cq' io' where r:
      "mark_written_loop cq1 cs (written - k) = Some (cq', 0, io')"
      "cq_ok (cq'\<lparr>cq_bytes_out := cq_bytes_out cq' + len\<rparr>)" "cq_bytes_in cq' = cq_bytes_in cq1"
      "cq_bytes_out cq' = cq_bytes_out cq1"
      "cq_stream cq' = drop (nat (written - k)) (concat (map chunk_data cs))"
      using Cons.prems k by auto
    have "mark_written_loop cq (c # cs) written =
        map_option (\<lambda>(cq, written, io'). (cq, written, io @ io')) (mark_written_loop cq1 cs (written - k))"
    proof -
      have "chunk_remaining_length c = Some k" using rem(1) by (simp add: k_def)
      moreover have "\<not> (written = 0 \<and> k \<noteq> 0)" using True by (simp add: k_def)
      ultimately show ?thesis
        using k(3) p by (auto simp: map_option_case split: option.split)
    qed
    then have "mark_written_loop cq (c # cs) written = Some (cq', 0, io @ io')"
      "drop (nat written) (concat (map chunk_data (c # cs))) = cq_stream cq'"
      using k r(1,5) by (simp_all add: nat_diff_distrib)
    then show ?thesis using r(2-4) same(2,3) by auto
  next
    case False
    then have lt: "written < chunk_len c - ck_offset c" using rem(2) Cons.prems(2) by auto
    let ?d = "c\<lparr>ck_offset := ck_offset c + written\<rparr>"
    have d: "chunk_ok ?d" "chunk_data ?d = drop (nat written) (chunk_data c)"
      using chunk_advance [OF c Cons.prems(2)] lt by simp_all
    have len: "nat written \<le> length (chunk_data c)" using rem(2) lt by linarith
    have "cq_ok (cq\<lparr>cq_chunks := ?d # cs, cq_bytes_out := cq_bytes_out cq + len\<rparr>)"
      using Cons.prems(1,2) d len by (simp add: cq_ok_def spares_ok_def cq_stream_def)
    then show ?thesis
      using rem(1) lt d(2) len Cons.prems(2)
      by (auto simp: cq_stream_def)
  qed
qed

lemma mark_written_ok:
  assumes "cq_ok cq" and "0 \<le> len" and "len \<le> int (length (cq_stream cq))"
  shows "\<exists>cq' io. chunkqueue_mark_written cq len = Some (cq', io) \<and> cq_ok cq' \<and>
    cq_stream cq' = drop (nat len) (cq_stream cq) \<and> cq_bytes_in cq' = cq_bytes_in cq \<and>
    cq_bytes_out cq' = cq_bytes_out cq + len"
proof -
  have "cq_ok (cq\<lparr>cq_chunks := cq_chunks cq, cq_bytes_out := cq_bytes_out cq + (len - len)\<rparr>)" using assms(1) by simp
  from mark_written_loop_ok [OF this assms(2)] show ?thesis
    using assms by (auto simp: chunkqueue_mark_written_def cq_stream_def)
qed


text \<open>The two loops that drop used up chunks keep the stream.\<close>

lemma remove_finished_ok:
  assumes "cq_ok (cq\<lparr>cq_chunks := cs\<rparr>)"
  shows "\<exists>cq' io. remove_finished_loop cq cs = Some (cq', io) \<and> cq_ok cq' \<and>
    cq_stream cq' = concat (map chunk_data cs) \<and> cq_bytes_in cq' = cq_bytes_in cq \<and>
    cq_bytes_out cq' = cq_bytes_out cq \<and>
    cq_chunks cq' = dropWhile (\<lambda>c. chunk_data c = []) cs"
  using assms
proof (induction cs arbitrary: cq)
  case (Cons c cs)
  have c: "chunk_ok c" using Cons.prems by (simp add: cq_ok_def)
  note rem = chunk_remaining [OF c] chunk_data_Nil [OF c]
  show ?case
  proof (cases "chunk_data c = []")
    case True
    obtain cq1 io where p: "chunkqueue_push_unused_chunk cq c = (cq1, io)" by (meson surj_pair)
    have sp: "spares_ok cq" using Cons.prems by (simp add: cq_ok_def spares_ok_def)
    note pu = push_unused_ok [OF sp _ _ p]
    have pu': "spares_ok cq1" "same_but_spares cq cq1" using pu buf_shapes [OF c] by blast+
    note same = same_but_sparesD [OF pu'(2)]
    have "cq_ok (cq1\<lparr>cq_chunks := cs\<rparr>)"
      using Cons.prems pu'(1) same(2,3) True by (simp add: cq_ok_def spares_ok_def cq_stream_def)
    from Cons.IH [OF this] show ?thesis using p rem True same by auto
  next
    case False
    then show ?thesis using rem Cons.prems by (simp add: cq_stream_def)
  qed
qed (simp add: cq_stream_def)

lemma chunkqueue_length_ok: "cq_ok cq \<Longrightarrow> chunkqueue_length cq = Some (int (length (cq_stream cq)))"
proof -
  have "list_all chunk_ok cs \<Longrightarrow> chunks_length cs = Some (int (length (concat (map chunk_data cs))))" for cs
    by (induction cs) (auto simp: chunk_remaining length_chunk_data)
  then show "cq_ok cq \<Longrightarrow> ?thesis" by (simp add: chunkqueue_length_def cq_ok_def cq_stream_def)
qed

lemma push_unused_all_ok:
  assumes "spares_ok cq" and "list_all chunk_ok cs" and "push_unused_all cq cs = (cq', io)"
  shows "spares_ok cq' \<and> same_but_spares cq cq' \<and> io = concat (map chunk_release cs)"
  using assms
proof (induction cs arbitrary: cq io)
  case Nil
  then show ?case by (simp add: same_but_spares_def)
next
  case (Cons c cs)
  obtain cq1 io1 where p: "chunkqueue_push_unused_chunk cq c = (cq1, io1)" by (meson surj_pair)
  obtain io2 where r: "push_unused_all cq1 cs = (cq', io2)" "io = io1 @ io2"
    using Cons.prems(3) p by (auto split: prod.splits)
  have c: "chunk_ok c" using Cons.prems(2) by simp
  note pu = push_unused_ok [OF Cons.prems(1) _ _ p]
  have pu': "spares_ok cq1" "same_but_spares cq cq1" "io1 = chunk_release c" using pu buf_shapes [OF c] by blast+
  have "same_but_spares cq cq'" if "same_but_spares cq1 cq'"
    using pu'(2) that by (cases cq; cases cq1; cases cq'; simp add: same_but_spares_def)
  then show ?case using Cons.IH [OF pu'(1) _ r(1)] Cons.prems(2) pu'(3) r(2) by simp
qed

lemma chunkqueue_reset_ok:
  assumes "cq_ok cq" and "chunkqueue_reset cq = (cq', io)"
  shows "cq_ok cq'" and "cq_stream cq' = []" and "io = concat (map chunk_release (cq_chunks cq))"
    and "cq_bytes_in cq' = 0" and "cq_bytes_out cq' = 0"
proof -
  obtain cq1 where p: "push_unused_all (cq\<lparr>cq_chunks := []\<rparr>) (cq_chunks cq) = (cq1, io)"
    "cq' = cq1\<lparr>cq_bytes_in := 0, cq_bytes_out := 0, cq_tempdir_idx := 0\<rparr>"
    using assms(2) by (auto simp: chunkqueue_reset_def split: prod.splits)
  have "spares_ok (cq\<lparr>cq_chunks := []\<rparr>)" "list_all chunk_ok (cq_chunks cq)"
    using assms(1) by (simp_all add: cq_ok_def spares_ok_def)
  note pu = push_unused_all_ok [OF this p(1)]
  show "cq_ok cq'" and "cq_stream cq' = []" and "io = concat (map chunk_release (cq_chunks cq))"
    and "cq_bytes_in cq' = 0" and "cq_bytes_out cq' = 0"
    using pu p(2) same_but_sparesD [of "cq\<lparr>cq_chunks := []\<rparr>" cq1]
    by (simp_all add: cq_ok_def spares_ok_def cq_stream_def)
qed

section \<open>Moving octets between queues\<close>

text \<open>The part of a chunk's memory that is copied out.\<close>

lemma mem_part:
  assumes "chunk_ok c" and "ck_type c = MEM_CHUNK" and "0 < use" and "use < chunk_len c - ck_offset c"
  shows "mem_get (b_ptr (ck_mem c)) (nat (ck_offset c)) (nat use) =
      Some (take (nat use) (drop (nat (ck_offset c)) (buf_str (ck_mem c))))"
    and "map Mem (take (nat use) (drop (nat (ck_offset c)) (buf_str (ck_mem c)))) = take (nat use) (chunk_data c)"
    and "nat use + 1 < SIZE_T"
proof -
  have "buf_str (ck_mem c) \<noteq> []" using assms by (auto simp: chunk_ok_def chunk_len_def)
  then have h: "buf_holds (ck_mem c) (buf_str (ck_mem c))"
    using assms(1) by (auto simp: chunk_ok_def elim: buf_ok_cases)
  have le: "nat (ck_offset c) + nat use \<le> length (buf_str (ck_mem c))"
  proof -
    have "0 \<le> ck_offset c" "use < int (length (buf_str (ck_mem c))) - ck_offset c"
      using assms(1,2,4) by (auto simp: chunk_ok_def chunk_len_def)
    with assms(3) show ?thesis by linarith
  qed
  show "mem_get (b_ptr (ck_mem c)) (nat (ck_offset c)) (nat use) =
      Some (take (nat use) (drop (nat (ck_offset c)) (buf_str (ck_mem c))))"
    using buf_holds_get_str [OF h le] .
  show "map Mem (take (nat use) (drop (nat (ck_offset c)) (buf_str (ck_mem c)))) = take (nat use) (chunk_data c)"
    using assms(2) by (simp add: chunk_data_def take_map)
  show "nat use + 1 < SIZE_T" using le buf_holds_bound [OF h] by simp
qed

lemma file_part:
  assumes "chunk_ok c" and "ck_type c = FILE_CHUNK" and "0 < use" and "use < chunk_len c - ck_offset c"
  shows "map (Disk (buf_str (ck_name c))) [ck_start c + ck_offset c..ck_start c + ck_offset c + use - 1] =
    take (nat use) (chunk_data c)"
proof -
  let ?a = "ck_start c + ck_offset c" and ?b = "ck_start c + ck_length c - 1"
  have "?a + use \<le> ?b" using assms by (simp add: chunk_ok_def chunk_len_def)
  then have "[?a..?b] = [?a..?a + use - 1] @ [?a + use..?b]"
    using upto_split1 [of ?a "?a + use" ?b] assms(3) by simp
  then show ?thesis using assms(2,3) by (simp add: chunk_data_def)
qed

text \<open>What one transfer does to the two queues.\<close>

definition moved :: "chunkqueue \<Rightarrow> chunkqueue \<Rightarrow> nat \<Rightarrow> chunkqueue \<Rightarrow> chunkqueue \<Rightarrow> bool" where
  "moved dest src n dest' src' \<longleftrightarrow> cq_ok dest' \<and> cq_ok src' \<and>
     cq_stream dest' = cq_stream dest @ take n (cq_stream src) \<and> cq_stream src' = drop n (cq_stream src) \<and>
     cq_bytes_in src' = cq_bytes_in src \<and> cq_bytes_out dest' = cq_bytes_out dest"

lemma moved_trans:
  "moved dest src n d1 s1 \<Longrightarrow> moved d1 s1 k dest' src' \<Longrightarrow> moved dest src (n + k) dest' src'"
  by (auto simp: moved_def take_add drop_drop add.commute [of k n])

definition named_files :: "chunkqueue \<Rightarrow> bool" where
  "named_files cq \<longleftrightarrow> list_all (\<lambda>c. ck_type c = FILE_CHUNK \<longrightarrow> buf_holds (ck_name c) (buf_str (ck_name c))) (cq_chunks cq)"

lemma moved_whole:
  assumes "cq_ok dest" and "cq_ok src" and cs: "cq_chunks src = c # cs"
  obtains d1 where "chunkqueue_append_chunk dest c = Some d1"
    and "moved dest src (length (chunk_data c)) d1
      (src\<lparr>cq_chunks := cs, cq_bytes_out := cq_bytes_out src + int (length (chunk_data c))\<rparr>)"
proof -
  have "chunk_ok c" using assms(2) cs by (simp add: cq_ok_def)
  from append_chunk_ok [OF assms(1) this] show ?thesis
    using that assms(2) cs by (auto simp: moved_def cq_ok_def spares_ok_def cq_stream_def)
qed

lemma moved_part:
  assumes "cq_ok dest" and "cq_ok src" and "named_files src" and cs: "cq_chunks src = c # cs"
    and n: "0 < n" "n < chunk_len c - ck_offset c"
  obtains d1 where "(case ck_type c of
        MEM_CHUNK \<Rightarrow> do {
          s \<leftarrow> mem_get (b_ptr (ck_mem c)) (nat (ck_offset c)) (nat n);
          chunkqueue_append_mem dest s
        }
      | FILE_CHUNK \<Rightarrow> chunkqueue_append_file dest (ck_name c) (ck_start c + ck_offset c) n) = Some d1"
    and "moved dest src (nat n) d1
      (src\<lparr>cq_chunks := c\<lparr>ck_offset := ck_offset c + n\<rparr> # cs, cq_bytes_out := cq_bytes_out src + n\<rparr>)"
proof -
  let ?r = "case ck_type c of
        MEM_CHUNK \<Rightarrow> do {
          s \<leftarrow> mem_get (b_ptr (ck_mem c)) (nat (ck_offset c)) (nat n);
          chunkqueue_append_mem dest s
        }
      | FILE_CHUNK \<Rightarrow> chunkqueue_append_file dest (ck_name c) (ck_start c + ck_offset c) n"
  have c: "chunk_ok c" using assms(2) cs by (simp add: cq_ok_def)
  have le: "nat n \<le> length (chunk_data c)" using n length_chunk_data [OF c] by linarith
  have "\<exists>d1. ?r = Some d1 \<and> cq_ok d1 \<and> cq_stream d1 = cq_stream dest @ take (nat n) (chunk_data c) \<and>
      cq_bytes_out d1 = cq_bytes_out dest"
  proof (cases "ck_type c")
    case MEM_CHUNK
    note m = mem_part [OF c MEM_CHUNK n]
    let ?s = "take (nat n) (drop (nat (ck_offset c)) (buf_str (ck_mem c)))"
    have "length ?s + 1 < SIZE_T" using m(3) by simp
    from append_mem_ok [OF assms(1) this] show ?thesis using MEM_CHUNK m(1,2) by auto
  next
    case FILE_CHUNK
    have h: "buf_holds (ck_name c) (buf_str (ck_name c))"
      using assms(3) cs FILE_CHUNK by (simp add: named_files_def)
    from append_file_fd_ok(2) [OF assms(1) h, of n "ck_start c + ck_offset c"] show ?thesis
      using FILE_CHUNK n(1) unfolding file_part [OF c FILE_CHUNK n] by auto
  qed
  moreover note chunk_advance [OF c, of n]
  ultimately show ?thesis
    using that assms(2) cs n le by (auto simp: moved_def cq_ok_def spares_ok_def cq_stream_def)
qed

lemma steal_ok:
  assumes "cq_ok dest" and "cq_ok src" and "named_files src"
  shows "\<exists>dest' src' io. chunkqueue_steal dest src len = Some (dest', src', io) \<and> moved dest src (nat len) dest' src'"
  using assms
proof (induction "length (cq_chunks src)" arbitrary: dest src len rule: less_induct)
  case less
  show ?case
  proof (cases "len > 0 \<and> cq_chunks src \<noteq> []")
    case False
    then show ?thesis
      using less.prems by (subst chunkqueue_steal.simps) (auto simp: moved_def cq_stream_def split: list.split)
  next
    case True
    then obtain c cs where cs: "cq_chunks src = c # cs" by (cases "cq_chunks src") auto
    have c: "chunk_ok c" using less.prems(2) cs by (simp add: cq_ok_def)
    define k where "k = chunk_len c - ck_offset c"
    have rem: "chunk_remaining_length c = Some k" using chunk_remaining [OF c] by (simp add: k_def)
    have k: "k = int (length (chunk_data c))" using length_chunk_data [OF c] by (simp add: k_def)
    consider "k = 0" | "k \<noteq> 0" "k \<le> len" | "k \<noteq> 0" "len < k" by linarith
    then show ?thesis
    proof cases
      case 1
      obtain src1 io where p: "chunkqueue_push_unused_chunk (src\<lparr>cq_chunks := cs\<rparr>) c = (src1, io)"
        by (meson surj_pair)
      have "chunk_data c = []" using k 1 by simp
      note d = drop_first_ok [OF less.prems(2) cs this p]
      have "named_files src1" using less.prems(3) d(3) cs by (simp add: named_files_def)
      from less.hyps [OF _ less.prems(1) d(1) this, of len] obtain dest' src' io' where
        "chunkqueue_steal dest src1 len = Some (dest', src', io')" "moved dest src1 (nat len) dest' src'"
        using cs d(3) by auto
      then show ?thesis
        using True cs rem 1 p d by (subst chunkqueue_steal.simps) (simp add: moved_def)
    next
      case 2
      obtain d1 where d1: "chunkqueue_append_chunk dest c = Some d1" "moved dest src (length (chunk_data c)) d1
        (src\<lparr>cq_chunks := cs, cq_bytes_out := cq_bytes_out src + int (length (chunk_data c))\<rparr>)"
        using moved_whole [OF less.prems(1,2) cs] .
      let ?src = "src\<lparr>cq_chunks := cs, cq_bytes_out := cq_bytes_out src + int (length (chunk_data c))\<rparr>"
      have "named_files ?src" using less.prems(3) cs by (simp add: named_files_def)
      moreover have "cq_ok d1" "cq_ok ?src" using d1(2) by (simp_all add: moved_def)
      ultimately obtain dest' src' io' where r: "chunkqueue_steal d1 ?src (len - k) = Some (dest', src', io')"
        "moved d1 ?src (nat (len - k)) dest' src'"
        using less.hyps [of ?src d1 "len - k"] cs by auto
      have "nat len = length (chunk_data c) + nat (len - k)" using k 2 by simp
      with moved_trans [OF d1(2) r(2)] have "moved dest src (nat len) dest' src'" by simp
      then show ?thesis
        using cs rem 2 d1(1) r(1) k
        by (subst chunkqueue_steal.simps) (simp add: steal_use_def conjunct1 [OF True])
    next
      case 3
      have "0 < len" using True by simp
      then obtain d1 where d1: "(case ck_type c of
        MEM_CHUNK \<Rightarrow> do {
          s \<leftarrow> mem_get (b_ptr (ck_mem c)) (nat (ck_offset c)) (nat len);
          chunkqueue_append_mem dest s
        }
      | FILE_CHUNK \<Rightarrow> chunkqueue_append_file dest (ck_name c) (ck_start c + ck_offset c) len) = Some d1"
        "moved dest src (nat len) d1
          (src\<lparr>cq_chunks := c\<lparr>ck_offset := ck_offset c + len\<rparr> # cs, cq_bytes_out := cq_bytes_out src + len\<rparr>)"
        using moved_part [OF less.prems cs] 3(2) by (auto simp: k_def)
      show ?thesis
        using True cs rem 3 d1 by (subst chunkqueue_steal.simps) (cases "ck_type c"; simp add: steal_use_def)
    qed
  qed
qed


section \<open>Reading into a queue\<close>

lemma last_memE:
  assumes "last_mem cq = Some b"
  obtains cs c where "cq_chunks cq = cs @ [c]" and "ck_type c = MEM_CHUNK" and "ck_mem c = b"
    and "\<And>b'. set_last_mem cq b' = cq\<lparr>cq_chunks := cs @ [c\<lparr>ck_mem := b'\<rparr>]\<rparr>"
  using assms by (cases "cq_chunks cq" rule: rev_cases) (auto simp: last_mem_def set_last_mem_def split: if_splits)

lemma last_mem_set: "last_mem cq = Some b \<Longrightarrow> last_mem (set_last_mem cq b') = Some b'"
  by (erule last_memE) (simp add: last_mem_def)

lemma set_last_mem_ok:
  assumes "cq_ok cq" and "last_mem cq = Some b" and "buf_ok b'" and "buf_str b' = buf_str b @ t"
  shows "cq_ok ((set_last_mem cq b')\<lparr>cq_bytes_in := cq_bytes_in cq + int (length t)\<rparr>)"
    and "cq_stream (set_last_mem cq b') = cq_stream cq @ map Mem t"
    and "cq_bytes_in (set_last_mem cq b') = cq_bytes_in cq" "cq_bytes_out (set_last_mem cq b') = cq_bytes_out cq"
proof -
  from assms(2) obtain cs c where c: "cq_chunks cq = cs @ [c]" "ck_type c = MEM_CHUNK" "ck_mem c = b"
    "\<And>b'. set_last_mem cq b' = cq\<lparr>cq_chunks := cs @ [c\<lparr>ck_mem := b'\<rparr>]\<rparr>" by (rule last_memE) blast
  have ok: "chunk_ok c" using assms(1) c(1) by (simp add: cq_ok_def)
  then have "chunk_ok (c\<lparr>ck_mem := b'\<rparr>)" "chunk_data (c\<lparr>ck_mem := b'\<rparr>) = chunk_data c @ map Mem t"
    using c(2,3) assms(3,4) by (auto simp: chunk_ok_def chunk_len_def chunk_data_def)
  then show "cq_ok ((set_last_mem cq b')\<lparr>cq_bytes_in := cq_bytes_in cq + int (length t)\<rparr>)"
    and "cq_stream (set_last_mem cq b') = cq_stream cq @ map Mem t"
    and "cq_bytes_in (set_last_mem cq b') = cq_bytes_in cq" "cq_bytes_out (set_last_mem cq b') = cq_bytes_out cq"
    using assms(1) c(1,4) by (simp_all add: cq_ok_def spares_ok_def cq_stream_def)
qed

lemma set_last_mem_same:
  assumes "cq_ok cq" and "last_mem cq = Some b" and "buf_ok b'" and "buf_str b' = buf_str b"
  shows "cq_ok (set_last_mem cq b')" and "cq_stream (set_last_mem cq b') = cq_stream cq"
    and "cq_bytes_in (set_last_mem cq b') = cq_bytes_in cq" "cq_bytes_out (set_last_mem cq b') = cq_bytes_out cq"
proof -
  have "buf_str b' = buf_str b @ []" using assms(4) by simp
  note set = set_last_mem_ok [OF assms(1-3) this]
  have "(set_last_mem cq b')\<lparr>cq_bytes_in := cq_bytes_in cq + int (length ([] :: string))\<rparr> = set_last_mem cq b'"
    by (simp add: set_last_mem_def)
  then show "cq_ok (set_last_mem cq b')" using set(1) by simp
  show "cq_stream (set_last_mem cq b') = cq_stream cq"
    and "cq_bytes_in (set_last_mem cq b') = cq_bytes_in cq" "cq_bytes_out (set_last_mem cq b') = cq_bytes_out cq"
    using set(2-4) by simp_all
qed

lemma cq_last_mem_ok: "cq_ok cq \<Longrightarrow> last_mem cq = Some b \<Longrightarrow> buf_ok b"
  by (erule last_memE) (auto simp: cq_ok_def chunk_ok_def)

lemma buffer_string_space_eq: "buf_holds b s \<Longrightarrow> buffer_string_space b = b_size b - (length s + 1)"
  using buf_holdsD(2,5) [of b s] by (auto simp: buffer_string_space_def)

lemma get_memory_reuse_ok:
  assumes "buf_ok b" and "0 < min_size" and "min_size \<le> alloc_size" and "alloc_size < 2 ^ 62"
  shows "\<exists>b' have. get_memory_reuse b min_size alloc_size = Some (b', have) \<and>
    buf_holds b' (buf_str b) \<and> have = buffer_string_space b'"
proof (cases "buffer_string_is_empty b")
  case True
  then have str: "buf_str b = []" using buf_ok_cases [OF assms(1)] buf_holdsD(7) by metis
  have "alloc_size + 1 < SIZE_T" using assms(4) by (simp add: SIZE_T_def)
  with buf_ok_shape [OF assms(1)] obtain b' where "buffer_string_prepare_copy b alloc_size = Some b'" "buf_holds b' []"
    by (rule buffer_string_prepare_copy_ok)
  then show ?thesis using True str by (simp add: get_memory_reuse_def)
next
  case False
  then have h: "buf_holds b (buf_str b)" using buf_ok_cases [OF assms(1)] by metis
  let ?n = "length (buf_str b)"
  show ?thesis
  proof (cases "buffer_string_space b < min_size \<and> b_size b \<le> REALLOC_MAX_SIZE")
    case small: True
    then have n: "?n < 256" using buf_holdsD(5) [OF h] by (simp add: REALLOC_MAX_SIZE_def)
    define new where "new = (if ?n + min_size < alloc_size then alloc_size else ?n + min_size)"
    have new: "?n + min_size \<le> new" "new < 2 ^ 62 + 256" using n assms(3,4) by (auto simp: new_def)
    have u: "uadd ?n min_size = ?n + min_size"
      by (rule uadd_id) (use n assms(3,4) in \<open>simp add: SIZE_T_def\<close>)
    have app: "(new + (SIZE_T - ?n)) mod SIZE_T = new - ?n"
    proof -
      have "new + (SIZE_T - ?n) = (new - ?n) + SIZE_T" using new n by (simp add: SIZE_T_def)
      moreover have "new - ?n < SIZE_T" using new(2) by (simp add: SIZE_T_def)
      ultimately show ?thesis by simp
    qed
    have "?n + (new - ?n) + 1 < SIZE_T" using new n by (simp add: SIZE_T_def)
    with assms(1) obtain b' where "buffer_string_prepare_append b (new - ?n) = Some (b', ?n)" "buf_holds b' (buf_str b)"
      by (rule buffer_string_prepare_append_ok)
    then show ?thesis
      using False small new
      unfolding get_memory_reuse_def Let_def buffer_string_length_eq [OF assms(1)] u new_def [symmetric] app
      by auto
  next
    case big: False
    then show ?thesis using False h unfolding get_memory_reuse_def Let_def by auto
  qed
qed

text \<open>The memory handed out: room behind the string in the last buffer.\<close>

definition readable :: "chunkqueue \<Rightarrow> nat \<Rightarrow> bool" where
  "readable cq n \<longleftrightarrow> (\<exists>b s. last_mem cq = Some b \<and> buf_holds b s \<and> n = buffer_string_space b)"

lemma get_memory_ok:
  assumes "cq_ok cq" and "min_size < 2 ^ 62" and "alloc_size < 2 ^ 62"
  shows "\<exists>cq' n. chunkqueue_get_memory cq min_size alloc_size = Some (cq', n) \<and> cq_ok cq' \<and>
    cq_stream cq' = cq_stream cq \<and> cq_bytes_in cq' = cq_bytes_in cq \<and> cq_bytes_out cq' = cq_bytes_out cq \<and>
    readable cq' n \<and> 0 < n \<and> min_size \<le> n"
proof -
  define mn where "mn = (if min_size = 0 then 1024 else min_size)"
  define al where "al = (let a = (if alloc_size = 0 then 4096 else alloc_size) in if a < mn then mn else a)"
  have sz: "0 < mn" "min_size \<le> mn" "mn \<le> al" "al < 2 ^ 62"
    using assms(2,3) by (auto simp: mn_def al_def Let_def)
  have new: "\<exists>cq' n. (do {
       let (cq, c) = chunkqueue_get_unused_chunk cq1;
       let c = c\<lparr>ck_type := MEM_CHUNK\<rparr>;
       cq \<leftarrow> chunkqueue_append_chunk cq c;
       (b, _) \<leftarrow> buffer_string_prepare_append (ck_mem c) al;
       Some (set_last_mem cq b, buffer_string_space b)
     }) = Some (cq', n) \<and> cq_ok cq' \<and> cq_stream cq' = cq_stream cq1 \<and> cq_bytes_in cq' = cq_bytes_in cq1 \<and>
     cq_bytes_out cq' = cq_bytes_out cq1 \<and> readable cq' n \<and> 0 < n \<and> min_size \<le> n"
    if ok1: "cq_ok cq1" for cq1
  proof -
    obtain cq2 c where u: "chunkqueue_get_unused_chunk cq1 = (cq2, c)" by (meson surj_pair)
    have un: "spares_ok cq2" "same_but_spares cq1 cq2" "spare_ok c"
      using get_unused_ok [OF _ u] ok1 by (auto simp: cq_ok_def)
    have ok2: "cq_ok cq2" using cq_ok_spares [OF ok1 un(2,1)] .
    have c: "c\<lparr>ck_type := MEM_CHUNK\<rparr> = c" "buf_ok (ck_mem c)" "buf_str (ck_mem c) = []"
      using un(3) by (cases c; simp add: spare_ok_def)+
    obtain cq3 where a: "chunkqueue_append_chunk cq2 c = Some cq3" "cq_ok cq3" "cq_stream cq3 = cq_stream cq2"
      "cq_chunks cq3 = cq_chunks cq2 @ [c]" "cq_bytes_in cq3 = cq_bytes_in cq2" "cq_bytes_out cq3 = cq_bytes_out cq2"
      using append_chunk_ok [OF ok2, of c] spare_chunk_ok [OF un(3)] by auto
    have "length (buf_str (ck_mem c)) + al + 1 < SIZE_T" using sz(4) c(3) by (simp add: SIZE_T_def)
    with c(2) obtain b where b: "buffer_string_prepare_append (ck_mem c) al = Some (b, length (buf_str (ck_mem c)))"
      "buf_holds b (buf_str (ck_mem c))" "length (buf_str (ck_mem c)) + al < b_size b"
      by (rule buffer_string_prepare_append_ok)
    have lm: "last_mem cq3 = Some (ck_mem c)" using a(4) un(3) by (simp add: last_mem_def spare_ok_def)
    note set = set_last_mem_same [OF a(2) lm buf_holdsD(4,3) [OF b(2)]]
    have "readable (set_last_mem cq3 b) (buffer_string_space b)"
      using last_mem_set [OF lm] b(2) by (auto simp: readable_def)
    moreover have "al \<le> buffer_string_space b" using buffer_string_space_eq [OF b(2)] b(3) c(3) by simp
    ultimately show ?thesis
      using u a c b(1) set same_but_sparesD [OF un(2)] sz by auto
  qed
  show ?thesis
  proof (cases "last_mem cq")
    case None
    then show ?thesis
      using new [OF assms(1)] by (simp add: chunkqueue_get_memory_def mn_def [symmetric] al_def [unfolded Let_def, symmetric] Let_def)
  next
    case (Some b)
    obtain b' hv where r: "get_memory_reuse b mn al = Some (b', hv)" "buf_holds b' (buf_str b)"
      "hv = buffer_string_space b'"
      using get_memory_reuse_ok [OF cq_last_mem_ok [OF assms(1) Some] sz(1,3,4)] by blast
    note same = set_last_mem_same [OF assms(1) Some buf_holdsD(4,3) [OF r(2)]]
    have "readable (set_last_mem cq b') hv" using last_mem_set [OF Some] r(2,3) by (auto simp: readable_def)
    then show ?thesis
      using new [OF same(1)] Some r(1) same sz last_mem_set [OF Some, of b']
      by (cases "hv \<ge> mn")
        (auto simp: chunkqueue_get_memory_def mn_def [symmetric] al_def [unfolded Let_def, symmetric] Let_def)
  qed
qed

text \<open>Reading \<open>s\<close> into that memory and handing it back appends \<open>s\<close> to the stream.\<close>

lemma fill_use_memory_ok:
  assumes "cq_ok cq" and "readable cq n" and "length s \<le> n"
  shows "\<exists>cq1 cq2. chunkqueue_fill_memory cq s = Some cq1 \<and> chunkqueue_use_memory cq1 (length s) = Some cq2 \<and>
    cq_ok cq2 \<and> cq_stream cq2 = cq_stream cq @ map Mem s \<and> cq_bytes_in cq2 = cq_bytes_in cq + int (length s) \<and>
    cq_bytes_out cq2 = cq_bytes_out cq"
proof -
  from assms(2) obtain b t where b: "last_mem cq = Some b" "buf_holds b t" "n = buffer_string_space b"
    by (auto simp: readable_def)
  note h = buf_holdsD [OF b(2)]
  from b(1) obtain cs c where c: "cq_chunks cq = cs @ [c]" "ck_type c = MEM_CHUNK" "ck_mem c = b"
    "\<And>b'. set_last_mem cq b' = cq\<lparr>cq_chunks := cs @ [c\<lparr>ck_mem := b'\<rparr>]\<rparr>" by (rule last_memE) blast
  have twice: "set_last_mem (set_last_mem cq b1) b2 = set_last_mem cq b2" for b1 b2
    unfolding set_last_mem_def by simp
  have bytes: "cq_bytes_in (set_last_mem cq b1) = cq_bytes_in cq" for b1 by (simp add: set_last_mem_def)
  show ?thesis
  proof (cases "s = []")
    case True
    have "b\<lparr>b_ptr := b_ptr b\<rparr> = b" by simp
    moreover have "mem_copy (b_ptr b) (length t) [] = Some (b_ptr b)"
      using h(1,5) by (simp add: mem_copy_def buf_shape_def)
    moreover have "set_last_mem cq b = cq" using c by simp
    ultimately have f: "chunkqueue_fill_memory cq s = Some cq"
      using True b(1) h(6) by (simp add: chunkqueue_fill_memory_def)
    note r = buffer_reset_ok [OF h(1)]
    have "buf_str (buffer_reset b) = buf_str b" if "buffer_string_is_empty b" using that h(3,7) r(2) by simp
    note set_last_mem_same [OF assms(1) b(1) r(1) this]
    then show ?thesis
      using True f b(1) assms(1) by (cases "buffer_string_is_empty b") (auto simp: chunkqueue_use_memory_def)
  next
    case False
    have "length t + length s < b_size b"
      using assms(3) b(3) buffer_string_space_eq [OF b(2)] h(5) by simp
    from buffer_fill_commit [OF b(2) this False] obtain m b' where
      m: "mem_copy (b_ptr b) (length t) s = Some m" "buffer_commit (b\<lparr>b_ptr := m\<rparr>) (length s) = Some b'"
      "buf_holds b' (t @ s)" by blast
    have "buf_str b' = buf_str b @ s" using buf_holdsD(3) [OF m(3)] h(3) by simp
    note set = set_last_mem_ok [OF assms(1) b(1) buf_holdsD(4) [OF m(3)] this]
    have f: "chunkqueue_fill_memory cq s = Some (set_last_mem cq (b\<lparr>b_ptr := m\<rparr>))"
      using b(1) h(6) m(1) by (simp add: chunkqueue_fill_memory_def)
    have "chunkqueue_use_memory (set_last_mem cq (b\<lparr>b_ptr := m\<rparr>)) (length s) =
        Some ((set_last_mem cq b')\<lparr>cq_bytes_in := cq_bytes_in cq + int (length s)\<rparr>)"
      using False m(2) last_mem_set [OF b(1), of "b\<lparr>b_ptr := m\<rparr>"]
      by (simp add: chunkqueue_use_memory_def twice bytes)
    then show ?thesis using f set by (auto simp: cq_stream_def)
  qed
qed


section \<open>The interface of a byte queue\<close>

text \<open>
  What the writers and the network layer rely on: octets come out in the order they went in.
\<close>

locale byte_queue =
  fixes ok :: "'q \<Rightarrow> bool" and stream :: "'q \<Rightarrow> 'o list" and put :: "'q \<Rightarrow> 'm \<Rightarrow> 'q option"
    and octets :: "'m \<Rightarrow> 'o list" and fits :: "'m \<Rightarrow> bool" and drop_front :: "'q \<Rightarrow> nat \<Rightarrow> 'q option"
  assumes put_ok: "ok q \<Longrightarrow> fits m \<Longrightarrow> \<exists>q'. put q m = Some q' \<and> ok q' \<and> stream q' = stream q @ octets m"
    and drop_ok: "ok q \<Longrightarrow> n \<le> length (stream q) \<Longrightarrow>
      \<exists>q'. drop_front q n = Some q' \<and> ok q' \<and> stream q' = drop n (stream q)"
begin

text \<open>
  A run of writes (\<open>Inl\<close>) and acknowledgements (\<open>Inr\<close>); the second result is what was taken
  off the front.
\<close>

fun run :: "'q \<Rightarrow> ('m + nat) list \<Rightarrow> ('q \<times> 'o list) option" where
  "run q [] = Some (q, [])"
| "run q (Inl m # as) = Option.bind (put q m) (\<lambda>q. run q as)"
| "run q (Inr n # as) =
     (if n \<le> length (stream q)
      then Option.bind (drop_front q n) (\<lambda>q'. map_option (\<lambda>(r, out). (r, take n (stream q) @ out)) (run q' as))
      else None)"

fun written :: "('m + nat) list \<Rightarrow> 'o list" where
  "written [] = []"
| "written (Inl m # as) = octets m @ written as"
| "written (Inr n # as) = written as"

lemma fifo:
  assumes "ok q" and "run q as = Some (q', out)" and "\<forall>m. Inl m \<in> set as \<longrightarrow> fits m"
  shows "ok q' \<and> out @ stream q' = stream q @ written as"
  using assms
proof (induction q as arbitrary: out rule: run.induct)
  case (2 q m as)
  then obtain q1 where "put q m = Some q1" "ok q1" "stream q1 = stream q @ octets m"
    using put_ok [of q m] by auto
  then show ?case using "2.IH" [of q1 out] "2.prems" by auto
next
  case (3 q n as)
  then have n: "n \<le> length (stream q)" by (simp split: if_splits)
  then obtain q1 where q1: "drop_front q n = Some q1" "ok q1" "stream q1 = drop n (stream q)"
    using drop_ok [OF "3.prems"(1)] by blast
  then obtain out1 where o: "run q1 as = Some (q', out1)" "out = take n (stream q) @ out1"
    using "3.prems"(2) n by auto
  from "3.IH" [OF n q1(1,2) o(1)] "3.prems"(3) q1(3) o(2) show ?case
    by (metis append.assoc append_take_drop_id list.set_intros(2) written.simps(3))
qed simp

lemma run_total:
  assumes "ok q" and "\<forall>m. Inl m \<in> set as \<longrightarrow> fits m" and "\<forall>n. Inr n \<notin> set as"
  shows "\<exists>q'. run q as = Some (q', []) \<and> ok q' \<and> stream q' = stream q @ written as"
  using assms
proof (induction q as rule: run.induct)
  case (2 q m as)
  then obtain q1 where "put q m = Some q1" "ok q1" "stream q1 = stream q @ octets m"
    using put_ok [of q m] by auto
  then show ?case using "2.IH" [of q1] "2.prems" by auto
qed auto

end

interpretation chunks: byte_queue cq_ok cq_stream chunkqueue_append_mem "map Mem" "\<lambda>s. length s + 1 < SIZE_T"
  "\<lambda>cq n. map_option fst (chunkqueue_mark_written cq (int n))"
proof
  fix q s assume "cq_ok q" "length (s :: string) + 1 < SIZE_T"
  then show "\<exists>q'. chunkqueue_append_mem q s = Some q' \<and> cq_ok q' \<and> cq_stream q' = cq_stream q @ map Mem s"
    using append_mem_ok by blast
next
  fix q n assume "cq_ok q" "n \<le> length (cq_stream q)"
  then show "\<exists>q'. map_option fst (chunkqueue_mark_written q (int n)) = Some q' \<and> cq_ok q' \<and>
      cq_stream q' = drop n (cq_stream q)"
    using mark_written_ok [of q "int n"] by auto
qed

end
