(* ===== verification/Chunk_Temp.thy ===== *)
theory Chunk_Temp
  imports Chunk_Inv "HOL-Library.Multiset"
begin

text \<open>
  Chunks kept in temporary files (\<open>chunk.c\<close>). The system calls are scripted: the record \<open>os\<close>
  holds what the next calls of \<open>mkstemp\<close>, \<open>write\<close> and \<open>close\<close> return and what the files
  contain. A run that asks for more outcomes than the script has is \<open>None\<close>.
\<close>

section \<open>The system calls\<close>

text \<open>\<open>Wrote n\<close> stores the first \<open>n\<close> bytes; the other outcomes are errors by \<open>errno\<close>.\<close>

datatype write_result = Wrote nat | Write_EINTR | Write_ENOSPC | Write_error

text \<open>
  A call of \<open>mkstemp\<close> fails (\<open>None\<close>) or picks the characters it puts for \<open>XXXXXX\<close> and returns a
  descriptor; \<open>os_disk\<close> gives the contents of the files that exist.
\<close>

record os =
  os_mkstemp :: "(string \<times> nat) option list"
  os_write :: "write_result list"
  os_close :: "bool list"
  os_disk :: "string \<Rightarrow> string option"

text \<open>
  \<open>mkstemp(template->ptr)\<close> replaces the last six bytes of the template in place. It creates the
  file exclusively, so it cannot succeed with the name of a file that exists.
\<close>

definition mkstemp :: "os \<Rightarrow> buffer \<Rightarrow> (os \<times> (buffer \<times> int) option) option" where
  "mkstemp os template =
     (case os_mkstemp os of
        [] \<Rightarrow> None
      | None # rs \<Rightarrow> Some (os\<lparr>os_mkstemp := rs\<rparr>, None)
      | Some (sfx, fd) # rs \<Rightarrow> do {
          force_assert (length sfx = 6 \<and> NUL \<notin> set sfx);
          m \<leftarrow> mem_copy (b_ptr template) (buffer_string_length template - 6) sfx;
          let template = template\<lparr>b_ptr := m\<rparr>;
          if os_disk os (buf_str template) \<noteq> None then Some (os\<lparr>os_mkstemp := rs\<rparr>, None)
          else Some (os\<lparr>os_mkstemp := rs, os_disk := (os_disk os)(buf_str template \<mapsto> [])\<rparr>, Some (template, int fd))
        })"

text \<open>\<open>write\<close> to a file open for appending by this process only.\<close>

definition os_append :: "os \<Rightarrow> string \<Rightarrow> string \<Rightarrow> os" where
  "os_append os name s = os\<lparr>os_disk := (os_disk os)(name := map_option (\<lambda>t. t @ s) (os_disk os name))\<rparr>"

definition os_closed :: "os \<Rightarrow> (os \<times> bool) option" where
  "os_closed os = (case os_close os of [] \<Rightarrow> None | r # rs \<Rightarrow> Some (os\<lparr>os_close := rs\<rparr>, r))"

fun os_events :: "os \<Rightarrow> io_event list \<Rightarrow> os" where
  "os_events os [] = os"
| "os_events os (Unlink name # es) = os_events (os\<lparr>os_disk := (os_disk os)(name := None)\<rparr>) es"
| "os_events os (_ # es) = os_events os es"

section \<open>Opening a temporary file\<close>

definition TEMPFILE_NAME :: string where
  "TEMPFILE_NAME = ''lighttpd-upload-XXXXXX''"

text \<open>The directories from \<open>tempdir_idx\<close> on are tried in turn.\<close>

fun tempdir_loop :: "os \<Rightarrow> buffer list \<Rightarrow> nat \<Rightarrow> buffer \<Rightarrow> (os \<times> nat \<times> (buffer \<times> int) option) option" where
  "tempdir_loop os [] idx template = Some (os, idx, None)"
| "tempdir_loop os (d # ds) idx template = do {
     template \<leftarrow> buffer_copy_buffer template (Some d);
     template \<leftarrow> buffer_append_slash template;
     template \<leftarrow> buffer_append_string_len template TEMPFILE_NAME;
     (os, r) \<leftarrow> mkstemp os template;
     case r of
       None \<Rightarrow> tempdir_loop os ds (idx + 1) template
     | Some tf \<Rightarrow> Some (os, idx, Some tf)
   }"

definition open_tempfile :: "os \<Rightarrow> chunkqueue \<Rightarrow> (os \<times> chunkqueue \<times> (buffer \<times> int) option) option" where
  "open_tempfile os cq = do {
     template \<leftarrow> buffer_init_string (''/var/tmp/'' @ TEMPFILE_NAME);
     case cq_tempdirs cq of
       Some (d # ds) \<Rightarrow> do {
         (os, idx, r) \<leftarrow> tempdir_loop os (drop (cq_tempdir_idx cq) (d # ds)) (cq_tempdir_idx cq) template;
         Some (os, cq\<lparr>cq_tempdir_idx := idx\<rparr>, r)
       }
     | _ \<Rightarrow> do {
         (os, r) \<leftarrow> mkstemp os template;
         Some (os, cq, r)
       }
   }"

text \<open>The new chunk is the last one of the queue; the flag says whether there is one.\<close>

definition chunkqueue_get_append_tempfile :: "os \<Rightarrow> chunkqueue \<Rightarrow> (os \<times> chunkqueue \<times> bool) option" where
  "chunkqueue_get_append_tempfile os cq = do {
     (os, cq, r) \<leftarrow> open_tempfile os cq;
     case r of
       None \<Rightarrow> Some (os, cq, False)
     | Some (template, fd) \<Rightarrow> do {
         let (cq, c) = chunkqueue_get_unused_chunk cq;
         name \<leftarrow> buffer_copy_buffer (ck_name c) (Some template);
         cq \<leftarrow> chunkqueue_append_chunk cq
           (c\<lparr>ck_type := FILE_CHUNK, ck_fd := fd, ck_is_temp := True, ck_name := name, ck_length := 0\<rparr>);
         Some (os, cq, True)
       }
   }"

section \<open>Writing to it\<close>

definition update_last :: "chunkqueue \<Rightarrow> (chunk \<Rightarrow> chunk) \<Rightarrow> chunkqueue" where
  "update_last cq f = cq\<lparr>cq_chunks := butlast (cq_chunks cq) @ [f (last (cq_chunks cq))]\<rparr>"

definition appendable :: "chunk \<Rightarrow> bool" where
  "appendable c \<longleftrightarrow> ck_type c = FILE_CHUNK \<and> ck_is_temp c \<and> ck_fd c \<ge> 0 \<and> ck_offset c = 0"

text \<open>
  The head of the loop: the last chunk is used when it is an open, unread temporary file that is
  not too large yet; otherwise a new one is opened. \<open>None\<close> inside stands for returning -1.
\<close>

definition tempfile_target :: "os \<Rightarrow> chunkqueue \<Rightarrow> (os \<times> chunkqueue \<times> bool) option" where
  "tempfile_target os dest =
     (if cq_chunks dest \<noteq> [] \<and> appendable (last (cq_chunks dest))
      then if ck_length (last (cq_chunks dest)) \<ge> int (cq_upload_temp_file_size dest)
        then do {
          (os, rc) \<leftarrow> os_closed os;
          let dest = update_last dest (\<lambda>c. c\<lparr>ck_fd := - 1\<rparr>);
          if rc then chunkqueue_get_append_tempfile os dest else Some (os, dest, False)
        }
        else Some (os, dest, True)
      else chunkqueue_get_append_tempfile os dest)"

text \<open>\<open>dst_c->file.length += n; dest->bytes_in += n\<close> and what \<open>write\<close> did to the file.\<close>

definition tempfile_grow :: "os \<Rightarrow> chunkqueue \<Rightarrow> string \<Rightarrow> os \<times> chunkqueue" where
  "tempfile_grow os dest s =
     (os_append os (buf_str (ck_name (last (cq_chunks dest)))) s,
      (update_last dest (\<lambda>c. c\<lparr>ck_length := ck_length c + int (length s)\<rparr>))
        \<lparr>cq_bytes_in := cq_bytes_in dest + int (length s)\<rparr>)"

text \<open>After a failed write: whether to retry, and the queue with the failed file taken out or closed.\<close>

definition tempfile_failed :: "os \<Rightarrow> chunkqueue \<Rightarrow> bool \<Rightarrow> (os \<times> chunkqueue \<times> bool) option" where
  "tempfile_failed os dest enospc = do {
     let (dest, retry) =
       (case cq_tempdirs dest of
          Some ds \<Rightarrow>
            if enospc then (dest\<lparr>cq_tempdir_idx := cq_tempdir_idx dest + 1\<rparr>, cq_tempdir_idx dest + 1 < length ds)
            else (dest, False)
        | None \<Rightarrow> (dest, False));
     len \<leftarrow> chunk_remaining_length (last (cq_chunks dest));
     if len = 0 then do {
       (dest, io) \<leftarrow> chunkqueue_remove_empty_chunks dest;
       Some (os_events os io, dest, retry)
     }
     else do {
       (os, rc) \<leftarrow> os_closed os;
       let dest = update_last dest (\<lambda>c. c\<lparr>ck_fd := - 1\<rparr>);
       Some (os, dest, rc \<and> retry)
     }
   }"

text \<open>The loop, one write per round; the flag is whether 0 is returned.\<close>

fun append_to_tempfile :: "write_result list \<Rightarrow> os \<Rightarrow> chunkqueue \<Rightarrow> string \<Rightarrow> (os \<times> chunkqueue \<times> bool) option" where
  "append_to_tempfile [] os dest mem = do {
     (os, dest, found) \<leftarrow> tempfile_target os dest;
     if found then None else Some (os\<lparr>os_write := []\<rparr>, dest, False)
   }"
| "append_to_tempfile (w # ws) os dest mem = do {
     (os, dest, found) \<leftarrow> tempfile_target os dest;
     if \<not> found then Some (os\<lparr>os_write := w # ws\<rparr>, dest, False)
     else case w of
       Wrote n \<Rightarrow> do {
         force_assert (n \<le> length mem);
         let (os, dest) = tempfile_grow os dest (take n mem);
         if n = length mem then Some (os\<lparr>os_write := ws\<rparr>, dest, True)
         else append_to_tempfile ws os dest (drop n mem)
       }
     | Write_EINTR \<Rightarrow> append_to_tempfile ws os dest mem
     | _ \<Rightarrow> do {
         (os, dest, retry) \<leftarrow> tempfile_failed os dest (w = Write_ENOSPC);
         if retry then append_to_tempfile ws os dest mem
         else Some (os\<lparr>os_write := ws\<rparr>, dest, False)
       }
   }"

definition chunkqueue_append_mem_to_tempfile :: "os \<Rightarrow> chunkqueue \<Rightarrow> string \<Rightarrow> (os \<times> chunkqueue \<times> bool) option" where
  "chunkqueue_append_mem_to_tempfile os dest mem = append_to_tempfile (os_write os) os dest mem"

function chunkqueue_steal_with_tempfiles ::
    "os \<Rightarrow> chunkqueue \<Rightarrow> chunkqueue \<Rightarrow> int \<Rightarrow> (os \<times> chunkqueue \<times> chunkqueue \<times> bool) option" where
  "chunkqueue_steal_with_tempfiles os dest src len =
     (if \<not> len > 0 then Some (os, dest, src, True)
      else case cq_chunks src of
        [] \<Rightarrow> Some (os, dest, src, True)
      | c # cs \<Rightarrow> do {
          clen \<leftarrow> chunk_remaining_length c;
          if clen = 0 then do {
            let (src, io) = chunkqueue_push_unused_chunk (src\<lparr>cq_chunks := cs\<rparr>) c;
            chunkqueue_steal_with_tempfiles (os_events os io) dest src len
          }
          else
            (case ck_type c of
              FILE_CHUNK \<Rightarrow>
                if steal_use len clen \<noteq> clen then do {
                  dest \<leftarrow> chunkqueue_append_file dest (ck_name c) (ck_start c + ck_offset c) (steal_use len clen);
                  force_assert (len - steal_use len clen = 0);
                  Some (os, dest, src\<lparr>cq_chunks := c\<lparr>ck_offset := ck_offset c + steal_use len clen\<rparr> # cs,
                                  cq_bytes_out := cq_bytes_out src + steal_use len clen\<rparr>, True)
                }
                else do {
                  dest \<leftarrow> chunkqueue_append_chunk dest c;
                  chunkqueue_steal_with_tempfiles os dest
                    (src\<lparr>cq_chunks := cs, cq_bytes_out := cq_bytes_out src + steal_use len clen\<rparr>) (len - steal_use len clen)
                }
            | MEM_CHUNK \<Rightarrow> do {
                s \<leftarrow> mem_get (b_ptr (ck_mem c)) (nat (ck_offset c)) (nat (steal_use len clen));
                (os, dest, ok) \<leftarrow> chunkqueue_append_mem_to_tempfile os dest s;
                if \<not> ok then Some (os, dest, src, False)
                else if steal_use len clen \<noteq> clen then do {
                  force_assert (len - steal_use len clen = 0);
                  Some (os, dest, src\<lparr>cq_chunks := c\<lparr>ck_offset := ck_offset c + steal_use len clen\<rparr> # cs,
                                  cq_bytes_out := cq_bytes_out src + steal_use len clen\<rparr>, True)
                }
                else do {
                  let (src, io) = chunkqueue_push_unused_chunk (src\<lparr>cq_chunks := cs\<rparr>) c;
                  chunkqueue_steal_with_tempfiles (os_events os io) dest
                    (src\<lparr>cq_bytes_out := cq_bytes_out src + steal_use len clen\<rparr>) (len - steal_use len clen)
                }
              })
        })"
  by pat_completeness auto
termination
  by (relation "measure (\<lambda>(os, dest, src, len). length (cq_chunks src))")
    (auto dest: chunks_push_unusedE [OF sym])

declare chunkqueue_steal_with_tempfiles.simps [simp del]


section \<open>Taking out empty chunks\<close>

text \<open>What is left after some empty chunks \<open>rs\<close> were dropped.\<close>

definition thinned :: "chunk list \<Rightarrow> chunk list \<Rightarrow> chunk list \<Rightarrow> bool" where
  "thinned cs rs cs' \<longleftrightarrow> mset cs = mset cs' + mset rs \<and> (\<forall>r \<in> set rs. chunk_data r = []) \<and>
     concat (map chunk_data cs') = concat (map chunk_data cs) \<and> (cs' \<noteq> [] \<longrightarrow> last cs' = last cs)"

lemma remove_finished_thins:
  assumes "spares_ok cq" and "list_all chunk_ok cs" and "remove_finished_loop cq cs = Some (cq', io)"
  shows "\<exists>rs. thinned cs rs (cq_chunks cq') \<and> io = concat (map chunk_release rs) \<and> spares_ok cq' \<and>
    same_but_spares (cq\<lparr>cq_chunks := cq_chunks cq'\<rparr>) cq' \<and> list_all chunk_ok (cq_chunks cq')"
  using assms
proof (induction cs arbitrary: cq io)
  case Nil
  then show ?case by (auto simp: thinned_def same_but_spares_def spares_ok_def)
next
  case (Cons c cs)
  have c: "chunk_ok c" and cs: "list_all chunk_ok cs" using Cons.prems(2) by simp_all
  note rem = chunk_remaining [OF c] chunk_data_Nil [OF c]
  show ?case
  proof (cases "chunk_data c = []")
    case True
    obtain cq1 io1 where p: "chunkqueue_push_unused_chunk cq c = (cq1, io1)" by (meson surj_pair)
    have pu: "spares_ok cq1" "same_but_spares cq cq1" "io1 = chunk_release c"
      using push_unused_ok [OF Cons.prems(1) _ _ p] buf_shapes [OF c] by blast+
    obtain io2 where r: "remove_finished_loop cq1 cs = Some (cq', io2)" "io = io1 @ io2"
      using Cons.prems(3) p rem True by (auto simp: bind_eq_Some_conv)
    obtain rs where rs: "thinned cs rs (cq_chunks cq')" "io2 = concat (map chunk_release rs)" "spares_ok cq'"
      "same_but_spares (cq1\<lparr>cq_chunks := cq_chunks cq'\<rparr>) cq'" "list_all chunk_ok (cq_chunks cq')"
      using Cons.IH [OF pu(1) cs r(1)] by blast
    have "same_but_spares (cq\<lparr>cq_chunks := cq_chunks cq'\<rparr>) cq'"
      using pu(2) rs(4) by (cases cq; cases cq1; cases cq'; simp add: same_but_spares_def)
    moreover have "thinned (c # cs) (c # rs) (cq_chunks cq')"
      using rs(1) True by (auto simp: thinned_def)
    ultimately show ?thesis using rs(2,3,5) pu(3) r(2) by (intro exI [of _ "c # rs"]) simp
  next
    case False
    then have "cq' = cq\<lparr>cq_chunks := c # cs\<rparr>" "io = []"
      using Cons.prems(3) rem by (auto split: if_splits)
    then show ?thesis using Cons.prems(1,2)
      by (intro exI [of _ "[]"]) (simp add: thinned_def spares_ok_def same_but_spares_def)
  qed
qed

lemma remove_empty_loop_thins:
  assumes "spares_ok cq" and "list_all chunk_ok (pre @ cs)" and "remove_empty_loop cq pre cs = Some (cq', io)"
  shows "\<exists>rs. thinned (pre @ cs) rs (cq_chunks cq') \<and> io = concat (map chunk_release rs) \<and> spares_ok cq' \<and>
    same_but_spares (cq\<lparr>cq_chunks := cq_chunks cq'\<rparr>) cq' \<and> list_all chunk_ok (cq_chunks cq')"
  using assms
proof (induction cq pre cs arbitrary: io rule: remove_empty_loop.induct)
  case (2 cq pre c)
  then have "cq' = cq\<lparr>cq_chunks := pre @ [c]\<rparr>" "io = []" by auto
  then show ?case using 2 by (intro exI [of _ "[]"]) (simp add: thinned_def spares_ok_def same_but_spares_def)
next
  case (3 cq pre c d cs)
  have d: "chunk_ok d" using "3.prems"(2) by simp
  note rem = chunk_remaining [OF d] chunk_data_Nil [OF d]
  show ?case
  proof (cases "chunk_data d = []")
    case True
    obtain cq1 io1 where p: "chunkqueue_push_unused_chunk cq d = (cq1, io1)" by (meson surj_pair)
    have pu: "spares_ok cq1" "same_but_spares cq cq1" "io1 = chunk_release d"
      using push_unused_ok [OF "3.prems"(1) _ _ p] buf_shapes [OF d] by blast+
    obtain io2 where r: "remove_empty_loop cq1 (pre @ [c]) cs = Some (cq', io2)" "io = io1 @ io2"
      using "3.prems"(3) p rem True by (auto simp: bind_eq_Some_conv)
    then have "cs \<noteq> []" by auto
    have "list_all chunk_ok ((pre @ [c]) @ cs)" using "3.prems"(2) by simp
    from "3.IH"(1) [OF rem(1) _ p [symmetric] refl pu(1) this r(1)] rem(2) True obtain rs where
      rs: "thinned ((pre @ [c]) @ cs) rs (cq_chunks cq')" "io2 = concat (map chunk_release rs)" "spares_ok cq'"
      "same_but_spares (cq1\<lparr>cq_chunks := cq_chunks cq'\<rparr>) cq'" "list_all chunk_ok (cq_chunks cq')"
      by auto
    have "same_but_spares (cq\<lparr>cq_chunks := cq_chunks cq'\<rparr>) cq'"
      using pu(2) rs(4) by (cases cq; cases cq1; cases cq'; simp add: same_but_spares_def)
    moreover have "thinned (pre @ c # d # cs) (d # rs) (cq_chunks cq')"
      using rs(1) True \<open>cs \<noteq> []\<close> by (auto simp: thinned_def)
    ultimately show ?thesis using rs(2,3,5) pu(3) r(2) by (intro exI [of _ "d # rs"]) simp
  next
    case False
    then have r: "remove_empty_loop cq (pre @ [c]) (d # cs) = Some (cq', io)"
      using "3.prems"(3) rem by (auto split: if_splits)
    have "list_all chunk_ok ((pre @ [c]) @ d # cs)" using "3.prems"(2) by simp
    from "3.IH"(2) [OF rem(1) _ "3.prems"(1) this r] rem(2) False show ?thesis by auto
  qed
qed simp

lemma thinned_trans: "thinned cs rs cs' \<Longrightarrow> thinned cs' rs' cs'' \<Longrightarrow> thinned cs (rs @ rs') cs''"
  by (cases "cs' = []") (auto simp: thinned_def)

lemma remove_empty_chunks_thins:
  assumes ok: "cq_ok cq" and r: "chunkqueue_remove_empty_chunks cq = Some (cq', io)"
  shows "\<exists>rs. thinned (cq_chunks cq) rs (cq_chunks cq') \<and> io = concat (map chunk_release rs) \<and> cq_ok cq' \<and>
    cq_stream cq' = cq_stream cq \<and> cq_tempdirs cq' = cq_tempdirs cq \<and>
    cq_bytes_in cq' = cq_bytes_in cq \<and> cq_bytes_out cq' = cq_bytes_out cq"
proof -
  have sp: "spares_ok cq" "list_all chunk_ok (cq_chunks cq)" using ok by (simp_all add: cq_ok_def)
  obtain cq1 io1 where f: "chunkqueue_remove_finished_chunks cq = Some (cq1, io1)"
    using r by (auto simp: chunkqueue_remove_empty_chunks_def bind_eq_Some_conv)
  obtain rs where rs: "thinned (cq_chunks cq) rs (cq_chunks cq1)" "io1 = concat (map chunk_release rs)"
    "spares_ok cq1" "same_but_spares (cq\<lparr>cq_chunks := cq_chunks cq1\<rparr>) cq1" "list_all chunk_ok (cq_chunks cq1)"
    using remove_finished_thins [OF sp f [unfolded chunkqueue_remove_finished_chunks_def]] by blast
  have "\<exists>rs2. thinned (cq_chunks cq) rs2 (cq_chunks cq') \<and> io = concat (map chunk_release rs2) \<and> spares_ok cq' \<and>
    same_but_spares (cq\<lparr>cq_chunks := cq_chunks cq'\<rparr>) cq' \<and> list_all chunk_ok (cq_chunks cq')"
  proof (cases "cq_chunks cq1 = []")
    case True
    then have "cq' = cq1" "io = io1"
      using r f by (auto simp: chunkqueue_remove_empty_chunks_def chunkqueue_is_empty_def)
    then show ?thesis using rs by blast
  next
    case False
    then obtain io2 where l: "remove_empty_loop cq1 [] (cq_chunks cq1) = Some (cq', io2)" "io = io1 @ io2"
      using r f by (auto simp: chunkqueue_remove_empty_chunks_def chunkqueue_is_empty_def bind_eq_Some_conv)
    obtain rs' where rs': "thinned (cq_chunks cq1) rs' (cq_chunks cq')" "io2 = concat (map chunk_release rs')"
      "spares_ok cq'" "same_but_spares (cq1\<lparr>cq_chunks := cq_chunks cq'\<rparr>) cq'" "list_all chunk_ok (cq_chunks cq')"
      using remove_empty_loop_thins [OF rs(3) _ l(1)] rs(5) by auto
    have "same_but_spares (cq\<lparr>cq_chunks := cq_chunks cq'\<rparr>) cq'"
      using rs(4) rs'(4) by (cases cq; cases cq1; cases cq'; simp add: same_but_spares_def)
    then show ?thesis
      using thinned_trans [OF rs(1) rs'(1)] rs(2) rs'(2,3,5) l(2) by (intro exI [of _ "rs @ rs'"]) simp
  qed
  then obtain rs2 where t: "thinned (cq_chunks cq) rs2 (cq_chunks cq')" "io = concat (map chunk_release rs2)"
    "spares_ok cq'" "same_but_spares (cq\<lparr>cq_chunks := cq_chunks cq'\<rparr>) cq'" "list_all chunk_ok (cq_chunks cq')"
    by blast
  have st: "cq_stream cq' = cq_stream cq" using t(1) by (simp add: thinned_def cq_stream_def)
  have "cq_ok cq'" using ok t(3,5) st same_but_sparesD(2,3) [OF t(4)] by (simp add: cq_ok_def)
  then show ?thesis using t(1,2) st same_but_sparesD(2,3,5) [OF t(4)] by auto
qed


section \<open>Contents on disk\<close>

definition octet_val :: "(string \<Rightarrow> string option) \<Rightarrow> octet \<Rightarrow> char option" where
  "octet_val disk x = (case x of
       Mem c \<Rightarrow> Some c
     | Disk n p \<Rightarrow> (case disk n of
         None \<Rightarrow> None
       | Some s \<Rightarrow> if 0 \<le> p \<and> p < int (length s) then Some (s ! nat p) else None))"

definition cq_content :: "(string \<Rightarrow> string option) \<Rightarrow> chunkqueue \<Rightarrow> char option list" where
  "cq_content disk cq = map (octet_val disk) (cq_stream cq)"

definition temp_names :: "chunk list \<Rightarrow> string list" where
  "temp_names cs = map (\<lambda>c. buf_str (ck_name c)) (filter ck_is_temp cs)"

text \<open>
  Every octet is there; the file that may be appended to has exactly the length its chunk says;
  temporary files have one chunk each, exist, and hold nothing of the queue once used up.
\<close>

definition disk_ok :: "(string \<Rightarrow> string option) \<Rightarrow> chunkqueue \<Rightarrow> bool" where
  "disk_ok disk cq \<longleftrightarrow> None \<notin> set (cq_content disk cq) \<and>
     (cq_chunks cq \<noteq> [] \<and> appendable (last (cq_chunks cq)) \<longrightarrow> ck_start (last (cq_chunks cq)) = 0 \<and>
        (\<exists>s. disk (buf_str (ck_name (last (cq_chunks cq)))) = Some s \<and>
          int (length s) = ck_length (last (cq_chunks cq)))) \<and>
     (\<forall>c \<in> set (cq_chunks cq). ck_is_temp c \<and> chunk_data c = [] \<longrightarrow>
        (\<forall>p. Disk (buf_str (ck_name c)) p \<notin> set (cq_stream cq))) \<and>
     distinct (temp_names (cq_chunks cq)) \<and> (\<forall>n \<in> set (temp_names (cq_chunks cq)). disk n \<noteq> None)"

definition dirs_ok :: "chunkqueue \<Rightarrow> bool" where
  "dirs_ok cq \<longleftrightarrow> (\<forall>ds. cq_tempdirs cq = Some ds \<longrightarrow> (\<forall>d \<in> set ds. buf_ok d \<and> length (buf_str d) + 64 < SIZE_T))"

lemma octet_val_cong:
  assumes "None \<notin> set (map (octet_val disk) xs)"
    and "\<And>n p t. Disk n p \<in> set xs \<Longrightarrow> disk n = Some t \<Longrightarrow> \<exists>u. disk' n = Some (t @ u)"
  shows "map (octet_val disk') xs = map (octet_val disk) xs"
proof (rule map_cong [OF refl])
  fix x assume x: "x \<in> set xs"
  show "octet_val disk' x = octet_val disk x"
  proof (cases x)
    case (Disk n p)
    have "octet_val disk x \<noteq> None" using assms(1) x by (metis image_eqI set_map)
    then obtain t where t: "disk n = Some t" "0 \<le> p" "p < int (length t)"
      using Disk by (auto simp: octet_val_def split: option.splits if_splits)
    then obtain u where "disk' n = Some (t @ u)" using assms(2) x Disk by blast
    then show ?thesis using t Disk by (auto simp: octet_val_def nth_append)
  qed (simp add: octet_val_def)
qed

lemma octet_name_exists:
  assumes "None \<notin> set (map (octet_val disk) xs)" and "Disk n p \<in> set xs"
  shows "\<exists>t. disk n = Some t"
proof -
  have "octet_val disk (Disk n p) \<noteq> None" using assms by (metis image_eqI set_map)
  then show ?thesis by (auto simp: octet_val_def split: option.splits)
qed

section \<open>Opening keeps everything in place\<close>

text \<open>The file opened is new and empty.\<close>

definition opened :: "os \<Rightarrow> os \<Rightarrow> (buffer \<times> int) option \<Rightarrow> bool" where
  "opened os os' r \<longleftrightarrow> (case r of
       None \<Rightarrow> os_disk os' = os_disk os
     | Some (t, fd) \<Rightarrow> \<exists>n. buf_holds t n \<and> os_disk os n = None \<and> os_disk os' = (os_disk os)(n \<mapsto> []) \<and> 0 \<le> fd)"

lemma mkstemp_opened:
  assumes h: "buf_holds t s" and len: "6 \<le> length s" and r: "mkstemp os t = Some (os', r)"
  shows "opened os os' r"
proof (cases "os_mkstemp os")
  case (Cons x rs)
  show ?thesis
  proof (cases x)
    case None
    then show ?thesis using r Cons by (auto simp: mkstemp_def opened_def)
  next
    case (Some y)
    obtain sfx fd where y: "y = (sfx, fd)" by (cases y)
    have s6: "length sfx = 6" using r Cons Some y by (auto simp: mkstemp_def bind_eq_Some_conv force_assert_def split: if_splits)
    obtain m where m: "mem_copy (b_ptr t) (length s - 6) sfx = Some m"
      using r Cons Some y buf_holdsD(6) [OF h] by (auto simp: mkstemp_def bind_eq_Some_conv)
    let ?n = "take (length s - 6) s @ sfx"
    have hn: "buf_holds (t\<lparr>b_ptr := m\<rparr>) ?n"
    proof -
      have sh: "buf_shape t" "b_used t = length s + 1" "take (length s + 1) (b_ptr t) = map Some (s @ [NUL])"
        using h by (simp_all add: buf_holds_def)
      define rest where "rest = drop (length s + 1) (b_ptr t)"
      have p: "b_ptr t = map Some s @ Some NUL # rest"
      proof -
        have "b_ptr t = take (length s + 1) (b_ptr t) @ rest" by (simp add: rest_def)
        then show ?thesis unfolding sh(3) by simp
      qed
      have "m = map Some (take (length s - 6) s) @ map Some sfx @ Some NUL # rest"
        using m len s6 by (auto simp: mem_copy_def p take_map split: if_splits)
      then show ?thesis using sh(1,2) len s6 p by (auto simp: buf_holds_def buf_shape_def)
    qed
    show ?thesis
      using r Cons Some y m buf_holdsD(6) [OF h] buf_holdsD(3) [OF hn] hn s6
      by (auto simp: mkstemp_def opened_def bind_eq_Some_conv force_assert_def Let_def split: if_splits)
  qed
qed (use r in \<open>simp add: mkstemp_def\<close>)


text \<open>The template for a directory.\<close>

lemma tempdir_template:
  assumes "buf_shape t" and d: "buf_ok d" "length (buf_str d) + 64 < SIZE_T"
  shows "\<exists>t1 t2 t3 s. buffer_copy_buffer t (Some d) = Some t1 \<and> buffer_append_slash t1 = Some t2 \<and>
    buffer_append_string_len t2 TEMPFILE_NAME = Some t3 \<and> buf_holds t3 s \<and> 22 \<le> length s"
proof -
  obtain t1 where t1: "buffer_copy_buffer t (Some d) = Some t1" "buf_ok t1" "buf_str t1 = buf_str d"
    using d(1)
  proof (cases rule: buf_ok_cases)
    case unset
    have "buffer_is_empty d" using unset by (simp add: buffer_is_empty_def)
    then obtain b where "buffer_copy_buffer t (Some d) = Some b" "buf_ok b" "buf_str b = []"
      using buffer_copy_buffer_unset [OF assms(1), of "Some d"] by blast
    then show ?thesis using that unset by simp
  next
    case holds
    then obtain b where "buffer_copy_buffer t (Some d) = Some b" "buf_holds b (buf_str d)"
      by (rule buffer_copy_buffer_ok [OF assms(1)])
    then show ?thesis using that buf_holdsD(3,4) by blast
  qed
  have "length (buf_str t1) + 2 < SIZE_T" using d(2) t1(3) by simp
  with t1(2) obtain t2 where sl: "buffer_append_slash t1 = Some t2" "buf_ok t2" "buf_str t2 =
      buf_str t1 @ (if buf_str t1 = [] \<or> last (buf_str t1) = CHR ''/'' then [] else ''/'')"
    by (rule buffer_append_slash_ok)
  have t2: "buffer_append_slash t1 = Some t2" "buf_ok t2" "length (buf_str t2) \<le> length (buf_str d) + 1"
    using sl t1(3) by simp_all
  have n: "length TEMPFILE_NAME = 22" by (simp add: TEMPFILE_NAME_def)
  have "length (buf_str t2) + length TEMPFILE_NAME + 1 < SIZE_T" using t2(3) d(2) n by linarith
  with t2(2) obtain t3 where t3: "buffer_append_string_len t2 TEMPFILE_NAME = Some t3"
    "buf_holds t3 (buf_str t2 @ TEMPFILE_NAME)" by (rule buffer_append_string_len_ok)
  have "22 \<le> length (buf_str t2 @ TEMPFILE_NAME)" using n by simp
  then show ?thesis using t1(1) t2(1) t3 by blast
qed

lemma tempdir_loop_opened:
  assumes "tempdir_loop os ds idx t = Some (os', idx', r)" and "buf_shape t"
    and "\<forall>d \<in> set ds. buf_ok d \<and> length (buf_str d) + 64 < SIZE_T"
  shows "opened os os' r"
  using assms
proof (induction os ds idx t rule: tempdir_loop.induct)
  case (1 os idx t)
  then show ?case by (simp add: opened_def)
next
  case (2 os d ds idx t)
  have d: "buf_ok d" "length (buf_str d) + 64 < SIZE_T" using "2.prems"(3) by auto
  from tempdir_template [OF "2.prems"(2) d] obtain t1 t2 t3 s where
    t1: "buffer_copy_buffer t (Some d) = Some t1" and t2: "buffer_append_slash t1 = Some t2"
    and t3: "buffer_append_string_len t2 TEMPFILE_NAME = Some t3" "buf_holds t3 s" "22 \<le> length s" by blast
  obtain os1 r1 where m: "mkstemp os t3 = Some (os1, r1)"
    using "2.prems"(1) t1 t2 t3(1) by (cases "mkstemp os t3") auto
  have op: "opened os os1 r1" using mkstemp_opened [OF t3(2) _ m] t3(3) by simp
  show ?case
  proof (cases r1)
    case None
    have "tempdir_loop os1 ds (idx + 1) t3 = Some (os', idx', r)"
      using "2.prems"(1) t1 t2 t3(1) m None by simp
    from "2.IH" [OF t1 t2 t3(1) m refl None this buf_holdsD(1) [OF t3(2)]] "2.prems"(3)
    have "opened os1 os' r" by simp
    then show ?thesis using op None by (cases r) (auto simp: opened_def)
  next
    case (Some x)
    then have "os' = os1" "r = Some x" using "2.prems"(1) t1 t2 t3(1) m by simp_all
    then show ?thesis using op Some by simp
  qed
qed

lemma default_template:
  "\<exists>t. buffer_init_string (''/var/tmp/'' @ TEMPFILE_NAME) = Some t \<and> buf_holds t (''/var/tmp/'' @ TEMPFILE_NAME)"
proof -
  have n: "NUL \<notin> set (''/var/tmp/'' @ TEMPFILE_NAME)" "length (''/var/tmp/'' @ TEMPFILE_NAME) = 31"
    by (simp_all add: TEMPFILE_NAME_def NUL_def)
  have "length (''/var/tmp/'' @ TEMPFILE_NAME) + 1 < SIZE_T" using n(2) by (simp add: SIZE_T_def)
  with buffer_init_ok(1) [THEN buf_ok_shape] obtain t where
    t: "buffer_copy_string_len buffer_init (''/var/tmp/'' @ TEMPFILE_NAME) = Some t"
      "buf_holds t (''/var/tmp/'' @ TEMPFILE_NAME)"
    by (rule buffer_copy_string_len_ok)
  have i: "buffer_init_string (''/var/tmp/'' @ TEMPFILE_NAME) = Some t"
    using t(1) unfolding buffer_init_string_def buffer_copy_string_def cstr_no_NUL [OF n(1)] .
  with t(2) show ?thesis by blast
qed

lemma open_tempfile_opened:
  assumes "open_tempfile os cq = Some (os', cq', r)" and "dirs_ok cq"
  shows "opened os os' r" and "cq' = cq\<lparr>cq_tempdir_idx := cq_tempdir_idx cq'\<rparr>"
proof -
  obtain t where i: "buffer_init_string (''/var/tmp/'' @ TEMPFILE_NAME) = Some t"
    and t: "buf_holds t (''/var/tmp/'' @ TEMPFILE_NAME)"
    using default_template by blast
  have "opened os os' r \<and> cq' = cq\<lparr>cq_tempdir_idx := cq_tempdir_idx cq'\<rparr>"
  proof (cases "\<exists>d ds. cq_tempdirs cq = Some (d # ds)")
    case True
    then obtain d ds where ds: "cq_tempdirs cq = Some (d # ds)" by blast
    then obtain idx where l: "tempdir_loop os (drop (cq_tempdir_idx cq) (d # ds)) (cq_tempdir_idx cq) t = Some (os', idx, r)"
      "cq' = cq\<lparr>cq_tempdir_idx := idx\<rparr>"
      using assms(1) i by (auto simp: open_tempfile_def bind_eq_Some_conv)
    have "\<forall>d \<in> set (drop (cq_tempdir_idx cq) (d # ds)). buf_ok d \<and> length (buf_str d) + 64 < SIZE_T"
      using assms(2) ds unfolding dirs_ok_def by (meson in_set_dropD)
    with tempdir_loop_opened [OF l(1) buf_holdsD(1) [OF t]] l(2) show ?thesis by simp
  next
    case False
    then have "Option.bind (mkstemp os t) (\<lambda>(os, r). Some (os, cq, r)) = Some (os', cq', r)"
      using assms(1) i by (auto simp: open_tempfile_def split: option.splits list.splits)
    then have m: "mkstemp os t = Some (os', r)" "cq' = cq" by (auto simp: bind_eq_Some_conv)
    have "6 \<le> length (''/var/tmp/'' @ TEMPFILE_NAME)" by (simp add: TEMPFILE_NAME_def)
    from mkstemp_opened [OF t this m(1)] m(2) show ?thesis by simp
  qed
  then show "opened os os' r" and "cq' = cq\<lparr>cq_tempdir_idx := cq_tempdir_idx cq'\<rparr>" by blast+
qed


text \<open>A queue with its files, as the loop keeps it.\<close>

definition tq_ok :: "os \<Rightarrow> chunkqueue \<Rightarrow> bool" where
  "tq_ok os cq \<longleftrightarrow> cq_ok cq \<and> disk_ok (os_disk os) cq \<and> dirs_ok cq"

definition tq_content :: "os \<Rightarrow> chunkqueue \<Rightarrow> char option list" where
  "tq_content os cq = cq_content (os_disk os) cq"

lemma temp_names_simps [simp]:
  "temp_names [] = []" "temp_names (c # cs) = (if ck_is_temp c then [buf_str (ck_name c)] else []) @ temp_names cs"
  "temp_names (cs @ ds) = temp_names cs @ temp_names ds"
  by (simp_all add: temp_names_def)

text \<open>Changing nothing but the cache, the counters and the index.\<close>

lemma tq_ok_cong:
  assumes "tq_ok os cq" and "cq_ok cq'" and "cq_chunks cq' = cq_chunks cq" and "cq_tempdirs cq' = cq_tempdirs cq"
    and "os_disk os' = os_disk os"
  shows "tq_ok os' cq' \<and> tq_content os' cq' = tq_content os cq"
  using assms by (simp add: tq_ok_def tq_content_def disk_ok_def dirs_ok_def cq_content_def cq_stream_def)

lemma get_append_tempfile_ok:
  assumes tq: "tq_ok os cq" and r: "chunkqueue_get_append_tempfile os cq = Some (os', cq', found)"
  shows "tq_ok os' cq'" and "tq_content os' cq' = tq_content os cq"
    and "found \<Longrightarrow> cq_chunks cq' \<noteq> [] \<and> appendable (last (cq_chunks cq'))"
proof -
  have ok: "cq_ok cq" and dirs: "dirs_ok cq" and disk: "disk_ok (os_disk os) cq" using tq by (simp_all add: tq_ok_def)
  obtain os1 cq1 x where o: "open_tempfile os cq = Some (os1, cq1, x)"
    using r by (auto simp: chunkqueue_get_append_tempfile_def bind_eq_Some_conv)
  note op = open_tempfile_opened [OF o dirs]
  have ok1: "cq_ok cq1" "cq_chunks cq1 = cq_chunks cq" "cq_tempdirs cq1 = cq_tempdirs cq" "cq_stream cq1 = cq_stream cq"
    using ok op(2) by (cases cq1; cases cq; simp add: cq_ok_def spares_ok_def cq_stream_def)+
  have "tq_ok os' cq' \<and> tq_content os' cq' = tq_content os cq \<and>
    (found \<longrightarrow> cq_chunks cq' \<noteq> [] \<and> appendable (last (cq_chunks cq')))"
  proof (cases x)
    case None
    then have "os' = os1" "cq' = cq1" "\<not> found" using r o by (auto simp: chunkqueue_get_append_tempfile_def)
    then show ?thesis using tq_ok_cong [OF tq ok1(1-3), of os1] op(1) None by (simp add: opened_def)
  next
    case (Some y)
    obtain t fd where y: "y = (t, fd)" by (cases y)
    obtain n where n: "buf_holds t n" "os_disk os n = None" "os_disk os1 = (os_disk os)(n \<mapsto> [])" "0 \<le> fd"
      using op(1) Some y by (auto simp: opened_def)
    obtain cq2 c where u: "chunkqueue_get_unused_chunk cq1 = (cq2, c)" by (meson surj_pair)
    have un: "spares_ok cq2" "same_but_spares cq1 cq2" "spare_ok c"
      using get_unused_ok [OF _ u] ok1(1) by (auto simp: cq_ok_def)
    note same = same_but_sparesD [OF un(2)]
    have ok2: "cq_ok cq2" using cq_ok_spares [OF ok1(1) un(2,1)] .
    have "buf_shape (ck_name c)" using un(3) by (simp add: spare_ok_def buf_ok_shape)
    with n(1) obtain nm where nm: "buffer_copy_buffer (ck_name c) (Some t) = Some nm" "buf_holds nm n"
      by (elim buffer_copy_buffer_ok)
    let ?d = "c\<lparr>ck_type := FILE_CHUNK, ck_fd := fd, ck_is_temp := True, ck_name := nm, ck_length := 0\<rparr>"
    have d: "chunk_ok ?d" "chunk_data ?d = []" "appendable ?d" "ck_start ?d = 0" "buf_str (ck_name ?d) = n"
      using un(3) buf_holdsD(3,4) [OF nm(2)] n(4)
      by (simp_all add: spare_ok_def chunk_ok_def chunk_len_def chunk_data_def appendable_def)
    obtain cq3 where a: "chunkqueue_append_chunk cq2 ?d = Some cq3" "cq_ok cq3" "cq_stream cq3 = cq_stream cq2 @ chunk_data ?d"
      "cq_chunks cq3 = cq_chunks cq2 @ [?d]" "cq_tempdirs cq3 = cq_tempdirs cq2"
      using append_chunk_ok [OF ok2 d(1)] by (auto simp: chunkqueue_append_chunk_def bind_eq_Some_conv)
    have res: "os' = os1" "cq' = cq3" "found"
      using r o Some y u nm(1) a(1) by (auto simp: chunkqueue_get_append_tempfile_def)
    have st: "cq_stream cq3 = cq_stream cq" and ch: "cq_chunks cq3 = cq_chunks cq @ [?d]"
      using a(3,4) d(2) same(1,4) ok1(2,4) by simp_all
    have fresh: "Disk n p \<notin> set (cq_stream cq)" for p
      using octet_name_exists [of "os_disk os" "cq_stream cq" n p] n(2) disk by (auto simp: disk_ok_def cq_content_def)
    have val: "map (octet_val (os_disk os1)) (cq_stream cq) = map (octet_val (os_disk os)) (cq_stream cq)"
    proof (rule octet_val_cong)
      show "None \<notin> set (map (octet_val (os_disk os)) (cq_stream cq))" using disk by (simp add: disk_ok_def cq_content_def)
      show "\<exists>u. os_disk os1 n' = Some (t @ u)" if "os_disk os n' = Some t" for n' t
        using that n(2,3) by (cases "n' = n") auto
    qed
    have names: "n \<notin> set (temp_names (cq_chunks cq))" using disk n(2) by (auto simp: disk_ok_def)
    have "disk_ok (os_disk os1) cq3"
      using disk d fresh val st ch names n(3) unfolding disk_ok_def cq_content_def
      by (auto simp del: ex_simps)
    moreover have "dirs_ok cq3" using dirs a(5) same(5) ok1(3) by (simp add: dirs_ok_def)
    ultimately show ?thesis
      using res a(2) val st ch d(3) by (simp add: tq_ok_def tq_content_def cq_content_def)
  qed
  then show "tq_ok os' cq'" and "tq_content os' cq' = tq_content os cq"
    and "found \<Longrightarrow> cq_chunks cq' \<noteq> [] \<and> appendable (last (cq_chunks cq'))" by blast+
qed


section \<open>Appending and closing\<close>

lemma update_last_snoc: "cq_chunks cq = cs @ [c] \<Longrightarrow> update_last cq f = cq\<lparr>cq_chunks := cs @ [f c]\<rparr>"
  by (simp add: update_last_def)

lemma close_last_ok:
  assumes "tq_ok os cq" and "cq_chunks cq \<noteq> []" and "os_disk os' = os_disk os"
  shows "tq_ok os' (update_last cq (\<lambda>c. c\<lparr>ck_fd := - 1\<rparr>)) \<and>
    tq_content os' (update_last cq (\<lambda>c. c\<lparr>ck_fd := - 1\<rparr>)) = tq_content os cq"
proof -
  obtain cs c where c: "cq_chunks cq = cs @ [c]" using assms(2) by (meson rev_exhaust)
  let ?d = "c\<lparr>ck_fd := - 1\<rparr>"
  have d: "chunk_ok ?d = chunk_ok c" "chunk_data ?d = chunk_data c" "ck_is_temp ?d = ck_is_temp c"
    "ck_name ?d = ck_name c" "\<not> appendable ?d"
    by (cases "ck_type c"; simp add: chunk_ok_def chunk_len_def chunk_data_def appendable_def)+
  show ?thesis
    using assms(1,3) d unfolding update_last_snoc [OF c]
    by (auto simp: tq_ok_def tq_content_def cq_ok_def spares_ok_def disk_ok_def dirs_ok_def cq_content_def cq_stream_def c)
qed

lemma tempfile_target_ok:
  assumes tq: "tq_ok os cq" and r: "tempfile_target os cq = Some (os', cq', found)"
  shows "tq_ok os' cq'" and "tq_content os' cq' = tq_content os cq"
    and "found \<Longrightarrow> cq_chunks cq' \<noteq> [] \<and> appendable (last (cq_chunks cq'))"
proof -
  have "tq_ok os' cq' \<and> tq_content os' cq' = tq_content os cq \<and>
    (found \<longrightarrow> cq_chunks cq' \<noteq> [] \<and> appendable (last (cq_chunks cq')))"
  proof (cases "cq_chunks cq \<noteq> [] \<and> appendable (last (cq_chunks cq))")
    case True
    show ?thesis
    proof (cases "ck_length (last (cq_chunks cq)) \<ge> int (cq_upload_temp_file_size cq)")
      case big: True
      obtain os1 rc where cl: "os_closed os = Some (os1, rc)"
        using r True big by (auto simp: tempfile_target_def bind_eq_Some_conv)
      have "os_disk os1 = os_disk os" using cl by (auto simp: os_closed_def split: list.splits)
      note c = close_last_ok [OF tq conjunct1 [OF True] this]
      show ?thesis
        using r True big cl c get_append_tempfile_ok [OF conjunct1 [OF c]]
        by (cases rc) (auto simp: tempfile_target_def)
    next
      case False
      then show ?thesis using r True tq by (auto simp: tempfile_target_def)
    qed
  next
    case False
    then have "chunkqueue_get_append_tempfile os cq = Some (os', cq', found)"
      using r by (auto simp: tempfile_target_def)
    from get_append_tempfile_ok [OF tq this] show ?thesis by blast
  qed
  then show "tq_ok os' cq'" and "tq_content os' cq' = tq_content os cq"
    and "found \<Longrightarrow> cq_chunks cq' \<noteq> [] \<and> appendable (last (cq_chunks cq'))" by blast+
qed

lemma map_upto_nth: "map (\<lambda>p. s ! nat (p - k)) [k..k + int (length s) - 1] = s"
  by (rule nth_equalityI) simp_all

lemma tempfile_grow_ok:
  assumes tq: "tq_ok os cq" and l: "cq_chunks cq \<noteq> []" "appendable (last (cq_chunks cq))"
    and r: "tempfile_grow os cq s = (os', cq')"
  shows "tq_ok os' cq'" and "tq_content os' cq' = tq_content os cq @ map Some s"
proof -
  obtain cs c where c: "cq_chunks cq = cs @ [c]" using l(1) by (meson rev_exhaust)
  have ap: "appendable c" "ck_type c = FILE_CHUNK" "ck_offset c = 0" "ck_is_temp c"
    using l(2) c by (simp_all add: appendable_def)
  have ok: "cq_ok cq" and disk: "disk_ok (os_disk os) cq" and dirs: "dirs_ok cq" using tq by (simp_all add: tq_ok_def)
  let ?n = "buf_str (ck_name c)" and ?L = "ck_length c"
  obtain t where t: "os_disk os ?n = Some t" "int (length t) = ?L" "ck_start c = 0"
    using disk c ap(1) by (auto simp: disk_ok_def)
  let ?d = "c\<lparr>ck_length := ?L + int (length s)\<rparr>"
  let ?new = "map (Disk ?n) [?L..?L + int (length s) - 1]"
  have q': "cq' = cq\<lparr>cq_chunks := cs @ [?d], cq_bytes_in := cq_bytes_in cq + int (length s)\<rparr>"
    and os': "os_disk os' = (os_disk os)(?n \<mapsto> t @ s)"
    using r update_last_snoc [OF c] t(1) by (auto simp: tempfile_grow_def os_append_def c)
  have L: "0 \<le> ?L" using t(2) by simp
  have "[0..?L + int (length s) - 1] = [0..?L - 1] @ [?L..?L + int (length s) - 1]"
    using upto_split1 [of 0 ?L "?L + int (length s) - 1"] L by (cases "s = []") auto
  then have dd: "chunk_data ?d = chunk_data c @ ?new" using ap t(3) by (simp add: chunk_data_def)
  have dok: "chunk_ok ?d" using ok c ap by (auto simp: cq_ok_def chunk_ok_def chunk_len_def)
  have st: "cq_stream cq' = cq_stream cq @ ?new" using q' c dd by (simp add: cq_stream_def)
  have cok: "cq_ok cq'" using ok c dok st q' by (simp add: cq_ok_def spares_ok_def)
  have old: "map (octet_val (os_disk os')) (cq_stream cq) = map (octet_val (os_disk os)) (cq_stream cq)"
  proof (rule octet_val_cong)
    show "None \<notin> set (map (octet_val (os_disk os)) (cq_stream cq))" using disk by (simp add: disk_ok_def cq_content_def)
    show "\<exists>u. os_disk os' n' = Some (t' @ u)" if "os_disk os n' = Some t'" for n' t'
      using that t(1) os' by (cases "n' = ?n") auto
  qed
  have "octet_val (os_disk os') (Disk ?n p) = Some (s ! nat (p - ?L))" if "p \<in> set [?L..?L + int (length s) - 1]" for p
  proof -
    have "nat ?L = length t" using t(2) by simp
    then show ?thesis using that os' L by (auto simp: octet_val_def nth_append nat_diff_distrib)
  qed
  then have "map (octet_val (os_disk os')) ?new = map (\<lambda>p. Some (s ! nat (p - ?L))) [?L..?L + int (length s) - 1]"
    by (simp only: map_map comp_def cong: map_cong)
  also have "\<dots> = map Some (map (\<lambda>p. s ! nat (p - ?L)) [?L..?L + int (length s) - 1])" by simp
  finally have new: "map (octet_val (os_disk os')) ?new = map Some s" by (simp only: map_upto_nth)
  have content: "cq_content (os_disk os') cq' = cq_content (os_disk os) cq @ map Some s"
    unfolding cq_content_def st map_append old new by simp
  show "tq_content os' cq' = tq_content os cq @ map Some s" using content by (simp add: tq_content_def)
  have tn: "temp_names (cq_chunks cq') = temp_names (cq_chunks cq)" using q' c by simp
  have "disk_ok (os_disk os') cq'"
    unfolding disk_ok_def
  proof (intro conjI)
    show "None \<notin> set (cq_content (os_disk os') cq')" using content disk by (auto simp: disk_ok_def)
    show "cq_chunks cq' \<noteq> [] \<and> appendable (last (cq_chunks cq')) \<longrightarrow> ck_start (last (cq_chunks cq')) = 0 \<and>
      (\<exists>s. os_disk os' (buf_str (ck_name (last (cq_chunks cq')))) = Some s \<and>
        int (length s) = ck_length (last (cq_chunks cq')))"
      using q' os' t by auto
    show "distinct (temp_names (cq_chunks cq'))" using disk tn by (simp add: disk_ok_def)
    show "\<forall>n \<in> set (temp_names (cq_chunks cq')). os_disk os' n \<noteq> None"
      using disk tn os' by (auto simp: disk_ok_def)
    show "\<forall>e \<in> set (cq_chunks cq'). ck_is_temp e \<and> chunk_data e = [] \<longrightarrow>
        (\<forall>p. Disk (buf_str (ck_name e)) p \<notin> set (cq_stream cq'))"
    proof (intro ballI impI allI)
      fix e p assume e: "e \<in> set (cq_chunks cq')" "ck_is_temp e \<and> chunk_data e = []"
      show "Disk (buf_str (ck_name e)) p \<notin> set (cq_stream cq')"
      proof (cases "e = ?d")
        case True
        then have "chunk_data c = []" "?new = []" using e(2) dd by auto
        then show ?thesis using disk c ap(4) True st by (auto simp: disk_ok_def)
      next
        case False
        then have "e \<in> set cs" using e(1) q' by auto
        moreover from this e(2) have "buf_str (ck_name e) \<in> set (temp_names cs)" by (auto simp: temp_names_def)
        moreover have "?n \<notin> set (temp_names cs)" using disk c ap(4) by (simp add: disk_ok_def)
        ultimately show ?thesis using disk c e(2) st by (auto simp: disk_ok_def)
      qed
    qed
  qed
  then show "tq_ok os' cq'" using cok dirs q' by (simp add: tq_ok_def dirs_ok_def)
qed

lemma os_events_disk:
  assumes "n \<notin> set (temp_names rs)"
  shows "os_disk (os_events os (concat (map chunk_release rs))) n = os_disk os n"
  using assms
proof (induction rs arbitrary: os)
  case (Cons r rs)
  have app: "os_events os (a @ b) = os_events (os_events os a) b" for os a b
    by (induction os a rule: os_events.induct) auto
  have "os_disk (os_events os (chunk_release r)) n = os_disk os n"
    using Cons.prems by (auto simp: chunk_release_def split: option.split)
  then show ?case using Cons by (simp add: app)
qed simp

lemma thinned_tq_ok:
  assumes tq: "tq_ok os cq" and th: "thinned (cq_chunks cq) rs (cq_chunks cq')" and ok: "cq_ok cq'"
    and st: "cq_stream cq' = cq_stream cq" and dirs: "cq_tempdirs cq' = cq_tempdirs cq"
    and os': "os' = os_events os (concat (map chunk_release rs))"
  shows "tq_ok os' cq' \<and> tq_content os' cq' = tq_content os cq"
proof -
  have disk: "disk_ok (os_disk os) cq" using tq by (simp add: tq_ok_def)
  have ms: "mset (temp_names (cq_chunks cq)) = mset (temp_names (cq_chunks cq')) + mset (temp_names rs)"
    using th by (simp add: thinned_def temp_names_def)
  have "distinct (temp_names (cq_chunks cq) )" using disk by (simp add: disk_ok_def)
  then have dist: "distinct (temp_names (cq_chunks cq') @ temp_names rs)"
    using ms mset_eq_imp_distinct_iff [of "temp_names (cq_chunks cq)" "temp_names (cq_chunks cq') @ temp_names rs"] by simp
  have sub: "set (cq_chunks cq) = set (cq_chunks cq') \<union> set rs"
    using th unfolding thinned_def by (metis mset_append set_append set_mset_mset)
  have keep: "os_disk os' n = os_disk os n" if "n \<notin> set (temp_names rs)" for n
    using os_events_disk [OF that] os' by simp
  have used: "Disk n p \<notin> set (cq_stream cq)" if "n \<in> set (temp_names rs)" for n p
    using that disk th sub by (fastforce simp: disk_ok_def temp_names_def thinned_def)
  have val: "map (octet_val (os_disk os')) (cq_stream cq) = map (octet_val (os_disk os)) (cq_stream cq)"
  proof (rule octet_val_cong)
    show "None \<notin> set (map (octet_val (os_disk os)) (cq_stream cq))" using disk by (simp add: disk_ok_def cq_content_def)
    show "\<exists>u. os_disk os' n = Some (t @ u)" if "Disk n p \<in> set (cq_stream cq)" "os_disk os n = Some t" for n p t
      using that keep used by (metis append_Nil2)
  qed
  have content: "cq_content (os_disk os') cq' = cq_content (os_disk os) cq" using val st by (simp add: cq_content_def)
  have last: "os_disk os' (buf_str (ck_name c)) = os_disk os (buf_str (ck_name c))"
    if "c \<in> set (cq_chunks cq')" "ck_is_temp c" for c
    using that dist keep by (auto simp: temp_names_def)
  have "disk_ok (os_disk os') cq'"
    unfolding disk_ok_def
  proof (intro conjI)
    show "None \<notin> set (cq_content (os_disk os') cq')" using content disk by (auto simp: disk_ok_def)
    show "cq_chunks cq' \<noteq> [] \<and> appendable (last (cq_chunks cq')) \<longrightarrow> ck_start (last (cq_chunks cq')) = 0 \<and>
      (\<exists>s. os_disk os' (buf_str (ck_name (last (cq_chunks cq')))) = Some s \<and>
        int (length s) = ck_length (last (cq_chunks cq')))"
    proof
      assume l: "cq_chunks cq' \<noteq> [] \<and> appendable (last (cq_chunks cq'))"
      then have "last (cq_chunks cq') = last (cq_chunks cq)" "cq_chunks cq \<noteq> []"
        using th sub by (auto simp: thinned_def)
      moreover have "os_disk os' (buf_str (ck_name (last (cq_chunks cq')))) = os_disk os (buf_str (ck_name (last (cq_chunks cq'))))"
        using l last [of "last (cq_chunks cq')"] by (simp add: appendable_def)
      ultimately show "ck_start (last (cq_chunks cq')) = 0 \<and>
        (\<exists>s. os_disk os' (buf_str (ck_name (last (cq_chunks cq')))) = Some s \<and>
          int (length s) = ck_length (last (cq_chunks cq')))"
        using l disk by (auto simp: disk_ok_def)
    qed
    show "distinct (temp_names (cq_chunks cq'))" using dist by simp
    show "\<forall>n \<in> set (temp_names (cq_chunks cq')). os_disk os' n \<noteq> None"
      using dist keep disk sub by (fastforce simp: disk_ok_def temp_names_def)
    show "\<forall>e \<in> set (cq_chunks cq'). ck_is_temp e \<and> chunk_data e = [] \<longrightarrow>
        (\<forall>p. Disk (buf_str (ck_name e)) p \<notin> set (cq_stream cq'))"
      using disk sub st by (auto simp: disk_ok_def)
  qed
  moreover have "dirs_ok cq'" using tq dirs by (simp add: tq_ok_def dirs_ok_def)
  ultimately show ?thesis using ok content by (simp add: tq_ok_def tq_content_def)
qed


lemma tempfile_failed_ok:
  assumes tq: "tq_ok os cq" and ne: "cq_chunks cq \<noteq> []" and r: "tempfile_failed os cq enospc = Some (os', cq', retry)"
  shows "tq_ok os' cq' \<and> tq_content os' cq' = tq_content os cq"
proof -
  obtain cq1 rt where q: "(case cq_tempdirs cq of
          Some ds \<Rightarrow>
            if enospc then (cq\<lparr>cq_tempdir_idx := cq_tempdir_idx cq + 1\<rparr>, cq_tempdir_idx cq + 1 < length ds)
            else (cq, False)
        | None \<Rightarrow> (cq, False)) = (cq1, rt)" by (meson surj_pair)
  then have "cq1 = cq\<lparr>cq_tempdir_idx := cq_tempdir_idx cq1\<rparr>" by (auto split: option.splits if_splits)
  then have same: "cq_chunks cq1 = cq_chunks cq" "cq_tempdirs cq1 = cq_tempdirs cq" "cq_ok cq1 = cq_ok cq"
    by (cases cq; cases cq1; simp add: cq_ok_def spares_ok_def cq_stream_def)+
  have tq1: "tq_ok os cq1" "tq_content os cq1 = tq_content os cq"
    using tq_ok_cong [OF tq _ same(1,2) refl] same(3) tq by (simp_all add: tq_ok_def)
  obtain len where len: "chunk_remaining_length (last (cq_chunks cq1)) = Some len"
    using r q by (auto simp: tempfile_failed_def bind_eq_Some_conv Let_def split: prod.splits)
  show ?thesis
  proof (cases "len = 0")
    case True
    then obtain cq2 io where e: "chunkqueue_remove_empty_chunks cq1 = Some (cq2, io)" "os' = os_events os io" "cq' = cq2"
      using r q len by (auto simp: tempfile_failed_def bind_eq_Some_conv Let_def split: prod.splits)
    have ok1: "cq_ok cq1" using tq1 by (simp add: tq_ok_def)
    obtain rs where rs: "thinned (cq_chunks cq1) rs (cq_chunks cq2)" "io = concat (map chunk_release rs)"
      "cq_ok cq2" "cq_stream cq2 = cq_stream cq1" "cq_tempdirs cq2 = cq_tempdirs cq1"
      using remove_empty_chunks_thins [OF ok1 e(1)] by blast
    show ?thesis using thinned_tq_ok [OF tq1(1) rs(1,3,4,5)] e rs(2) tq1(2) by simp
  next
    case False
    then obtain os1 rc where cl: "os_closed os = Some (os1, rc)" "os' = os1"
      "cq' = update_last cq1 (\<lambda>c. c\<lparr>ck_fd := - 1\<rparr>)"
      using r q len by (auto simp: tempfile_failed_def bind_eq_Some_conv Let_def split: prod.splits)
    have "os_disk os1 = os_disk os" using cl(1) by (auto simp: os_closed_def split: list.splits)
    from close_last_ok [OF tq1(1) _ this] ne same(1) show ?thesis using cl tq1(2) by simp
  qed
qed

text \<open>
  However the system calls turn out, what was in the queue stays and a prefix of the new data is
  appended; all of it when 0 is returned.
\<close>

lemma append_to_tempfile_ok:
  assumes "tq_ok os cq" and "append_to_tempfile ws os cq s = Some (os', cq', ok)"
  shows "tq_ok os' cq' \<and> (\<exists>k. tq_content os' cq' = tq_content os cq @ map Some (take k s) \<and> (ok \<longrightarrow> length s \<le> k))"
  using assms
proof (induction ws arbitrary: os cq s)
  case Nil
  then obtain os1 where t: "tempfile_target os cq = Some (os1, cq', False)" "os' = os1\<lparr>os_write := []\<rparr>" "\<not> ok"
    by (auto simp: bind_eq_Some_conv split: if_splits)
  have "os_disk os' = os_disk os1" using t(2) by simp
  then have "tq_ok os' cq' \<and> tq_content os' cq' = tq_content os1 cq'"
    using tempfile_target_ok(1) [OF Nil(1) t(1)] tq_ok_cong [of os1 cq' cq' os'] by (simp add: tq_ok_def)
  then show ?case using tempfile_target_ok [OF Nil(1) t(1)] t(3) by (intro conjI exI [of _ 0]) auto
next
  case (Cons w ws)
  obtain os1 cq1 found where t: "tempfile_target os cq = Some (os1, cq1, found)"
    using Cons.prems(2) by (auto simp: bind_eq_Some_conv)
  note tg = tempfile_target_ok [OF Cons.prems(1) t]
  have disk_only: "tq_ok (o1\<lparr>os_write := x\<rparr>) q = tq_ok o1 q" "tq_content (o1\<lparr>os_write := x\<rparr>) q = tq_content o1 q" for o1 x q
    by (simp_all add: tq_ok_def tq_content_def)
  show ?case
  proof (cases found)
    case False
    then have "os' = os1\<lparr>os_write := w # ws\<rparr>" "cq' = cq1" "\<not> ok" using Cons.prems(2) t by simp_all
    then show ?thesis using tg disk_only by (intro conjI exI [of _ 0]) simp_all
  next
    case True
    note l = tg(3) [OF True]
    have failed: ?thesis
      if w: "w = Write_ENOSPC \<or> w = Write_error"
    proof -
      obtain os2 cq2 retry where f: "tempfile_failed os1 cq1 (w = Write_ENOSPC) = Some (os2, cq2, retry)"
        using Cons.prems(2) t True w by (auto simp: bind_eq_Some_conv)
      note fo = tempfile_failed_ok [OF tg(1) _ f]
      show ?thesis
      proof (cases retry)
        case True
        then have "append_to_tempfile ws os2 cq2 s = Some (os', cq', ok)"
          using Cons.prems(2) t \<open>found\<close> w f by auto
        from Cons.IH [OF _ this] fo l tg(2) show ?thesis by auto
      next
        case False
        then have "os' = os2\<lparr>os_write := ws\<rparr>" "cq' = cq2" "\<not> ok" using Cons.prems(2) t \<open>found\<close> w f by auto
        then show ?thesis using fo l tg(2) disk_only by (intro conjI exI [of _ 0]) simp_all
      qed
    qed
    show ?thesis
    proof (cases w)
      case (Wrote n)
      obtain os2 cq2 where g: "tempfile_grow os1 cq1 (take n s) = (os2, cq2)" by (meson surj_pair)
      have n: "n \<le> length s" using Cons.prems(2) t True Wrote by (auto simp: force_assert_def bind_eq_Some_conv split: if_splits)
      note go = tempfile_grow_ok [OF tg(1) conjunct1 [OF l] conjunct2 [OF l] g]
      show ?thesis
      proof (cases "n = length s")
        case True
        then have "os' = os2\<lparr>os_write := ws\<rparr>" "cq' = cq2" "ok" using Cons.prems(2) t \<open>found\<close> Wrote g by (simp_all add: force_assert_def)
        then show ?thesis using go tg(2) disk_only True by (intro conjI exI [of _ n]) simp_all
      next
        case False
        then have r: "append_to_tempfile ws os2 cq2 (drop n s) = Some (os', cq', ok)"
          using Cons.prems(2) t \<open>found\<close> Wrote g n by (simp add: force_assert_def)
        from Cons.IH [OF go(1) r] obtain k where k: "tq_ok os' cq'"
          "tq_content os' cq' = tq_content os2 cq2 @ map Some (take k (drop n s))" "ok \<longrightarrow> length (drop n s) \<le> k" by blast
        have "take n s @ take k (drop n s) = take (n + k) s" by (simp add: take_add)
        then have "tq_content os' cq' = tq_content os cq @ map Some (take (n + k) s)"
          using k(2) go(2) tg(2) by (metis append.assoc map_append)
        moreover have "ok \<longrightarrow> length s \<le> n + k" using k(3) by auto
        ultimately show ?thesis using k(1) by blast
      qed
    next
      case Write_EINTR
      then have "append_to_tempfile ws os1 cq1 s = Some (os', cq', ok)" using Cons.prems(2) t True by simp
      from Cons.IH [OF tg(1) this] tg(2) show ?thesis by simp
    qed (use failed in auto)
  qed
qed

end
