(* ===== verification/Chunk_Supply.thy ===== *)
theory Chunk_Supply
  imports Chunk_Temp
begin

text \<open>
  When writing to temporary files returns: the system calls answer, and no write fails. (After a failed
  write the code may take out empty chunks, which can crash; \<open>Chunk_Run\<close> has the case.)
\<close>

section \<open>Enough answers\<close>

text \<open>At least \<open>m\<close> answers of \<open>mkstemp\<close>, all of them possible ones, and \<open>c\<close> of \<open>close\<close>.\<close>

definition os_supply :: "os \<Rightarrow> nat \<Rightarrow> nat \<Rightarrow> bool" where
  "os_supply os m c \<longleftrightarrow> m \<le> length (os_mkstemp os) \<and> c \<le> length (os_close os) \<and>
     (\<forall>sfx fd. Some (sfx, fd) \<in> set (os_mkstemp os) \<longrightarrow> length sfx = 6 \<and> NUL \<notin> set sfx)"

definition dir_count :: "chunkqueue \<Rightarrow> nat" where
  "dir_count cq = max 1 (case cq_tempdirs cq of None \<Rightarrow> 0 | Some ds \<Rightarrow> length ds)"

fun bytes_written :: "write_result list \<Rightarrow> nat" where
  "bytes_written [] = 0"
| "bytes_written (Wrote n # ws) = n + bytes_written ws"
| "bytes_written (_ # ws) = bytes_written ws"

text \<open>The writes store the data piece by piece, with interruptions, without an error.\<close>

definition writes_fit :: "write_result list \<Rightarrow> string \<Rightarrow> bool" where
  "writes_fit ws s \<longleftrightarrow> s \<noteq> [] \<and> Write_ENOSPC \<notin> set ws \<and> Write_error \<notin> set ws \<and> bytes_written ws = length s"

lemma os_supply_less: "os_supply os m c \<Longrightarrow> m' \<le> m \<Longrightarrow> c' \<le> c \<Longrightarrow> os_supply os m' c'"
  by (auto simp: os_supply_def)

section \<open>Opening\<close>

lemma mkstemp_total:
  assumes h: "buf_holds t s" and len: "6 \<le> length s" and sup: "os_supply os (Suc m) c"
  shows "\<exists>os' r. mkstemp os t = Some (os', r) \<and> os_supply os' m c"
proof -
  obtain x rs where x: "os_mkstemp os = x # rs" using sup by (cases "os_mkstemp os") (auto simp: os_supply_def)
  show ?thesis
  proof (cases x)
    case None
    then show ?thesis using sup x by (auto simp: mkstemp_def os_supply_def)
  next
    case (Some y)
    obtain sfx fd where y: "y = (sfx, fd)" by (cases y)
    have sfx: "length sfx = 6" "NUL \<notin> set sfx" using sup x Some y by (auto simp: os_supply_def)
    have "length s + 1 \<le> length (b_ptr t)"
      using h by (metis buf_holds_def length_append_singleton length_map length_take min.absorb_iff2 min.commute Suc_eq_plus1)
    then have "\<exists>m. mem_copy (b_ptr t) (buffer_string_length t - 6) sfx = Some m"
      using sfx(1) len buf_holdsD(6) [OF h] by (simp add: mem_copy_def)
    then show ?thesis
      using sup x Some y sfx by (auto simp: mkstemp_def os_supply_def force_assert_def Let_def)
  qed
qed

lemma tempdir_loop_total:
  assumes "buf_shape t" and "\<forall>d \<in> set ds. buf_ok d \<and> length (buf_str d) + 64 < SIZE_T" and "os_supply os (length ds + m) c"
  shows "\<exists>os' idx' r. tempdir_loop os ds idx t = Some (os', idx', r) \<and> os_supply os' m c"
  using assms
proof (induction ds arbitrary: os idx t)
  case (Cons d ds)
  have d: "buf_ok d" "length (buf_str d) + 64 < SIZE_T" using Cons.prems(2) by auto
  from tempdir_template [OF Cons.prems(1) d] obtain t1 t2 t3 s where
    t: "buffer_copy_buffer t (Some d) = Some t1" "buffer_append_slash t1 = Some t2"
      "buffer_append_string_len t2 TEMPFILE_NAME = Some t3" "buf_holds t3 s" "22 \<le> length s" by blast
  have "os_supply os (Suc (length ds + m)) c" "6 \<le> length s" using Cons.prems(3) t(5) by simp_all
  from mkstemp_total [OF t(4) this(2,1)] obtain os1 r where
    m: "mkstemp os t3 = Some (os1, r)" "os_supply os1 (length ds + m) c" by blast
  show ?case
  proof (cases r)
    case None
    have "\<forall>d \<in> set ds. buf_ok d \<and> length (buf_str d) + 64 < SIZE_T" using Cons.prems(2) by simp
    from Cons.IH [OF buf_holdsD(1) [OF t(4)] this m(2)] show ?thesis using t m(1) None by simp
  next
    case (Some x)
    then show ?thesis using t m os_supply_less [OF m(2), of m c] by simp
  qed
qed (simp add: os_supply_def)

lemma open_tempfile_total:
  assumes dirs: "dirs_ok cq" and sup: "os_supply os (dir_count cq + m) c"
  shows "\<exists>os' cq' r. open_tempfile os cq = Some (os', cq', r) \<and> os_supply os' m c"
proof -
  obtain t where t: "buffer_init_string (''/var/tmp/'' @ TEMPFILE_NAME) = Some t" "buf_holds t (''/var/tmp/'' @ TEMPFILE_NAME)"
    using default_template by blast
  show ?thesis
  proof (cases "\<exists>d ds. cq_tempdirs cq = Some (d # ds)")
    case True
    then obtain d ds where ds: "cq_tempdirs cq = Some (d # ds)" by blast
    let ?ds = "drop (cq_tempdir_idx cq) (d # ds)"
    have ok: "\<forall>d \<in> set ?ds. buf_ok d \<and> length (buf_str d) + 64 < SIZE_T"
      using dirs ds unfolding dirs_ok_def by (meson in_set_dropD)
    have "os_supply os (length ?ds + m) c" by (rule os_supply_less [OF sup]) (simp_all add: dir_count_def ds)
    from tempdir_loop_total [OF buf_holdsD(1) [OF t(2)] ok this, of "cq_tempdir_idx cq"] obtain os' idx r where
      "tempdir_loop os ?ds (cq_tempdir_idx cq) t = Some (os', idx, r)" "os_supply os' m c" by blast
    then show ?thesis using t(1) ds by (simp add: open_tempfile_def)
  next
    case False
    have n: "6 \<le> length (''/var/tmp/'' @ TEMPFILE_NAME)" by (simp add: TEMPFILE_NAME_def)
    have "os_supply os (Suc m) c" by (rule os_supply_less [OF sup]) (simp_all add: dir_count_def)
    from mkstemp_total [OF t(2) n this] obtain os' r where "mkstemp os t = Some (os', r)" "os_supply os' m c" by blast
    then show ?thesis using t(1) False by (auto simp: open_tempfile_def split: option.split list.split)
  qed
qed

lemma get_append_tempfile_total:
  assumes tq: "tq_ok os cq" and sup: "os_supply os (dir_count cq + m) c"
  shows "\<exists>os' cq' found. chunkqueue_get_append_tempfile os cq = Some (os', cq', found) \<and> os_supply os' m c \<and>
    cq_tempdirs cq' = cq_tempdirs cq"
proof -
  have ok: "cq_ok cq" and dirs: "dirs_ok cq" using tq by (simp_all add: tq_ok_def)
  obtain os1 cq1 x where o: "open_tempfile os cq = Some (os1, cq1, x)" "os_supply os1 m c"
    using open_tempfile_total [OF dirs sup] by blast
  note op = open_tempfile_opened [OF o(1) dirs]
  have ok1: "cq_ok cq1" "cq_tempdirs cq1 = cq_tempdirs cq"
    using ok op(2) by (cases cq1; cases cq; simp add: cq_ok_def spares_ok_def cq_stream_def)+
  show ?thesis
  proof (cases x)
    case None
    then show ?thesis using o ok1 by (auto simp: chunkqueue_get_append_tempfile_def)
  next
    case (Some y)
    obtain t fd where y: "y = (t, fd)" by (cases y)
    obtain n where n: "buf_holds t n" using op(1) Some y by (auto simp: opened_def)
    obtain cq2 c' where u: "chunkqueue_get_unused_chunk cq1 = (cq2, c')" by (meson surj_pair)
    have un: "spares_ok cq2" "same_but_spares cq1 cq2" "spare_ok c'"
      using get_unused_ok [OF _ u] ok1(1) by (auto simp: cq_ok_def)
    have ok2: "cq_ok cq2" using cq_ok_spares [OF ok1(1) un(2,1)] .
    have "buf_shape (ck_name c')" using un(3) by (simp add: spare_ok_def buf_ok_shape)
    with n obtain nm where nm: "buffer_copy_buffer (ck_name c') (Some t) = Some nm" "buf_holds nm n"
      by (elim buffer_copy_buffer_ok)
    let ?d = "c'\<lparr>ck_type := FILE_CHUNK, ck_fd := fd, ck_is_temp := True, ck_name := nm, ck_length := 0\<rparr>"
    have d: "chunk_ok ?d"
      using un(3) buf_holdsD(4) [OF nm(2)] by (simp add: spare_ok_def chunk_ok_def chunk_len_def)
    obtain cq3 where a: "chunkqueue_append_chunk cq2 ?d = Some cq3" "cq_tempdirs cq3 = cq_tempdirs cq2"
      using append_chunk_ok [OF ok2 d] by (auto simp: chunkqueue_append_chunk_def bind_eq_Some_conv)
    then show ?thesis
      using o Some y u nm(1) ok1(2) same_but_sparesD(5) [OF un(2)] by (auto simp: chunkqueue_get_append_tempfile_def)
  qed
qed

lemma tempfile_target_total:
  assumes tq: "tq_ok os cq" and sup: "os_supply os (dir_count cq + m) (Suc c)"
  shows "\<exists>os' cq' found. tempfile_target os cq = Some (os', cq', found) \<and> os_supply os' m c \<and> cq_tempdirs cq' = cq_tempdirs cq"
proof (cases "cq_chunks cq \<noteq> [] \<and> appendable (last (cq_chunks cq))")
  case app: True
  show ?thesis
  proof (cases "ck_length (last (cq_chunks cq)) \<ge> int (cq_upload_temp_file_size cq)")
    case big: True
    obtain rc rs where cl: "os_close os = rc # rs" using sup by (cases "os_close os") (auto simp: os_supply_def)
    let ?os = "os\<lparr>os_close := rs\<rparr>" and ?cq = "update_last cq (\<lambda>c. c\<lparr>ck_fd := - 1\<rparr>)"
    have s1: "os_supply ?os (dir_count ?cq + m) c" "cq_tempdirs ?cq = cq_tempdirs cq"
      using sup cl by (simp_all add: os_supply_def dir_count_def update_last_def)
    have "os_disk ?os = os_disk os" by simp
    note t1 = conjunct1 [OF close_last_ok [OF tq conjunct1 [OF app] this]]
    show ?thesis
      using get_append_tempfile_total [OF t1 s1(1)] s1 app big cl os_supply_less [OF s1(1), of m c]
      by (cases rc) (auto simp: tempfile_target_def os_closed_def)
  next
    case False
    then show ?thesis using app os_supply_less [OF sup, of m c] by (auto simp: tempfile_target_def)
  qed
next
  case False
  have "os_supply os (dir_count cq + m) c" by (rule os_supply_less [OF sup]) simp_all
  from get_append_tempfile_total [OF tq this] show ?thesis using False by (auto simp: tempfile_target_def)
qed

section \<open>Writing\<close>

lemma append_to_tempfile_total:
  assumes "tq_ok os cq" and "writes_fit ws s" and "os_supply os (length ws * dir_count cq) (length ws)"
  shows "append_to_tempfile ws os cq s \<noteq> None"
  using assms
proof (induction ws arbitrary: os cq s)
  case Nil
  then show ?case by (simp add: writes_fit_def)
next
  case (Cons w ws)
  have "os_supply os (dir_count cq + length ws * dir_count cq) (Suc (length ws))" using Cons.prems(3) by simp
  from tempfile_target_total [OF Cons.prems(1) this] obtain os1 cq1 found where
    t: "tempfile_target os cq = Some (os1, cq1, found)" "os_supply os1 (length ws * dir_count cq) (length ws)"
      "cq_tempdirs cq1 = cq_tempdirs cq"
    by blast
  note tg = tempfile_target_ok [OF Cons.prems(1) t(1)]
  have cnt: "dir_count q = dir_count cq" if "cq_tempdirs q = cq_tempdirs cq" for q using that by (simp add: dir_count_def)
  show ?case
  proof (cases found)
    case False
    then show ?thesis using t(1) by simp
  next
    case True
    note l = tg(3) [OF True]
    show ?thesis
    proof (cases w)
      case (Wrote n)
      have n: "n \<le> length s" "bytes_written ws = length s - n" using Cons.prems(2) Wrote by (auto simp: writes_fit_def)
      obtain os2 cq2 where g: "tempfile_grow os1 cq1 (take n s) = (os2, cq2)" by (meson surj_pair)
      show ?thesis
      proof (cases "n = length s")
        case True
        then show ?thesis using t(1) \<open>found\<close> Wrote g by (simp add: force_assert_def)
      next
        case False
        then have "drop n s \<noteq> []" using n(1) by simp
        then have fit: "writes_fit ws (drop n s)" using Cons.prems(2) Wrote n by (auto simp: writes_fit_def)
        have same: "os_mkstemp os2 = os_mkstemp os1" "os_close os2 = os_close os1" "cq_tempdirs cq2 = cq_tempdirs cq1"
          using g by (auto simp: tempfile_grow_def os_append_def update_last_def)
        have sup: "os_supply os2 (length ws * dir_count cq2) (length ws)"
          using t(2,3) same cnt [of cq2] by (simp add: os_supply_def)
        note go = tempfile_grow_ok(1) [OF tg(1) conjunct1 [OF l] conjunct2 [OF l] g]
        from Cons.IH [OF go fit sup] show ?thesis using t(1) \<open>found\<close> Wrote g n(1) False by (simp add: force_assert_def)
      qed
    next
      case Write_EINTR
      have "writes_fit ws s" using Cons.prems(2) Write_EINTR by (simp add: writes_fit_def)
      from Cons.IH [OF tg(1) this] t(2) cnt [OF t(3)] show ?thesis using t(1) True Write_EINTR by simp
    qed (use Cons.prems(2) in \<open>auto simp: writes_fit_def\<close>)
  qed
qed

end
