(* ===== verification/Chunk_Run.thy ===== *)
theory Chunk_Run
  imports Chunk_Supply
begin

text \<open>
  A chunk queue in use: the operations as steps of a transition system, the queues that can be
  reached, and what holds of them.
\<close>

section \<open>Steps\<close>

text \<open>Octets put in at the end, octets taken from the front, or neither.\<close>

datatype cq_event = Put "octet list" | Take "octet list" | Tidy

inductive cq_step :: "chunkqueue \<Rightarrow> cq_event \<Rightarrow> chunkqueue \<Rightarrow> bool" where
  append_mem: "length s + 1 < SIZE_T \<Longrightarrow> chunkqueue_append_mem cq s = Some cq' \<Longrightarrow>
     cq_step cq (Put (map Mem s)) cq'"
| append_buffer: "buf_ok b \<Longrightarrow> chunkqueue_append_buffer cq b = Some (cq', b') \<Longrightarrow>
     cq_step cq (Put (map Mem (buf_str b))) cq'"
| append_file: "buf_holds fn name \<Longrightarrow> 0 \<le> len \<Longrightarrow> chunkqueue_append_file cq fn off len = Some cq' \<Longrightarrow>
     cq_step cq (Put (map (Disk name) [off..off + len - 1])) cq'"
| append_file_fd: "buf_holds fn name \<Longrightarrow> 0 \<le> len \<Longrightarrow>
     chunkqueue_append_file_fd cq fn fd off len = Some (cq', io) \<Longrightarrow>
     cq_step cq (Put (map (Disk name) [off..off + len - 1])) cq'"
| read_into: "min_size < 2 ^ 62 \<Longrightarrow> alloc_size < 2 ^ 62 \<Longrightarrow>
     chunkqueue_get_memory cq min_size alloc_size = Some (cq1, n) \<Longrightarrow> length s \<le> n \<Longrightarrow>
     chunkqueue_fill_memory cq1 s = Some cq2 \<Longrightarrow> chunkqueue_use_memory cq2 (length s) = Some cq' \<Longrightarrow>
     cq_step cq (Put (map Mem s)) cq'"
| mark_written: "0 \<le> len \<Longrightarrow> len \<le> int (length (cq_stream cq)) \<Longrightarrow>
     chunkqueue_mark_written cq len = Some (cq', io) \<Longrightarrow>
     cq_step cq (Take (take (nat len) (cq_stream cq))) cq'"
| remove_finished: "chunkqueue_remove_finished_chunks cq = Some (cq', io) \<Longrightarrow> cq_step cq Tidy cq'"
| remove_empty: "chunkqueue_remove_empty_chunks cq = Some (cq', io) \<Longrightarrow> cq_step cq Tidy cq'"

inductive_cases PutE: "cq_step cq (Put xs) cq'"
inductive_cases TakeE: "cq_step cq (Take xs) cq'"
inductive_cases TidyE: "cq_step cq Tidy cq'"

text \<open>What a queue in state \<open>cq\<close> has taken in and given out since it was created.\<close>

inductive cq_reach :: "chunkqueue \<Rightarrow> octet list \<Rightarrow> octet list \<Rightarrow> bool" where
  init: "cq_reach (chunkqueue_init dirs sz) [] []"
| put: "cq_reach cq p t \<Longrightarrow> cq_step cq (Put xs) cq' \<Longrightarrow> cq_reach cq' (p @ xs) t"
| take: "cq_reach cq p t \<Longrightarrow> cq_step cq (Take xs) cq' \<Longrightarrow> cq_reach cq' p (t @ xs)"
| tidy: "cq_reach cq p t \<Longrightarrow> cq_step cq Tidy cq' \<Longrightarrow> cq_reach cq' p t"

text \<open>The effect of a step.\<close>

definition effect :: "chunkqueue \<Rightarrow> cq_event \<Rightarrow> chunkqueue \<Rightarrow> bool" where
  "effect cq e cq' \<longleftrightarrow> cq_ok cq' \<and> (case e of
       Put xs \<Rightarrow> cq_stream cq' = cq_stream cq @ xs \<and> cq_bytes_in cq' = cq_bytes_in cq + int (length xs) \<and>
         cq_bytes_out cq' = cq_bytes_out cq
     | Take xs \<Rightarrow> cq_stream cq = xs @ cq_stream cq' \<and> cq_bytes_in cq' = cq_bytes_in cq \<and>
         cq_bytes_out cq' = cq_bytes_out cq + int (length xs)
     | Tidy \<Rightarrow> cq_stream cq' = cq_stream cq \<and> cq_bytes_in cq' = cq_bytes_in cq \<and>
         cq_bytes_out cq' = cq_bytes_out cq)"

lemma step_effect: "cq_step cq e cq' \<Longrightarrow> cq_ok cq \<Longrightarrow> effect cq e cq'"
proof (induction rule: cq_step.induct)
  case (append_mem s cq cq')
  then show ?case using append_mem_ok [of cq s] by (auto simp: effect_def)
next
  case (append_buffer b cq cq' b')
  then show ?case using append_buffer_ok [of cq b] by (auto simp: effect_def)
next
  case (append_file fn name len cq off cq')
  then show ?case using append_file_fd_ok(2) [of cq fn name len off] by (auto simp: effect_def)
next
  case (append_file_fd fn name len cq fd off cq' io)
  then show ?case using append_file_fd_ok(1) [of cq fn name len fd off] by (auto simp: effect_def)
next
  case (read_into min_size alloc_size cq cq1 n s cq2 cq')
  then have "cq_ok cq1" "cq_stream cq1 = cq_stream cq" "readable cq1 n"
    "cq_bytes_in cq1 = cq_bytes_in cq" "cq_bytes_out cq1 = cq_bytes_out cq"
    using get_memory_ok [of cq min_size alloc_size] by auto
  then show ?case using fill_use_memory_ok [of cq1 n s] read_into by (auto simp: effect_def)
next
  case (mark_written len cq cq' io)
  then show ?case using mark_written_ok [of cq len] by (auto simp: effect_def)
next
  case (remove_finished cq cq' io)
  then show ?case
    using remove_finished_ok [where cq = cq and cs = "cq_chunks cq"]
    by (auto simp: effect_def chunkqueue_remove_finished_chunks_def cq_stream_def [of cq])
next
  case (remove_empty cq cq' io)
  from remove_empty_chunks_thins [OF remove_empty(2) remove_empty(1)] show ?case by (auto simp: effect_def)
qed

section \<open>Guarantees\<close>

text \<open>C10: Whatever sequence of appends, reads into the queue, acknowledgements and clean-ups has been
  performed, the octets given out followed by those still queued are exactly the octets put in, in
  order, and the byte counters count them; the cache and every chunk stay well formed.\<close>

theorem chunkqueue_fifo:
  assumes "cq_reach cq put taken"
  shows "cq_ok cq \<and> put = taken @ cq_stream cq \<and> cq_bytes_in cq = int (length put) \<and>
    cq_bytes_out cq = int (length taken)"
  using assms
proof (induction rule: cq_reach.induct)
  case (init dirs sz)
  then show ?case using cq_init_ok by (simp add: chunkqueue_init_def)
qed (auto dest!: step_effect simp: effect_def)

lemma queued_abc:
  obtains q1 where "chunkqueue_append_mem (chunkqueue_init None 0) ''abc'' = Some q1" and "cq_ok q1"
    and "cq_stream q1 = map Mem ''abc''"
  using append_mem_ok [OF cq_init_ok(1) [of None 0], of "''abc''"] cq_init_ok(2) by (auto simp: SIZE_T_def)

theorem chunkqueue_fifo_witness:
  "\<exists>cq. cq_reach cq (map Mem ''abc'') [Mem (CHR ''a'')] \<and> cq_ok cq \<and> cq_stream cq = map Mem ''bc'' \<and>
    cq_bytes_in cq = 3 \<and> cq_bytes_out cq = 1"
proof -
  let ?q = "chunkqueue_init None 0"
  obtain q1 where q1: "chunkqueue_append_mem ?q ''abc'' = Some q1" "cq_ok q1" "cq_stream q1 = map Mem ''abc''"
    by (rule queued_abc)
  obtain q2 io where q2: "chunkqueue_mark_written q1 1 = Some (q2, io)"
    using mark_written_ok [OF q1(2), of 1] q1(3) by auto
  have "cq_reach q1 ([] @ map Mem ''abc'') []"
    by (rule cq_reach.put [OF cq_reach.init cq_step.append_mem [OF _ q1(1)]]) (simp add: SIZE_T_def)
  moreover have "cq_step q1 (Take (take (nat 1) (cq_stream q1))) q2"
    using q1(3) by (intro cq_step.mark_written [OF _ _ q2]) simp_all
  ultimately have "cq_reach q2 ([] @ map Mem ''abc'') ([] @ take (nat 1) (cq_stream q1))"
    by (rule cq_reach.take)
  then have r: "cq_reach q2 (map Mem ''abc'') [Mem (CHR ''a'')]" using q1(3) by simp
  show ?thesis using chunkqueue_fifo [OF r] r by auto
qed

text \<open>C12: On a well-formed queue the operations of a connection that reads and writes do not fail: text, the
  contents of a buffer and ranges of files can be queued behind, a buffer in front, up to what is queued can
  be acknowledged, finished chunks can be removed, the length is the number of octets, and room to read
  into is always found, at least as much as was asked for. (Removing empty chunks is not among them: it can crash.)\<close>

theorem chunkqueue_progress:
  assumes "cq_ok cq" and "length s + 1 < SIZE_T" and "n \<le> length (cq_stream cq)" and "room < 2 ^ 62" "alloc < 2 ^ 62"
    and "buf_ok b" and "buf_holds fn name" and "0 \<le> len"
  shows "(\<exists>q. chunkqueue_append_mem cq s = Some q \<and> cq_ok q \<and> cq_stream q = cq_stream cq @ map Mem s) \<and>
    (\<exists>q b'. chunkqueue_append_buffer cq b = Some (q, b') \<and> cq_ok q \<and> cq_stream q = cq_stream cq @ map Mem (buf_str b)) \<and>
    (\<exists>q b'. chunkqueue_prepend_buffer cq b = Some (q, b') \<and> cq_ok q \<and> cq_stream q = map Mem (buf_str b) @ cq_stream cq) \<and>
    (\<exists>q. chunkqueue_append_file cq fn off len = Some q \<and> cq_ok q \<and>
      cq_stream q = cq_stream cq @ map (Disk name) [off..off + len - 1]) \<and>
    (\<exists>q io. chunkqueue_mark_written cq (int n) = Some (q, io) \<and> cq_ok q \<and> cq_stream q = drop n (cq_stream cq)) \<and>
    (\<exists>q k. chunkqueue_get_memory cq room alloc = Some (q, k) \<and> cq_ok q \<and> cq_stream q = cq_stream cq \<and> room \<le> k \<and> 0 < k) \<and>
    (\<exists>q io. chunkqueue_remove_finished_chunks cq = Some (q, io) \<and> cq_ok q \<and> cq_stream q = cq_stream cq) \<and>
    chunkqueue_length cq = Some (int (length (cq_stream cq)))"
proof -
  have "cq_ok (cq\<lparr>cq_chunks := cq_chunks cq\<rparr>)" using assms(1) by simp
  moreover have st: "concat (map chunk_data (cq_chunks cq)) = cq_stream cq" by (simp add: cq_stream_def)
  ultimately show ?thesis
    using append_mem_ok [OF assms(1,2)] append_buffer_ok [OF assms(1,6)] prepend_buffer_ok [OF assms(1,6)]
      append_file_fd_ok(2) [OF assms(1,7,8), of off] mark_written_ok [OF assms(1), of "int n"]
      get_memory_ok [OF assms(1,4,5)] remove_finished_ok [of "cq_chunks cq" cq] chunkqueue_length_ok [OF assms(1)] assms(3)
    unfolding chunkqueue_remove_finished_chunks_def by (intro conjI) (auto simp: st)
qed

theorem chunkqueue_progress_witness:
  "\<exists>q k. chunkqueue_get_memory (chunkqueue_init None 0) 5000 0 = Some (q, k) \<and> cq_ok q \<and> 5000 \<le> k"
  using chunkqueue_progress [OF cq_init_ok(1), of "[]" 0 None 0 5000 0 buffer_init "buf_lit ''/f''" "''/f''" 0 0]
    buf_lit_holds [of "''/f''"] buffer_init_ok(1) by (auto simp: SIZE_T_def)

text \<open>C16: Stealing \<open>len\<close> octets moves exactly that many, or all there are, from the front of one queue
  to the end of the other; nothing is lost, copied twice or reordered, split chunks included.\<close>

theorem chunkqueue_steal_moves:
  assumes "cq_ok dest" and "cq_ok src" and "named_files src"
  shows "\<exists>dest' src' io. chunkqueue_steal dest src len = Some (dest', src', io) \<and> cq_ok dest' \<and> cq_ok src' \<and>
    cq_stream dest' = cq_stream dest @ take (nat len) (cq_stream src) \<and>
    cq_stream src' = drop (nat len) (cq_stream src)"
  using steal_ok [OF assms, of len] unfolding moved_def by blast

theorem chunkqueue_steal_moves_witness:
  "\<exists>src dest' src' io. chunkqueue_append_mem (chunkqueue_init None 0) ''abc'' = Some src \<and>
    chunkqueue_steal (chunkqueue_init None 0) src 2 = Some (dest', src', io) \<and>
    cq_stream dest' = map Mem ''ab'' \<and> cq_stream src' = map Mem ''c''"
proof -
  let ?q = "chunkqueue_init None 0"
  obtain q1 where q1: "chunkqueue_append_mem ?q ''abc'' = Some q1" "cq_ok q1" "cq_stream q1 = map Mem ''abc''"
    by (rule queued_abc)
  have "named_files q1"
    using q1(1) by (auto simp: chunkqueue_append_mem_def chunkqueue_get_unused_chunk_def chunkqueue_init_def
      chunkqueue_append_chunk_def named_files_def bind_eq_Some_conv)
  from chunkqueue_steal_moves [OF cq_init_ok(1) q1(2) this, of None 0 2] q1(1,3) cq_init_ok(2)
  show ?thesis by (auto simp: numeral_2_eq_2)
qed

text \<open>C17: Writing data behind a queue into temporary files, through any sequence of partial writes,
  interruptions, full disks and failed opens after which the operation returns, leaves what the queue stood
  for untouched and appends a prefix of the data, all of it when success is reported; the files hold
  exactly the octets. It does return when no write fails, however the data is cut into pieces, interrupted and
  spread over files, and whatever opening and closing files gives. (After a failed write to a fresh file it can crash.)\<close>

theorem tempfile_keeps_content:
  assumes tq: "tq_ok os cq"
  shows "(\<forall>os' cq' ok. chunkqueue_append_mem_to_tempfile os cq s = Some (os', cq', ok) \<longrightarrow>
      tq_ok os' cq' \<and> (\<exists>k. tq_content os' cq' = tq_content os cq @ map Some (take k s) \<and> (ok \<longrightarrow> length s \<le> k))) \<and>
    (writes_fit (os_write os) s \<and> os_supply os (length (os_write os) * dir_count cq) (length (os_write os)) \<longrightarrow>
      (\<exists>os' cq' ok. chunkqueue_append_mem_to_tempfile os cq s = Some (os', cq', ok)))"
  using append_to_tempfile_ok [OF tq] append_to_tempfile_total [OF tq]
  by (simp add: chunkqueue_append_mem_to_tempfile_def)

definition sample_file :: chunk where
  "sample_file = \<lparr>ck_type = FILE_CHUNK, ck_mem = buffer_init, ck_name = buf_lit ''/tmp/f'', ck_start = 0,
     ck_length = 2, ck_fd = 7, ck_mmap = None, ck_is_temp = True, ck_offset = 0\<rparr>"

definition sample_queue :: chunkqueue where
  "sample_queue = (chunkqueue_init None 1000)\<lparr>cq_chunks := [sample_file], cq_bytes_in := 2\<rparr>"

definition sample_os :: "write_result list \<Rightarrow> os" where
  "sample_os ws = \<lparr>os_mkstemp = [], os_write = ws, os_close = [], os_disk = [''/tmp/f'' \<mapsto> ''ab'']\<rparr>"

lemma sample_ok: "tq_ok (sample_os ws) sample_queue" "tq_content (sample_os ws) sample_queue = map Some ''ab''"
proof -
  have h: "buf_holds (buf_lit ''/tmp/f'') ''/tmp/f''" by (rule buf_lit_holds) (simp add: SIZE_T_def)
  note n = buf_holdsD(3,4) [OF h]
  have st: "cq_stream sample_queue = [Disk ''/tmp/f'' 0, Disk ''/tmp/f'' 1]"
    by (simp add: sample_queue_def sample_file_def cq_stream_def chunk_data_def n upto.simps)
  show "tq_content (sample_os ws) sample_queue = map Some ''ab''"
    by (simp add: tq_content_def cq_content_def st octet_val_def sample_os_def)
  have "cq_ok sample_queue"
    using st n by (simp add: cq_ok_def sample_queue_def spares_ok_def chunkqueue_init_def chunk_ok_def
      sample_file_def chunk_len_def)
  moreover have "disk_ok (os_disk (sample_os ws)) sample_queue"
    using st n by (simp add: disk_ok_def cq_content_def octet_val_def sample_os_def sample_queue_def
      chunkqueue_init_def sample_file_def chunk_data_def temp_names_def upto.simps)
  ultimately show "tq_ok (sample_os ws) sample_queue"
    by (simp add: tq_ok_def dirs_ok_def sample_queue_def chunkqueue_init_def)
qed

definition sample_supply :: os where
  "sample_supply = (sample_os [Wrote 1, Write_EINTR, Wrote 2])\<lparr>os_mkstemp := replicate 3 None, os_close := replicate 3 True\<rparr>"

theorem tempfile_keeps_content_witness:
  "\<exists>os' cq'. chunkqueue_append_mem_to_tempfile sample_supply sample_queue ''xyz'' = Some (os', cq', True) \<and>
    tq_content os' cq' = map Some ''abxyz''"
proof -
  have ok: "tq_ok sample_supply sample_queue" "tq_content sample_supply sample_queue = map Some ''ab''"
    using tq_ok_cong [OF sample_ok(1), of sample_queue sample_supply] sample_ok
    by (simp_all add: sample_supply_def tq_ok_def sample_os_def)
  note run = tempfile_keeps_content [OF ok(1), of "''xyz''"]
  have "writes_fit (os_write sample_supply) ''xyz''" "os_supply sample_supply (3 * dir_count sample_queue) 3"
    "length (os_write sample_supply) = 3"
    by (simp_all add: writes_fit_def os_supply_def dir_count_def sample_supply_def sample_os_def sample_queue_def
      chunkqueue_init_def)
  with run obtain os' cq' ok where r: "chunkqueue_append_mem_to_tempfile sample_supply sample_queue ''xyz'' = Some (os', cq', ok)"
    by auto
  have "ok"
    using r by (simp add: chunkqueue_append_mem_to_tempfile_def sample_supply_def sample_os_def sample_queue_def sample_file_def
      tempfile_target_def appendable_def tempfile_grow_def update_last_def chunkqueue_init_def force_assert_def os_append_def)
  then show ?thesis using run ok(2) r by auto
qed

lemma remove_empty_loop_None:
  assumes "list_all chunk_ok (xs @ [c, d])" and "chunk_data c \<noteq> []" and "chunk_data d = []"
  shows "remove_empty_loop cq pre (xs @ [c, d]) = None"
  using assms(1)
proof (induction "length xs" arbitrary: cq pre xs rule: less_induct)
  case less
  have c: "chunk_ok c" "chunk_ok d" using less.prems by simp_all
  note rc = chunk_remaining [OF c(1)] chunk_data_Nil [OF c(1)] and rd = chunk_remaining [OF c(2)] chunk_data_Nil [OF c(2)]
  have base: "remove_empty_loop cq pre [c, d] = None" for cq pre
    using rd assms(3) by (simp split: prod.split)
  consider "xs = []" | x where "xs = [x]" | x y zs where "xs = x # y # zs" by (cases xs; cases "tl xs") auto
  then show ?case
  proof cases
    case 1
    then show ?thesis using base by simp
  next
    case (2 x)
    then show ?thesis using base rc assms(2) by simp
  next
    case (3 x y zs)
    have y: "chunk_ok y" using less.prems 3 by simp
    have "remove_empty_loop cq' pre' (zs @ [c, d]) = None" "remove_empty_loop cq' pre' ((y # zs) @ [c, d]) = None" for cq' pre'
      using less.hyps [of zs] less.hyps [of "y # zs"] less.prems 3 by simp_all
    then show ?thesis using 3 chunk_remaining [OF y] by (simp split: prod.split)
  qed
qed

text \<open>C21: Removing empty chunks reads through a null pointer whenever the last chunk is empty and the
  one in front of it is not: the clean-up after a failed write to a fresh temporary file crashes as
  soon as anything else is queued.\<close>

theorem remove_empty_chunks_crash:
  assumes "cq_ok cq" and "cq_chunks cq = cs @ [c, d]" and "chunk_data c \<noteq> []" and "chunk_data d = []"
  shows "chunkqueue_remove_empty_chunks cq = None \<and> tempfile_failed os cq False = None"
proof -
  have all: "list_all chunk_ok (cs @ [c, d])" using assms(1,2) by (simp add: cq_ok_def)
  have "cq_ok (cq\<lparr>cq_chunks := cq_chunks cq\<rparr>)" using assms(1) by simp
  from remove_finished_ok [OF this] obtain q io where q: "chunkqueue_remove_finished_chunks cq = Some (q, io)"
    "cq_chunks q = dropWhile (\<lambda>c. chunk_data c = []) (cs @ [c, d])"
    using assms(2) by (auto simp: chunkqueue_remove_finished_chunks_def)
  define xs where "xs = dropWhile (\<lambda>c. chunk_data c = []) cs"
  have "dropWhile (\<lambda>c. chunk_data c = []) (cs @ [c, d]) = dropWhile (\<lambda>c. chunk_data c = []) cs @ [c, d]"
    using assms(3) by (induction cs) auto
  moreover have "list_all chunk_ok (dropWhile (\<lambda>c. chunk_data c = []) cs @ [c, d])"
    using all by (induction cs) auto
  ultimately have xs: "cq_chunks q = xs @ [c, d]" "list_all chunk_ok (xs @ [c, d])"
    using q(2) by (simp_all add: xs_def)
  have e: "chunkqueue_remove_empty_chunks cq = None"
    using q(1) xs(1) remove_empty_loop_None [OF xs(2) assms(3,4), of q "[]"]
    by (simp add: chunkqueue_remove_empty_chunks_def chunkqueue_is_empty_def)
  have d: "chunk_ok d" using all by simp
  have "chunk_remaining_length (last (cq_chunks cq)) = Some 0"
    using chunk_remaining [OF d] chunk_data_Nil [OF d] assms(2,4) by simp
  then have "tempfile_failed os cq False = None"
    using e by (simp add: tempfile_failed_def split: option.split)
  with e show ?thesis by blast
qed

theorem remove_empty_chunks_crash_witness:
  "chunkqueue_remove_empty_chunks (sample_queue\<lparr>cq_chunks := [sample_file, sample_file\<lparr>ck_length := 0\<rparr>]\<rparr>) = None"
proof -
  let ?q = "sample_queue\<lparr>cq_chunks := [sample_file, sample_file\<lparr>ck_length := 0\<rparr>]\<rparr>"
  have n: "buf_ok (buf_lit ''/tmp/f'')" by (rule buf_holdsD(4) [OF buf_lit_holds]) (simp add: SIZE_T_def)
  have "cq_ok ?q" "chunk_data sample_file \<noteq> []" "chunk_data (sample_file\<lparr>ck_length := 0\<rparr>) = []"
    using n by (simp_all add: cq_ok_def sample_queue_def spares_ok_def chunkqueue_init_def chunk_ok_def
      sample_file_def chunk_len_def cq_stream_def chunk_data_def upto.simps)
  then show ?thesis
    using remove_empty_chunks_crash [of ?q "[]" sample_file "sample_file\<lparr>ck_length := 0\<rparr>" "sample_os []"] by simp
qed

end
