(* ===== verification/Http_Chunk.thy ===== *)
theory Http_Chunk
  imports Chunk_Run Buffer_Num
begin

text \<open>
  Writing a response body to the queue of a connection (\<open>http_chunk.c\<close>): with chunked transfer
  encoding every piece is framed by its length in hex and a line end.
\<close>

section \<open>The connection\<close>

text \<open>
  The parts of \<open>server\<close> and \<open>connection\<close> used here: \<open>srv->tmp_chunk_len\<close>, \<open>con->write_queue\<close>, the
  flag \<open>HTTP_TRANSFER_ENCODING_CHUNKED\<close> of the response and \<open>FDEVENT_STREAM_RESPONSE_BUFMIN\<close> of the
  configuration.
\<close>

record body_out =
  bo_tmp :: buffer
  bo_queue :: chunkqueue
  bo_chunked :: bool
  bo_bufmin :: bool

definition http_chunk_append_len :: "body_out \<Rightarrow> 64 word \<Rightarrow> body_out option" where
  "http_chunk_append_len con len = do {
     b \<leftarrow> buffer_string_set_length (bo_tmp con) 0;
     b \<leftarrow> buffer_append_uint_hex b len;
     b \<leftarrow> buffer_append_string_len b CRLF;
     (cq, b) \<leftarrow> chunkqueue_append_buffer (bo_queue con) b;
     Some (con\<lparr>bo_tmp := b, bo_queue := cq\<rparr>)
   }"

definition append_crlf :: "body_out \<Rightarrow> body_out option" where
  "append_crlf con = do {
     cq \<leftarrow> chunkqueue_append_mem (bo_queue con) CRLF;
     Some (con\<lparr>bo_queue := cq\<rparr>)
   }"

definition http_chunk_append_file_fd_range ::
    "body_out \<Rightarrow> buffer \<Rightarrow> int \<Rightarrow> int \<Rightarrow> int \<Rightarrow> (body_out \<times> io_event list) option" where
  "http_chunk_append_file_fd_range con fn fd offset len = do {
     con \<leftarrow> (if bo_chunked con then http_chunk_append_len con (word_of_int len) else Some con);
     (cq, io) \<leftarrow> chunkqueue_append_file_fd (bo_queue con) fn fd offset len;
     let con = con\<lparr>bo_queue := cq\<rparr>;
     con \<leftarrow> (if bo_chunked con then append_crlf con else Some con);
     Some (con, io)
   }"

text \<open>
  \<open>file\<close> is what opening the file gave: nothing, or a descriptor and the size. The last result
  is the code's return value.
\<close>

definition http_chunk_append_file_range ::
    "(int \<times> int) option \<Rightarrow> body_out \<Rightarrow> buffer \<Rightarrow> int \<Rightarrow> int \<Rightarrow> (body_out \<times> io_event list \<times> int) option" where
  "http_chunk_append_file_range file con fn offset len =
     (case file of
        None \<Rightarrow> Some (con, [], - 1)
      | Some (fd, st_size) \<Rightarrow>
          if len = - 1 then
            if offset \<ge> st_size then Some (con, [Close fd], if offset = st_size then 0 else - 1)
            else do {
              (con, io) \<leftarrow> http_chunk_append_file_fd_range con fn fd offset (st_size - offset);
              Some (con, io, 0)
            }
          else if st_size - offset < len then Some (con, [Close fd], - 1)
          else do {
            (con, io) \<leftarrow> http_chunk_append_file_fd_range con fn fd offset len;
            Some (con, io, 0)
          })"

definition http_chunk_append_file ::
    "(int \<times> int) option \<Rightarrow> body_out \<Rightarrow> buffer \<Rightarrow> (body_out \<times> io_event list \<times> int) option" where
  "http_chunk_append_file file con fn =
     (case file of
        None \<Rightarrow> Some (con, [], - 1)
      | Some (fd, st_size) \<Rightarrow>
          if st_size \<noteq> 0 then do {
            (con, io) \<leftarrow> http_chunk_append_file_fd_range con fn fd 0 st_size;
            Some (con, io, 0)
          }
          else Some (con, [Close fd], 0))"

text \<open>Through a temporary file; the flag is whether 0 is returned.\<close>

definition http_chunk_append_to_tempfile :: "os \<Rightarrow> body_out \<Rightarrow> string \<Rightarrow> (os \<times> body_out \<times> bool) option" where
  "http_chunk_append_to_tempfile os con mem = do {
     (os, con, ok) \<leftarrow>
       (if bo_chunked con then do {
          b \<leftarrow> buffer_string_set_length (bo_tmp con) 0;
          b \<leftarrow> buffer_append_uint_hex b (of_nat (length mem));
          b \<leftarrow> buffer_append_string_len b CRLF;
          (os, cq, ok) \<leftarrow> chunkqueue_append_mem_to_tempfile os (bo_queue con) (buf_str b);
          Some (os, con\<lparr>bo_tmp := b, bo_queue := cq\<rparr>, ok)
        } else Some (os, con, True));
     if \<not> ok then Some (os, con, False)
     else do {
       (os, cq, ok) \<leftarrow> chunkqueue_append_mem_to_tempfile os (bo_queue con) mem;
       let con = con\<lparr>bo_queue := cq\<rparr>;
       if \<not> ok then Some (os, con, False)
       else if bo_chunked con then do {
         (os, cq, ok) \<leftarrow> chunkqueue_append_mem_to_tempfile os (bo_queue con) CRLF;
         Some (os, con\<lparr>bo_queue := cq\<rparr>, ok)
       }
       else Some (os, con, True)
     }
   }"

text \<open>When the data goes to a temporary file.\<close>

definition spills :: "body_out \<Rightarrow> nat \<Rightarrow> bool" where
  "spills con len \<longleftrightarrow>
     (cq_chunks (bo_queue con) \<noteq> [] \<and> ck_type (last (cq_chunks (bo_queue con))) = FILE_CHUNK \<and>
        ck_is_temp (last (cq_chunks (bo_queue con)))) \<or>
     cq_bytes_in (bo_queue con) - cq_bytes_out (bo_queue con) + int len > 1024 * (if bo_bufmin con then 128 else 64)"

text \<open>The data comes in a buffer, whose storage may be taken over, or as bytes to copy.\<close>

definition http_chunk_append_data ::
    "os \<Rightarrow> body_out \<Rightarrow> buffer option \<Rightarrow> string \<Rightarrow> (os \<times> body_out \<times> buffer option \<times> bool) option" where
  "http_chunk_append_data os con b mem =
     (let len = (case b of None \<Rightarrow> length mem | Some b \<Rightarrow> buffer_string_length b)
      in if len = 0 then Some (os, con, b, True)
         else if spills con len then do {
           (os, con, ok) \<leftarrow> http_chunk_append_to_tempfile os con (case b of None \<Rightarrow> mem | Some b \<Rightarrow> buf_str b);
           Some (os, con, b, ok)
         }
         else do {
           con \<leftarrow> (if bo_chunked con then http_chunk_append_len con (of_nat len) else Some con);
           (cq, b) \<leftarrow> (case b of
               Some b \<Rightarrow> map_option (\<lambda>(cq, b). (cq, Some b)) (chunkqueue_append_buffer (bo_queue con) b)
             | None \<Rightarrow> map_option (\<lambda>cq. (cq, None)) (chunkqueue_append_mem (bo_queue con) mem));
           let con = con\<lparr>bo_queue := cq\<rparr>;
           con \<leftarrow> (if bo_chunked con then append_crlf con else Some con);
           Some (os, con, b, True)
         })"

definition http_chunk_append_buffer :: "os \<Rightarrow> body_out \<Rightarrow> buffer \<Rightarrow> (os \<times> body_out \<times> buffer option \<times> bool) option" where
  "http_chunk_append_buffer os con mem = http_chunk_append_data os con (Some mem) []"

definition http_chunk_append_mem :: "os \<Rightarrow> body_out \<Rightarrow> string \<Rightarrow> (os \<times> body_out \<times> buffer option \<times> bool) option" where
  "http_chunk_append_mem os con mem = http_chunk_append_data os con None mem"

definition http_chunk_close :: "body_out \<Rightarrow> body_out option" where
  "http_chunk_close con =
     (if bo_chunked con
      then do {
        cq \<leftarrow> chunkqueue_append_mem (bo_queue con) (''0'' @ CRLF @ CRLF);
        Some (con\<lparr>bo_queue := cq\<rparr>)
      }
      else Some con)"

section \<open>Framing\<close>

text \<open>What a piece of data looks like on the wire.\<close>

definition frame_head :: "nat \<Rightarrow> string" where
  "frame_head n = uint_hex_str (of_nat n) @ CRLF"

definition wire :: "bool \<Rightarrow> octet list \<Rightarrow> octet list" where
  "wire chunked xs = (if chunked then map Mem (frame_head (length xs)) @ xs @ map Mem CRLF else xs)"

text \<open>The same for text; an empty piece of data is not sent at all.\<close>

definition wire_text :: "bool \<Rightarrow> string \<Rightarrow> string" where
  "wire_text chunked s = (if s = [] then [] else if chunked then frame_head (length s) @ s @ CRLF else s)"

definition wire_end :: "bool \<Rightarrow> string" where
  "wire_end chunked = (if chunked then ''0'' @ CRLF @ CRLF else [])"

text \<open>What a client does with a chunked body: a line with the length, the data, a line end; a length
  of zero ends it.\<close>

definition is_xdigit :: "char \<Rightarrow> bool" where
  "is_xdigit c \<longleftrightarrow> light_isxdigit (byte c)"

function dechunk :: "string \<Rightarrow> string option" where
  "dechunk xs =
     (let digits = takeWhile is_xdigit xs; n = hex_val digits; rest = drop (length digits) xs
      in if digits = [] \<or> take 2 rest \<noteq> CRLF then None
         else let body = drop 2 rest
           in if n = 0 then (if body = CRLF then Some [] else None)
              else if length body < n + 2 \<or> take 2 (drop n body) \<noteq> CRLF then None
              else map_option (\<lambda>ys. take n body @ ys) (dechunk (drop (n + 2) body)))"
  by pat_completeness auto
termination
proof (relation "measure length")
  fix xs :: string and digits n rest body
  assume "digits = takeWhile is_xdigit xs" "rest = drop (length digits) xs" "body = drop 2 rest"
    "\<not> (digits = [] \<or> take 2 rest \<noteq> CRLF)"
  then have "0 < length xs" by auto
  then show "(drop (n + 2) body, xs) \<in> measure length"
    using \<open>body = drop 2 rest\<close> \<open>rest = drop (length digits) xs\<close> by simp
qed simp

declare dechunk.simps [simp del]

text \<open>Decoding undoes framing.\<close>

lemma uint_hex_str_xdigits: "\<forall>c \<in> set (uint_hex_str n). is_xdigit c"
  using hex_fill_xdigits by (auto simp: uint_hex_str_def is_xdigit_def)

lemma uint_hex_str_not_Nil: "uint_hex_str n \<noteq> []"
  using hex_shift_bounds [of n] length_hex_fill [of n "hex_shift n"] unfolding uint_hex_str_def
  by (metis list.size(3) not_numeral_le_zero)

lemma takeWhile_digits:
  "takeWhile is_xdigit (uint_hex_str n @ CR # r) = uint_hex_str n"
proof -
  have "\<not> is_xdigit CR" by (simp add: is_xdigit_def light_isxdigit_def light_isdigit_def)
  then show ?thesis using uint_hex_str_xdigits by (subst takeWhile_append2) auto
qed

lemma dechunk_wire:
  assumes "length s < SIZE_T"
  shows "dechunk (wire_text True s @ r) = map_option (\<lambda>ys. s @ ys) (dechunk r)"
proof (cases "s = []")
  case True
  then show ?thesis by (simp add: wire_text_def option.map_id [unfolded id_def])
next
  case False
  have v: "hex_val (uint_hex_str (of_nat (length s))) = length s"
    using assms by (simp add: hex_val_uint_hex_str unat_of_nat SIZE_T_def)
  define h where "h = uint_hex_str (of_nat (length s))"
  have h: "h \<noteq> []" "hex_val h = length s" "takeWhile is_xdigit (h @ CR # LF # s @ CR # LF # r) = h"
    using uint_hex_str_not_Nil v takeWhile_digits by (simp_all add: h_def)
  have "dechunk (h @ CR # LF # s @ CR # LF # r) = map_option (\<lambda>ys. s @ ys) (dechunk r)"
    using False by (subst dechunk.simps) (simp add: h Let_def)
  then show ?thesis using False by (simp add: wire_text_def frame_head_def h_def)
qed

lemma dechunk_end: "dechunk (wire_end True) = Some []"
  by (subst dechunk.simps)
    (simp add: wire_end_def is_xdigit_def light_isxdigit_def light_isdigit_def hex_val_def hex2int_def Let_def)

section \<open>What is queued\<close>

definition body_ok :: "body_out \<Rightarrow> bool" where
  "body_ok con \<longleftrightarrow> cq_ok (bo_queue con) \<and> buf_ok (bo_tmp con)"

text \<open>\<open>con'\<close> is \<open>con\<close> with the octets \<open>xs\<close> queued behind.\<close>

definition queued :: "body_out \<Rightarrow> octet list \<Rightarrow> body_out \<Rightarrow> bool" where
  "queued con xs con' \<longleftrightarrow> body_ok con' \<and> cq_stream (bo_queue con') = cq_stream (bo_queue con) @ xs \<and>
     bo_chunked con' = bo_chunked con \<and> bo_bufmin con' = bo_bufmin con"

lemma queued_trans: "queued con xs con1 \<Longrightarrow> queued con1 ys con2 \<Longrightarrow> queued con (xs @ ys) con2"
  by (simp add: queued_def)

lemma queued_refl: "body_ok con \<Longrightarrow> queued con [] con"
  by (simp add: queued_def)

lemma set_length_0:
  assumes "buf_shape b"
  obtains b' where "buffer_string_set_length b 0 = Some b'" and "buf_holds b' []"
proof -
  have r: "buf_shape (buffer_realloc b 1)" "1 \<le> b_size (buffer_realloc b 1)"
    using buffer_realloc_shape [OF assms, of 1] by (simp_all add: SIZE_T_def)
  then have len: "0 < length (b_ptr (buffer_realloc b 1))" by (simp add: buf_shape_def)
  have u: "uadd 0 1 = 1" by (simp add: SIZE_T_def)
  let ?b = "(buffer_realloc b 1)\<lparr>b_used := 1, b_ptr := (b_ptr (buffer_realloc b 1))[0 := Some NUL]\<rparr>"
  have "buffer_string_set_length b 0 = Some ?b"
    using len unfolding buffer_string_set_length_def u by (simp add: mem_write_def force_assert_def Let_def)
  moreover have "buf_holds ?b []"
    using r len by (cases "b_ptr (buffer_realloc b 1)") (auto simp: buf_holds_def buf_shape_def)
  ultimately show ?thesis by (rule that)
qed

lemma hex_shift_le: "unat val < 256 ^ Suc k \<Longrightarrow> hex_shift val \<le> 2 * Suc k"
proof (induction k arbitrary: val)
  case 0
  then have "unat (drop_bit 8 val) = 0" by (simp add: unat_drop_bit)
  then have "drop_bit 8 val = 0" by (simp only: unat_eq_zero)
  then show ?case by (subst hex_shift_rec) simp
next
  case (Suc k)
  have "unat (drop_bit 8 val) < 256 ^ Suc k"
    using Suc.prems by (simp add: unat_drop_bit less_mult_imp_div_less mult.commute)
  from Suc.IH [OF this] show ?case by (subst hex_shift_rec) simp
qed

lemma length_frame: "length (uint_hex_str n) \<le> 16"
proof -
  have "unat n < 256 ^ Suc 7" using unsigned_less [of n] by simp
  from hex_shift_le [OF this] show ?thesis by (simp add: uint_hex_str_def)
qed

text \<open>The text of the length line in the temporary buffer.\<close>

lemma frame_head_ok:
  assumes "buf_ok tmp"
  shows "\<exists>b b1 b2. buffer_string_set_length tmp 0 = Some b \<and> buffer_append_uint_hex b n = Some b1 \<and>
    buffer_append_string_len b1 CRLF = Some b2 \<and> buf_holds b2 (uint_hex_str n @ CRLF)"
proof -
  obtain b where b: "buffer_string_set_length tmp 0 = Some b" "buf_holds b []"
    by (rule set_length_0 [OF buf_ok_shape [OF assms]])
  have "length (buf_str b) + length (uint_hex_str n) + 1 < SIZE_T"
    using length_frame [of n] buf_holdsD(3) [OF b(2)] by (simp add: SIZE_T_def)
  with buf_holdsD(4) [OF b(2)] obtain b1 where b1: "buffer_append_uint_hex b n = Some b1"
    "buf_holds b1 (buf_str b @ uint_hex_str n)" by (rule buffer_append_uint_hex_ok)
  have s1: "buf_str b1 = uint_hex_str n" using buf_holdsD(3) [OF b1(2)] buf_holdsD(3) [OF b(2)] by simp
  have "length (buf_str b1) + length CRLF + 1 < SIZE_T"
    using length_frame [of n] s1 by (simp add: SIZE_T_def)
  with buf_holdsD(4) [OF b1(2)] obtain b2 where "buffer_append_string_len b1 CRLF = Some b2"
    "buf_holds b2 (buf_str b1 @ CRLF)" by (rule buffer_append_string_len_ok)
  then show ?thesis using b(1) b1(1) s1 by auto
qed

lemma append_len_ok:
  assumes "body_ok con"
  obtains con' where "http_chunk_append_len con n = Some con'" and "queued con (map Mem (uint_hex_str n @ CRLF)) con'"
proof -
  obtain b b1 b2 where b: "buffer_string_set_length (bo_tmp con) 0 = Some b" "buffer_append_uint_hex b n = Some b1"
    "buffer_append_string_len b1 CRLF = Some b2" "buf_holds b2 (uint_hex_str n @ CRLF)"
    using frame_head_ok [of "bo_tmp con" n] assms by (auto simp: body_ok_def)
  from append_buffer_ok [OF _ buf_holdsD(4) [OF b(4)], of "bo_queue con"] assms obtain cq b3 where
    "chunkqueue_append_buffer (bo_queue con) b2 = Some (cq, b3)" "cq_ok cq" "buf_ok b3"
    "cq_stream cq = cq_stream (bo_queue con) @ map Mem (uint_hex_str n @ CRLF)"
    using buf_holdsD(3) [OF b(4)] by (auto simp: body_ok_def)
  with b(1-3) show ?thesis
    by (intro that) (auto simp: http_chunk_append_len_def queued_def body_ok_def)
qed

lemma append_crlf_ok:
  assumes "body_ok con"
  obtains con' where "append_crlf con = Some con'" and "queued con (map Mem CRLF) con'"
  using chunks.put_ok [of "bo_queue con" CRLF] assms
  by (auto simp: append_crlf_def body_ok_def queued_def SIZE_T_def)

text \<open>Framing around any way of queueing the data itself.\<close>

lemma framed_ok:
  assumes ok: "body_ok con" and n: "n = of_nat (length xs)"
    and put: "\<And>con1. body_ok con1 \<Longrightarrow> \<exists>con2. put con1 = Some con2 \<and> queued con1 xs con2"
  shows "\<exists>con1 con2 con3. (if bo_chunked con then http_chunk_append_len con n else Some con) = Some con1 \<and>
    put con1 = Some con2 \<and> (if bo_chunked con2 then append_crlf con2 else Some con2) = Some con3 \<and>
    queued con (wire (bo_chunked con) xs) con3"
proof (cases "bo_chunked con")
  case True
  obtain con1 where 1: "http_chunk_append_len con n = Some con1" "queued con (map Mem (uint_hex_str n @ CRLF)) con1"
    by (rule append_len_ok [OF ok])
  obtain con2 where 2: "put con1 = Some con2" "queued con1 xs con2"
    using put [of con1] 1(2) by (auto simp: queued_def)
  then have "body_ok con2" by (simp add: queued_def)
  then obtain con3 where 3: "append_crlf con2 = Some con3" "queued con2 (map Mem CRLF) con3" by (rule append_crlf_ok)
  have "bo_chunked con2" using 1(2) 2(2) True by (simp add: queued_def)
  then show ?thesis
    using True 1 2 3 queued_trans [OF queued_trans [OF 1(2) 2(2)] 3(2)] n by (auto simp: wire_def frame_head_def)
next
  case False
  obtain con2 where 2: "put con = Some con2" "queued con xs con2" using put [OF ok] by blast
  then show ?thesis using False by (auto simp: queued_def wire_def)
qed


lemma file_fd_range_ok:
  assumes "body_ok con" and "buf_holds fn name" and "0 \<le> len" and "len < int SIZE_T"
  shows "\<exists>con' io. http_chunk_append_file_fd_range con fn fd off len = Some (con', io) \<and>
    queued con (wire (bo_chunked con) (map (Disk name) [off..off + len - 1])) con'"
proof -
  let ?put = "\<lambda>con. map_option (\<lambda>(cq, io). con\<lparr>bo_queue := cq\<rparr>) (chunkqueue_append_file_fd (bo_queue con) fn fd off len)"
  have n: "word_of_int len = (of_nat (length (map (Disk name) [off..off + len - 1])) :: 64 word)"
    using assms(3) by simp
  have put: "\<exists>con2. ?put con1 = Some con2 \<and> queued con1 (map (Disk name) [off..off + len - 1]) con2"
    if "body_ok con1" for con1
    using append_file_fd_ok(1) [of "bo_queue con1" fn name len fd off] that assms(2,3)
    by (auto simp: body_ok_def queued_def)
  from framed_ok [OF assms(1) n, of ?put, OF put] show ?thesis
    by (auto simp: http_chunk_append_file_fd_range_def)
qed


section \<open>The text on the way out\<close>

text \<open>The bytes queued, whether they are in memory or in temporary files.\<close>

definition out_ok :: "os \<Rightarrow> body_out \<Rightarrow> bool" where
  "out_ok os con \<longleftrightarrow> tq_ok os (bo_queue con) \<and> buf_ok (bo_tmp con)"

definition out_text :: "os \<Rightarrow> body_out \<Rightarrow> string" where
  "out_text os con = map the (tq_content os (bo_queue con))"

lemma tq_extend:
  assumes tq: "tq_ok os cq" and ok: "cq_ok cq'" and st: "cq_stream cq' = cq_stream cq @ map Mem s"
    and ch: "cq_chunks cq' = cq_chunks cq @ ys" "list_all (\<lambda>y. \<not> ck_is_temp y) ys"
    and td: "cq_tempdirs cq' = cq_tempdirs cq"
  shows "tq_ok os cq' \<and> tq_content os cq' = tq_content os cq @ map Some s"
proof -
  have c: "tq_content os cq' = tq_content os cq @ map Some s"
    by (simp add: tq_content_def cq_content_def st comp_def octet_val_def)
  have names: "temp_names ys = []" using ch(2) by (auto simp: temp_names_def filter_empty_conv list_all_iff)
  have "\<not> appendable (last ys)" if "ys \<noteq> []"
    using that ch(2) last_in_set [OF that] by (auto simp: appendable_def list_all_iff)
  then have "disk_ok (os_disk os) cq'"
    using tq c names ch(2) unfolding tq_ok_def disk_ok_def tq_content_def ch(1) st
    by (cases "ys = []") (auto simp: list_all_iff)
  then show ?thesis using c ok td tq by (simp add: tq_ok_def dirs_ok_def)
qed

lemma append_chunk_shape:
  "chunkqueue_append_chunk cq c = Some cq' \<Longrightarrow> cq_chunks cq' = cq_chunks cq @ [c] \<and> cq_tempdirs cq' = cq_tempdirs cq"
  by (auto simp: chunkqueue_append_chunk_def bind_eq_Some_conv)

lemma tq_append_mem:
  assumes tq: "tq_ok os cq" and s: "length s + 1 < SIZE_T"
  shows "\<exists>cq'. chunkqueue_append_mem cq s = Some cq' \<and> tq_ok os cq' \<and> tq_content os cq' = tq_content os cq @ map Some s"
proof -
  have ok: "cq_ok cq" using tq by (simp add: tq_ok_def)
  obtain cq' where cq': "chunkqueue_append_mem cq s = Some cq'" "cq_ok cq'" "cq_stream cq' = cq_stream cq @ map Mem s"
    using append_mem_ok [OF ok s] by blast
  have "\<exists>ys. cq_chunks cq' = cq_chunks cq @ ys \<and> list_all (\<lambda>y. \<not> ck_is_temp y) ys \<and> cq_tempdirs cq' = cq_tempdirs cq"
  proof (cases "s = []")
    case True
    then show ?thesis using cq'(1) by (intro exI [of _ "[]"]) (simp add: chunkqueue_append_mem_def)
  next
    case False
    obtain cq1 c where u: "chunkqueue_get_unused_chunk cq = (cq1, c)" by (meson surj_pair)
    have un: "same_but_spares cq cq1" "spare_ok c" using get_unused_ok [OF _ u] ok by (auto simp: cq_ok_def)
    note same = same_but_sparesD [OF un(1)]
    obtain b where a: "chunkqueue_append_chunk cq1 (c\<lparr>ck_type := MEM_CHUNK, ck_mem := b\<rparr>) = Some cq'"
      using cq'(1) False u by (auto simp: chunkqueue_append_mem_def bind_eq_Some_conv)
    show ?thesis
      using append_chunk_shape [OF a] same(1,5) un(2)
      by (intro exI [of _ "[c\<lparr>ck_type := MEM_CHUNK, ck_mem := b\<rparr>]"]) (simp add: spare_ok_def)
  qed
  then show ?thesis using tq_extend [OF tq cq'(2,3)] cq'(1) by blast
qed

lemma tq_append_buffer:
  assumes tq: "tq_ok os cq" and b: "buf_ok mem"
  shows "\<exists>cq' mem'. chunkqueue_append_buffer cq mem = Some (cq', mem') \<and> tq_ok os cq' \<and> buf_ok mem' \<and>
    tq_content os cq' = tq_content os cq @ map Some (buf_str mem)"
proof -
  have ok: "cq_ok cq" using tq by (simp add: tq_ok_def)
  obtain cq' mem' where cq': "chunkqueue_append_buffer cq mem = Some (cq', mem')" "cq_ok cq'"
    "cq_stream cq' = cq_stream cq @ map Mem (buf_str mem)" "buf_ok mem'"
    using append_buffer_ok [OF ok b] by blast
  have "\<exists>ys. cq_chunks cq' = cq_chunks cq @ ys \<and> list_all (\<lambda>y. \<not> ck_is_temp y) ys \<and> cq_tempdirs cq' = cq_tempdirs cq"
  proof (cases "buffer_string_is_empty mem")
    case True
    then show ?thesis using cq'(1) by (intro exI [of _ "[]"]) (simp add: chunkqueue_append_buffer_def)
  next
    case False
    obtain cq1 c where u: "chunkqueue_get_unused_chunk cq = (cq1, c)" by (meson surj_pair)
    have un: "same_but_spares cq cq1" "spare_ok c" using get_unused_ok [OF _ u] ok by (auto simp: cq_ok_def)
    note same = same_but_sparesD [OF un(1)]
    obtain b where a: "chunkqueue_append_chunk cq1 (c\<lparr>ck_type := MEM_CHUNK, ck_mem := b\<rparr>) = Some cq'"
      using cq'(1) False u by (auto simp: chunkqueue_append_buffer_def bind_eq_Some_conv split: prod.splits)
    show ?thesis
      using append_chunk_shape [OF a] same(1,5) un(2)
      by (intro exI [of _ "[c\<lparr>ck_type := MEM_CHUNK, ck_mem := b\<rparr>]"]) (simp add: spare_ok_def)
  qed
  then show ?thesis using tq_extend [OF tq cq'(2,3)] cq'(1,4) by blast
qed

text \<open>\<open>con'\<close> with the files \<open>os'\<close> has \<open>s\<close> queued behind what \<open>con\<close> had with \<open>os\<close>.\<close>

definition sent :: "os \<Rightarrow> body_out \<Rightarrow> string \<Rightarrow> os \<Rightarrow> body_out \<Rightarrow> bool" where
  "sent os con s os' con' \<longleftrightarrow> out_ok os' con' \<and> out_text os' con' = out_text os con @ s \<and>
     bo_chunked con' = bo_chunked con \<and> bo_bufmin con' = bo_bufmin con"

lemma sent_trans: "sent os con s os1 con1 \<Longrightarrow> sent os1 con1 t os2 con2 \<Longrightarrow> sent os con (s @ t) os2 con2"
  by (simp add: sent_def)

lemma sent_queue:
  assumes "out_ok os con" and "tq_ok os' cq'" and "tq_content os' cq' = tq_content os (bo_queue con) @ map Some s"
    and "buf_ok b"
  shows "sent os con s os' (con\<lparr>bo_tmp := b, bo_queue := cq'\<rparr>)" and "sent os con s os' (con\<lparr>bo_queue := cq'\<rparr>)"
  using assms by (simp_all add: sent_def out_ok_def out_text_def comp_def)

lemma append_len_sent:
  assumes "out_ok os con"
  shows "\<exists>con'. http_chunk_append_len con (of_nat n) = Some con' \<and> sent os con (frame_head n) os con'"
proof -
  obtain b b1 b2 where b: "buffer_string_set_length (bo_tmp con) 0 = Some b"
    "buffer_append_uint_hex b (of_nat n) = Some b1"
    "buffer_append_string_len b1 CRLF = Some b2" "buf_holds b2 (uint_hex_str (of_nat n) @ CRLF)"
    using frame_head_ok [of "bo_tmp con" "of_nat n"] assms by (auto simp: out_ok_def)
  have tq: "tq_ok os (bo_queue con)" using assms by (simp add: out_ok_def)
  obtain cq b3 where a: "chunkqueue_append_buffer (bo_queue con) b2 = Some (cq, b3)" "tq_ok os cq" "buf_ok b3"
    "tq_content os cq = tq_content os (bo_queue con) @ map Some (frame_head n)"
    using tq_append_buffer [OF tq buf_holdsD(4) [OF b(4)]] buf_holdsD(3) [OF b(4)] by (auto simp: frame_head_def)
  then show ?thesis
    using b(1-3) sent_queue(1) [OF assms a(2,4,3)] by (simp add: http_chunk_append_len_def)
qed

lemma append_mem_sent:
  assumes "out_ok os con" and "length s + 1 < SIZE_T"
  shows "\<exists>cq. chunkqueue_append_mem (bo_queue con) s = Some cq \<and> sent os con s os (con\<lparr>bo_queue := cq\<rparr>)"
  using tq_append_mem [of os "bo_queue con" s] sent_queue(2) [OF assms(1)] assms by (auto simp: out_ok_def)

lemma append_crlf_sent:
  assumes "out_ok os con"
  shows "\<exists>con'. append_crlf con = Some con' \<and> sent os con CRLF os con'"
  using append_mem_sent [OF assms, of CRLF] by (auto simp: append_crlf_def SIZE_T_def)

lemma tempfile_sent:
  assumes "out_ok os con" and "chunkqueue_append_mem_to_tempfile os (bo_queue con) s = Some (os', cq', True)"
    and "buf_ok b"
  shows "sent os con s os' (con\<lparr>bo_tmp := b, bo_queue := cq'\<rparr>)" and "sent os con s os' (con\<lparr>bo_queue := cq'\<rparr>)"
proof -
  have tq: "tq_ok os (bo_queue con)" using assms(1) by (simp add: out_ok_def)
  obtain k where k: "tq_ok os' cq'" "tq_content os' cq' = tq_content os (bo_queue con) @ map Some (take k s)" "length s \<le> k"
    using append_to_tempfile_ok [OF tq assms(2) [unfolded chunkqueue_append_mem_to_tempfile_def]] by auto
  then have "tq_content os' cq' = tq_content os (bo_queue con) @ map Some s" by simp
  from sent_queue [OF assms(1) k(1) this assms(3)]
  show "sent os con s os' (con\<lparr>bo_tmp := b, bo_queue := cq'\<rparr>)" and "sent os con s os' (con\<lparr>bo_queue := cq'\<rparr>)" .
qed

lemma append_to_tempfile_sent:
  assumes ok: "out_ok os con" and ne: "mem \<noteq> []"
    and r: "http_chunk_append_to_tempfile os con mem = Some (os', con', True)"
  shows "sent os con (wire_text (bo_chunked con) mem) os' con'"
proof (cases "bo_chunked con")
  case False
  then obtain cq where "chunkqueue_append_mem_to_tempfile os (bo_queue con) mem = Some (os', cq, True)"
    "con' = con\<lparr>bo_queue := cq\<rparr>"
    using r by (auto simp: http_chunk_append_to_tempfile_def bind_eq_Some_conv Let_def split: if_splits)
  then show ?thesis using tempfile_sent(2) [OF ok, of mem os' _ "bo_tmp con"] ok False ne by (simp add: wire_text_def out_ok_def)
next
  case True
  let ?n = "of_nat (length mem) :: 64 word"
  obtain b b1 b2 where b: "buffer_string_set_length (bo_tmp con) 0 = Some b"
    "buffer_append_uint_hex b ?n = Some b1" "buffer_append_string_len b1 CRLF = Some b2"
    "buf_holds b2 (uint_hex_str ?n @ CRLF)"
    using frame_head_ok [of "bo_tmp con" ?n] ok by (auto simp: out_ok_def)
  note h = buf_holdsD(3,4) [OF b(4)]
  have str: "buf_str b2 = frame_head (length mem)" using h(1) by (simp add: frame_head_def)
  obtain os1 cq1 where 1: "chunkqueue_append_mem_to_tempfile os (bo_queue con) (frame_head (length mem)) = Some (os1, cq1, True)"
    and r1: "(do {
       (os, cq, ok) \<leftarrow> chunkqueue_append_mem_to_tempfile os1 cq1 mem;
       let con = con\<lparr>bo_tmp := b2, bo_queue := cq\<rparr>;
       if \<not> ok then Some (os, con, False)
       else if bo_chunked con then do {
         (os, cq, ok) \<leftarrow> chunkqueue_append_mem_to_tempfile os (bo_queue con) CRLF;
         Some (os, con\<lparr>bo_queue := cq\<rparr>, ok)
       }
       else Some (os, con, True)
     }) = Some (os', con', True)"
  proof (cases "chunkqueue_append_mem_to_tempfile os (bo_queue con) (frame_head (length mem))")
    case None
    then show ?thesis using r True b(1-3) str by (simp add: http_chunk_append_to_tempfile_def)
  next
    case (Some x)
    obtain os1 cq1 ok1 where x: "x = (os1, cq1, ok1)" by (cases x)
    have k: "ok1" using r True b(1-3) str Some x by (cases ok1) (simp_all add: http_chunk_append_to_tempfile_def)
    then show ?thesis
      using r True b(1-3) str Some x by (intro that) (simp_all add: http_chunk_append_to_tempfile_def)
  qed
  let ?c1 = "con\<lparr>bo_tmp := b2, bo_queue := cq1\<rparr>"
  note s1 = tempfile_sent(1) [OF ok 1 h(2)]
  obtain os2 cq2 where 2: "chunkqueue_append_mem_to_tempfile os1 (bo_queue ?c1) mem = Some (os2, cq2, True)"
    and r2: "(do {
         (os, cq, ok) \<leftarrow> chunkqueue_append_mem_to_tempfile os2 cq2 CRLF;
         Some (os, con\<lparr>bo_tmp := b2, bo_queue := cq\<rparr>, ok)
       }) = Some (os', con', True)"
    using r1 True by (auto simp: bind_eq_Some_conv Let_def split: if_splits)
  have o1: "out_ok os1 ?c1" using s1 by (simp add: sent_def)
  note s2 = tempfile_sent(2) [OF o1 2 h(2)]
  let ?c2 = "?c1\<lparr>bo_queue := cq2\<rparr>"
  obtain cq3 where 3: "chunkqueue_append_mem_to_tempfile os2 (bo_queue ?c2) CRLF = Some (os', cq3, True)"
    and c3: "con' = ?c2\<lparr>bo_queue := cq3\<rparr>"
    using r2 by (auto simp: bind_eq_Some_conv)
  have o2: "out_ok os2 ?c2" using s2 by (simp add: sent_def)
  note s3 = tempfile_sent(2) [OF o2 3 h(2)]
  show ?thesis
    using sent_trans [OF sent_trans [OF s1 s2] s3] c3 True ne by (simp add: wire_text_def)
qed

text \<open>Every way of sending a piece of data that reports success frames it the same.\<close>

lemma append_data_sent:
  assumes ok: "out_ok os con" and b: "case b of None \<Rightarrow> length mem + 1 < SIZE_T | Some b \<Rightarrow> buf_ok b"
    and r: "http_chunk_append_data os con b mem = Some (os', con', b', True)"
  shows "sent os con (wire_text (bo_chunked con) (case b of None \<Rightarrow> mem | Some b \<Rightarrow> buf_str b)) os' con'"
proof -
  define data where "data = (case b of None \<Rightarrow> mem | Some b \<Rightarrow> buf_str b)"
  have len: "(case b of None \<Rightarrow> length mem | Some b \<Rightarrow> buffer_string_length b) = length data"
    using b by (auto simp: data_def buffer_string_length_eq split: option.splits)
  consider "data = []" | "data \<noteq> []" "spills con (length data)" | "data \<noteq> []" "\<not> spills con (length data)" by blast
  then have "sent os con (wire_text (bo_chunked con) data) os' con'"
  proof cases
    case 1
    then have "os' = os" "con' = con" using r unfolding http_chunk_append_data_def len by simp_all
    then show ?thesis using ok 1 by (simp add: sent_def wire_text_def)
  next
    case 2
    then have "http_chunk_append_to_tempfile os con data = Some (os', con', True)"
      using r unfolding http_chunk_append_data_def len data_def [symmetric] by (auto simp: bind_eq_Some_conv Let_def)
    from append_to_tempfile_sent [OF ok 2(1) this] show ?thesis .
  next
    case 3
    let ?put = "\<lambda>con. (case b of
               Some b \<Rightarrow> map_option (\<lambda>(cq, b). (cq, Some b)) (chunkqueue_append_buffer (bo_queue con) b)
             | None \<Rightarrow> map_option (\<lambda>cq. (cq, None)) (chunkqueue_append_mem (bo_queue con) mem))"
    have put: "\<exists>cq b'. ?put con1 = Some (cq, b') \<and> sent os con1 data os (con1\<lparr>bo_queue := cq\<rparr>)"
      if o1: "out_ok os con1" for con1
    proof (cases b)
      case None
      then show ?thesis using append_mem_sent [OF o1, of mem] b by (auto simp: data_def)
    next
      case (Some bb)
      have tq: "tq_ok os (bo_queue con1)" using o1 by (simp add: out_ok_def)
      from tq_append_buffer [OF tq, of bb] Some b obtain cq m where
        "chunkqueue_append_buffer (bo_queue con1) bb = Some (cq, m)" "tq_ok os cq" "buf_ok m"
        "tq_content os cq = tq_content os (bo_queue con1) @ map Some (buf_str bb)" by auto
      then show ?thesis using sent_queue(2) [OF o1] Some by (auto simp: data_def)
    qed
    show ?thesis
    proof (cases "bo_chunked con")
      case True
      obtain con1 where c1: "http_chunk_append_len con (of_nat (length data)) = Some con1"
        "sent os con (frame_head (length data)) os con1"
        using append_len_sent [OF ok] by blast
      then obtain cq m where c2: "?put con1 = Some (cq, m)" "sent os con1 data os (con1\<lparr>bo_queue := cq\<rparr>)"
        using put [of con1] by (auto simp: sent_def)
      then have o2: "out_ok os (con1\<lparr>bo_queue := cq\<rparr>)" by (simp add: sent_def)
      obtain con3 where c3: "append_crlf (con1\<lparr>bo_queue := cq\<rparr>) = Some con3" "sent os (con1\<lparr>bo_queue := cq\<rparr>) CRLF os con3"
        using append_crlf_sent [OF o2] by blast
      have "bo_chunked con1" using c1(2) True by (simp add: sent_def)
      then have "os' = os" "con' = con3"
        using r 3 True c1(1) c2(1) c3(1) unfolding http_chunk_append_data_def len by (simp_all add: Let_def)
      then show ?thesis
        using sent_trans [OF sent_trans [OF c1(2) c2(2)] c3(2)] True 3(1) by (simp add: wire_text_def)
    next
      case False
      obtain cq m where c2: "?put con = Some (cq, m)" "sent os con data os (con\<lparr>bo_queue := cq\<rparr>)"
        using put [OF ok] by blast
      then have "os' = os" "con' = con\<lparr>bo_queue := cq\<rparr>"
        using r 3 False unfolding http_chunk_append_data_def len by (simp_all add: Let_def)
      then show ?thesis using c2(2) False 3(1) by (simp add: wire_text_def)
    qed
  qed
  then show ?thesis by (simp add: data_def)
qed

text \<open>Data that stays in memory is always accepted.\<close>

lemma append_data_accepted:
  assumes ok: "out_ok os con" and mem: "length mem + 1 < SIZE_T" and "\<not> spills con (length mem)"
  shows "\<exists>con'. http_chunk_append_data os con None mem = Some (os, con', None, True)"
proof (cases "mem = []")
  case True
  then show ?thesis by (simp add: http_chunk_append_data_def)
next
  case False
  obtain con1 where 1: "(if bo_chunked con then http_chunk_append_len con (of_nat (length mem)) else Some con) = Some con1"
    "out_ok os con1" "bo_chunked con1 = bo_chunked con"
    using append_len_sent [OF ok, of "length mem"] ok by (cases "bo_chunked con") (auto simp: sent_def)
  obtain cq where 2: "chunkqueue_append_mem (bo_queue con1) mem = Some cq" "out_ok os (con1\<lparr>bo_queue := cq\<rparr>)"
    using append_mem_sent [OF 1(2) mem] by (auto simp: sent_def)
  obtain con2 where 3: "append_crlf (con1\<lparr>bo_queue := cq\<rparr>) = Some con2"
    using append_crlf_sent [OF 2(2)] by auto
  show ?thesis using assms(3) False 1 2(1) 3 by (simp add: http_chunk_append_data_def Let_def)
qed

lemma close_sent:
  assumes "out_ok os con"
  shows "\<exists>con'. http_chunk_close con = Some con' \<and> sent os con (wire_end (bo_chunked con)) os con'"
  using append_mem_sent [OF assms, of "''0'' @ CRLF @ CRLF"] assms
  by (cases "bo_chunked con") (auto simp: http_chunk_close_def wire_end_def SIZE_T_def sent_def)


section \<open>Properties\<close>

text \<open>A handler that produces a body sends it piece by piece; it stops when a piece is refused.\<close>

fun send_all :: "os \<Rightarrow> body_out \<Rightarrow> string list \<Rightarrow> (os \<times> body_out) option" where
  "send_all os con [] = Some (os, con)"
| "send_all os con (s # ss) = do {
     (os, con, _, ok) \<leftarrow> http_chunk_append_mem os con s;
     if ok then send_all os con ss else None
   }"

lemma send_all_sent:
  assumes "out_ok os con" and "\<forall>s \<in> set ss. length s + 1 < SIZE_T" and "send_all os con ss = Some (os', con')"
  shows "sent os con (concat (map (wire_text (bo_chunked con)) ss)) os' con'"
  using assms
proof (induction ss arbitrary: os con)
  case Nil
  then show ?case by (simp add: sent_def)
next
  case (Cons s ss)
  obtain os1 con1 b where 1: "http_chunk_append_data os con None s = Some (os1, con1, b, True)"
    and 2: "send_all os1 con1 ss = Some (os', con')"
    using Cons.prems(3) by (auto simp: http_chunk_append_mem_def bind_eq_Some_conv split: if_splits)
  have s1: "sent os con (wire_text (bo_chunked con) s) os1 con1"
    using append_data_sent [OF Cons.prems(1) _ 1] Cons.prems(2) by simp
  then have "bo_chunked con1 = bo_chunked con" "out_ok os1 con1" by (simp_all add: sent_def)
  with Cons.IH [of os1 con1] Cons.prems(2) 2
  have "sent os1 con1 (concat (map (wire_text (bo_chunked con)) ss)) os' con'" by simp
  from sent_trans [OF s1 this] show ?case by simp
qed

lemma dechunk_wires:
  "\<forall>s \<in> set ss. length s + 1 < SIZE_T \<Longrightarrow> dechunk (concat (map (wire_text True) ss) @ wire_end True) = Some (concat ss)"
  by (induction ss) (simp_all add: dechunk_end dechunk_wire)

text \<open>C18: A body sent in any number of pieces, in memory or through temporary files, and closed is what a
  client decodes from the queued bytes when the response is chunked, and the queued bytes themselves when it
  is not; closing never fails.\<close>

theorem body_roundtrip:
  assumes "out_ok os con" and "out_text os con = []" and "\<forall>s \<in> set ss. length s + 1 < SIZE_T"
    and "send_all os con ss = Some (os', con')"
  shows "\<exists>con2. http_chunk_close con' = Some con2 \<and>
    (if bo_chunked con then dechunk (out_text os' con2) = Some (concat ss) else out_text os' con2 = concat ss)"
proof -
  have s: "sent os con (concat (map (wire_text (bo_chunked con)) ss)) os' con'"
    by (rule send_all_sent [OF assms(1,3,4)])
  then obtain con2 where c: "http_chunk_close con' = Some con2" "sent os' con' (wire_end (bo_chunked con')) os' con2"
    using close_sent [of os' con'] by (auto simp: sent_def)
  have t: "out_text os' con2 = concat (map (wire_text (bo_chunked con)) ss) @ wire_end (bo_chunked con)"
    using s c(2) assms(2) by (simp add: sent_def)
  have plain: "concat (map (wire_text False) ss) = concat ss" by (induction ss) (simp_all add: wire_text_def)
  show ?thesis
    using c(1) t dechunk_wires [OF assms(3)] plain by (cases "bo_chunked con") (simp_all add: wire_end_def)
qed

text \<open>C20: Appending a range of a file queues exactly its bytes, framed when the response is chunked, and
  returns 0; a range that does not lie in the file leaves the queue alone, closes the file and returns -1,
  except that the rest of a file from its end is empty and returns 0.\<close>

theorem file_range_queued:
  assumes "body_ok con" and "buf_holds fn name" and "0 \<le> off" and "0 \<le> n" and "n < int SIZE_T"
    and "len = - 1 \<or> 0 \<le> len"
  defines "real \<equiv> (if len = - 1 then n - off else len)"
  shows "if off + real \<le> n \<and> (len = - 1 \<longrightarrow> off < n)
    then \<exists>con' io. http_chunk_append_file_range (Some (fd, n)) con fn off len = Some (con', io, 0) \<and>
      queued con (wire (bo_chunked con) (map (Disk name) [off..off + real - 1])) con'
    else http_chunk_append_file_range (Some (fd, n)) con fn off len =
      Some (con, [Close fd], if len = - 1 \<and> off = n then 0 else - 1)"
proof (cases "off + real \<le> n \<and> (len = - 1 \<longrightarrow> off < n)")
  case True
  then have "0 \<le> real" "real < int SIZE_T" using assms(3,5,6) by (auto simp: real_def)
  from file_fd_range_ok [OF assms(1,2) this, of fd off] obtain con' io where
    "http_chunk_append_file_fd_range con fn fd off real = Some (con', io)"
    "queued con (wire (bo_chunked con) (map (Disk name) [off..off + real - 1])) con'" by blast
  moreover have "http_chunk_append_file_range (Some (fd, n)) con fn off len = do {
      (con, io) \<leftarrow> http_chunk_append_file_fd_range con fn fd off real;
      Some (con, io, 0)
    }"
    using True assms(6) unfolding http_chunk_append_file_range_def real_def by (cases "len = - 1") simp_all
  ultimately show ?thesis unfolding if_P [OF True] by simp
next
  case False
  then have "http_chunk_append_file_range (Some (fd, n)) con fn off len =
      Some (con, [Close fd], if len = - 1 \<and> off = n then 0 else - 1)"
    unfolding http_chunk_append_file_range_def real_def by (cases "len = - 1") simp_all
  then show ?thesis unfolding if_not_P [OF False] .
qed

definition sample_out :: body_out where
  "sample_out = \<lparr>bo_tmp = buffer_init, bo_queue = chunkqueue_init None 1000, bo_chunked = True, bo_bufmin = False\<rparr>"

lemma sample_out_ok: "body_ok sample_out" "out_ok (sample_os []) sample_out" "out_text (sample_os []) sample_out = []"
  by (simp_all add: body_ok_def out_ok_def out_text_def tq_ok_def tq_content_def cq_content_def disk_ok_def cq_ok_def
    sample_out_def spares_ok_def chunkqueue_init_def cq_stream_def dirs_ok_def temp_names_def buffer_init_ok)

theorem body_roundtrip_witness:
  "\<exists>os' con' con2. send_all (sample_os []) sample_out [''ab'', ''''] = Some (os', con') \<and>
    http_chunk_close con' = Some con2 \<and> dechunk (out_text os' con2) = Some ''ab''"
proof -
  obtain os' con' where s: "send_all (sample_os []) sample_out [''ab'', ''''] = Some (os', con')"
    using append_data_accepted [OF sample_out_ok(2), of "''ab''"]
    by (auto simp: http_chunk_append_mem_def http_chunk_append_data_def [where mem = "[]"] SIZE_T_def spills_def
      sample_out_def chunkqueue_init_def)
  from body_roundtrip [OF sample_out_ok(2,3) _ s] s show ?thesis
    by (auto simp: SIZE_T_def sample_out_def)
qed

theorem file_range_queued_witness:
  "\<exists>con' io. http_chunk_append_file_range (Some (7, 10)) sample_out (buf_lit ''f'') 8 (- 1) = Some (con', io, 0) \<and>
    queued sample_out (map Mem (''02'' @ CRLF) @ [Disk ''f'' 8, Disk ''f'' 9] @ map Mem CRLF) con'"
proof -
  have h: "buf_holds (buf_lit ''f'') ''f''" by (rule buf_lit_holds) (simp add: SIZE_T_def)
  have w: "wire (bo_chunked sample_out) (map (Disk ''f'') [8..9]) =
      map Mem (''02'' @ CRLF) @ [Disk ''f'' 8, Disk ''f'' 9] @ map Mem CRLF"
    by code_simp
  from file_range_queued [OF sample_out_ok(1) h, of 8 10 "- 1" 7] show ?thesis
    unfolding w [symmetric] by (simp add: SIZE_T_def)
qed

end
