(* ===== verification/Splaytree.thy ===== *)
theory Splaytree
  imports Prelude
begin

text \<open>
  Top-down splay trees (\<open>splaytree.c\<close>), the index of the stat cache: every access moves the node it
  looks for to the root, and every node stores the number of nodes below it.
\<close>

section \<open>The tree\<close>

text \<open>\<open>Nd l k n d r\<close> has the fields \<open>left\<close>, \<open>key\<close>, \<open>size\<close>, \<open>data\<close>, \<open>right\<close>; the two integers are C \<open>int\<close>s.\<close>

datatype 'd splay_tree = Tip | Nd "'d splay_tree" "32 word" "32 word" 'd "'d splay_tree"

definition compare_key :: "32 word \<Rightarrow> 32 word \<Rightarrow> int" where
  "compare_key i j = sint (i - j)"

fun splaytree_size :: "'d splay_tree \<Rightarrow> 32 word" where
  "splaytree_size Tip = 0"
| "splaytree_size (Nd _ _ n _ _) = n"

text \<open>
  The trees the loop builds from \<open>N.right\<close> and \<open>N.left\<close> are spines: lists of the nodes that were
  linked, the last one first, without the child through which the next one is linked.
\<close>

type_synonym 'd left_spine = "('d splay_tree \<times> 32 word \<times> 32 word \<times> 'd) list"
type_synonym 'd right_spine = "(32 word \<times> 32 word \<times> 'd \<times> 'd splay_tree) list"

text \<open>The loop; the result is \<open>t\<close>, the two spines and \<open>l_size\<close> and \<open>r_size\<close> where it stops.\<close>

fun splay_loop :: "32 word \<Rightarrow> 'd splay_tree \<Rightarrow> 'd left_spine \<Rightarrow> 'd right_spine \<Rightarrow> 32 word \<Rightarrow> 32 word \<Rightarrow>
    'd splay_tree \<times> 'd left_spine \<times> 'd right_spine \<times> 32 word \<times> 32 word" where
  "splay_loop i Tip ls rs l_size r_size = (Tip, ls, rs, l_size, r_size)"
| "splay_loop i (Nd lt k n d rt) ls rs l_size r_size =
     (let stop = (Nd lt k n d rt, ls, rs, l_size, r_size)
      in if compare_key i k < 0 then
        (case lt of
           Tip \<Rightarrow> stop
         | Nd a k1 n1 d1 b \<Rightarrow>
             if compare_key i k1 < 0
             then let t = Nd b k (splaytree_size b + splaytree_size rt + 1) d rt
               in if a = Tip then (Nd a k1 n1 d1 t, ls, rs, l_size, r_size)
                  else splay_loop i a ls ((k1, n1, d1, t) # rs) l_size (r_size + (1 + splaytree_size t))
             else splay_loop i (Nd a k1 n1 d1 b) ls ((k, n, d, rt) # rs) l_size (r_size + (1 + splaytree_size rt)))
      else if compare_key i k > 0 then
        (case rt of
           Tip \<Rightarrow> stop
         | Nd a k1 n1 d1 b \<Rightarrow>
             if compare_key i k1 > 0
             then let t = Nd lt k (splaytree_size lt + splaytree_size a + 1) d a
               in if b = Tip then (Nd t k1 n1 d1 b, ls, rs, l_size, r_size)
                  else splay_loop i b ((t, k1, n1, d1) # ls) rs (l_size + (1 + splaytree_size t)) r_size
             else splay_loop i (Nd a k1 n1 d1 b) ((lt, k, n, d) # ls) rs (l_size + (1 + splaytree_size lt)) r_size)
      else stop)"

text \<open>The two loops that set the sizes along the spines, from the top.\<close>

primrec resize_left :: "'d left_spine \<Rightarrow> 32 word \<Rightarrow> 'd left_spine" where
  "resize_left [] _ = []"
| "resize_left (y # ys) l_size =
     (case y of (a, k, _, d) \<Rightarrow> (a, k, l_size, d) # resize_left ys (l_size - (1 + splaytree_size a)))"

primrec resize_right :: "'d right_spine \<Rightarrow> 32 word \<Rightarrow> 'd right_spine" where
  "resize_right [] _ = []"
| "resize_right (y # ys) r_size =
     (case y of (k, _, d, b) \<Rightarrow> (k, r_size, d, b) # resize_right ys (r_size - (1 + splaytree_size b)))"

text \<open>The trees of the spines, from the top, with a last child.\<close>

primrec left_tree :: "'d left_spine \<Rightarrow> 'd splay_tree \<Rightarrow> 'd splay_tree" where
  "left_tree [] t = t"
| "left_tree (y # ys) t = (case y of (a, k, n, d) \<Rightarrow> Nd a k n d (left_tree ys t))"

primrec right_tree :: "'d right_spine \<Rightarrow> 'd splay_tree \<Rightarrow> 'd splay_tree" where
  "right_tree [] t = t"
| "right_tree (y # ys) t = (case y of (k, n, d, b) \<Rightarrow> Nd (right_tree ys t) k n d b)"

definition splaytree_splay :: "'d splay_tree \<Rightarrow> 32 word \<Rightarrow> 'd splay_tree" where
  "splaytree_splay t i =
     (case splay_loop i t [] [] 0 0 of
        (Tip, _) \<Rightarrow> Tip
      | (Nd lt k n d rt, ls, rs, l_size, r_size) \<Rightarrow>
          let l_size = l_size + splaytree_size lt;
              r_size = r_size + splaytree_size rt
          in Nd (left_tree (resize_left (rev ls) l_size) lt) k (l_size + r_size + 1) d
               (right_tree (resize_right (rev rs) r_size) rt))"

definition splaytree_insert :: "'d splay_tree \<Rightarrow> 32 word \<Rightarrow> 'd \<Rightarrow> 'd splay_tree" where
  "splaytree_insert t i d =
     (case splaytree_splay t i of
        Tip \<Rightarrow> Nd Tip i 1 d Tip
      | Nd lt k n d1 rt \<Rightarrow>
          if compare_key i k = 0 then Nd lt k n d1 rt
          else if compare_key i k < 0
          then let t = Nd Tip k (1 + splaytree_size rt) d1 rt
            in Nd lt i (1 + splaytree_size lt + splaytree_size t) d t
          else let t = Nd lt k (1 + splaytree_size lt) d1 Tip
            in Nd t i (1 + splaytree_size t + splaytree_size rt) d rt)"

definition splaytree_delete :: "'d splay_tree \<Rightarrow> 32 word \<Rightarrow> 'd splay_tree" where
  "splaytree_delete t i =
     (let tsize = splaytree_size t
      in case splaytree_splay t i of
           Tip \<Rightarrow> Tip
         | Nd lt k n d rt \<Rightarrow>
             if compare_key i k = 0
             then case (if lt = Tip then rt
                        else case splaytree_splay lt i of
                               Tip \<Rightarrow> Tip
                             | Nd a k1 n1 d1 _ \<Rightarrow> Nd a k1 n1 d1 rt) of
                    Tip \<Rightarrow> Tip
                  | Nd a k1 _ d1 b \<Rightarrow> Nd a k1 (tsize - 1) d1 b
             else Nd lt k n d rt)"

section \<open>Contents and sizes\<close>

fun entries :: "'d splay_tree \<Rightarrow> (32 word \<times> 'd) list" where
  "entries Tip = []"
| "entries (Nd l k _ d r) = entries l @ (k, d) # entries r"

fun sizes_ok :: "'d splay_tree \<Rightarrow> bool" where
  "sizes_ok Tip \<longleftrightarrow> True"
| "sizes_ok (Nd l k n d r) \<longleftrightarrow> sizes_ok l \<and> sizes_ok r \<and> n = of_nat (length (entries l) + length (entries r) + 1)"

lemma sizes_ok_size: "sizes_ok t \<Longrightarrow> splaytree_size t = of_nat (length (entries t))"
  by (cases t) simp_all

text \<open>The contents of the spines, given with the last node linked first.\<close>

definition left_entries :: "'d left_spine \<Rightarrow> (32 word \<times> 'd) list" where
  "left_entries ls = concat (map (\<lambda>(a, k, n, d). entries a @ [(k, d)]) (rev ls))"

definition right_entries :: "'d right_spine \<Rightarrow> (32 word \<times> 'd) list" where
  "right_entries rs = concat (map (\<lambda>(k, n, d, b). (k, d) # entries b) rs)"

lemma left_entries_simps [simp]:
  "left_entries [] = []" "left_entries ((a, k, n, d) # ls) = left_entries ls @ entries a @ [(k, d)]"
  by (simp_all add: left_entries_def)

lemma right_entries_simps [simp]:
  "right_entries [] = []" "right_entries ((k, n, d, b) # rs) = (k, d) # entries b @ right_entries rs"
  by (simp_all add: right_entries_def)

text \<open>What the loop keeps: the contents, and the sizes below the spines.\<close>

definition spines_ok :: "'d left_spine \<Rightarrow> 'd right_spine \<Rightarrow> 32 word \<Rightarrow> 32 word \<Rightarrow> bool" where
  "spines_ok ls rs l_size r_size \<longleftrightarrow>
     (\<forall>(a, _) \<in> set ls. sizes_ok a) \<and> (\<forall>(_, _, _, b) \<in> set rs. sizes_ok b) \<and>
     l_size = of_nat (length (left_entries ls)) \<and> r_size = of_nat (length (right_entries rs))"

lemma spines_ok_simps [simp]:
  "spines_ok [] [] 0 0"
  "sizes_ok a \<Longrightarrow> spines_ok ls rs m n \<Longrightarrow> spines_ok ((a, k, q, d) # ls) rs (m + (1 + splaytree_size a)) n"
  "sizes_ok b \<Longrightarrow> spines_ok ls rs m n \<Longrightarrow> spines_ok ls ((k, q, d, b) # rs) m (n + (1 + splaytree_size b))"
  by (auto simp: spines_ok_def sizes_ok_size)

lemma sizes_ok_rotated:
  "sizes_ok a \<Longrightarrow> sizes_ok b \<Longrightarrow> sizes_ok (Nd a k (splaytree_size a + splaytree_size b + 1) d b)"
  by (simp add: sizes_ok_size)

fun subtrees_ok :: "'d splay_tree \<Rightarrow> bool" where
  "subtrees_ok Tip \<longleftrightarrow> True"
| "subtrees_ok (Nd l _ _ _ r) \<longleftrightarrow> sizes_ok l \<and> sizes_ok r"

lemma sizes_ok_subtrees: "sizes_ok t \<Longrightarrow> subtrees_ok t"
  by (cases t) simp_all

text \<open>Where the loop stops, and what an invariant of it has to survive: rotations and links.\<close>

fun stopped :: "32 word \<Rightarrow> 'd splay_tree \<Rightarrow> bool" where
  "stopped i Tip \<longleftrightarrow> True"
| "stopped i (Nd l k _ _ r) \<longleftrightarrow>
     compare_key i k = 0 \<or> (compare_key i k < 0 \<and> l = Tip) \<or> (compare_key i k > 0 \<and> r = Tip)"

lemma splay_loop_invariant:
  assumes rot_right: "\<And>a k1 n1 d1 b k q d r ls rs m n. P (Nd (Nd a k1 n1 d1 b) k q d r) ls rs m n \<Longrightarrow>
      compare_key i k < 0 \<Longrightarrow> compare_key i k1 < 0 \<Longrightarrow>
      P (Nd a k1 n1 d1 (Nd b k (splaytree_size b + splaytree_size r + 1) d r)) ls rs m n"
    and link_right: "\<And>l k q d r ls rs m n. P (Nd l k q d r) ls rs m n \<Longrightarrow> l \<noteq> Tip \<Longrightarrow> compare_key i k < 0 \<Longrightarrow>
      P l ls ((k, q, d, r) # rs) m (n + (1 + splaytree_size r))"
    and rot_left: "\<And>a k1 n1 d1 b k q d l ls rs m n. P (Nd l k q d (Nd a k1 n1 d1 b)) ls rs m n \<Longrightarrow>
      compare_key i k > 0 \<Longrightarrow> compare_key i k1 > 0 \<Longrightarrow>
      P (Nd (Nd l k (splaytree_size l + splaytree_size a + 1) d a) k1 n1 d1 b) ls rs m n"
    and link_left: "\<And>l k q d r ls rs m n. P (Nd l k q d r) ls rs m n \<Longrightarrow> r \<noteq> Tip \<Longrightarrow> compare_key i k > 0 \<Longrightarrow>
      P r ((l, k, q, d) # ls) rs (m + (1 + splaytree_size l)) n"
    and start: "P t ls rs m n"
  shows "case splay_loop i t ls rs m n of (t', ls', rs', m', n') \<Rightarrow> P t' ls' rs' m' n' \<and> stopped i t'"
  using start
proof (induction t arbitrary: ls rs m n rule: measure_induct_rule [where f = "size"])
  case (less t)
  show ?case
  proof (cases t)
    case Tip
    then show ?thesis using less.prems by simp
  next
    case t: (Nd l k q d r)
    consider (lt) "compare_key i k < 0" | (gt) "compare_key i k > 0" | (eq) "compare_key i k = 0" by linarith
    then show ?thesis
    proof cases
      case c: lt
      show ?thesis
      proof (cases l)
        case Tip
        then show ?thesis using c less.prems t by simp
      next
        case l: (Nd a k1 n1 d1 b)
        show ?thesis
        proof (cases "compare_key i k1 < 0")
          case c1: True
          have p: "P (Nd a k1 n1 d1 (Nd b k (splaytree_size b + splaytree_size r + 1) d r)) ls rs m n"
            using rot_right c c1 less.prems t l by blast
          show ?thesis
          proof (cases "a = Tip")
            case True
            then show ?thesis using p c c1 t l by (simp add: Let_def)
          next
            case False
            have "size a < size t" using t l by simp
            from less.IH [OF this link_right [OF p False c1]] show ?thesis
              using c c1 t l False by (simp add: Let_def)
          qed
        next
          case False
          have "size l < size t" "l \<noteq> Tip" using t l by simp_all
          from less.IH [OF this(1) link_right [OF less.prems [unfolded t] this(2) c]] show ?thesis
            using c False t l by simp
        qed
      qed
    next
      case c: gt
      show ?thesis
      proof (cases r)
        case Tip
        then show ?thesis using c less.prems t by simp
      next
        case r: (Nd a k1 n1 d1 b)
        show ?thesis
        proof (cases "compare_key i k1 > 0")
          case c1: True
          have p: "P (Nd (Nd l k (splaytree_size l + splaytree_size a + 1) d a) k1 n1 d1 b) ls rs m n"
            using rot_left c c1 less.prems t r by blast
          show ?thesis
          proof (cases "b = Tip")
            case True
            then show ?thesis using p c c1 t r by (simp add: Let_def)
          next
            case False
            have "size b < size t" using t r by simp
            from less.IH [OF this link_left [OF p False c1]] show ?thesis
              using c c1 t r False by (simp add: Let_def)
          qed
        next
          case False
          have "size r < size t" "r \<noteq> Tip" using t r by simp_all
          from less.IH [OF this(1) link_left [OF less.prems [unfolded t] this(2) c]] show ?thesis
            using c False t r by simp
        qed
      qed
    next
      case eq
      then show ?thesis using less.prems t by simp
    qed
  qed
qed

text \<open>Keys are not negative (the stat cache strips the highest bit of its hashes), so the comparison does
  not overflow.\<close>

definition nonneg :: "32 word \<Rightarrow> bool" where
  "nonneg k \<longleftrightarrow> 0 \<le> sint k"

lemma compare_key_nonneg: "nonneg i \<Longrightarrow> nonneg k \<Longrightarrow> compare_key i k = sint i - sint k"
proof -
  assume "nonneg i" "nonneg k"
  then have "- (2 ^ 31) \<le> sint i - sint k \<and> sint i - sint k < 2 ^ 31"
    using sint_less [of i] sint_less [of k] by (simp add: nonneg_def)
  then show ?thesis by (simp add: compare_key_def sint_word_ariths signed_take_bit_int_eq_self)
qed

lemma sint_same: "sint (a :: 32 word) = sint b \<longleftrightarrow> a = b"
  by (rule word_eq_iff_signed [symmetric])

text \<open>The keys of a tree with the search order, and the position of a key between the spines.\<close>

definition keys_sorted :: "(32 word \<times> 'd) list \<Rightarrow> bool" where
  "keys_sorted es \<longleftrightarrow> sorted_wrt (\<lambda>x y. sint (fst x) < sint (fst y)) es \<and> (\<forall>x \<in> set es. nonneg (fst x))"

lemma keys_sorted_simps [simp]:
  "keys_sorted []"
  "keys_sorted (x # xs) \<longleftrightarrow> keys_sorted xs \<and> nonneg (fst x) \<and> (\<forall>y \<in> set xs. sint (fst x) < sint (fst y))"
  "keys_sorted (xs @ ys) \<longleftrightarrow> keys_sorted xs \<and> keys_sorted ys \<and>
     (\<forall>x \<in> set xs. \<forall>y \<in> set ys. sint (fst x) < sint (fst y))"
  by (auto simp: keys_sorted_def sorted_wrt_append)

definition tree_ok :: "'d splay_tree \<Rightarrow> bool" where
  "tree_ok t \<longleftrightarrow> keys_sorted (entries t) \<and> sizes_ok t"

definition loop_ok :: "32 word \<Rightarrow> (32 word \<times> 'd) list \<Rightarrow> 'd splay_tree \<Rightarrow> 'd left_spine \<Rightarrow> 'd right_spine \<Rightarrow>
    32 word \<Rightarrow> 32 word \<Rightarrow> bool" where
  "loop_ok i es t ls rs m n \<longleftrightarrow>
     left_entries ls @ entries t @ right_entries rs = es \<and> subtrees_ok t \<and> spines_ok ls rs m n \<and>
     (\<forall>x \<in> set (left_entries ls). sint (fst x) < sint i) \<and> (\<forall>x \<in> set (right_entries rs). sint i < sint (fst x)) \<and>
     (t = Tip \<longrightarrow> es = [])"

lemma splay_loop_ok:
  assumes "keys_sorted (entries t)" and "sizes_ok t" and "nonneg i"
  shows "case splay_loop i t [] [] 0 0 of (t', ls, rs, m, n) \<Rightarrow> loop_ok i (entries t) t' ls rs m n \<and> stopped i t'"
proof (rule splay_loop_invariant [where P = "loop_ok i (entries t)"])
  show "loop_ok i (entries t) t [] [] 0 0" using assms by (auto simp: loop_ok_def sizes_ok_subtrees)
next
  fix a k1 n1 d1 b k q d r ls rs m n
  assume "loop_ok i (entries t) (Nd (Nd a k1 n1 d1 b) k q d r) ls rs m n"
  then show "loop_ok i (entries t) (Nd a k1 n1 d1 (Nd b k (splaytree_size b + splaytree_size r + 1) d r)) ls rs m n"
    by (auto simp: loop_ok_def sizes_ok_size)
next
  fix a k1 n1 d1 b k q d l ls rs m n
  assume "loop_ok i (entries t) (Nd l k q d (Nd a k1 n1 d1 b)) ls rs m n"
  then show "loop_ok i (entries t) (Nd (Nd l k (splaytree_size l + splaytree_size a + 1) d a) k1 n1 d1 b) ls rs m n"
    by (auto simp: loop_ok_def sizes_ok_size)
next
  fix l k q d r ls rs m n
  assume l: "loop_ok i (entries t) (Nd l k q d r) ls rs m n" and ne: "l \<noteq> Tip" and c: "compare_key i k < 0"
  then have "keys_sorted (left_entries ls @ entries (Nd l k q d r) @ right_entries rs)"
    using assms(1) by (simp add: loop_ok_def)
  then have "nonneg k" "\<forall>x \<in> set (entries r). sint k < sint (fst x)" by auto
  moreover from this(1) c have "sint i < sint k" by (simp add: compare_key_nonneg assms(3))
  ultimately show "loop_ok i (entries t) l ls ((k, q, d, r) # rs) m (n + (1 + splaytree_size r))"
    using l ne by (auto simp: loop_ok_def sizes_ok_subtrees)
next
  fix l k q d r ls rs m n
  assume l: "loop_ok i (entries t) (Nd l k q d r) ls rs m n" and ne: "r \<noteq> Tip" and c: "compare_key i k > 0"
  then have "keys_sorted (left_entries ls @ entries (Nd l k q d r) @ right_entries rs)"
    using assms(1) by (simp add: loop_ok_def)
  then have "nonneg k" "\<forall>x \<in> set (entries l). sint (fst x) < sint k" by auto
  moreover from this(1) c have "sint k < sint i" by (simp add: compare_key_nonneg assms(3))
  ultimately show "loop_ok i (entries t) r ((l, k, q, d) # ls) rs (m + (1 + splaytree_size l)) n"
    using l ne by (auto simp: loop_ok_def sizes_ok_subtrees)
qed

text \<open>Putting the spines together.\<close>

lemma entries_left_tree:
  "entries (left_tree (resize_left ys s) t) = concat (map (\<lambda>(a, k, n, d). entries a @ [(k, d)]) ys) @ entries t"
  by (induction ys arbitrary: s) auto

lemma sizes_left_tree:
  "\<lbrakk>\<forall>(a, _) \<in> set ys. sizes_ok a; sizes_ok t;
    s = of_nat (length (concat (map (\<lambda>(a, k, n, d). entries a @ [(k, d)]) ys) @ entries t))\<rbrakk>
    \<Longrightarrow> sizes_ok (left_tree (resize_left ys s) t)"
  by (induction ys arbitrary: s) (auto simp: entries_left_tree sizes_ok_size)

lemma entries_right_tree:
  "entries (right_tree (resize_right ys s) t) =
    entries t @ concat (map (\<lambda>(k, n, d, b). (k, d) # entries b) (rev ys))"
  by (induction ys arbitrary: s) auto

lemma length_concat_rev: "length (concat (rev xss)) = length (concat xss)"
  by (simp add: length_concat rev_map [symmetric])

lemma sizes_right_tree:
  "\<lbrakk>\<forall>(_, _, _, b) \<in> set ys. sizes_ok b; sizes_ok t;
    s = of_nat (length (entries t @ concat (map (\<lambda>(k, n, d, b). (k, d) # entries b) (rev ys))))\<rbrakk>
    \<Longrightarrow> sizes_ok (right_tree (resize_right ys s) t)"
  by (induction ys arbitrary: s) (auto simp: entries_right_tree sizes_ok_size)

text \<open>How the key looked for lies to the root.\<close>

fun rooted :: "32 word \<Rightarrow> 'd splay_tree \<Rightarrow> bool" where
  "rooted i Tip \<longleftrightarrow> True"
| "rooted i (Nd l k _ _ r) \<longleftrightarrow> k = i \<or>
     (sint i < sint k \<and> (\<forall>x \<in> set (entries l). sint (fst x) < sint i)) \<or>
     (sint k < sint i \<and> (\<forall>x \<in> set (entries r). sint i < sint (fst x)))"

lemma splay_ok:
  assumes "tree_ok t" and "nonneg i"
  shows "entries (splaytree_splay t i) = entries t" and "sizes_ok (splaytree_splay t i)"
    and "rooted i (splaytree_splay t i)"
proof -
  obtain t' ls rs m n where s: "splay_loop i t [] [] 0 0 = (t', ls, rs, m, n)" by (metis prod_cases5)
  have lo: "loop_ok i (entries t) t' ls rs m n" and st: "stopped i t'"
    using splay_loop_ok [OF _ _ assms(2), of t] assms(1) s by (simp_all add: tree_ok_def)
  have "entries (splaytree_splay t i) = entries t \<and> sizes_ok (splaytree_splay t i) \<and> rooted i (splaytree_splay t i)"
  proof (cases t')
    case Tip
    then show ?thesis using lo s by (simp add: splaytree_splay_def loop_ok_def)
  next
    case (Nd l k q d r)
    let ?L = "left_tree (resize_left (rev ls) (m + splaytree_size l)) l"
    let ?R = "right_tree (resize_right (rev rs) (n + splaytree_size r)) r"
    have sp: "splaytree_splay t i = Nd ?L k (m + splaytree_size l + (n + splaytree_size r) + 1) d ?R"
      using s Nd by (simp add: splaytree_splay_def Let_def)
    have sub: "sizes_ok l" "sizes_ok r" "\<forall>(a, _) \<in> set ls. sizes_ok a" "\<forall>(_, _, _, b) \<in> set rs. sizes_ok b"
      "m = of_nat (length (left_entries ls))" "n = of_nat (length (right_entries rs))"
      using lo Nd by (auto simp: loop_ok_def spines_ok_def)
    have e: "entries ?L = left_entries ls @ entries l" "entries ?R = entries r @ right_entries rs"
      by (simp_all add: entries_left_tree entries_right_tree left_entries_def right_entries_def)
    have "sizes_ok ?L"
      by (rule sizes_left_tree) (use sub in \<open>auto simp: left_entries_def sizes_ok_size\<close>)
    moreover have "sizes_ok ?R"
      by (rule sizes_right_tree) (use sub in \<open>auto simp: right_entries_def sizes_ok_size\<close>)
    moreover have "keys_sorted (left_entries ls @ entries (Nd l k q d r) @ right_entries rs)"
      using lo assms(1) Nd by (simp add: loop_ok_def tree_ok_def)
    then have "nonneg k" by simp
    moreover have "k = i" if "sint k = sint i" using that by (simp add: sint_same)
    ultimately show ?thesis
      using sp e sub lo st Nd
      by (auto simp: loop_ok_def sizes_ok_size compare_key_nonneg [OF assms(2)])
  qed
  then show "entries (splaytree_splay t i) = entries t" "sizes_ok (splaytree_splay t i)"
    "rooted i (splaytree_splay t i)" by simp_all
qed

text \<open>The result of an access is the tree again, with the node at the root if the key is there.\<close>

lemma splay_tree_ok: "tree_ok t \<Longrightarrow> nonneg i \<Longrightarrow> tree_ok (splaytree_splay t i)"
  by (simp add: tree_ok_def splay_ok [unfolded tree_ok_def])

section \<open>The dictionary\<close>

text \<open>How the stat cache looks a key up: splay and compare the key of the root.\<close>

definition splay_get :: "'d splay_tree \<Rightarrow> 32 word \<Rightarrow> 'd option" where
  "splay_get t i = (case splaytree_splay t i of Tip \<Rightarrow> None | Nd _ k _ d _ \<Rightarrow> if k = i then Some d else None)"

definition dict :: "'d splay_tree \<Rightarrow> 32 word \<Rightarrow> 'd option" where
  "dict t = map_of (entries t)"

lemma map_of_sorted_None:
  "\<forall>x \<in> set es. sint (fst x) < sint k \<Longrightarrow> map_of es k = None" "\<forall>x \<in> set es. sint k < sint (fst x) \<Longrightarrow> map_of es k = None"
  by (force simp: map_of_eq_None_iff)+

lemma rooted_dict:
  assumes "keys_sorted (entries (Nd l k n d r))" and "rooted i (Nd l k n d r)"
  shows "map_of (entries (Nd l k n d r)) i = (if k = i then Some d else None)"
proof -
  have "map_of (entries l) k = None" using assms(1) by (intro map_of_sorted_None(1)) auto
  moreover have "map_of (entries l) i = None \<and> map_of (entries r) i = None" if "k \<noteq> i"
  proof -
    consider "sint i < sint k" "\<forall>x \<in> set (entries l). sint (fst x) < sint i"
      | "sint k < sint i" "\<forall>x \<in> set (entries r). sint i < sint (fst x)" using assms(2) \<open>k \<noteq> i\<close> by auto
    then show ?thesis
    proof cases
      case 1
      moreover have "\<forall>x \<in> set (entries r). sint i < sint (fst x)" using 1(1) assms(1) by force
      ultimately show ?thesis by (simp add: map_of_sorted_None)
    next
      case 2
      moreover have "\<forall>x \<in> set (entries l). sint (fst x) < sint i" using 2(1) assms(1) by force
      ultimately show ?thesis by (simp add: map_of_sorted_None)
    qed
  qed
  ultimately show ?thesis by (auto simp: map_add_def split: option.splits)
qed

lemma splay_get_dict:
  assumes "tree_ok t" and "nonneg i"
  shows "splay_get t i = dict t i"
proof (cases "splaytree_splay t i")
  case Tip
  then show ?thesis using splay_ok(1) [OF assms] by (simp add: splay_get_def dict_def)
next
  case (Nd l k n d r)
  have "keys_sorted (entries (Nd l k n d r))" using splay_tree_ok [OF assms] Nd by (simp add: tree_ok_def)
  then show ?thesis
    using rooted_dict [of l k n d r i] splay_ok(3) [OF assms] Nd
    unfolding splay_get_def dict_def splay_ok(1) [OF assms, symmetric] by simp
qed

lemma insert_ok:
  assumes "tree_ok t" and "nonneg i"
  shows "tree_ok (splaytree_insert t i x)"
    and "dict (splaytree_insert t i x) = (if i \<in> dom (dict t) then dict t else (dict t)(i \<mapsto> x))"
proof -
  have "tree_ok (splaytree_insert t i x) \<and>
    dict (splaytree_insert t i x) = (if i \<in> dom (dict t) then dict t else (dict t)(i \<mapsto> x))"
  proof (cases "splaytree_splay t i")
    case Tip
    then show ?thesis using splay_ok(1) [OF assms] assms(2) by (auto simp: splaytree_insert_def tree_ok_def dict_def)
  next
    case (Nd l k n d r)
    have ks: "keys_sorted (entries l)" "keys_sorted (entries r)" "nonneg k"
      "\<forall>x \<in> set (entries l). sint (fst x) < sint k" "\<forall>x \<in> set (entries r). sint k < sint (fst x)"
      "\<forall>x \<in> set (entries l). \<forall>y \<in> set (entries r). sint (fst x) < sint (fst y)"
      and sz: "sizes_ok l" "sizes_ok r"
      using splay_tree_ok [OF assms] Nd by (auto simp: tree_ok_def)
    have e: "entries t = entries l @ (k, d) # entries r" using splay_ok(1) [OF assms] Nd by simp
    have ro: "rooted i (Nd l k n d r)" using splay_ok(3) [OF assms] Nd by simp
    have lk: "dict t i = (if k = i then Some d else None)"
      using splay_get_dict [OF assms] Nd by (simp add: splay_get_def)
    have cmp: "compare_key i k = sint i - sint k" by (rule compare_key_nonneg [OF assms(2) ks(3)])
    consider "k = i" | "sint i < sint k" "\<forall>x \<in> set (entries l). sint (fst x) < sint i"
      | "sint k < sint i" "\<forall>x \<in> set (entries r). sint i < sint (fst x)" using ro by auto
    then show ?thesis
    proof cases
      case 1
      then show ?thesis
        using Nd cmp lk e splay_tree_ok [OF assms] by (simp add: splaytree_insert_def dict_def dom_def)
    next
      case 2
      have "k \<noteq> i" using 2(1) by auto
      have "tree_ok (splaytree_insert t i x)" "entries (splaytree_insert t i x) = entries l @ (i, x) # (k, d) # entries r"
        using 2 Nd cmp ks sz assms(2) by (auto simp: splaytree_insert_def tree_ok_def sizes_ok_size Let_def)
      moreover have "map_of (entries l) i = None" using 2(2) by (rule map_of_sorted_None)
      ultimately show ?thesis using lk \<open>k \<noteq> i\<close> e by (auto simp: dict_def map_add_def fun_eq_iff split: option.splits)
    next
      case 3
      have "k \<noteq> i" using 3(1) by auto
      have "tree_ok (splaytree_insert t i x)" "entries (splaytree_insert t i x) = entries l @ (k, d) # (i, x) # entries r"
        using 3 Nd cmp ks sz assms(2) by (auto simp: splaytree_insert_def tree_ok_def sizes_ok_size Let_def)
      moreover have "map_of (entries l) i = None" using 3(1) ks(4) by (intro map_of_sorted_None(1)) auto
      ultimately show ?thesis using lk \<open>k \<noteq> i\<close> e by (auto simp: dict_def map_add_def fun_eq_iff split: option.splits)
    qed
  qed
  then show "tree_ok (splaytree_insert t i x)"
    "dict (splaytree_insert t i x) = (if i \<in> dom (dict t) then dict t else (dict t)(i \<mapsto> x))" by simp_all
qed

lemma delete_ok:
  assumes "tree_ok t" and "nonneg i"
  shows "tree_ok (splaytree_delete t i)" and "dict (splaytree_delete t i) = (dict t)(i := None)"
proof -
  have "tree_ok (splaytree_delete t i) \<and> dict (splaytree_delete t i) = (dict t)(i := None)"
  proof (cases "splaytree_splay t i")
    case Tip
    then show ?thesis using splay_ok(1) [OF assms] by (simp add: splaytree_delete_def tree_ok_def dict_def fun_eq_iff)
  next
    case (Nd l k n d r)
    have ks: "keys_sorted (entries l)" "keys_sorted (entries r)" "nonneg k"
      "\<forall>x \<in> set (entries l). sint (fst x) < sint k" "\<forall>x \<in> set (entries r). sint k < sint (fst x)"
      "\<forall>x \<in> set (entries l). \<forall>y \<in> set (entries r). sint (fst x) < sint (fst y)"
      and sz: "sizes_ok l" "sizes_ok r"
      using splay_tree_ok [OF assms] Nd by (auto simp: tree_ok_def)
    have e: "entries t = entries l @ (k, d) # entries r" using splay_ok(1) [OF assms] Nd by simp
    have lk: "dict t i = (if k = i then Some d else None)"
      using splay_get_dict [OF assms] Nd by (simp add: splay_get_def)
    have cmp: "compare_key i k = sint i - sint k" by (rule compare_key_nonneg [OF assms(2) ks(3)])
    have ts: "splaytree_size t = of_nat (length (entries t))" using assms(1) by (simp add: tree_ok_def sizes_ok_size)
    show ?thesis
    proof (cases "k = i")
      case False
      then have "splaytree_delete t i = splaytree_splay t i"
        using Nd cmp by (simp add: splaytree_delete_def sint_same)
      then show ?thesis using splay_tree_ok [OF assms] splay_ok(1) [OF assms] lk False
        by (auto simp: dict_def fun_eq_iff)
    next
      case True
      have ent: "entries (splaytree_delete t i) = entries l @ entries r \<and> sizes_ok (splaytree_delete t i)"
      proof (cases "l = Tip")
        case l: True
        then show ?thesis
          using Nd cmp True ts e sz by (cases r) (auto simp: splaytree_delete_def)
      next
        case False
        have tl: "tree_ok l" using ks(1) sz by (simp add: tree_ok_def)
        note sp = splay_ok [OF tl assms(2)]
        have "splaytree_splay l i \<noteq> Tip" using sp(1) False by (cases l) auto
        then obtain a k1 n1 d1 b where s: "splaytree_splay l i = Nd a k1 n1 d1 b" by (cases "splaytree_splay l i") auto
        have el: "entries l = entries a @ (k1, d1) # entries b" using sp(1) s by simp
        have "b = Tip"
        proof -
          have "sint k1 < sint i" "\<forall>x \<in> set (entries b). sint (fst x) < sint i" using ks(4) True el by auto
          then have "\<forall>x \<in> set (entries b). False" using sp(3) s by force
          then show ?thesis by (cases b) auto
        qed
        then show ?thesis
          using Nd cmp True ts e el s sz sp(2) False by (auto simp: splaytree_delete_def sizes_ok_size)
      qed
      have "keys_sorted (entries l @ entries r)" using ks by simp
      moreover have "map_of (entries l) i = None" "map_of (entries r) i = None"
        using map_of_sorted_None(1) [OF ks(4)] map_of_sorted_None(2) [OF ks(5)] True by simp_all
      ultimately show ?thesis
        using ent e True by (auto simp: tree_ok_def dict_def map_add_def fun_eq_iff split: option.splits)
    qed
  qed
  then show "tree_ok (splaytree_delete t i)" "dict (splaytree_delete t i) = (dict t)(i := None)" by simp_all
qed

section \<open>The interface to the stat cache\<close>

text \<open>What the stat cache relies on: a dictionary whose insertion does not replace, together with the
  number of its entries, which the cache asserts before and after every operation.\<close>

locale counted_dict =
  fixes ok :: "'t \<Rightarrow> bool" and valid :: "'k \<Rightarrow> bool" and look :: "'t \<Rightarrow> 'k \<Rightarrow> 'd option" and count :: "'t \<Rightarrow> nat"
    and ins :: "'t \<Rightarrow> 'k \<Rightarrow> 'd \<Rightarrow> 't" and del :: "'t \<Rightarrow> 'k \<Rightarrow> 't"
  assumes ins_ok: "ok t \<Longrightarrow> valid k \<Longrightarrow> ok (ins t k d)"
    and look_ins: "ok t \<Longrightarrow> valid k \<Longrightarrow> look (ins t k d) = (if k \<in> dom (look t) then look t else (look t)(k \<mapsto> d))"
    and del_ok: "ok t \<Longrightarrow> valid k \<Longrightarrow> ok (del t k)"
    and look_del: "ok t \<Longrightarrow> valid k \<Longrightarrow> look (del t k) = (look t)(k := None)"
    and finite_look: "ok t \<Longrightarrow> finite (dom (look t))"
    and count_look: "ok t \<Longrightarrow> count t = card (dom (look t))"
begin

lemma count_ins: "ok t \<Longrightarrow> valid k \<Longrightarrow> k \<notin> dom (look t) \<Longrightarrow> count (ins t k d) = count t + 1"
  using count_look [OF ins_ok] look_ins finite_look count_look by (simp add: dom_fun_upd)

lemma count_del: "ok t \<Longrightarrow> valid k \<Longrightarrow> k \<in> dom (look t) \<Longrightarrow> count (del t k) = count t - 1"
  using count_look [OF del_ok] look_del finite_look count_look by (simp add: card_Diff_singleton_if)

lemma look_after_ins: "ok t \<Longrightarrow> valid k \<Longrightarrow> look t k = None \<Longrightarrow> look (ins t k d) k = Some d"
  by (auto simp: look_ins)

text \<open>A sequence of insertions and deletions.\<close>

lemma run_ok:
  "\<lbrakk>ok t; \<forall>x \<in> set xs. valid (fst x)\<rbrakk> \<Longrightarrow>
    ok (fold (\<lambda>(k, d) t. case d of None \<Rightarrow> del t k | Some d \<Rightarrow> ins t k d) xs t) \<and>
    look (fold (\<lambda>(k, d) t. case d of None \<Rightarrow> del t k | Some d \<Rightarrow> ins t k d) xs t) =
      fold (\<lambda>(k, d) m. case d of None \<Rightarrow> m(k := None) | Some d \<Rightarrow> if m k = None then m(k \<mapsto> d) else m) xs (look t)"
proof (induction xs arbitrary: t)
  case Nil
  then show ?case by simp
next
  case (Cons x xs)
  obtain k d where "x = (k, d)" by (cases x)
  then show ?case
    using Cons by (cases d) (auto simp: ins_ok del_ok look_ins look_del dom_def)
qed

end

lemma dict_finite: "finite (dom (dict t))"
  by (simp add: dict_def finite_dom_map_of)

lemma keys_sorted_distinct: "keys_sorted es \<Longrightarrow> distinct (map fst es)"
  by (induction es) auto

lemma dict_card: "tree_ok t \<Longrightarrow> length (entries t) = card (dom (dict t))"
  using keys_sorted_distinct [of "entries t"]
  by (simp add: tree_ok_def dict_def dom_map_of_conv_image_fst distinct_card [of "map fst (entries t)", simplified])

interpretation splay: counted_dict tree_ok nonneg dict "\<lambda>t. length (entries t)" splaytree_insert splaytree_delete
  by unfold_locales (auto simp: insert_ok delete_ok dict_finite dict_card)

section \<open>Properties\<close>

text \<open>C29: Splaying keeps the entries of a search tree in order and all size fields right, and brings the
  node with the key to the root, so that the lookup at the root finds exactly the stored entries.\<close>

theorem splaytree_splay_correct:
  assumes "tree_ok t" and "nonneg i"
  shows "entries (splaytree_splay t i) = entries t \<and> tree_ok (splaytree_splay t i) \<and>
    splay_get t i = map_of (entries t) i"
  using splay_ok(1) [OF assms] splay_tree_ok [OF assms] splay_get_dict [OF assms] by (simp add: dict_def)

text \<open>One operation on a tree, an insertion with its data or a deletion, and on a dictionary.\<close>

definition tree_op :: "32 word \<times> 'd option \<Rightarrow> 'd splay_tree \<Rightarrow> 'd splay_tree" where
  "tree_op = (\<lambda>(k, d) t. case d of None \<Rightarrow> splaytree_delete t k | Some d \<Rightarrow> splaytree_insert t k d)"

definition dict_op :: "32 word \<times> 'd option \<Rightarrow> (32 word \<rightharpoonup> 'd) \<Rightarrow> (32 word \<rightharpoonup> 'd)" where
  "dict_op = (\<lambda>(k, d) m. case d of None \<Rightarrow> m(k := None) | Some d \<Rightarrow> if m k = None then m(k \<mapsto> d) else m)"

text \<open>C27: After any sequence of insertions and deletions of non-negative keys, starting with no tree, a
  lookup returns what a dictionary holds where insertion does not replace, and the size at the root
  is the number of entries modulo \<open>2 ^ 32\<close>.\<close>

theorem splaytree_refines_dict:
  assumes "\<forall>x \<in> set xs. nonneg (fst x)" and "nonneg i"
  shows "splay_get (fold tree_op xs Tip) i = fold dict_op xs Map.empty i \<and>
    splaytree_size (fold tree_op xs Tip) = of_nat (card (dom (fold dict_op xs Map.empty)))"
proof -
  have e: "tree_ok (Tip :: 'a splay_tree)" "dict (Tip :: 'a splay_tree) = Map.empty" by (simp_all add: tree_ok_def dict_def)
  have r: "tree_ok (fold tree_op xs Tip)" "dict (fold tree_op xs Tip) = fold dict_op xs Map.empty"
    using splay.run_ok [OF e(1) assms(1)] unfolding tree_op_def dict_op_def e(2) by simp_all
  then show ?thesis
    using splay_get_dict [OF r(1) assms(2)] splay.count_look [OF r(1)]
      sizes_ok_size [of "fold tree_op xs Tip"] by (simp add: tree_ok_def)
qed

text \<open>The assertions of the stat cache hold: inserting an absent key increases the size at the root by
  one, deleting a present one decreases it by one.\<close>

theorem splaytree_size_step:
  assumes "tree_ok t" and "nonneg k"
  shows "(splay_get t k = None \<longrightarrow> splaytree_size (splaytree_insert t k d) = splaytree_size t + 1) \<and>
    (splay_get t k \<noteq> None \<longrightarrow> splaytree_size (splaytree_delete t k) + 1 = splaytree_size t)"
proof -
  have sz: "splaytree_size u = of_nat (length (entries u))" if "tree_ok u" for u :: "'a splay_tree"
    using that by (simp add: tree_ok_def sizes_ok_size)
  note ok = assms(1) insert_ok(1) [OF assms, of d] delete_ok(1) [OF assms]
  have "0 < length (entries t)" if "dict t k \<noteq> None" using that by (cases t) (auto simp: dict_def)
  then have "length (entries (splaytree_delete t k)) + 1 = length (entries t)" if "dict t k \<noteq> None"
    using splay.count_del [OF assms] that by (auto simp: dom_def)
  then have "(of_nat (length (entries (splaytree_delete t k))) + 1 :: 32 word) = of_nat (length (entries t))"
    if "dict t k \<noteq> None" using that by (metis of_nat_1 of_nat_add)
  moreover have "length (entries (splaytree_insert t k d)) = length (entries t) + 1" if "dict t k = None"
    using splay.count_ins [OF assms] that by (auto simp: dom_def)
  ultimately show ?thesis using splay_get_dict [OF assms] sz ok by auto
qed

definition sample_tree :: "string splay_tree" where
  "sample_tree = Nd (Nd Tip 1 1 ''a'' Tip) 2 3 ''b'' (Nd Tip 5 1 ''c'' Tip)"

lemma sample_tree_ok: "tree_ok sample_tree" "nonneg 5" "nonneg 1"
  by (simp_all add: sample_tree_def tree_ok_def nonneg_def)

theorem splaytree_splay_correct_witness:
  "splaytree_splay sample_tree 5 = Nd (Nd (Nd Tip 1 1 ''a'' Tip) 2 2 ''b'' Tip) 5 3 ''c'' Tip \<and>
   splay_get sample_tree 5 = Some ''c''"
proof -
  have "splaytree_splay sample_tree 5 = Nd (Nd (Nd Tip 1 1 ''a'' Tip) 2 2 ''b'' Tip) 5 3 ''c'' Tip"
    by code_simp
  moreover have "map_of (entries sample_tree) 5 = Some ''c''" by (simp add: sample_tree_def)
  ultimately show ?thesis using splaytree_splay_correct [OF sample_tree_ok(1,2)] by simp
qed

theorem splaytree_refines_dict_witness:
  "splay_get (fold tree_op [(5, Some ''c''), (1, Some ''a''), (5, Some ''x''), (1, None)] Tip) 5 = Some ''c''"
proof -
  have "fold dict_op [(5, Some ''c''), (1, Some ''a''), (5, Some ''x''), (1, None)] Map.empty 5 = Some ''c''"
    by (simp add: dict_op_def)
  then show ?thesis
    using splaytree_refines_dict [of "[(5, Some ''c''), (1, Some ''a''), (5, Some ''x''), (1, None)]" 5] sample_tree_ok
    by simp
qed

theorem splaytree_size_step_witness:
  "splaytree_size (splaytree_delete sample_tree 1) + 1 = 3"
proof -
  have "map_of (entries sample_tree) 1 = Some ''a''" by (simp add: sample_tree_def)
  then have "splay_get sample_tree 1 \<noteq> None"
    using splay_get_dict [OF sample_tree_ok(1,3)] by (simp add: dict_def)
  moreover have "splaytree_size sample_tree = 3" by (simp add: sample_tree_def)
  ultimately show ?thesis using splaytree_size_step [OF sample_tree_ok(1,3), of undefined] by metis
qed

end
