(* ===== verification/Joblist.thy ===== *)
theory Joblist
  imports Prelude
begin

text \<open>
  The arrays of connections with work to do (\<open>joblist.c\<close>) and the loops of the server that
  empty them (\<open>server.c\<close>).
\<close>

section \<open>Arrays of connections\<close>

text \<open>\<open>'c\<close> is a pointer to a connection; cells of \<open>ptr\<close> that were never written are \<open>None\<close>.\<close>

record 'c connections =
  cs_ptr :: "'c option list"
  cs_size :: nat
  cs_used :: nat

definition connections_zero :: "'c connections" where
  "connections_zero = \<lparr>cs_ptr = [], cs_size = 0, cs_used = 0\<rparr>"

text \<open>The parts of \<open>server\<close>: the two arrays, the number of connections that wait for a descriptor, and
  which connections have \<open>in_joblist\<close> set.\<close>

record 'c work =
  w_joblist :: "'c connections"
  w_fdwaitqueue :: "'c connections"
  w_want_fds :: int
  w_in_joblist :: "'c \<Rightarrow> bool"

definition connections_grow :: "'c connections \<Rightarrow> 'c connections" where
  "connections_grow cs =
     (if cs_size cs = 0 then cs\<lparr>cs_size := 16, cs_ptr := replicate 16 None\<rparr>
      else if cs_used cs = cs_size cs
      then cs\<lparr>cs_size := cs_size cs + 16, cs_ptr := cs_ptr cs @ replicate 16 None\<rparr>
      else cs)"

text \<open>\<open>ptr[used++] = con\<close>\<close>

definition connections_push :: "'c connections \<Rightarrow> 'c \<Rightarrow> 'c connections option" where
  "connections_push cs con = do {
     let cs = connections_grow cs;
     force_assert (cs_used cs < length (cs_ptr cs));
     Some (cs\<lparr>cs_ptr := (cs_ptr cs)[cs_used cs := Some con], cs_used := cs_used cs + 1\<rparr>)
   }"

definition joblist_append :: "'c work \<Rightarrow> 'c \<Rightarrow> 'c work option" where
  "joblist_append srv con =
     (if w_in_joblist srv con then Some srv
      else do {
        cs \<leftarrow> connections_push (w_joblist srv) con;
        Some (srv\<lparr>w_joblist := cs\<rparr>)
      })"

definition fdwaitqueue_append :: "'c work \<Rightarrow> 'c \<Rightarrow> 'c work option" where
  "fdwaitqueue_append srv con = do {
     cs \<leftarrow> connections_push (w_fdwaitqueue srv) con;
     Some (srv\<lparr>w_fdwaitqueue := cs\<rparr>)
   }"

text \<open>The first connection is taken out and the others move up; the cell behind them keeps its value.\<close>

definition fdwaitqueue_unshift :: "'c connections \<Rightarrow> ('c connections \<times> 'c option) option" where
  "fdwaitqueue_unshift q =
     (if cs_used q = 0 then Some (q, None)
      else do {
        force_assert (cs_used q \<le> length (cs_ptr q));
        con \<leftarrow> cs_ptr q ! 0;
        let used = cs_used q - 1;
        Some (q\<lparr>cs_used := used, cs_ptr := take used (drop 1 (cs_ptr q)) @ drop used (cs_ptr q)\<rparr>, Some con)
      })"

section \<open>The server's loops\<close>

text \<open>
  What a run of the state machine of a connection does to these arrays: it appends
  connections to the job list and itself to the waiting queue, as often as a handler returns
  \<open>HANDLER_WAIT_FOR_FD\<close>. (The arrays are different ones, so the order among the two kinds does not matter.)
  The state machine is a parameter; it sees a state \<open>'s\<close> of its own.
\<close>

type_synonym ('c, 's) machine = "'c \<Rightarrow> 's \<Rightarrow> 's \<times> 'c list \<times> nat"

primrec joblist_appends :: "'c work \<Rightarrow> 'c list \<Rightarrow> 'c work option" where
  "joblist_appends srv [] = Some srv"
| "joblist_appends srv (c # cs) = do { srv \<leftarrow> joblist_append srv c; joblist_appends srv cs }"

text \<open>\<open>srv->want_fds++; fdwaitqueue_append(srv, con)\<close>, that many times.\<close>

primrec wait_for_fd :: "nat \<Rightarrow> 'c work \<Rightarrow> 'c \<Rightarrow> 'c work option" where
  "wait_for_fd 0 srv con = Some srv"
| "wait_for_fd (Suc n) srv con = do {
     srv \<leftarrow> fdwaitqueue_append (srv\<lparr>w_want_fds := w_want_fds srv + 1\<rparr>) con;
     wait_for_fd n srv con
   }"

definition run_machine :: "('c, 's) machine \<Rightarrow> 'c work \<Rightarrow> 's \<Rightarrow> 'c \<Rightarrow> ('c work \<times> 's) option" where
  "run_machine sm srv s con = do {
     let (s, jobs, waits) = sm con s;
     srv \<leftarrow> joblist_appends srv jobs;
     srv \<leftarrow> wait_for_fd waits srv con;
     Some (srv, s)
   }"

text \<open>The loop that shares out \<open>free_fds\<close> descriptors.\<close>

fun share_fds :: "('c, 's) machine \<Rightarrow> nat \<Rightarrow> 'c work \<Rightarrow> 's \<Rightarrow> ('c work \<times> 's) option" where
  "share_fds sm 0 srv s = Some (srv, s)"
| "share_fds sm (Suc free_fds) srv s = do {
     (q, con) \<leftarrow> fdwaitqueue_unshift (w_fdwaitqueue srv);
     let srv = srv\<lparr>w_fdwaitqueue := q\<rparr>;
     case con of
       None \<Rightarrow> Some (srv, s)
     | Some con \<Rightarrow> do {
         (srv, s) \<leftarrow> run_machine sm srv s con;
         share_fds sm free_fds (srv\<lparr>w_want_fds := w_want_fds srv - 1\<rparr>) s
       }
   }"

text \<open>It runs when a connection is waiting; sixteen descriptors are kept back.\<close>

definition share_free_fds :: "('c, 's) machine \<Rightarrow> int \<Rightarrow> int \<Rightarrow> 'c work \<Rightarrow> 's \<Rightarrow> ('c work \<times> 's) option" where
  "share_free_fds sm max_fds cur_fds srv s =
     (if w_want_fds srv \<noteq> 0 then share_fds sm (nat (max_fds - cur_fds - 16)) srv s else Some (srv, s))"

text \<open>The loop over the job list; a machine that always appends work keeps it going for ever.\<close>

partial_function (option) joblist_loop :: "('c, 's) machine \<Rightarrow> 'c work \<Rightarrow> 's \<Rightarrow> nat \<Rightarrow> ('c work \<times> 's) option" where
  "joblist_loop sm srv s ndx =
     (if ndx < cs_used (w_joblist srv) then
        Option.bind (if ndx < length (cs_ptr (w_joblist srv)) then cs_ptr (w_joblist srv) ! ndx else None) (\<lambda>con.
        Option.bind (run_machine sm srv s con) (\<lambda>r.
        joblist_loop sm ((fst r)\<lparr>w_in_joblist := (w_in_joblist (fst r))(con := False)\<rparr>) (snd r) (ndx + 1)))
      else Some (srv, s))"

definition run_joblist :: "('c, 's) machine \<Rightarrow> 'c work \<Rightarrow> 's \<Rightarrow> ('c work \<times> 's) option" where
  "run_joblist sm srv s = do {
     (srv, s) \<leftarrow> joblist_loop sm srv s 0;
     Some (srv\<lparr>w_joblist := (w_joblist srv)\<lparr>cs_used := 0\<rparr>\<rparr>, s)
   }"

section \<open>What the arrays hold\<close>

definition cs_ok :: "'c connections \<Rightarrow> bool" where
  "cs_ok cs \<longleftrightarrow> length (cs_ptr cs) = cs_size cs \<and> cs_used cs \<le> cs_size cs \<and> None \<notin> set (take (cs_used cs) (cs_ptr cs))"

definition cs_list :: "'c connections \<Rightarrow> 'c list" where
  "cs_list cs = map the (take (cs_used cs) (cs_ptr cs))"

lemma cs_zero_ok [simp]: "cs_ok connections_zero" "cs_list connections_zero = []"
  by (simp_all add: cs_ok_def cs_list_def connections_zero_def)

lemma cs_grow_ok:
  assumes "cs_ok cs"
  shows "cs_ok (connections_grow cs)" and "cs_list (connections_grow cs) = cs_list cs"
    and "cs_used (connections_grow cs) < length (cs_ptr (connections_grow cs))"
  using assms by (auto simp: cs_ok_def cs_list_def connections_grow_def)

lemma cs_push_ok:
  assumes "cs_ok cs"
  shows "\<exists>cs'. connections_push cs con = Some cs' \<and> cs_ok cs' \<and> cs_list cs' = cs_list cs @ [con]"
proof -
  define g where "g = connections_grow cs"
  have g: "cs_ok g" "cs_list g = cs_list cs" "cs_used g < length (cs_ptr g)"
    using cs_grow_ok [OF assms] by (simp_all add: g_def)
  have "take (Suc (cs_used g)) ((cs_ptr g)[cs_used g := Some con]) = take (cs_used g) (cs_ptr g) @ [Some con]"
    using take_update_snoc [OF refl g(3)] .
  then show ?thesis using g by (auto simp: connections_push_def g_def [symmetric] cs_ok_def cs_list_def)
qed

lemma cs_unshift_ok:
  assumes "cs_ok q"
  shows "case cs_list q of
      [] \<Rightarrow> fdwaitqueue_unshift q = Some (q, None)
    | con # cons \<Rightarrow> \<exists>q'. fdwaitqueue_unshift q = Some (q', Some con) \<and> cs_ok q' \<and> cs_list q' = cons"
proof (cases "cs_ptr q")
  case Nil
  then show ?thesis using assms by (simp add: cs_ok_def cs_list_def fdwaitqueue_unshift_def)
next
  case (Cons c p)
  show ?thesis
  proof (cases "cs_used q")
    case 0
    then show ?thesis by (simp add: cs_list_def fdwaitqueue_unshift_def)
  next
    case (Suc n)
    then obtain con where "c = Some con" using assms Cons by (cases c) (auto simp: cs_ok_def)
    then show ?thesis
      using assms Cons Suc by (auto simp: cs_ok_def cs_list_def fdwaitqueue_unshift_def)
  qed
qed

text \<open>An array of connections is a line: joined at the end, left at the front.\<close>

locale waiting_line =
  fixes ok :: "'q \<Rightarrow> bool" and line :: "'q \<Rightarrow> 'c list"
    and join :: "'q \<Rightarrow> 'c \<Rightarrow> 'q option" and leave :: "'q \<Rightarrow> ('q \<times> 'c option) option"
  assumes join_ok: "ok q \<Longrightarrow> \<exists>q'. join q c = Some q' \<and> ok q' \<and> line q' = line q @ [c]"
    and leave_Nil: "ok q \<Longrightarrow> line q = [] \<Longrightarrow> leave q = Some (q, None)"
    and leave_Cons: "ok q \<Longrightarrow> line q = c # cs \<Longrightarrow> \<exists>q'. leave q = Some (q', Some c) \<and> ok q' \<and> line q' = cs"
begin

primrec join_all :: "'q \<Rightarrow> 'c list \<Rightarrow> 'q option" where
  "join_all q [] = Some q"
| "join_all q (c # cs) = Option.bind (join q c) (\<lambda>q. join_all q cs)"

primrec leave_all :: "'q \<Rightarrow> nat \<Rightarrow> ('q \<times> 'c option list) option" where
  "leave_all q 0 = Some (q, [])"
| "leave_all q (Suc n) = Option.bind (leave q) (\<lambda>(q, c). map_option (\<lambda>(q, cs). (q, c # cs)) (leave_all q n))"

lemma join_all_ok: "ok q \<Longrightarrow> \<exists>q'. join_all q cs = Some q' \<and> ok q' \<and> line q' = line q @ cs"
proof (induction cs arbitrary: q)
  case (Cons c cs)
  obtain q1 where 1: "join q c = Some q1" "ok q1" "line q1 = line q @ [c]" using join_ok [OF Cons.prems] by blast
  then show ?case using Cons.IH [OF 1(2)] by auto
qed simp

lemma leave_all_ok:
  "ok q \<Longrightarrow> length (line q) = n \<Longrightarrow> \<exists>q'. leave_all q n = Some (q', map Some (line q)) \<and> ok q' \<and> line q' = []"
proof (induction n arbitrary: q)
  case (Suc n)
  then obtain c cs where l: "line q = c # cs" by (cases "line q") auto
  obtain q1 where 1: "leave q = Some (q1, Some c)" "ok q1" "line q1 = cs" using leave_Cons [OF Suc.prems(1) l] by blast
  then show ?case using Suc.IH [OF 1(2)] Suc.prems(2) l by auto
qed simp

end

interpretation fds: waiting_line cs_ok cs_list connections_push fdwaitqueue_unshift
proof
  fix q :: "'c connections" and c cs
  assume ok: "cs_ok q"
  show "\<exists>q'. connections_push q c = Some q' \<and> cs_ok q' \<and> cs_list q' = cs_list q @ [c]" by (rule cs_push_ok [OF ok])
  show "cs_list q = [] \<Longrightarrow> fdwaitqueue_unshift q = Some (q, None)" using cs_unshift_ok [OF ok] by simp
  show "cs_list q = c # cs \<Longrightarrow> \<exists>q'. fdwaitqueue_unshift q = Some (q', Some c) \<and> cs_ok q' \<and> cs_list q' = cs"
    using cs_unshift_ok [OF ok] by simp
qed

section \<open>The loops\<close>

text \<open>The count \<open>want_fds\<close> is the number of waiting connections and \<open>d\<close> that are being served.\<close>

definition work_off :: "int \<Rightarrow> 'c work \<Rightarrow> bool" where
  "work_off d srv \<longleftrightarrow> cs_ok (w_joblist srv) \<and> cs_ok (w_fdwaitqueue srv) \<and>
     w_want_fds srv = d + int (length (cs_list (w_fdwaitqueue srv)))"

abbreviation work_ok :: "'c work \<Rightarrow> bool" where
  "work_ok \<equiv> work_off 0"

text \<open>Appending to the job list leaves everything else alone, and drops nothing while the flags are clear.\<close>

definition same_but_jobs :: "'c work \<Rightarrow> 'c work \<Rightarrow> bool" where
  "same_but_jobs srv srv' \<longleftrightarrow> cs_ok (w_joblist srv') \<and> w_fdwaitqueue srv' = w_fdwaitqueue srv \<and>
     w_want_fds srv' = w_want_fds srv \<and> w_in_joblist srv' = w_in_joblist srv"

lemma joblist_append_ok:
  assumes "cs_ok (w_joblist srv)"
  shows "\<exists>srv'. joblist_append srv c = Some srv' \<and> same_but_jobs srv srv' \<and>
    cs_list (w_joblist srv') = cs_list (w_joblist srv) @ (if w_in_joblist srv c then [] else [c])"
  using cs_push_ok [OF assms, of c] assms by (auto simp: joblist_append_def same_but_jobs_def)

lemma joblist_appends_ok:
  "cs_ok (w_joblist srv) \<Longrightarrow> \<exists>srv'. joblist_appends srv cs = Some srv' \<and> same_but_jobs srv srv' \<and>
     cs_list (w_joblist srv') = cs_list (w_joblist srv) @ filter (\<lambda>c. \<not> w_in_joblist srv c) cs"
proof (induction cs arbitrary: srv)
  case Nil
  then show ?case by (simp add: same_but_jobs_def)
next
  case (Cons c cs)
  obtain srv1 where 1: "joblist_append srv c = Some srv1" "same_but_jobs srv srv1"
    "cs_list (w_joblist srv1) = cs_list (w_joblist srv) @ (if w_in_joblist srv c then [] else [c])"
    using joblist_append_ok [OF Cons.prems] by blast
  then have "cs_ok (w_joblist srv1)" by (simp add: same_but_jobs_def)
  from Cons.IH [OF this] 1 show ?case by (auto simp: same_but_jobs_def)
qed

lemma wait_for_fd_ok:
  "work_off d srv \<Longrightarrow> \<exists>srv'. wait_for_fd n srv con = Some srv' \<and> work_off d srv' \<and> w_in_joblist srv' = w_in_joblist srv \<and>
     w_joblist srv' = w_joblist srv \<and> cs_list (w_fdwaitqueue srv') = cs_list (w_fdwaitqueue srv) @ replicate n con"
proof (induction n arbitrary: srv)
  case (Suc n)
  obtain q where q: "connections_push (w_fdwaitqueue srv) con = Some q" "cs_ok q" "cs_list q = cs_list (w_fdwaitqueue srv) @ [con]"
    using cs_push_ok [of "w_fdwaitqueue srv" con] Suc.prems by (auto simp: work_off_def)
  let ?srv = "srv\<lparr>w_want_fds := w_want_fds srv + 1, w_fdwaitqueue := q\<rparr>"
  have "fdwaitqueue_append (srv\<lparr>w_want_fds := w_want_fds srv + 1\<rparr>) con = Some ?srv"
    using q(1) by (simp add: fdwaitqueue_append_def)
  moreover have "work_off d ?srv" using Suc.prems q(2,3) by (simp add: work_off_def)
  ultimately show ?case using Suc.IH [of ?srv] q(3) by auto
qed simp

lemma run_machine_ok:
  assumes "work_off d srv" and "sm con s = (s', jobs, waits)"
  shows "\<exists>srv'. run_machine sm srv s con = Some (srv', s') \<and> work_off d srv' \<and> w_in_joblist srv' = w_in_joblist srv \<and>
    cs_list (w_joblist srv') = cs_list (w_joblist srv) @ filter (\<lambda>c. \<not> w_in_joblist srv c) jobs \<and>
    cs_list (w_fdwaitqueue srv') = cs_list (w_fdwaitqueue srv) @ replicate waits con"
proof -
  obtain srv1 where 1: "joblist_appends srv jobs = Some srv1" "same_but_jobs srv srv1"
    "cs_list (w_joblist srv1) = cs_list (w_joblist srv) @ filter (\<lambda>c. \<not> w_in_joblist srv c) jobs"
    using joblist_appends_ok [of srv jobs] assms(1) by (auto simp: work_off_def)
  have "work_off d srv1" using 1(2) assms(1) by (simp add: work_off_def same_but_jobs_def)
  from wait_for_fd_ok [OF this, of waits con] 1 assms(2) show ?thesis by (auto simp: run_machine_def same_but_jobs_def)
qed

text \<open>What sharing descriptors means: up to \<open>n\<close> connections from the front of the line run, and one that
  still has to wait joins the line again, as often as it asks for a descriptor.\<close>

fun serve_line :: "('c, 's) machine \<Rightarrow> nat \<Rightarrow> 'c list \<Rightarrow> 's \<Rightarrow> 'c list \<times> 's" where
  "serve_line sm 0 cs s = (cs, s)"
| "serve_line sm (Suc n) [] s = ([], s)"
| "serve_line sm (Suc n) (c # cs) s =
     (case sm c s of (s, _, waits) \<Rightarrow> serve_line sm n (cs @ replicate waits c) s)"

lemma share_fds_ok:
  "work_ok srv \<Longrightarrow> \<exists>srv'. share_fds sm n srv s = Some (srv', snd (serve_line sm n (cs_list (w_fdwaitqueue srv)) s)) \<and>
     work_ok srv' \<and> cs_list (w_fdwaitqueue srv') = fst (serve_line sm n (cs_list (w_fdwaitqueue srv)) s)"
proof (induction n arbitrary: srv s)
  case 0
  then show ?case by simp
next
  case (Suc n)
  have ok: "cs_ok (w_fdwaitqueue srv)" using Suc.prems by (simp add: work_off_def)
  show ?case
  proof (cases "cs_list (w_fdwaitqueue srv)")
    case Nil
    then show ?thesis using fds.leave_Nil [OF ok Nil] Suc.prems by simp
  next
    case (Cons c cs)
    obtain q where q: "fdwaitqueue_unshift (w_fdwaitqueue srv) = Some (q, Some c)" "cs_ok q" "cs_list q = cs"
      using fds.leave_Cons [OF ok Cons] by blast
    obtain s1 jobs waits where m: "sm c s = (s1, jobs, waits)" by (cases "sm c s")
    let ?srv = "srv\<lparr>w_fdwaitqueue := q\<rparr>"
    have "work_off 1 ?srv" using Suc.prems q Cons by (simp add: work_off_def)
    with m obtain srv1 where 1: "run_machine sm ?srv s c = Some (srv1, s1)" "work_off 1 srv1"
      "cs_list (w_fdwaitqueue srv1) = cs @ replicate waits c"
      using run_machine_ok [of 1 ?srv sm c s s1 jobs waits] q(3) by auto
    have "work_ok (srv1\<lparr>w_want_fds := w_want_fds srv1 - 1\<rparr>)" using 1(2) by (simp add: work_off_def)
    then show ?thesis using q(1) m 1 Suc.IH [of "srv1\<lparr>w_want_fds := w_want_fds srv1 - 1\<rparr>" s1] Cons by simp
  qed
qed

text \<open>Running the job list: every connection on it, also those that join during the run.\<close>

lemma cs_list_nth: "cs_ok cs \<Longrightarrow> n < cs_used cs \<Longrightarrow> n < length (cs_ptr cs) \<and> cs_ptr cs ! n = Some (cs_list cs ! n)"
  by (force simp: cs_ok_def cs_list_def in_set_conv_nth)

lemma length_cs_list: "cs_ok cs \<Longrightarrow> length (cs_list cs) = cs_used cs"
  by (simp add: cs_ok_def cs_list_def)

definition quiet :: "('c, 's) machine \<Rightarrow> bool" where
  "quiet sm \<longleftrightarrow> (\<forall>c s. fst (snd (sm c s)) = [])"

lemma joblist_loop_ok:
  assumes "quiet sm"
  shows "work_ok srv \<Longrightarrow> ndx \<le> cs_used (w_joblist srv) \<Longrightarrow>
    \<exists>srv'. joblist_loop sm srv s ndx = Some (srv', fold (\<lambda>c s. fst (sm c s)) (drop ndx (cs_list (w_joblist srv))) s) \<and>
      work_ok srv' \<and> cs_list (w_joblist srv') = cs_list (w_joblist srv) \<and>
      (\<forall>c. w_in_joblist srv' c \<longleftrightarrow> w_in_joblist srv c \<and> c \<notin> set (drop ndx (cs_list (w_joblist srv))))"
proof (induction "cs_used (w_joblist srv) - ndx" arbitrary: srv s ndx)
  case 0
  then have "cs_used (w_joblist srv) = ndx" by simp
  moreover from this have "drop ndx (cs_list (w_joblist srv)) = []"
    using 0 length_cs_list [of "w_joblist srv"] by (simp add: work_off_def)
  ultimately show ?case using 0 by (subst joblist_loop.simps) simp
next
  case (Suc n)
  have ok: "cs_ok (w_joblist srv)" using Suc.prems by (simp add: work_off_def)
  have lt: "ndx < cs_used (w_joblist srv)" using Suc.hyps(2) by simp
  define c where "c = cs_list (w_joblist srv) ! ndx"
  have cell: "ndx < length (cs_ptr (w_joblist srv))" "cs_ptr (w_joblist srv) ! ndx = Some c"
    using cs_list_nth [OF ok lt] by (simp_all add: c_def)
  have dr: "drop ndx (cs_list (w_joblist srv)) = c # drop (Suc ndx) (cs_list (w_joblist srv))"
    using lt length_cs_list [OF ok] by (simp add: c_def Cons_nth_drop_Suc)
  obtain s1 waits where m: "sm c s = (s1, [], waits)"
    using assms by (metis prod.exhaust_sel quiet_def)
  obtain srv1 where 1: "run_machine sm srv s c = Some (srv1, s1)" "work_ok srv1" "w_in_joblist srv1 = w_in_joblist srv"
    "cs_list (w_joblist srv1) = cs_list (w_joblist srv)"
    using run_machine_ok [of 0 srv sm c s s1 "[]" waits] Suc.prems(1) m by auto
  have used: "cs_used (w_joblist srv1) = cs_used (w_joblist srv)"
    using 1(2,4) ok length_cs_list [of "w_joblist srv"] length_cs_list [of "w_joblist srv1"] by (simp add: work_off_def)
  let ?srv = "srv1\<lparr>w_in_joblist := (w_in_joblist srv1)(c := False)\<rparr>"
  have "work_ok ?srv" "n = cs_used (w_joblist ?srv) - Suc ndx" "Suc ndx \<le> cs_used (w_joblist ?srv)"
    using 1(2) used Suc.hyps(2) lt by (simp_all add: work_off_def)
  from Suc.hyps(1) [OF this(2,1,3), of s1] obtain srv' where r: "joblist_loop sm ?srv s1 (Suc ndx) =
      Some (srv', fold (\<lambda>c s. fst (sm c s)) (drop (Suc ndx) (cs_list (w_joblist srv))) s1)"
    "work_ok srv'" "cs_list (w_joblist srv') = cs_list (w_joblist srv)"
    "\<forall>d. w_in_joblist srv' d \<longleftrightarrow> w_in_joblist ?srv d \<and> d \<notin> set (drop (Suc ndx) (cs_list (w_joblist srv)))"
    using 1(4) by auto
  have "joblist_loop sm srv s ndx = joblist_loop sm ?srv s1 (Suc ndx)"
    using lt cell 1(1) by (subst joblist_loop.simps) simp
  then show ?case using r dr m 1(3) by auto
qed

section \<open>Properties\<close>

text \<open>C35: Sharing out descriptors always succeeds and serves the waiting connections in the order they
  joined, at most as many as there are free descriptors beyond the sixteen that are kept back; one that has to
  wait again goes to the end, and \<open>want_fds\<close> stays the number of waiting connections. That nothing is
  done when \<open>want_fds\<close> is 0 loses nobody: then nobody waits.\<close>

theorem share_fds_serves_line:
  assumes "work_ok srv"
  shows "\<exists>srv' s'. share_free_fds sm max_fds cur_fds srv s = Some (srv', s') \<and> work_ok srv' \<and>
    (cs_list (w_fdwaitqueue srv'), s') = serve_line sm (nat (max_fds - cur_fds - 16)) (cs_list (w_fdwaitqueue srv)) s"
proof (cases "w_want_fds srv = 0")
  case True
  then have "cs_list (w_fdwaitqueue srv) = []" using assms by (simp add: work_off_def)
  moreover have "serve_line sm n [] s = ([], s)" for n by (cases n) simp_all
  ultimately show ?thesis using True assms by (simp add: share_free_fds_def)
next
  case False
  then show ?thesis using share_fds_ok [OF assms, of sm "nat (max_fds - cur_fds - 16)" s] by (auto simp: share_free_fds_def)
qed

text \<open>When the state machines append no work of their own, running the job list ends, runs the state
  machine once for every entry in the order of the entries, clears the flag of these connections, and
  leaves the list empty.\<close>

theorem run_joblist_runs_all:
  assumes "work_ok srv" and "quiet sm"
  shows "\<exists>srv'. run_joblist sm srv s = Some (srv', fold (\<lambda>c s. fst (sm c s)) (cs_list (w_joblist srv)) s) \<and>
    work_ok srv' \<and> cs_list (w_joblist srv') = [] \<and>
    (\<forall>c. w_in_joblist srv' c \<longleftrightarrow> w_in_joblist srv c \<and> c \<notin> set (cs_list (w_joblist srv)))"
proof -
  obtain srv1 where 1: "joblist_loop sm srv s 0 = Some (srv1, fold (\<lambda>c s. fst (sm c s)) (cs_list (w_joblist srv)) s)"
    "work_ok srv1" "\<forall>c. w_in_joblist srv1 c \<longleftrightarrow> w_in_joblist srv c \<and> c \<notin> set (cs_list (w_joblist srv))"
    using joblist_loop_ok [OF assms(2,1), of 0 s] by auto
  then show ?thesis by (simp add: run_joblist_def work_off_def cs_ok_def cs_list_def)
qed

text \<open>Appending never sets the flag that appending tests, so a connection appended twice is on the job
  list twice and its state machine runs twice.\<close>

theorem joblist_append_twice:
  assumes "cs_ok (w_joblist srv)" and "\<not> w_in_joblist srv con"
  shows "\<exists>srv'. joblist_appends srv [con, con] = Some srv' \<and>
    cs_list (w_joblist srv') = cs_list (w_joblist srv) @ [con, con] \<and> \<not> w_in_joblist srv' con"
  using joblist_appends_ok [OF assms(1), of "[con, con]"] assms(2) by (auto simp: same_but_jobs_def)

definition sample_work :: "nat work" where
  "sample_work = \<lparr>w_joblist = connections_zero\<lparr>cs_ptr := [Some 7, Some 8], cs_size := 2, cs_used := 2\<rparr>,
     w_fdwaitqueue = connections_zero\<lparr>cs_ptr := [Some 1, Some 2, None], cs_size := 3, cs_used := 2\<rparr>,
     w_want_fds = 2, w_in_joblist = (\<lambda>_. False)\<rparr>"

lemma sample_work_ok: "work_ok sample_work" "cs_list (w_joblist sample_work) = [7, 8]"
  "cs_list (w_fdwaitqueue sample_work) = [1, 2]" "\<not> w_in_joblist sample_work c"
  by (simp_all add: sample_work_def work_off_def cs_ok_def cs_list_def connections_zero_def take_Cons')

text \<open>A machine that records which connections ran, and that waits for connection 1.\<close>

definition trace_machine :: "(nat, nat list) machine" where
  "trace_machine c s = (s @ [c], [], if c = 1 then 1 else 0)"

theorem share_fds_serves_line_witness:
  "\<exists>srv'. share_free_fds trace_machine 1024 1005 sample_work [] = Some (srv', [1, 2, 1]) \<and> cs_list (w_fdwaitqueue srv') = [1]"
proof -
  have "serve_line trace_machine 3 [1, 2] [] = ([1], [1, 2, 1])"
    by (simp add: trace_machine_def numeral_3_eq_3)
  then show ?thesis using share_fds_serves_line [OF sample_work_ok(1), of trace_machine 1024 1005 "[]"] sample_work_ok(3) by auto
qed

theorem run_joblist_runs_all_witness:
  "\<exists>srv'. run_joblist trace_machine sample_work [] = Some (srv', [7, 8]) \<and> cs_list (w_joblist srv') = []"
proof -
  have "quiet trace_machine" by (simp add: quiet_def trace_machine_def)
  from run_joblist_runs_all [OF sample_work_ok(1) this, of "[]"] show ?thesis
    using sample_work_ok(2) by (auto simp: trace_machine_def)
qed

theorem joblist_append_twice_witness:
  "\<exists>srv'. joblist_appends sample_work [9, 9] = Some srv' \<and> cs_list (w_joblist srv') = [7, 8, 9, 9]"
proof -
  have "cs_ok (w_joblist sample_work)" using sample_work_ok(1) by (simp add: work_off_def)
  from joblist_append_twice [OF this sample_work_ok(4), of 9] show ?thesis using sample_work_ok(2) by auto
qed

end
