(* ===== verification/Hostname.thy ===== *)
theory Hostname
  imports Buffer_Num
begin

text \<open>
  Checking and normalising the \<open>Host\<close> of a request (\<open>request.c\<close>). The buffer is the string it
  holds; behind its last byte a zero is read.
\<close>

section \<open>Checking\<close>

definition peek :: "string \<Rightarrow> nat \<Rightarrow> char" where
  "peek s i = (if i < length s then s ! i else NUL)"

abbreviation isdig :: "char \<Rightarrow> bool" where "isdig c \<equiv> light_isdigit (byte c)"
abbreviation isaln :: "char \<Rightarrow> bool" where "isaln c \<equiv> light_isalnum (byte c)"
abbreviation isxdig :: "char \<Rightarrow> bool" where "isxdig c \<equiv> light_isxdigit (byte c)"

text \<open>The address inside \<open>[...]\<close>; the result is the text from the closing bracket (or the end) on,
  \<open>None\<close> is the return with -1.\<close>

fun scan_ipv6 :: "nat \<Rightarrow> string \<Rightarrow> string option" where
  "scan_ipv6 colon_cnt [] = Some []"
| "scan_ipv6 colon_cnt (c # cs) =
     (if c = NUL \<or> c = CHR '']'' then Some (c # cs)
      else if c = CHR '':''
      then if colon_cnt + 1 > 7 then None else scan_ipv6 (colon_cnt + 1) cs
      else if \<not> isxdig c \<and> c \<noteq> CHR ''.'' then None
      else scan_ipv6 colon_cnt cs)"

definition check_ipv6 :: "string \<Rightarrow> bool" where
  "check_ipv6 s =
     (case scan_ipv6 0 s of
        None \<Rightarrow> False
      | Some c \<Rightarrow>
          if peek c 0 = NUL then False
          else if peek c 1 = CHR '':'' then list_all isdig (cstr (drop 2 c))
          else peek c 1 = NUL)"

datatype label_stage = DOMAINLABEL | TOPLABEL

text \<open>The scan from the right; \<open>is_ip\<close> is -1 while not known.\<close>

fun scan_hostname :: "string \<Rightarrow> nat \<Rightarrow> nat \<Rightarrow> label_stage \<Rightarrow> nat \<Rightarrow> int \<Rightarrow> nat \<Rightarrow> bool" where
  "scan_hostname host host_len 0 stage label_len is_ip level =
     (\<not> (is_ip = 1 \<and> level \<noteq> 3) \<and> label_len \<noteq> 0)"
| "scan_hostname host host_len (Suc i) stage label_len is_ip level =
     (let c = host ! i; next = peek host (i + 1) in
      case stage of
        TOPLABEL \<Rightarrow>
          if c = CHR ''.'' then
            if i \<noteq> host_len - 1 then
              if label_len = 0 then False
              else if is_ip = 0 then
                if \<not> isaln next then False else scan_hostname host host_len i DOMAINLABEL 0 is_ip (level + 1)
              else if \<not> isdig next then scan_hostname host host_len i DOMAINLABEL 0 0 (level + 1)
              else if next = CHR ''-'' then False
              else scan_hostname host host_len i DOMAINLABEL 0 1 (level + 1)
            else if i = 0 then False
            else scan_hostname host host_len i TOPLABEL label_len is_ip level
          else if i = 0 then
            if \<not> isaln c then False else scan_hostname host host_len i TOPLABEL (label_len + 1) is_ip level
          else if c \<noteq> CHR ''-'' \<and> \<not> isaln c then False
          else scan_hostname host host_len i TOPLABEL (label_len + 1)
                 (if is_ip = - 1 \<and> \<not> isdig c then 0 else is_ip) level
      | DOMAINLABEL \<Rightarrow>
          if is_ip = 1 then
            if c = CHR ''.'' then
              if label_len = 0 then False else scan_hostname host host_len i DOMAINLABEL 0 is_ip (level + 1)
            else if \<not> isdig c then False
            else scan_hostname host host_len i DOMAINLABEL (label_len + 1) is_ip level
          else if c = CHR ''.'' then
            if label_len = 0 then False
            else if next = CHR ''-'' then False
            else scan_hostname host host_len i DOMAINLABEL 0 is_ip (level + 1)
          else if i = 0 then
            if \<not> isaln c then False else scan_hostname host host_len i DOMAINLABEL (label_len + 1) is_ip level
          else if c \<noteq> CHR ''-'' \<and> \<not> isaln c then False
          else scan_hostname host host_len i DOMAINLABEL (label_len + 1) is_ip level)"

text \<open>The result is the host, which loses a dot at the end, and whether 0 was returned.\<close>

definition request_check_hostname :: "string \<Rightarrow> string \<times> bool" where
  "request_check_hostname host =
     (if peek host 0 = CHR ''['' then (host, check_ipv6 (drop 1 host))
      else
        let colon = memchr CHR '':'' host;
            host_len = (case colon of None \<Rightarrow> length host | Some n \<Rightarrow> n)
        in if \<not> (case colon of None \<Rightarrow> True | Some n \<Rightarrow> list_all isdig (cstr (drop (n + 1) host))) then (host, False)
           else if host_len = 0 then (host, False)
           else if host ! (host_len - 1) = CHR ''.'' then
             let host = take (host_len - 1) host @ drop host_len host; host_len = host_len - 1
             in if host_len = 0 then (host, False)
                else (host, scan_hostname host host_len host_len TOPLABEL 0 (- 1) 0)
           else (host, scan_hostname host host_len host_len TOPLABEL 0 (- 1) 0))"

section \<open>Normalising\<close>

text \<open>\<open>strtol(s, &e, 0)\<close>: the base is read from the prefix.\<close>

definition xdigit_val :: "char \<Rightarrow> nat" where
  "xdigit_val c = (if isdig c then byte c - 48 else (byte c OR 32) - 87)"

definition num_val :: "nat \<Rightarrow> string \<Rightarrow> nat" where
  "num_val base ds = foldl (\<lambda>v c. base * v + xdigit_val c) 0 ds"

definition base_digit :: "nat \<Rightarrow> char \<Rightarrow> bool" where
  "base_digit base c \<longleftrightarrow> isxdig c \<and> xdigit_val c < base"

definition strtol0 :: "string \<Rightarrow> int \<times> string" where
  "strtol0 s =
     (let (neg, r) = split_sign (dropWhile is_space s);
          (base, r) =
            (if peek r 0 = CHR ''0'' \<and> (peek r 1 = CHR ''x'' \<or> peek r 1 = CHR ''X'') \<and> isxdig (peek r 2)
             then (16, drop 2 r)
             else if peek r 0 = CHR ''0'' then (8, r) else (10, r));
          ds = takeWhile (base_digit base) r
      in if ds = [] then (0, s)
         else (clamp_long (if neg then - int (num_val base ds) else int (num_val base ds)), drop (length ds) r))"

definition USHRT_MAX :: int where "USHRT_MAX = 65535"

text \<open>The port behind the colon: 0 when there is none, \<open>None\<close> when it is not valid.\<close>

definition parse_port :: "string \<Rightarrow> int option" where
  "parse_port s =
     (if s = [] then Some 0
      else let (port, e) = strtol0 s in if 0 < port \<and> port \<le> USHRT_MAX \<and> e = [] then Some port else None)"

definition append_port :: "string \<Rightarrow> int \<Rightarrow> string" where
  "append_port b port = (if port \<noteq> 0 then b @ CHR '':'' # itostr (word_of_int port) [] else b)"

text \<open>The conversions between addresses and text are functions of the system.\<close>

record 'a inet =
  inet_aton :: "string \<Rightarrow> 32 word option"
  inet_ntop4 :: "32 word \<Rightarrow> string"
  inet_pton6 :: "string \<Rightarrow> 'a option"
  inet_ntop6 :: "'a \<Rightarrow> string"

definition normalize_ipv4 :: "'a inet \<Rightarrow> string \<Rightarrow> string" where
  "normalize_ipv4 net b =
     (if isdig (peek b 0)
      then case inet_aton net (cstr b) of Some addr \<Rightarrow> inet_ntop4 net addr | None \<Rightarrow> b
      else b)"

text \<open>The position of the closing bracket and the port.\<close>

definition ipv6_bracket :: "string \<Rightarrow> (nat \<times> int) option" where
  "ipv6_bracket b =
     (let blen = length b
      in if blen \<le> 2 then None
         else if b ! (blen - 1) = CHR '']'' then Some (blen - 1, 0)
         else case memchr CHR '']'' (drop 1 b) of
             None \<Rightarrow> None
           | Some k \<Rightarrow>
               let bracket = k + 1
               in if peek b (bracket + 1) \<noteq> CHR '':'' \<or> bracket = 1 then None
                  else map_option (\<lambda>port. (bracket, port)) (parse_port (cstr (drop (bracket + 2) b))))"

definition INET6_BUF :: nat where "INET6_BUF = 46 + 16"

definition normalize_ipv6 :: "'a inet \<Rightarrow> string \<Rightarrow> nat \<Rightarrow> string option" where
  "normalize_ipv6 net b bracket =
     (let percent = map_option Suc (strchr (drop 1 b) CHR ''%'');
          b0 = b[bracket := NUL];
          b0 = (case percent of None \<Rightarrow> b0 | Some p \<Rightarrow> b0[p := NUL])
      in case inet_pton6 net (cstr (drop 1 b0)) of
           None \<Rightarrow> None
         | Some addr \<Rightarrow>
             let buf = inet_ntop6 net addr
             in case percent of
                  None \<Rightarrow> Some (''['' @ buf @ '']'')
                | Some p \<Rightarrow>
                    if p > bracket then None
                    else if length buf + (bracket - p) \<ge> INET6_BUF then None
                    else Some (''['' @ buf @ take (bracket - p) (drop p b) @ '']''))"

text \<open>\<open>None\<close> is the return with -1; the request is refused then.\<close>

definition http_request_host_normalize :: "'a inet \<Rightarrow> string \<Rightarrow> string option" where
  "http_request_host_normalize net b =
     (if peek b 0 \<noteq> CHR ''[''
      then case memchr CHR '':'' b of
          None \<Rightarrow> Some (normalize_ipv4 net b)
        | Some colon \<Rightarrow>
            if peek b 0 = CHR '':'' then None
            else map_option (\<lambda>port. append_port (normalize_ipv4 net (take colon b)) port)
                   (parse_port (cstr (drop (colon + 1) b)))
      else case ipv6_bracket b of
          None \<Rightarrow> None
        | Some (bracket, port) \<Rightarrow> map_option (\<lambda>b. append_port b port) (normalize_ipv6 net b bracket))"

section \<open>What an accepted host name looks like\<close>

definition host_char :: "char \<Rightarrow> bool" where
  "host_char c \<longleftrightarrow> c = CHR ''.'' \<or> c = CHR ''-'' \<or> isaln c"

text \<open>Letters, digits, dashes and dots, starting with a letter or digit, as does everything behind a dot.\<close>

definition valid_hostname :: "string \<Rightarrow> bool" where
  "valid_hostname h \<longleftrightarrow> h \<noteq> [] \<and> list_all host_char h \<and> isaln (hd h) \<and>
     (\<forall>j < length h - 1. h ! j = CHR ''.'' \<longrightarrow> isaln (h ! (j + 1)))"

definition scan_inv :: "string \<Rightarrow> nat \<Rightarrow> nat \<Rightarrow> label_stage \<Rightarrow> nat \<Rightarrow> int \<Rightarrow> bool" where
  "scan_inv host hl i stage ll ip \<longleftrightarrow>
     (\<forall>j. i \<le> j \<longrightarrow> j < hl \<longrightarrow> host_char (host ! j)) \<and>
     (\<forall>j. i \<le> j \<longrightarrow> j + 1 < hl \<longrightarrow> host ! j = CHR ''.'' \<longrightarrow> isaln (host ! (j + 1))) \<and>
     (i < hl \<longrightarrow> (ll = 0 \<longleftrightarrow> host ! i = CHR ''.'')) \<and> (i = hl \<longrightarrow> ll = 0) \<and>
     (i = 0 \<longrightarrow> ll \<noteq> 0 \<longrightarrow> isaln (host ! 0)) \<and>
     (stage = DOMAINLABEL \<longrightarrow> i < hl \<and> (ip = 1 \<longrightarrow> ll \<noteq> 0 \<longrightarrow> isdig (host ! i))) \<and>
     (stage = TOPLABEL \<longrightarrow> (ip = - 1 \<or> ip = 0) \<and>
        (ip = - 1 \<longrightarrow> 0 < i \<longrightarrow> i < hl \<longrightarrow> host ! i \<noteq> CHR ''.'' \<longrightarrow> isdig (host ! i)))"

lemma from_iff: "(\<forall>j. i \<le> j \<longrightarrow> P j) \<longleftrightarrow> P i \<and> (\<forall>j. Suc i \<le> j \<longrightarrow> P j)"
  by (metis Suc_leD Suc_leI le_neq_implies_less order_refl)

lemma dot_not_alnum: "\<not> isaln CHR ''.''" "\<not> isaln CHR ''-''" "\<not> isdig CHR ''.''" "\<not> isdig CHR ''-''"
  by (simp_all add: light_isalnum_def light_isdigit_def light_isalpha_def)

lemma isdig_isaln: "isdig c \<Longrightarrow> isaln c"
  by (simp add: light_isalnum_def)

lemma scan_inv_step:
  assumes "scan_inv host hl (Suc i) stage ll ip" and "i < hl" and "host_char (host ! i)"
    and "Suc i < hl \<Longrightarrow> host ! i = CHR ''.'' \<Longrightarrow> isaln (host ! Suc i)"
    and "ll' = 0 \<longleftrightarrow> host ! i = CHR ''.''" and "i = 0 \<Longrightarrow> ll' \<noteq> 0 \<Longrightarrow> isaln (host ! 0)"
    and "stage' = DOMAINLABEL \<Longrightarrow> ip' = 1 \<Longrightarrow> ll' \<noteq> 0 \<Longrightarrow> isdig (host ! i)"
    and "stage' = TOPLABEL \<Longrightarrow> ip' = - 1 \<or> ip' = 0"
    and "stage' = TOPLABEL \<Longrightarrow> ip' = - 1 \<Longrightarrow> 0 < i \<Longrightarrow> host ! i \<noteq> CHR ''.'' \<Longrightarrow> isdig (host ! i)"
  shows "scan_inv host hl i stage' ll' ip'"
  using assms unfolding scan_inv_def
  by (subst from_iff, subst (2) from_iff) simp

lemma scan_step:
  assumes hl: "hl \<le> length host" and i: "i < hl" and inv: "scan_inv host hl (Suc i) stage ll ip"
    and r: "scan_hostname host hl (Suc i) stage ll ip lev"
  shows "\<exists>stage' ll' ip' lev'. scan_hostname host hl i stage' ll' ip' lev' \<and> scan_inv host hl i stage' ll' ip'"
proof -
  have pk: "Suc i < hl \<Longrightarrow> peek host (Suc i) = host ! Suc i" using hl by (simp add: peek_def)
  have ll: "Suc i < hl \<Longrightarrow> ll = 0 \<longleftrightarrow> host ! Suc i = CHR ''.''" "Suc i = hl \<Longrightarrow> ll = 0"
    and ch: "Suc i < hl \<Longrightarrow> host_char (host ! Suc i)"
    using inv by (auto simp: scan_inv_def)
  note step = scan_inv_step [OF inv i]
  show ?thesis
  proof (cases stage)
    case TOPLABEL
    then have ip: "ip = - 1 \<or> ip = 0" "ip = - 1 \<Longrightarrow> Suc i < hl \<Longrightarrow> host ! Suc i \<noteq> CHR ''.'' \<Longrightarrow> isdig (host ! Suc i)"
      using inv by (auto simp: scan_inv_def)
    show ?thesis
    proof (cases "host ! i = CHR ''.''")
      case dot: True
      show ?thesis
      proof (cases "i = hl - 1")
        case True
        then have "scan_hostname host hl i TOPLABEL ll ip lev" "i \<noteq> 0" using r TOPLABEL dot
          by (auto simp: Let_def split: if_splits)
        moreover have "scan_inv host hl i TOPLABEL ll ip"
          using True i ll ip(1) dot by (intro step) (auto simp: host_char_def)
        ultimately show ?thesis by blast
      next
        case False
        then have lt: "Suc i < hl" using i by simp
        have ll0: "ll \<noteq> 0" using r TOPLABEL dot False by (cases "ll = 0") (simp_all add: Let_def)
        have aln: "isaln (host ! Suc i)"
          using r TOPLABEL dot False ip ll(1) [OF lt] ll0 lt pk [OF lt]
          by (auto simp: Let_def isdig_isaln split: if_splits)
        have "\<exists>ip' lev'. scan_hostname host hl i DOMAINLABEL 0 ip' lev'"
          using r TOPLABEL dot False ll0 by (auto simp: Let_def split: if_splits)
        then obtain ip' lev' where s: "scan_hostname host hl i DOMAINLABEL 0 ip' lev'" by blast
        have "scan_inv host hl i DOMAINLABEL 0 ip'"
          using aln dot by (intro step) (auto simp: host_char_def)
        with s show ?thesis by blast
      qed
    next
      case False
      have "i = 0 \<Longrightarrow> isaln (host ! i)" "host_char (host ! i)"
        and s: "\<exists>ip'. scan_hostname host hl i TOPLABEL (ll + 1) ip' lev \<and> (ip' = - 1 \<or> ip' = 0) \<and>
          (ip' = - 1 \<longrightarrow> 0 < i \<longrightarrow> isdig (host ! i))"
        using r TOPLABEL False ip(1) by (auto simp: Let_def host_char_def split: if_splits)
      then obtain ip' where "scan_hostname host hl i TOPLABEL (ll + 1) ip' lev" "ip' = - 1 \<or> ip' = 0"
          "ip' = - 1 \<longrightarrow> 0 < i \<longrightarrow> isdig (host ! i)" by blast
      moreover from this have "scan_inv host hl i TOPLABEL (ll + 1) ip'"
        using False \<open>i = 0 \<Longrightarrow> isaln (host ! i)\<close> \<open>host_char (host ! i)\<close> by (intro step) auto
      ultimately show ?thesis by blast
    qed
  next
    case DOMAINLABEL
    then have lt: "Suc i < hl" and ip: "ip = 1 \<Longrightarrow> ll \<noteq> 0 \<Longrightarrow> isdig (host ! Suc i)"
      using inv by (auto simp: scan_inv_def)
    show ?thesis
    proof (cases "host ! i = CHR ''.''")
      case dot: True
      have ll0: "ll \<noteq> 0" and s: "scan_hostname host hl i DOMAINLABEL 0 ip (lev + 1)"
        using r DOMAINLABEL dot by (auto simp: Let_def split: if_splits)
      have "isaln (host ! Suc i)"
        using r DOMAINLABEL dot ip ll0 ll(1) [OF lt] ch [OF lt] pk [OF lt]
        by (auto simp: Let_def host_char_def isdig_isaln split: if_splits)
      then have "scan_inv host hl i DOMAINLABEL 0 ip"
        using dot by (intro step) (auto simp: host_char_def)
      with s show ?thesis by blast
    next
      case False
      have s: "scan_hostname host hl i DOMAINLABEL (ll + 1) ip lev"
        and c: "i = 0 \<Longrightarrow> isaln (host ! i)" "host_char (host ! i)" "ip = 1 \<Longrightarrow> isdig (host ! i)"
        using r DOMAINLABEL False by (auto simp: Let_def host_char_def isdig_isaln split: if_splits)
      have "scan_inv host hl i DOMAINLABEL (ll + 1) ip"
        using False c by (intro step) auto
      with s show ?thesis by blast
    qed
  qed
qed

lemma scan_hostname_valid:
  assumes "hl \<le> length host" and "0 < hl"
  shows "scan_hostname host hl i stage ll ip lev \<Longrightarrow> i \<le> hl \<Longrightarrow> scan_inv host hl i stage ll ip \<Longrightarrow>
    valid_hostname (take hl host)"
proof (induction i arbitrary: stage ll ip lev)
  case 0
  then have "list_all host_char (take hl host)"
    using assms(1) by (auto simp: list_all_length scan_inv_def)
  moreover have "isaln (host ! 0)" using 0 by (auto simp: scan_inv_def)
  ultimately show ?case using 0 assms by (cases host) (auto simp: valid_hostname_def scan_inv_def)
next
  case (Suc i)
  have "\<exists>stage' ll' ip' lev'. scan_hostname host hl i stage' ll' ip' lev' \<and> scan_inv host hl i stage' ll' ip'"
    using scan_step [OF assms(1) _ Suc.prems(3,1)] Suc.prems(2) by simp
  then show ?case using Suc.IH Suc.prems(2) by auto
qed

section \<open>Accepted hosts\<close>

definition valid_port :: "string \<Rightarrow> bool" where
  "valid_port p = (case p of [] \<Rightarrow> True | c # ds \<Rightarrow> c = CHR '':'' \<and> list_all isdig ds)"

definition ipv6_char :: "char \<Rightarrow> bool" where
  "ipv6_char c \<longleftrightarrow> isxdig c \<or> c = CHR '':'' \<or> c = CHR ''.''"

lemma scan_ipv6_split:
  "scan_ipv6 n s = Some r \<Longrightarrow> \<exists>a. s = a @ r \<and> list_all ipv6_char a \<and> (r = [] \<or> hd r = NUL \<or> hd r = CHR '']'')"
proof (induction n s rule: scan_ipv6.induct)
  case (2 n c cs)
  show ?case
  proof (cases "c = NUL \<or> c = CHR '']''")
    case True
    then show ?thesis using 2(3) by auto
  next
    case False
    then obtain a where "cs = a @ r" "list_all ipv6_char a" "r = [] \<or> hd r = NUL \<or> hd r = CHR '']''"
      using 2 by (auto split: if_splits)
    moreover have "ipv6_char c" using 2(3) False by (auto simp: ipv6_char_def split: if_splits)
    ultimately show ?thesis by (intro exI [of _ "c # a"]) simp
  qed
qed simp

lemma check_ipv6_shape:
  assumes "check_ipv6 s" and "NUL \<notin> set s"
  shows "\<exists>a p. s = a @ CHR '']'' # p \<and> list_all ipv6_char a \<and> valid_port p"
proof -
  obtain r where r: "scan_ipv6 0 s = Some r" using assms(1) by (auto simp: check_ipv6_def split: option.splits)
  from scan_ipv6_split [OF this] obtain a where a: "s = a @ r" "list_all ipv6_char a"
    "r = [] \<or> hd r = NUL \<or> hd r = CHR '']''" by blast
  have "r \<noteq> []" using assms(1) r by (auto simp: check_ipv6_def peek_def)
  then obtain p where p: "r = CHR '']'' # p" using a assms(2) by (cases r) auto
  have "NUL \<notin> set p" using assms(2) a(1) p by simp
  then have "valid_port p"
    using assms(1) r p by (cases p) (auto simp: check_ipv6_def peek_def valid_port_def split: if_splits)
  then show ?thesis using a p by auto
qed

text \<open>A host name or address with an optional port.\<close>

definition host_shape :: "string \<Rightarrow> bool" where
  "host_shape host \<longleftrightarrow>
     (\<exists>h p. host = h @ p \<and> valid_hostname h \<and> valid_port p) \<or>
     (\<exists>a p. host = CHR ''['' # a @ CHR '']'' # p \<and> list_all ipv6_char a \<and> valid_port p)"

lemma port_shape:
  assumes "NUL \<notin> set host"
    and "case memchr CHR '':'' host of None \<Rightarrow> True | Some n \<Rightarrow> list_all isdig (cstr (drop (n + 1) host))"
  defines "n \<equiv> case memchr CHR '':'' host of None \<Rightarrow> length host | Some n \<Rightarrow> n"
  shows "n \<le> length host" and "valid_port (drop n host)"
proof -
  show "n \<le> length host" by (auto simp: n_def memchr_Some_iff split: option.split)
  show "valid_port (drop n host)"
  proof (cases "memchr CHR '':'' host")
    case None
    then show ?thesis by (simp add: n_def valid_port_def)
  next
    case (Some k)
    then have "drop k host = CHR '':'' # drop (k + 1) host" using Cons_nth_drop_Suc [of k host] by (auto simp: memchr_Some_iff)
    moreover have "NUL \<notin> set (drop (k + 1) host)" using assms(1) by (meson in_set_dropD)
    ultimately show ?thesis using assms(2) Some by (simp add: n_def valid_port_def)
  qed
qed

lemma port_chars: "valid_port p \<Longrightarrow> c \<in> set p \<Longrightarrow> c = CHR '':'' \<or> isdig c"
  by (cases p) (auto simp: valid_port_def list_all_iff)

lemma slash_free: "\<not> isaln CHR ''/''" "\<not> isdig CHR ''/''" "\<not> isxdig CHR ''/''"
  by (simp_all add: light_isalnum_def light_isdigit_def light_isalpha_def light_isxdigit_def)

lemma host_shape_no_slash: "host_shape host \<Longrightarrow> CHR ''/'' \<notin> set host"
  using slash_free
  by (fastforce simp: host_shape_def valid_hostname_def host_char_def ipv6_char_def list_all_iff dest: port_chars)

lemma host_shape_no_dots:
  assumes "host_shape host" and "hd host \<noteq> CHR ''[''"
  shows "\<not> has_substring ''..'' host"
proof
  assume "has_substring ''..'' host"
  then obtain u v where uv: "host = u @ ''..'' @ v" by (auto simp: has_substring_iff)
  obtain h p where hp: "host = h @ p" "valid_hostname h" "valid_port p" using assms by (auto simp: host_shape_def)
  have "\<not> length h \<le> length u + 1"
  proof
    assume "length h \<le> length u + 1"
    moreover have "length u + 1 < length (h @ p)" using uv hp(1) arg_cong [of "h @ p" host length]
      by simp
    ultimately have "host ! (length u + 1) \<in> set p"
      unfolding hp(1) by (simp add: nth_append)
    moreover have "host ! (length u + 1) = CHR ''.''" unfolding uv by (simp add: nth_append)
    ultimately have "CHR ''.'' \<in> set p" by simp
    then show False using port_chars [OF hp(3)] dot_not_alnum(3) by fastforce
  qed
  then have lt: "length u < length h - 1" by simp
  have "h ! length u = host ! length u" "h ! (length u + 1) = host ! (length u + 1)"
    using lt hp(1) by (auto simp: nth_append)
  moreover have "host ! length u = CHR ''.''" "host ! (length u + 1) = CHR ''.''"
    unfolding uv by (simp_all add: nth_append)
  moreover have "\<forall>j < length h - 1. h ! j = CHR ''.'' \<longrightarrow> isaln (h ! (j + 1))"
    using hp(2) unfolding valid_hostname_def by blast
  ultimately have "isaln CHR ''.''" using lt by metis
  then show False using dot_not_alnum(1) by simp
qed

section \<open>Properties\<close>

lemma request_check_hostname_host_shape:
  assumes "NUL \<notin> set host" and "request_check_hostname host = (host', True)"
  shows "host_shape host'"
proof (cases "peek host 0 = CHR ''[''")
  case True
  then obtain s where s: "host = CHR ''['' # s" by (cases host) (auto simp: peek_def NUL_def)
  then have "check_ipv6 s" "host' = host" using assms(2) True by (simp_all add: request_check_hostname_def)
  moreover have "NUL \<notin> set s" using assms(1) s by simp
  ultimately show ?thesis using check_ipv6_shape [of s] s by (auto simp: host_shape_def)
next
  case False
  define n where "n = (case memchr CHR '':'' host of None \<Rightarrow> length host | Some n \<Rightarrow> n)"
  have port: "case memchr CHR '':'' host of None \<Rightarrow> True | Some n \<Rightarrow> list_all isdig (cstr (drop (n + 1) host))"
    and n0: "n \<noteq> 0"
    using assms(2) False unfolding request_check_hostname_def n_def Let_def by (auto split: if_splits)
  note ps = port_shape [OF assms(1) port, folded n_def]
  have valid: "valid_hostname (take hl h)" if "scan_hostname h hl hl TOPLABEL 0 (- 1) 0" "hl \<le> length h" "0 < hl" for h hl
    using scan_hostname_valid [OF that(2,3,1)] by (simp add: scan_inv_def)
  have r: "(if host ! (n - 1) = CHR ''.'' then
      let host = take (n - 1) host @ drop n host; host_len = n - 1
      in if host_len = 0 then (host, False) else (host, scan_hostname host host_len host_len TOPLABEL 0 (- 1) 0)
    else (host, scan_hostname host n n TOPLABEL 0 (- 1) 0)) = (host', True)"
    using assms(2) False port n0 unfolding request_check_hostname_def n_def by (simp add: Let_def)
  show ?thesis
  proof (cases "host ! (n - 1) = CHR ''.''")
    case True
    let ?h = "take (n - 1) host @ drop n host"
    have h: "host' = ?h" "n - 1 \<noteq> 0" "scan_hostname ?h (n - 1) (n - 1) TOPLABEL 0 (- 1) 0"
      using r True by (auto simp: Let_def split: if_splits)
    have "take (n - 1) ?h = take (n - 1) host" using ps(1) by simp
    then have "valid_hostname (take (n - 1) host)" using valid [OF h(3)] h(2) ps(1) by simp
    then show ?thesis using h(1) ps(2) by (auto simp: host_shape_def)
  next
    case False
    then have "host' = host" "valid_hostname (take n host)"
      using r valid [of host n] ps(1) n0 by auto
    then show ?thesis using ps(2) by (metis append_take_drop_id host_shape_def)
  qed
qed

lemma request_check_hostname_chars:
  "NUL \<notin> set host \<Longrightarrow> request_check_hostname host = (host', ok) \<Longrightarrow> NUL \<notin> set host'"
  by (auto simp: request_check_hostname_def Let_def split: if_splits dest: in_set_takeD in_set_dropD)

text \<open>C39: A host the check accepts is, after the dot at its end was removed, a name of letters, digits, dashes
  and dots where every label starts with a letter or digit, or brackets around hexadecimal digits,
  colons and dots, followed by an optional port of digits; so it contains no slash. A name contains no two
  dots in a row; what stands in brackets is not checked further and may.\<close>

theorem request_check_hostname_shape:
  assumes "NUL \<notin> set host" and "request_check_hostname host = (host', True)"
  shows "host_shape host' \<and> CHR ''/'' \<notin> set host' \<and> (hd host' \<noteq> CHR ''['' \<longrightarrow> \<not> has_substring ''..'' host')"
  using request_check_hostname_host_shape [OF assms] host_shape_no_slash host_shape_no_dots by blast

theorem request_check_hostname_shape_witness:
  "request_check_hostname ''www.example.org.:8080'' = (''www.example.org:8080'', True) \<and>
   host_shape ''www.example.org:8080''"
proof -
  have r: "request_check_hostname ''www.example.org.:8080'' = (''www.example.org:8080'', True)" by code_simp
  from request_check_hostname_shape [OF _ r] r show ?thesis by (simp add: NUL_def)
qed

text \<open>The check is more lenient than the grammar quoted in the code: a second dot at the end and a dash at
  the end of a label pass.\<close>

lemma request_check_hostname_lenient:
  "request_check_hostname ''a..'' = (''a.'', True)" "request_check_hostname ''a-.b-'' = (''a-.b-'', True)"
  by code_simp+

section \<open>Normal forms\<close>

text \<open>What is documented of the conversions: printing an address gives text in the usual characters that
  reads back as the address.\<close>

definition inet_ok :: "'a inet \<Rightarrow> bool" where
  "inet_ok net \<longleftrightarrow>
     (\<forall>a. inet_aton net (inet_ntop4 net a) = Some a \<and> inet_ntop4 net a \<noteq> [] \<and> isdig (hd (inet_ntop4 net a)) \<and>
        list_all (\<lambda>c. isdig c \<or> c = CHR ''.'') (inet_ntop4 net a)) \<and>
     (\<forall>a. inet_pton6 net (inet_ntop6 net a) = Some a \<and> 2 \<le> length (inet_ntop6 net a) \<and>
        list_all ipv6_char (inet_ntop6 net a))"

lemma num_val_dec: "\<forall>c \<in> set ds. isdig c \<Longrightarrow> num_val 10 ds = dec_val ds"
proof (induction ds rule: rev_induct)
  case (snoc c ds)
  then show ?case by (simp add: num_val_def dec_val_def xdigit_val_def digit_val_def)
qed (simp add: num_val_def)

lemma is_digit_isdig: "is_digit = isdig"
  by (simp add: fun_eq_iff is_digit_def light_isdigit_def)

lemma dec_val_0_lead: "\<forall>c \<in> set ds. is_digit c \<Longrightarrow> dec_val (CHR ''0'' # ds) < 10 ^ length ds"
proof (induction ds rule: rev_induct)
  case (snoc c ds)
  then have "dec_val (CHR ''0'' # ds) < 10 ^ length ds" by simp
  moreover have "dec_val ((CHR ''0'' # ds) @ [c]) = 10 * dec_val (CHR ''0'' # ds) + digit_val c" by (rule dec_val_snoc)
  ultimately show ?case using snoc.prems digit_val_less [of c] by simp
qed (simp add: dec_val_def digit_val_def)

lemma parse_port_itostr:
  assumes "0 < port" and "port \<le> USHRT_MAX"
  shows "parse_port (itostr (word_of_int port) []) = Some port" and "valid_port (CHR '':'' # itostr (word_of_int port) [])"
    and "itostr (word_of_int port) [] \<noteq> []"
proof -
  let ?w = "word_of_int port :: 64 word"
  have "uint ?w = port mod 2 ^ 64" by (simp only: uint_word_of_int) simp
  then have "uint ?w = port" using assms by (simp add: USHRT_MAX_def)
  then have u: "unat ?w = nat port" by (simp only: unat_eq_nat_uint)
  have "sint ?w = signed_take_bit 63 port" by (simp only: sint_sbintrunc') simp
  then have "sint ?w = port" using assms by (simp add: USHRT_MAX_def signed_take_bit_int_eq_self)
  then have i: "itostr ?w [] = utostr ?w []" using assms by (simp add: itostr_def)
  define ds where "ds = utostr ?w []"
  have ds: "ds \<noteq> []" "\<forall>c \<in> set ds. is_digit c" "dec_val ds = nat port"
    using utostr_digits utostr_not_Nil dec_val_utostr [of ?w] u by (simp_all add: ds_def)
  have dig: "\<forall>c \<in> set ds. isdig c" using ds(2) by (simp add: is_digit_isdig)
  have lead: "hd ds \<noteq> CHR ''0''"
  proof
    assume h: "hd ds = CHR ''0''"
    then obtain r where r: "ds = CHR ''0'' # r" using ds(1) by (cases ds) auto
    have "dec_val ds < 10 ^ length r" using dec_val_0_lead [of r] ds(2) r by simp
    moreover have "length ds = 1 \<or> 10 ^ (length ds - 1) \<le> dec_val ds"
      using utostr_lead [of ?w] dec_val_utostr [of ?w] by (simp add: ds_def)
    ultimately show False using r ds(3) assms(1) by auto
  qed
  have pk: "peek ds 0 \<noteq> CHR ''0''" using lead ds(1) by (simp add: peek_def hd_conv_nth)
  have sg: "split_sign (dropWhile is_space ds) = (False, ds)" using digits_no_sign [OF ds(1,2), of "[]"] by simp
  have tw: "takeWhile (base_digit 10) ds = ds"
    using dig by (auto simp: base_digit_def xdigit_val_def light_isxdigit_def light_isdigit_def)
  have cl: "clamp_long (int (num_val 10 ds)) = port"
    using num_val_dec [OF dig] ds(3) assms by (simp add: clamp_long_def LONG_MAX_def LONG_MIN_def USHRT_MAX_def)
  have "strtol0 ds = (port, [])" using pk ds(1) cl by (simp add: strtol0_def sg tw Let_def)
  then show "parse_port (itostr ?w []) = Some port" "itostr ?w [] \<noteq> []"
    "valid_port (CHR '':'' # itostr ?w [])"
    using assms ds(1) dig i by (simp_all add: parse_port_def ds_def valid_port_def list_all_iff)
qed

lemma memchr_append: "c \<notin> set h \<Longrightarrow> memchr c (h @ c # r) = Some (length h)"
  by (simp add: memchr_Some_iff nth_append)

lemma port_range: "parse_port s = Some port \<Longrightarrow> port \<noteq> 0 \<Longrightarrow> 0 < port \<and> port \<le> USHRT_MAX"
  by (auto simp: parse_port_def split: if_splits prod.splits)

lemma port_digits:
  assumes "parse_port s = Some port" and "port \<noteq> 0"
  shows "list_all isdig (itostr (word_of_int port) [])"
  using parse_port_itostr(2) [of port] port_range [OF assms] by (simp add: valid_port_def)

lemma digits_plain: "list_all isdig ds \<Longrightarrow> cstr ds = ds \<and> NUL \<notin> set ds \<and> CHR '':'' \<notin> set ds \<and> CHR '']'' \<notin> set ds \<and> CHR ''%'' \<notin> set ds"
  by (auto simp: list_all_iff light_isdigit_def intro!: cstr_no_NUL)

lemma plain_chars:
  "\<not> isdig NUL" "\<not> isdig CHR '':''" "\<not> isdig CHR ''[''" "\<not> ipv6_char NUL" "\<not> ipv6_char CHR ''%''"
  "\<not> ipv6_char CHR '']''" "NUL \<noteq> CHR ''.''"
  by (simp_all add: NUL_def light_isdigit_def light_isxdigit_def ipv6_char_def)

lemma list_all_not_in: "list_all P xs \<Longrightarrow> \<not> P c \<Longrightarrow> c \<notin> set xs"
  by (auto simp: list_all_iff)

definition name_ok :: "string \<Rightarrow> bool" where
  "name_ok h \<longleftrightarrow> NUL \<notin> set h \<and> CHR '':'' \<notin> set h \<and> peek h 0 \<noteq> CHR ''[''"

lemma normalize_ipv4_ok:
  assumes "inet_ok net" and "name_ok b"
  defines "h \<equiv> normalize_ipv4 net b"
  shows "normalize_ipv4 net h = h" and "name_ok h" and "b \<noteq> [] \<Longrightarrow> h \<noteq> []"
proof -
  have "normalize_ipv4 net h = h \<and> name_ok h \<and> (b \<noteq> [] \<longrightarrow> h \<noteq> [])"
  proof (cases "isdig (peek b 0) \<and> inet_aton net (cstr b) \<noteq> None")
    case False
    then have "h = b" by (auto simp: h_def normalize_ipv4_def split: option.splits)
    then show ?thesis using assms(2) False by (auto simp: normalize_ipv4_def split: option.splits)
  next
    case True
    then obtain a where a: "h = inet_ntop4 net a" by (auto simp: h_def normalize_ipv4_def)
    have i: "inet_aton net h = Some a" "h \<noteq> []" "isdig (hd h)" "list_all (\<lambda>c. isdig c \<or> c = CHR ''.'') h"
      using assms(1) a by (simp_all add: inet_ok_def)
    have "NUL \<notin> set h" "CHR '':'' \<notin> set h"
      using list_all_not_in [OF i(4), of NUL] list_all_not_in [OF i(4), of "CHR '':''"] plain_chars by simp_all
    moreover have "peek h 0 = hd h" using i(2) by (simp add: peek_def hd_conv_nth)
    moreover have "hd h \<noteq> CHR ''[''" using i(3) by (auto simp: light_isdigit_def)
    ultimately show ?thesis using i a by (simp add: normalize_ipv4_def name_ok_def)
  qed
  then show "normalize_ipv4 net h = h" "name_ok h" "b \<noteq> [] \<Longrightarrow> h \<noteq> []" by simp_all
qed

lemma normalize_name:
  assumes "name_ok h" and "h \<noteq> []" and "normalize_ipv4 net h = h" and "port \<noteq> 0 \<Longrightarrow> 0 < port \<and> port \<le> USHRT_MAX"
  shows "http_request_host_normalize net (append_port h port) = Some (append_port h port)"
proof (cases "port = 0")
  case True
  then have "memchr CHR '':'' h = None" using assms(1) by (simp add: name_ok_def memchr_None_iff)
  then have "http_request_host_normalize net h = Some (normalize_ipv4 net h)"
    using assms(1) by (simp add: http_request_host_normalize_def name_ok_def)
  then show ?thesis using True assms(3) by (simp add: append_port_def)
next
  case False
  let ?ds = "itostr (word_of_int port) []"
  have p: "parse_port ?ds = Some port" "list_all isdig ?ds"
    using parse_port_itostr [of port] assms(4) False by (simp_all add: valid_port_def)
  have "memchr CHR '':'' (h @ CHR '':'' # ?ds) = Some (length h)"
    using assms(1) by (simp add: memchr_append name_ok_def)
  moreover obtain x xs where "h = x # xs" using assms(2) by (cases h) auto
  then have "peek (h @ CHR '':'' # ?ds) 0 = x" "x \<noteq> CHR ''[''" "x \<noteq> CHR '':''"
    using assms(1) by (auto simp: peek_def name_ok_def)
  ultimately have "http_request_host_normalize net (h @ CHR '':'' # ?ds) =
      map_option (\<lambda>port. append_port (normalize_ipv4 net h) port) (parse_port (cstr ?ds))"
    by (simp add: http_request_host_normalize_def)
  then have "http_request_host_normalize net (h @ CHR '':'' # ?ds) = Some (append_port h port)"
    using p(1) digits_plain [OF p(2)] assms(3) by simp
  moreover have "append_port h port = h @ CHR '':'' # ?ds" using False by (simp add: append_port_def)
  ultimately show ?thesis by simp
qed

lemma first_plain: "peek b 0 \<noteq> CHR '':'' \<Longrightarrow> memchr CHR '':'' b = Some k \<Longrightarrow> take k b \<noteq> [] \<and> peek (take k b) 0 = peek b 0"
  by (cases b) (auto simp: peek_def memchr_Some_iff take_Cons split: nat.splits)

lemma normalize_name_idem:
  assumes net: "inet_ok net" and nul: "NUL \<notin> set b" and br: "peek b 0 \<noteq> CHR ''[''"
    and r: "http_request_host_normalize net b = Some b'"
  shows "http_request_host_normalize net b' = Some b'"
proof (cases "memchr CHR '':'' b")
  case None
  then have nm: "name_ok b" using nul br by (simp add: name_ok_def memchr_None_iff)
  have b': "b' = normalize_ipv4 net b" using r br None by (simp add: http_request_host_normalize_def)
  note h = normalize_ipv4_ok [OF net nm]
  have "memchr CHR '':'' b' = None" using h(2) b' by (simp add: name_ok_def memchr_None_iff)
  then show ?thesis using h(1,2) b' by (simp add: http_request_host_normalize_def name_ok_def)
next
  case (Some k)
  obtain port where p: "peek b 0 \<noteq> CHR '':''" "parse_port (cstr (drop (k + 1) b)) = Some port"
    "b' = append_port (normalize_ipv4 net (take k b)) port"
    using r br Some by (auto simp: http_request_host_normalize_def split: if_splits)
  note f = first_plain [OF p(1) Some]
  have "name_ok (take k b)"
    using nul br f Some by (auto simp: name_ok_def memchr_Some_iff dest: in_set_takeD)
  note h = normalize_ipv4_ok [OF net this]
  show ?thesis
    unfolding p(3) by (rule normalize_name [OF h(2) h(3) h(1) port_range [OF p(2)]]) (use f in simp)
qed

text \<open>The form an address in brackets is brought to: the text of the address and perhaps a zone.\<close>

lemma normalize_bracketed:
  assumes net: "inet_ok net" and a: "buf = inet_ntop6 net a" and z: "zone = [] \<or> hd zone = CHR ''%''" "NUL \<notin> set zone"
    and len: "zone \<noteq> [] \<Longrightarrow> length buf + length zone < INET6_BUF"
    and port: "port \<noteq> 0 \<Longrightarrow> 0 < port \<and> port \<le> USHRT_MAX \<and> CHR '']'' \<notin> set zone"
  shows "http_request_host_normalize net (append_port (''['' @ buf @ zone @ '']'') port) =
    Some (append_port (''['' @ buf @ zone @ '']'') port)"
proof -
  define core where "core = buf @ zone"
  define tail where "tail = (if port \<noteq> 0 then CHR '':'' # itostr (word_of_int port) [] else [])"
  define b where "b = CHR ''['' # core @ CHR '']'' # tail"
  have b: "append_port (''['' @ buf @ zone @ '']'') port = b"
    by (simp add: append_port_def b_def core_def tail_def)
  have i: "inet_pton6 net buf = Some a" "2 \<le> length buf" "list_all ipv6_char buf"
    using net a by (simp_all add: inet_ok_def)
  have plain: "NUL \<notin> set buf" "CHR ''%'' \<notin> set buf" "CHR '']'' \<notin> set buf"
    using list_all_not_in [OF i(3)] plain_chars by blast+
  have tl: "NUL \<notin> set tail \<and> CHR ''%'' \<notin> set tail"
    using parse_port_itostr(2) [of port] port digits_plain [of "itostr (word_of_int port) []"]
    by (auto simp: tail_def valid_port_def NUL_def)
  have nul: "NUL \<notin> set (core @ CHR '']'' # tail)" using plain z(2) tl by (simp add: core_def NUL_def)
  have br: "ipv6_bracket b = Some (length core + 1, port)"
  proof (cases "port = 0")
    case True
    then show ?thesis using i(2) by (auto simp: ipv6_bracket_def b_def tail_def core_def nth_append)
  next
    case False
    let ?ds = "itostr (word_of_int port) []"
    have p: "parse_port ?ds = Some port" "list_all isdig ?ds" "?ds \<noteq> []"
      using parse_port_itostr [of port] port False by (simp_all add: valid_port_def)
    have e: "b = CHR ''['' # core @ CHR '']'' # CHR '':'' # ?ds" using False by (simp add: b_def tail_def)
    have "CHR '']'' \<notin> set core" using plain port False by (simp add: core_def)
    then have m: "memchr CHR '']'' (core @ CHR '']'' # CHR '':'' # ?ds) = Some (length core)" by (rule memchr_append)
    have "last b = last ?ds" using p(3) by (simp add: e)
    then have "last b \<noteq> CHR '']''" using digits_plain [OF p(2)] last_in_set [OF p(3)] by auto
    then have l: "b ! (length b - 1) \<noteq> CHR '']''" by (simp add: last_conv_nth e)
    have "length core \<noteq> 0" using i(2) by (auto simp: core_def)
    moreover have "peek b (length core + 2) = CHR '':''" by (simp add: e peek_def nth_append)
    moreover have "drop (length core + 3) b = ?ds" by (simp add: e numeral_3_eq_3)
    ultimately show ?thesis
      using m l p(1) digits_plain [OF p(2)] i(2)
      by (simp add: ipv6_bracket_def e numeral_3_eq_3 core_def)
  qed
  have "normalize_ipv6 net b (length core + 1) = Some (''['' @ buf @ zone @ '']'')"
  proof (cases "zone = []")
    case True
    have "strchr (drop 1 b) CHR ''%'' = None"
      using nul plain tl True by (simp add: strchr_def b_def memchr_None_iff core_def)
    moreover have "drop 1 (b[length core + 1 := NUL]) = buf @ NUL # tail" using True by (simp add: b_def core_def)
    ultimately show ?thesis using i(1) True plain(1) by (simp add: normalize_ipv6_def a Let_def)
  next
    case False
    then obtain zs where zs: "zone = CHR ''%'' # zs" using z(1) by (cases zone) auto
    have "strchr (drop 1 b) CHR ''%'' = Some (length buf)"
      using nul plain(2) by (simp add: strchr_def b_def core_def zs memchr_append)
    moreover have "drop 1 (b[length core + 1 := NUL, Suc (length buf) := NUL]) = buf @ NUL # zs @ NUL # tail"
      by (simp add: b_def core_def zs list_update_append)
    moreover have "take (length zone) (drop (Suc (length buf)) b) = zone" by (simp add: b_def core_def)
    ultimately show ?thesis
      using i(1) len False plain(1) by (simp add: normalize_ipv6_def a core_def zs)
  qed
  moreover have "peek b 0 = CHR ''[''" by (simp add: b_def peek_def)
  ultimately have "http_request_host_normalize net b = Some (append_port (''['' @ buf @ zone @ '']'') port)"
    using br by (simp add: http_request_host_normalize_def)
  then show ?thesis by (simp only: b)
qed

lemma normalize_ipv6_result:
  assumes nul: "NUL \<notin> set b" and br: "ipv6_bracket b = Some (bracket, port)"
    and r: "normalize_ipv6 net b bracket = Some b'"
  obtains a zone where "b' = ''['' @ inet_ntop6 net a @ zone @ '']''" and "zone = [] \<or> hd zone = CHR ''%''"
    and "NUL \<notin> set zone" and "zone \<noteq> [] \<Longrightarrow> length (inet_ntop6 net a) + length zone < INET6_BUF"
    and "port \<noteq> 0 \<Longrightarrow> CHR '']'' \<notin> set zone" and "set zone \<subseteq> set b"
proof -
  have lt: "bracket < length b" and at: "b ! bracket = CHR '']''"
    using br by (auto simp: ipv6_bracket_def Let_def memchr_Some_iff split: if_splits option.splits)
  have one: "CHR '']'' \<notin> set (take (bracket - 1) (drop 1 b))" if "port \<noteq> 0"
    using br that by (auto simp: ipv6_bracket_def Let_def memchr_Some_iff split: if_splits option.splits)
  obtain a where a: "(case map_option Suc (strchr (drop 1 b) CHR ''%'') of
        None \<Rightarrow> Some (''['' @ inet_ntop6 net a @ '']'')
      | Some p \<Rightarrow> if p > bracket then None
          else if length (inet_ntop6 net a) + (bracket - p) \<ge> INET6_BUF then None
          else Some (''['' @ inet_ntop6 net a @ take (bracket - p) (drop p b) @ '']'')) = Some b'"
    using r unfolding normalize_ipv6_def Let_def by (auto split: option.splits if_splits)
  show ?thesis
  proof (cases "strchr (drop 1 b) CHR ''%''")
    case None
    then show ?thesis using a that [of a "[]"] by simp
  next
    case (Some k)
    let ?zone = "take (bracket - Suc k) (drop (Suc k) b)"
    have "cstr (drop 1 b) = drop 1 b" using nul by (meson cstr_no_NUL in_set_dropD)
    then have k: "Suc k < length b" "b ! Suc k = CHR ''%''"
      using Some by (auto simp: strchr_def memchr_Some_iff)
    have le: "Suc k \<le> bracket" and b': "b' = ''['' @ inet_ntop6 net a @ ?zone @ '']''"
      and len: "length (inet_ntop6 net a) + (bracket - Suc k) < INET6_BUF"
      using a Some by (auto split: if_splits)
    have ne: "Suc k \<noteq> bracket" using k(2) at by auto
    have hd: "hd ?zone = CHR ''%''" using k le ne by (simp add: hd_take hd_drop_conv_nth)
    have sub: "set ?zone \<subseteq> set (take (bracket - 1) (drop 1 b))"
    proof -
      have "?zone = drop k (take (bracket - 1) (drop 1 b))" by (simp add: drop_take)
      then show ?thesis using set_drop_subset by metis
    qed
    show ?thesis
      by (rule that [OF b']) (use hd nul len lt le sub one in \<open>auto dest: in_set_takeD in_set_dropD\<close>)
  qed
qed

text \<open>No character but those of addresses and ports is added, so no slash comes in.\<close>

lemma append_port_no_slash:
  assumes "CHR ''/'' \<notin> set h" and "port \<noteq> 0 \<Longrightarrow> list_all isdig (itostr (word_of_int port) [])"
  shows "CHR ''/'' \<notin> set (append_port h port)"
  using assms list_all_not_in [of isdig, OF _ slash_free(2)] by (auto simp: append_port_def)

lemma normalize_ipv4_no_slash:
  assumes "inet_ok net" and "CHR ''/'' \<notin> set b"
  shows "CHR ''/'' \<notin> set (normalize_ipv4 net b)"
proof -
  have "CHR ''/'' \<notin> set (inet_ntop4 net a)" for a
    using assms(1) slash_free(2) by (intro list_all_not_in [of "\<lambda>c. isdig c \<or> c = CHR ''.''"]) (simp_all add: inet_ok_def)
  then show ?thesis using assms(2) by (auto simp: normalize_ipv4_def split: option.split)
qed

lemma host_normalize_no_slash:
  assumes net: "inet_ok net" and nul: "NUL \<notin> set b" and b: "CHR ''/'' \<notin> set b"
    and r: "http_request_host_normalize net b = Some b'"
  shows "CHR ''/'' \<notin> set b'"
proof (cases "peek b 0 = CHR ''[''")
  case False
  show ?thesis
  proof (cases "memchr CHR '':'' b")
    case None
    then show ?thesis using r False normalize_ipv4_no_slash [OF net b] by (simp add: http_request_host_normalize_def)
  next
    case (Some k)
    then obtain port where p: "parse_port (cstr (drop (k + 1) b)) = Some port" "b' = append_port (normalize_ipv4 net (take k b)) port"
      using r False by (auto simp: http_request_host_normalize_def split: if_splits)
    have "CHR ''/'' \<notin> set (take k b)" using b by (auto dest: in_set_takeD)
    then show ?thesis
      unfolding p(2) using normalize_ipv4_no_slash [OF net] port_digits [OF p(1)] by (intro append_port_no_slash) simp_all
  qed
next
  case True
  then obtain bracket port b1 where b1: "ipv6_bracket b = Some (bracket, port)" "normalize_ipv6 net b bracket = Some b1"
    "b' = append_port b1 port"
    using r by (auto simp: http_request_host_normalize_def split: option.splits)
  obtain a zone where z: "b1 = ''['' @ inet_ntop6 net a @ zone @ '']''" "set zone \<subseteq> set b"
    using normalize_ipv6_result [OF nul b1(1,2)] by metis
  have "CHR ''/'' \<notin> set (inet_ntop6 net a)"
    using net slash_free(3) by (intro list_all_not_in [of ipv6_char]) (simp_all add: inet_ok_def ipv6_char_def)
  then have "CHR ''/'' \<notin> set b1" using z b by auto
  moreover have "port \<noteq> 0 \<Longrightarrow> list_all isdig (itostr (word_of_int port) [])"
    using b1(1) by (auto simp: ipv6_bracket_def Let_def dest: port_digits split: if_splits option.splits)
  ultimately show ?thesis unfolding b1(3) by (rule append_port_no_slash)
qed

text \<open>C40: Normalising a host is idempotent, whatever conversions of addresses the system provides, as long as
  they print addresses in the usual characters and read back what they print.\<close>

theorem host_normalize_idem:
  assumes "inet_ok net" and "NUL \<notin> set b" and "http_request_host_normalize net b = Some b'"
  shows "http_request_host_normalize net b' = Some b'"
proof (cases "peek b 0 = CHR ''[''")
  case False
  then show ?thesis by (rule normalize_name_idem [OF assms(1,2) _ assms(3)])
next
  case True
  then obtain bracket port b1 where b: "ipv6_bracket b = Some (bracket, port)" "normalize_ipv6 net b bracket = Some b1"
    "b' = append_port b1 port"
    using assms(3) by (auto simp: http_request_host_normalize_def split: option.splits)
  have "port \<noteq> 0 \<Longrightarrow> 0 < port \<and> port \<le> USHRT_MAX"
    using b(1) by (auto simp: ipv6_bracket_def Let_def dest: port_range split: if_splits option.splits)
  with normalize_ipv6_result [OF assms(2) b(1,2)] normalize_bracketed [OF assms(1) refl] show ?thesis
    unfolding b(3) by metis
qed

text \<open>A system that prints addresses as plain numbers.\<close>

definition plain_inet :: "unit inet" where
  "plain_inet = \<lparr>inet_aton = (\<lambda>s. if s \<noteq> [] \<and> list_all isdig s then Some (of_nat (dec_val s)) else None),
     inet_ntop4 = (\<lambda>a. utostr (ucast a) []), inet_pton6 = (\<lambda>s. if s = ''::'' then Some () else None),
     inet_ntop6 = (\<lambda>_. ''::'')\<rparr>"

lemma plain_inet_ok: "inet_ok plain_inet"
proof -
  have d: "list_all isdig (utostr v [])" for v
    using utostr_digits [of v] by (simp add: list_all_iff is_digit_isdig)
  have "of_nat (dec_val (utostr (ucast a) [])) = a" for a :: "32 word"
  proof -
    have "unat (ucast a :: 64 word) = unat a"
      using unsigned_less [of a, where 'a = nat] by (simp add: unsigned_ucast_eq take_bit_nat_eq_self_iff)
    then show ?thesis by (simp add: dec_val_utostr)
  qed
  moreover have "isdig (hd (utostr v []))" for v
    using d [of v] utostr_not_Nil [of v] by (cases "utostr v []") simp_all
  moreover have "list_all (\<lambda>c. isdig c \<or> c = CHR ''.'') (utostr v [])" for v
    using d [of v] by (simp add: list_all_iff)
  ultimately show ?thesis
    using d utostr_not_Nil by (auto simp: inet_ok_def plain_inet_def ipv6_char_def)
qed

theorem host_normalize_idem_witness:
  "http_request_host_normalize plain_inet ''[::%e0]:0x50'' = Some ''[::%e0]:80'' \<and>
   http_request_host_normalize plain_inet ''[::%e0]:80'' = Some ''[::%e0]:80''"
proof -
  have "http_request_host_normalize plain_inet ''[::%e0]:0x50'' = Some ''[::%e0]:80''"
    by code_simp
  with host_normalize_idem [OF plain_inet_ok _ this] show ?thesis by (simp add: NUL_def)
qed

end
