(* ===== verification/Request_Line.thy ===== *)
theory Request_Line
  imports Keyvalue Array_Inv Hostname
begin

text \<open>
  The request line of an HTTP request (first part of \<open>http_request_parse\<close> in \<open>request.c\<close>).
  The parser works in a copy of the request where it writes zeros behind the tokens; pointers into
  the copy are offsets, and a token is read as a C string from its offset.
\<close>

section \<open>The request\<close>

text \<open>The options that matter: \<open>http_parseopts\<close>, \<open>allow_http11\<close> and \<open>reject_expect_100_with_417\<close>.\<close>

record req_opts =
  ro_header_strict :: bool
  ro_host_strict :: bool
  ro_host_normalize :: bool
  ro_allow_http11 :: bool
  ro_reject_expect :: bool

text \<open>
  \<open>http_host\<close> points to the value of a header element, the other fields to the text of such a value:
  the position of the element in the array, the value when the pointer was taken, and the offset.
  Appending to the value may move the text. A pointer to an element that was merged into
  another one and freed is dangling.
\<close>

datatype text_ref = Text_At nat string nat | Text_Freed

datatype buf_ref = Buf_At nat | Buf_Freed

record req =
  rq_request_line :: string
  rq_uri :: string
  rq_orig_uri :: string
  rq_http_method :: http_method
  rq_http_version :: http_version
  rq_headers :: arr
  rq_http_host :: "buf_ref option"
  rq_http_range :: "text_ref option"
  rq_http_content_type :: "text_ref option"
  rq_http_if_modified_since :: "text_ref option"
  rq_http_if_none_match :: "text_ref option"
  rq_content_length :: nat
  rq_http_status :: nat
  rq_keep_alive :: bool
  rq_resp_keep_alive :: bool
  rq_header_len :: nat
  rq_split_vals :: arr

text \<open>The two ways of refusing a request.\<close>

definition refuse :: "nat \<Rightarrow> req \<Rightarrow> req" where
  "refuse status con = con\<lparr>rq_http_status := status, rq_keep_alive := False\<rparr>"

definition refuse_both :: "nat \<Rightarrow> req \<Rightarrow> req" where
  "refuse_both status con = con\<lparr>rq_http_status := status, rq_resp_keep_alive := False, rq_keep_alive := False\<rparr>"

section \<open>The protocol version\<close>

text \<open>The two numbers of a version, \<open>None\<close> for an invalid one; \<open>major\<close> is the text behind the slash.\<close>

definition version_numbers :: "string \<Rightarrow> (int \<times> int) option" where
  "version_numbers major =
     (case strchr major CHR ''.'' of
        None \<Rightarrow> None
      | Some k \<Rightarrow>
          if k = 0 \<or> length major = k + 1 then None
          else
            let (major_num, err) = strtol10 (take k major);
                (minor_num, err') = strtol10 (drop (k + 1) major)
            in if err \<noteq> [] \<or> err' \<noteq> [] then None else Some (to_int major_num, to_int minor_num))"

text \<open>Returns the request and whether parsing goes on.\<close>

definition parse_version :: "req_opts \<Rightarrow> string \<Rightarrow> req \<Rightarrow> req \<times> bool" where
  "parse_version opts proto con =
     (if strneq proto ''HTTP/'' 5
      then case version_numbers (drop 5 proto) of
          None \<Rightarrow> (refuse 400 con, False)
        | Some (major_num, minor_num) \<Rightarrow>
            if major_num = 1 \<and> minor_num = 1
            then (con\<lparr>rq_http_version := if ro_allow_http11 opts then HTTP_VERSION_1_1 else HTTP_VERSION_1_0\<rparr>, True)
            else if major_num = 1 \<and> minor_num = 0
            then (con\<lparr>rq_http_version := HTTP_VERSION_1_0\<rparr>, True)
            else (con\<lparr>rq_http_status := 505\<rparr>, False)
      else (refuse 400 con, False))"

section \<open>The URI\<close>

definition request_uri_is_valid_char :: "char \<Rightarrow> bool" where
  "request_uri_is_valid_char c \<longleftrightarrow> \<not> (byte c \<le> 32 \<or> byte c = 127 \<or> byte c = 255)"

text \<open>
  The URI lies in \<open>m\<close> from offset \<open>uri\<close> up to the zero at \<open>proto - 1\<close>. An absolute one is cut to its path;
  the host in it is given by offset and length.
\<close>

definition request_uri :: "string \<Rightarrow> nat \<Rightarrow> nat \<Rightarrow> string \<times> (nat \<times> nat) option" where
  "request_uri m uri proto =
     (let u = cstr (drop uri m);
          path = (\<lambda>nuri. take (proto - nuri - 1) (drop nuri m))
      in case (if strneq u ''http://'' 7 then strchr (drop 7 u) CHR ''/'' else None) of
           Some k \<Rightarrow> (path (uri + 7 + k), Some (uri + 7, k))
         | None \<Rightarrow>
             (case (if strneq u ''https://'' 8 then strchr (drop 8 u) CHR ''/'' else None) of
                Some k \<Rightarrow> (path (uri + 8 + k), Some (uri + 8, k))
              | None \<Rightarrow> (path uri, None)))"

definition uri_chars_ok :: "req_opts \<Rightarrow> string \<Rightarrow> bool" where
  "uri_chars_ok opts u =
     (if ro_header_strict opts then list_all request_uri_is_valid_char u else memchr NUL u = None)"

section \<open>The line\<close>

text \<open>Where the header lines start, or the refused request.\<close>

datatype line_result =
    Line_Done string nat nat req "(nat \<times> nat) option"
  | Line_Refused req

text \<open>
  The end of the line at offset \<open>i\<close>. \<open>meth\<close> and \<open>uri\<close> are the offsets of the first two tokens; the
  third one starts at \<open>proto\<close>.
\<close>

definition request_line_end ::
    "req_opts \<Rightarrow> string \<Rightarrow> nat \<Rightarrow> nat \<Rightarrow> nat option \<Rightarrow> nat option \<Rightarrow> nat \<Rightarrow> req \<Rightarrow> line_result option" where
  "request_line_end opts m i proto meth uri stage con =
     (let m = m[i := NUL, i + 1 := NUL];
          con = con\<lparr>rq_request_line := take i m\<rparr>
      in if stage \<noteq> 2 then Some (Line_Refused (refuse_both 400 con))
         else do {
           meth \<leftarrow> meth;
           uri \<leftarrow> uri;
           force_assert (0 < uri \<and> 0 < proto);
           let m = m[uri - 1 := NUL, proto - 1 := NUL];
           r \<leftarrow> http_method_of (get_http_method_key (cstr (drop meth m)));
           if r = HTTP_METHOD_UNSET then Some (Line_Refused (refuse_both 501 con))
           else do {
             let con = con\<lparr>rq_http_method := r\<rparr>;
             let (con, ok) = parse_version opts (cstr (drop proto m)) con;
             if \<not> ok then Some (Line_Refused con)
             else do {
               let (u, host) = request_uri m uri proto;
               let con = con\<lparr>rq_uri := u\<rparr>;
               if \<not> uri_chars_ok opts u then Some (Line_Refused (refuse 400 con))
               else Some (Line_Done m (i + 2) (i + 2) (con\<lparr>rq_orig_uri := u, rq_http_status := 0\<rparr>) host)
             }
           }
         })"

function request_line ::
    "req_opts \<Rightarrow> string \<Rightarrow> nat \<Rightarrow> nat \<Rightarrow> nat \<Rightarrow> nat option \<Rightarrow> nat option \<Rightarrow> nat \<Rightarrow> req \<Rightarrow> line_result option" where
  "request_line opts m ilen i first meth uri stage con =
     (if \<not> i < ilen then Some (Line_Done m i first con None)
      else do {
        force_assert (i + 1 < length m);
        if m ! i = CR \<and> m ! (i + 1) = LF then request_line_end opts m i first meth uri stage con
        else if m ! i = SP then
          (if stage = 0 then request_line opts m ilen (i + 1) (i + 1) (Some first) uri 1 con
           else if stage = 1 then request_line opts m ilen (i + 1) (i + 1) meth (Some first) 2 con
           else Some (Line_Refused (refuse_both 400 con)))
        else request_line opts m ilen (i + 1) first meth uri stage con
      })"
  by pat_completeness auto
termination
  by (relation "measure (\<lambda>(opts, m, ilen, i, first, meth, uri, stage, con). ilen - i)") auto

declare request_line.simps [simp del]

text \<open>The checks behind the line: there is a URI, and the host of an absolute one becomes a header.\<close>

definition header_element :: "arr \<Rightarrow> string \<Rightarrow> string \<Rightarrow> arr \<times> data_unset" where
  "header_element headers key v =
     (let (headers, unused) = array_get_unused_element headers TYPE_STRING;
          ds = (case unused of None \<Rightarrow> data_string_init | Some du \<Rightarrow> du)
      in (headers, Data_Unset (Some key) (du_is_index_key ds)
            (case du_payload ds of DString _ r \<Rightarrow> DString (Some v) r | p \<Rightarrow> p)))"

text \<open>\<open>array_insert_unique\<close>, together with where the element is afterwards; \<open>None\<close> when it was merged into
  one with its key and freed.\<close>

definition insert_header :: "arr \<Rightarrow> data_unset \<Rightarrow> (arr \<times> nat option) option" where
  "insert_header headers ds = do {
     (_, _, old) \<leftarrow> array_find_or_insert headers ds;
     a \<leftarrow> array_insert_unique headers ds;
     Some (a, case old of None \<Rightarrow> Some (a_used headers) | Some _ \<Rightarrow> None)
   }"

definition buf_ref_of :: "nat option \<Rightarrow> buf_ref" where
  "buf_ref_of n = (case n of None \<Rightarrow> Buf_Freed | Some n \<Rightarrow> Buf_At n)"

definition reqline_host_header :: "string \<Rightarrow> (nat \<times> nat) option \<Rightarrow> req \<Rightarrow> req option" where
  "reqline_host_header m host con =
     (case host of
        None \<Rightarrow> Some con
      | Some (off, len) \<Rightarrow> do {
          let (headers, ds) = header_element (rq_headers con) ''Host'' (take len (drop off m));
          (headers, n) \<leftarrow> insert_header headers ds;
          Some (con\<lparr>rq_headers := headers, rq_http_host := Some (buf_ref_of n)\<rparr>)
        })"

section \<open>Scanning the line\<close>

definition version_1 :: "req_opts \<Rightarrow> http_version \<Rightarrow> bool" where
  "version_1 opts v \<longleftrightarrow> v = HTTP_VERSION_1_0 \<or> v = HTTP_VERSION_1_1 \<and> ro_allow_http11 opts"

lemma refuse_simps [simp]:
  "rq_http_status (refuse st con) = st" "rq_keep_alive (refuse st con) = False"
  "rq_headers (refuse st con) = rq_headers con"
  "rq_http_status (refuse_both st con) = st" "rq_keep_alive (refuse_both st con) = False"
  "rq_headers (refuse_both st con) = rq_headers con"
  by (simp_all add: refuse_def refuse_both_def)

lemma parse_version_cases:
  obtains (ok) v where "parse_version opts proto con = (con\<lparr>rq_http_version := v\<rparr>, True)" "version_1 opts v"
  | (bad) con' where "parse_version opts proto con = (con', False)" "rq_http_status con' \<in> {400, 505}"
proof (cases "strneq proto ''HTTP/'' 5 \<and> version_numbers (drop 5 proto) \<noteq> None")
  case True
  then obtain x y where v: "version_numbers (drop 5 proto) = Some (x, y)" and n: "strneq proto ''HTTP/'' 5" by auto
  show thesis
  proof (cases "x = 1 \<and> (y = 0 \<or> y = 1)")
    case True
    then show thesis
      using v n by (intro ok [of "if y = 1 \<and> ro_allow_http11 opts then HTTP_VERSION_1_1 else HTTP_VERSION_1_0"])
        (auto simp: parse_version_def version_1_def)
  next
    case False
    then show thesis using v n by (intro bad) (auto simp: parse_version_def)
  qed
next
  case False
  then show thesis by (intro bad) (auto simp: parse_version_def split: option.split)
qed

text \<open>What a parsed line leaves in the request.\<close>

definition line_ok :: "req_opts \<Rightarrow> req \<Rightarrow> req \<Rightarrow> bool" where
  "line_ok opts con con' \<longleftrightarrow>
     (\<exists>l r v u. r \<noteq> HTTP_METHOD_UNSET \<and> version_1 opts v \<and> uri_chars_ok opts u \<and>
        con' = con\<lparr>rq_request_line := l, rq_http_method := r, rq_http_version := v, rq_uri := u,
          rq_orig_uri := u, rq_http_status := 0\<rparr>)"

definition host_text_ok :: "string \<Rightarrow> (nat \<times> nat) option \<Rightarrow> bool" where
  "host_text_ok m host \<longleftrightarrow> (case host of None \<Rightarrow> True | Some (off, len) \<Rightarrow> NUL \<notin> set (take len (drop off m)))"

lemma prefix_host:
  assumes "strchr (drop k u) CHR ''/'' = Some n" and u: "u = cstr (drop uri m)"
  shows "NUL \<notin> set (take n (drop (uri + k) m))"
proof -
  have "cstr (drop k u) = drop k u" using NUL_notin_cstr by (auto simp: u intro!: cstr_no_NUL dest: in_set_dropD)
  then have n: "n < length (drop k u)" using assms(1) by (simp add: strchr_def memchr_Some_iff)
  obtain r where "drop uri m = u @ r" unfolding u cstr_def by (metis takeWhile_dropWhile_id)
  then have "drop (uri + k) m = drop k u @ r" using n by (metis add.commute drop_drop drop_append
      diff_is_0_eq drop_0 length_drop less_imp_le less_nat_zero_code linorder_not_less zero_less_diff)
  then have "take n (drop (uri + k) m) = take n (drop k u)" using n by simp
  then show ?thesis using NUL_notin_cstr [of "drop uri m"] by (auto simp: u dest!: in_set_takeD in_set_dropD)
qed

lemma request_uri_host: "request_uri m uri proto = (u, host) \<Longrightarrow> host_text_ok m host"
  using prefix_host [of 7 _ _ uri m] prefix_host [of 8 _ _ uri m]
  by (auto simp: request_uri_def host_text_ok_def Let_def split: if_splits option.splits)

text \<open>Every string of the line lies in the buffer, and the two zeros do not touch what follows.\<close>

lemma request_line_end_cases:
  assumes "stage \<noteq> 2 \<or> (\<exists>a b. meth = Some a \<and> uri = Some b \<and> 0 < b \<and> b < proto)" and "proto \<le> i"
    and "Suc i < length m"
  obtains (parsed) m' con' host where "request_line_end opts m i proto meth uri stage con = Some (Line_Done m' (i + 2) (i + 2) con' host)"
      "length m' = length m" "drop (i + 2) m' = drop (i + 2) m" "line_ok opts con con'" "host_text_ok m' host"
  | (refused) con' where "request_line_end opts m i proto meth uri stage con = Some (Line_Refused con')"
      "rq_http_status con' \<in> {400, 501, 505}"
proof (cases "stage = 2")
  case True
  with assms obtain a b where ab: "meth = Some a" "uri = Some b" "0 < b" "b < proto" by auto
  define m1 where "m1 = m[i := NUL, i + 1 := NUL, b - 1 := NUL, proto - 1 := NUL]"
  have len: "length m1 = length m" by (simp add: m1_def)
  have drop: "drop (i + 2) m1 = drop (i + 2) m" using ab assms by (simp add: m1_def drop_update_cancel)
  obtain r where r: "http_method_of (get_http_method_key (cstr (drop a m1))) = Some r"
    using get_http_method_key_valid by blast
  note eq = True ab r [unfolded m1_def]
  show thesis
  proof (cases "r = HTTP_METHOD_UNSET")
    case True
    then show thesis using eq by (intro refused) (simp add: request_line_end_def force_assert_def, simp)
  next
    case nr: False
    define con1 where "con1 = con\<lparr>rq_request_line := take i (m[i := NUL, i + 1 := NUL]), rq_http_method := r\<rparr>"
    show thesis
    proof (cases rule: parse_version_cases [of opts "cstr (drop proto m1)" con1])
      case v: (ok v)
      obtain u host where u: "request_uri m1 b proto = (u, host)" by fastforce
      show thesis
      proof (cases "uri_chars_ok opts u")
        case True
        have "request_line_end opts m i proto meth uri stage con =
            Some (Line_Done m1 (i + 2) (i + 2) (con1\<lparr>rq_http_version := v, rq_uri := u, rq_orig_uri := u, rq_http_status := 0\<rparr>) host)"
          using eq nr v u True
          by (simp add: request_line_end_def force_assert_def m1_def con1_def)
        then show thesis
          by (rule parsed) (use len drop True nr v request_uri_host [OF u] in \<open>auto simp: line_ok_def con1_def\<close>)
      next
        case False
        then show thesis using eq nr v u
          by (intro refused) (simp add: request_line_end_def force_assert_def m1_def con1_def, auto)
      qed
    next
      case (bad con')
      then show thesis using eq nr
        by (intro refused) (simp add: request_line_end_def force_assert_def m1_def con1_def, auto)
    qed
  qed
next
  case False
  then show thesis by (intro refused) (simp add: request_line_end_def, simp)
qed

definition tokens_ok :: "nat \<Rightarrow> nat option \<Rightarrow> nat option \<Rightarrow> nat \<Rightarrow> bool" where
  "tokens_ok first meth uri stage \<longleftrightarrow>
     stage = 0 \<or> stage = 1 \<and> 0 < first \<and> meth \<noteq> None \<or>
     stage = 2 \<and> (\<exists>a b. meth = Some a \<and> uri = Some b \<and> 0 < b \<and> b < first)"

definition line_outcome :: "req_opts \<Rightarrow> string \<Rightarrow> nat \<Rightarrow> req \<Rightarrow> line_result option \<Rightarrow> bool" where
  "line_outcome opts m ilen con r \<longleftrightarrow>
     (\<exists>m' i' con' host. r = Some (Line_Done m' i' i' con' host) \<and> length m' = length m \<and>
        drop i' m' = drop i' m \<and> 2 \<le> i' \<and> i' \<le> ilen \<and> line_ok opts con con' \<and>
        host_text_ok m' host \<and> m ! (i' - 2) = CR \<and> m ! (i' - 1) = LF) \<or>
     (\<exists>first'. r = Some (Line_Done m ilen first' con None)) \<or>
     (\<exists>con'. r = Some (Line_Refused con') \<and> rq_http_status con' \<in> {400, 501, 505})"

lemma request_line_outcome:
  assumes "tokens_ok first meth uri stage" and "first \<le> i" and "i \<le> ilen" and "length m = Suc ilen"
    and "m ! ilen \<noteq> LF"
  shows "line_outcome opts m ilen con (request_line opts m ilen i first meth uri stage con)"
  using assms(1-3)
proof (induction "ilen - i" arbitrary: i first meth uri stage rule: less_induct)
  case less
  note unfold = request_line.simps [of opts m ilen i first meth uri stage con]
  show ?case
  proof (cases "i < ilen")
    case False
    then have "request_line opts m ilen i first meth uri stage con = Some (Line_Done m i first con None)"
      by (simp add: unfold)
    moreover have "i = ilen" using False less.prems by simp
    ultimately show ?thesis by (simp add: line_outcome_def)
  next
    case True
    then have ass: "force_assert (Suc i < length m) = Some ()" using assms by simp
    have le: "first \<le> i" by (rule less.prems(2))
    consider (crlf) "m ! i = CR" "m ! Suc i = LF" | (space) "m ! i = SP" "stage \<le> 1"
      | (many) "m ! i = SP" "\<not> stage \<le> 1" | (other) "m ! i \<noteq> SP" "\<not> (m ! i = CR \<and> m ! Suc i = LF)"
      by auto
    then show ?thesis
    proof cases
      case crlf
      then have i: "Suc i < ilen" using True assms by (cases "Suc i = ilen") auto
      have eq: "request_line opts m ilen i first meth uri stage con = request_line_end opts m i first meth uri stage con"
        using True ass crlf by (simp add: unfold)
      have tok: "stage \<noteq> 2 \<or> (\<exists>a b. meth = Some a \<and> uri = Some b \<and> 0 < b \<and> b < first)"
        using less.prems by (auto simp: tokens_ok_def)
      have "Suc i < length m" using i assms by simp
      then show ?thesis
        using i crlf unfolding eq line_outcome_def
        by (cases rule: request_line_end_cases [OF tok le, of m opts con]) fastforce+
    next
      case space
      define st where "st = (if stage = 0 then (Some first, uri, 1) else (meth, Some first, 2 :: nat))"
      have eq: "request_line opts m ilen i first meth uri stage con =
          request_line opts m ilen (i + 1) (i + 1) (fst st) (fst (snd st)) (snd (snd st)) con"
        using True ass space by (auto simp: unfold st_def)
      have "tokens_ok (i + 1) (fst st) (fst (snd st)) (snd (snd st))"
        using less.prems space by (auto simp: tokens_ok_def st_def)
      then show ?thesis
        using less.hyps [of "i + 1" "i + 1" "fst st" "fst (snd st)" "snd (snd st)"] True unfolding eq by simp
    next
      case many
      then show ?thesis using True ass by (simp add: unfold line_outcome_def)
    next
      case other
      then have "request_line opts m ilen i first meth uri stage con = request_line opts m ilen (i + 1) first meth uri stage con"
        using True ass by (auto simp: unfold)
      then show ?thesis using less.hyps [of "i + 1" first meth uri stage] less.prems True by simp
    qed
  qed
qed

lemma request_line_token:
  assumes "m = pre @ tok @ rest" and "SP \<notin> set tok" and "CR \<notin> set tok"
    and "length pre + length tok \<le> ilen" and "ilen < length m"
  shows "request_line opts m ilen (length pre) first meth uri stage con =
    request_line opts m ilen (length pre + length tok) first meth uri stage con"
  using assms
proof (induction tok arbitrary: pre)
  case (Cons c tok)
  have c: "m ! length pre \<noteq> SP" "m ! length pre \<noteq> CR" "length pre < ilen" "Suc (length pre) < length m"
    using Cons.prems by (auto simp: nth_append)
  have "request_line opts m ilen (length pre) first meth uri stage con =
      request_line opts m ilen (Suc (length pre)) first meth uri stage con"
    using c by (simp add: request_line.simps [of opts m ilen "length pre" first meth uri stage con])
  moreover have "request_line opts m ilen (length (pre @ [c])) first meth uri stage con =
      request_line opts m ilen (length (pre @ [c]) + length tok) first meth uri stage con"
    using Cons.prems by (intro Cons.IH) simp_all
  ultimately show ?case by simp
qed simp

section \<open>A well-formed line\<close>

definition line_token :: "string \<Rightarrow> bool" where
  "line_token s \<longleftrightarrow> SP \<notin> set s \<and> CR \<notin> set s \<and> NUL \<notin> set s"

definition version_text :: "http_version \<Rightarrow> string" where
  "version_text v = (if v = HTTP_VERSION_1_1 then ''HTTP/1.1'' else ''HTTP/1.0'')"

lemma version_text_token [simp]: "line_token (version_text v)"
  by (simp add: line_token_def version_text_def NUL_def)

lemma parse_version_text:
  assumes "v \<noteq> HTTP_VERSION_UNSET" and "v = HTTP_VERSION_1_1 \<Longrightarrow> ro_allow_http11 opts"
  shows "parse_version opts (version_text v) con = (con\<lparr>rq_http_version := v\<rparr>, True)"
proof -
  have "version_numbers ''1.1'' = Some (1, 1)" "version_numbers ''1.0'' = Some (1, 0)"
    by code_simp+
  then show ?thesis
    using assms by (cases v) (simp_all add: parse_version_def version_text_def strneq_def cstr_def NUL_def)
qed

text \<open>The host part of an absolute URI.\<close>

definition absolute_uri :: "string \<Rightarrow> bool" where
  "absolute_uri u \<longleftrightarrow> take 7 u = ''http://'' \<or> take 8 u = ''https://''"

lemma request_line_parts:
  assumes m: "m = name @ [SP] @ u @ [SP] @ version_text v @ CRLF @ rest"
    and name: "get_http_method_key name = http_method_num r" "r \<noteq> HTTP_METHOD_UNSET" "line_token name"
    and u: "line_token u" "uri_chars_ok opts u" "\<not> absolute_uri u"
    and v: "v \<noteq> HTTP_VERSION_UNSET" "v = HTTP_VERSION_1_1 \<Longrightarrow> ro_allow_http11 opts"
    and len: "length m = Suc ilen" and rest: "rest \<noteq> []"
  obtains m' where "request_line opts m ilen 0 0 None None 0 con =
      Some (Line_Done m' (length m - length rest) (length m - length rest)
        (con\<lparr>rq_request_line := name @ [SP] @ u @ [SP] @ version_text v, rq_http_method := r, rq_http_version := v,
          rq_uri := u, rq_orig_uri := u, rq_http_status := 0\<rparr>) None)"
    and "m' = name @ [NUL] @ u @ [NUL] @ version_text v @ [NUL, NUL] @ rest"
proof -
  define a where "a = Suc (length name)"
  define b where "b = Suc (Suc (length name + length u))"
  define e where "e = b + length (version_text v)"
  have pos: "length m = e + 2 + length rest" "b = a + Suc (length u)"
    using m by (simp_all add: a_def b_def e_def)
  have nth: "m ! length name = SP" "m ! (a + length u) = SP" "m ! e = CR" "m ! Suc e = LF"
    using m by (simp_all add: a_def b_def e_def nth_append)
  have e: "Suc e < ilen" using pos rest len by (cases rest) auto
  have 1: "request_line opts m ilen 0 0 None None 0 con = request_line opts m ilen (length name) 0 None None 0 con"
    using request_line_token [of m "[]" name "[SP] @ u @ [SP] @ version_text v @ CRLF @ rest" ilen] assms e pos
    by (simp add: line_token_def)
  have 2: "\<dots> = request_line opts m ilen a a (Some 0) None 1 con"
    using nth e pos len by (subst request_line.simps) (auto simp: a_def b_def e_def)
  have 3: "\<dots> = request_line opts m ilen (a + length u) a (Some 0) None 1 con"
    using request_line_token [of m "name @ [SP]" u "[SP] @ version_text v @ CRLF @ rest" ilen] assms e pos
    by (simp add: line_token_def a_def)
  have 4: "\<dots> = request_line opts m ilen b b (Some 0) (Some a) 2 con"
    using nth e pos len by (subst request_line.simps) (auto simp: a_def b_def e_def)
  have 5: "\<dots> = request_line opts m ilen e b (Some 0) (Some a) 2 con"
    using request_line_token [of m "name @ [SP] @ u @ [SP]" "version_text v" "CRLF @ rest" ilen] assms e pos
      version_text_token [of v]
    by (simp add: line_token_def b_def e_def)
  have 6: "\<dots> = request_line_end opts m e b (Some 0) (Some a) 2 con"
    using nth e pos len by (subst request_line.simps) auto
  define m' where "m' = name @ [NUL] @ u @ [NUL] @ version_text v @ [NUL, NUL] @ rest"
  have upd: "m[e := NUL, Suc e := NUL, a - 1 := NUL, b - 1 := NUL] = m'"
    unfolding m m'_def by (simp add: a_def b_def e_def list_update_append)
  have reads: "cstr m' = name" "cstr (drop b m') = version_text v" "cstr (drop a m') = u"
    "take (b - a - 1) (drop a m') = u" "take e (m[e := NUL, Suc e := NUL]) = name @ [SP] @ u @ [SP] @ version_text v"
    using name u version_text_token [of v] unfolding m m'_def
    by (simp_all add: a_def b_def e_def line_token_def list_update_append)
  have uri: "request_uri m' a b = (u, None)"
  proof -
    have "cstr u = u" "cstr ''http://'' = ''http://''" "cstr ''https://'' = ''https://''"
      using u by (simp_all add: line_token_def) (simp_all add: cstr_def NUL_def)
    then show ?thesis
      using u reads unfolding request_uri_def by (simp add: strneq_def absolute_uri_def)
  qed
  have "request_line_end opts m e b (Some 0) (Some a) 2 con =
      Some (Line_Done m' (e + 2) (e + 2) (con\<lparr>rq_request_line := name @ [SP] @ u @ [SP] @ version_text v, rq_http_method := r,
        rq_http_version := v, rq_uri := u, rq_orig_uri := u, rq_http_status := 0\<rparr>) None)"
    using reads uri name u parse_version_text [OF v] upd
    by (simp add: request_line_end_def a_def b_def)
  then have "request_line opts m ilen 0 0 None None 0 con =
      Some (Line_Done m' (length m - length rest) (length m - length rest)
        (con\<lparr>rq_request_line := name @ [SP] @ u @ [SP] @ version_text v, rq_http_method := r, rq_http_version := v,
          rq_uri := u, rq_orig_uri := u, rq_http_status := 0\<rparr>) None)"
    unfolding 1 2 3 4 5 6 using pos by simp
  then show thesis using that m'_def by blast
qed

end
