(* ===== verification/Request_Fields.thy ===== *)
theory Request_Fields
  imports Request_Line
begin

text \<open>
  The arrays the request parser works with: string elements of \<open>data_string_init\<close>, in use or in reserve.
  \<open>fields_hold a es\<close> says that \<open>a\<close> has the header fields \<open>es\<close>.
\<close>

section \<open>Plain string arrays\<close>

definition plain_cell :: "data_unset \<Rightarrow> bool" where
  "plain_cell d \<longleftrightarrow> (case du_payload d of DString v r \<Rightarrow> \<not> r | _ \<Rightarrow> False)"

definition plain_cells :: "arr \<Rightarrow> bool" where
  "plain_cells a \<longleftrightarrow> (\<forall>d. Some d \<in> set (a_data a) \<longrightarrow> plain_cell d)"

lemma plain_cellE:
  assumes "plain_cell d" obtains v where "du_payload d = DString v False"
  using assms by (cases "du_payload d") (auto simp: plain_cell_def)

lemma plain_cell_string [simp]: "plain_cell (Data_Unset k i (DString v False))"
  by (simp add: plain_cell_def)

lemma plain_cells_init [simp]: "plain_cells array_init"
  by (simp add: plain_cells_def array_init_def)

lemma plain_cells_set:
  assumes "plain_cells a" and "plain_cell d"
  shows "plain_cells (Arr ((a_data a)[n := Some d]) s u z q)"
proof -
  have "set ((a_data a)[n := Some d]) \<subseteq> insert (Some d) (set (a_data a))" by (rule set_update_subset_insert)
  then show ?thesis using assms by (auto simp: plain_cells_def)
qed

text \<open>A new element, with what insertion does to the rest of the array.\<close>

lemma array_insert_new_cells:
  assumes h: "arr_holds a ixs es" and n: "array_name_entry a entry = Some (a1, e)"
    and max: "length es + 1 \<le> SSIZE_MAX" and none: "elem_of es (ekey e) = None"
  obtains a' ixs' where "array_insert_unique a entry = Some a'" "array_find_or_insert a entry = Some (a', e, None)"
    "arr_holds a' ixs' (es @ [e])" "a_unique_ndx a' = a_unique_ndx a1"
    and "\<And>d. Some d \<in> set (a_data a') \<Longrightarrow> d = e \<or> Some d \<in> set (a_data a)"
proof -
  from array_find_or_insert_cases [OF h n max] none obtain a' ixs' where
    f: "array_find_or_insert a entry = Some (a', e, None)" and a': "arr_holds a' ixs' (es @ [e])"
    by (metis option.distinct(1))
  obtain pos where "array_get_index a1 (bstr (du_key e)) = Some (None, pos)"
    using f n by (auto simp: array_find_or_insert_def bind_eq_Some_conv split: option.splits)
  then have d: "a_data a' = (a_data (array_grow a1))[a_used (array_grow a1) := Some e]" "a_unique_ndx a' = a_unique_ndx (array_grow a1)"
    using f n by (auto simp: array_find_or_insert_def Let_def bind_eq_Some_conv)
  have "a_data a1 = a_data a"
    using n by (auto simp: array_name_entry_def Let_def bind_eq_Some_conv split: if_splits)
  then have "set (a_data (array_grow a1)) \<subseteq> insert None (set (a_data a))" by (auto simp: array_grow_def)
  moreover have "set (a_data a') \<subseteq> insert (Some e) (set (a_data (array_grow a1)))"
    unfolding d by (rule set_update_subset_insert)
  ultimately have "d = e \<or> Some d \<in> set (a_data a)" if "Some d \<in> set (a_data a')" for d
    using that by auto
  moreover have "a_unique_ndx a' = a_unique_ndx a1" using d(2) by (simp add: array_grow_def)
  moreover have "array_insert_unique a entry = Some a'" using f by (simp add: array_insert_unique_def)
  ultimately show thesis using that f a' by blast
qed

lemma array_get_unused_string:
  assumes "arr_holds a ixs es" and "plain_cells a"
  obtains a' u k i w where "array_get_unused_element a TYPE_STRING = (a', u)"
    "(case u of None \<Rightarrow> data_string_init | Some du \<Rightarrow> du) = Data_Unset k i (DString w False)"
    "k = None \<and> \<not> i \<or> Some (Data_Unset k i (DString w False)) \<in> set (a_data a)"
    "arr_holds a' ixs es" "plain_cells a'" "a_unique_ndx a' = a_unique_ndx a"
    "set (a_data a') \<subseteq> insert None (set (a_data a))"
proof -
  obtain a' u where u: "array_get_unused_element a TYPE_STRING = (a', u)" by fastforce
  note get = array_get_unused_element_ok [OF assms(1) u]
  have q: "a_unique_ndx a' = a_unique_ndx a" using u by (auto simp: array_get_unused_element_def split: option.splits)
  have p: "plain_cells a'" using get(3) assms(2) by (auto simp: plain_cells_def)
  have sub: "set (a_data a') \<subseteq> insert None (set (a_data a))"
  proof
    fix x assume x: "x \<in> set (a_data a')"
    show "x \<in> insert None (set (a_data a))"
    proof (cases x)
      case (Some d)
      then show ?thesis using get(3) [of d] x by simp
    qed simp
  qed
  show thesis
  proof (cases u)
    case None
    then show thesis using that [OF u, of None False None] get(1) p q sub by (simp add: data_string_init_def)
  next
    case (Some d)
    then have mem: "Some d \<in> set (a_data a)" using get(2) by simp
    then obtain v where "du_payload d = DString v False" using assms(2) plain_cellE by (auto simp: plain_cells_def)
    then have "d = Data_Unset (du_key d) (du_is_index_key d) (DString v False)" by (cases d) simp
    then show thesis using that [OF u, of "du_key d" "du_is_index_key d" v] Some mem get(1) p q sub by simp
  qed
qed

section \<open>Header fields\<close>

definition fields_hold :: "arr \<Rightarrow> data_unset list \<Rightarrow> bool" where
  "fields_hold a es \<longleftrightarrow> (\<exists>ixs. arr_holds a ixs es) \<and> plain_cells a \<and>
     (\<forall>d. Some d \<in> set (a_data a) \<longrightarrow> \<not> du_is_index_key d) \<and> (\<forall>d \<in> set es. \<exists>k v. d = dstring k v)"

lemma fields_hold_init [simp]: "fields_hold array_init []"
  using array_init_holds by (auto simp: fields_hold_def array_init_def plain_cells_def)

lemma fields_hold_list: "fields_hold a es \<Longrightarrow> arr_list a = es \<and> arr_ok a"
  using arr_okI by (auto simp: fields_hold_def)

lemma fields_hold_cell: "fields_hold a es \<Longrightarrow> n < length es \<Longrightarrow> cell_read (a_data a) n = Some (es ! n)"
  using arr_holds_cells(1) by (auto simp: fields_hold_def)

lemma fields_hold_nth:
  assumes "fields_hold a es" and "n < length es"
  obtains k v where "es ! n = dstring k v"
  using assms by (meson fields_hold_def nth_mem)

lemma dstring_simps [simp]:
  "du_key (dstring k v) = Some k" "du_is_index_key (dstring k v) = False" "du_payload (dstring k v) = DString (Some v) False"
  "ekey (dstring k v) = lkey k" "du_type (dstring k v) = TYPE_STRING" "plain_cell (dstring k v)"
  "dstring k v = dstring k' v' \<longleftrightarrow> k = k' \<and> v = v'"
  "Data_Unset (Some k) False (DString (Some v) False) = dstring k v"
  by (auto simp: dstring_def ekey_def du_type_def plain_cell_def)

lemma header_element_ok:
  assumes "fields_hold a es"
  obtains a' where "header_element a k v = (a', dstring k v)" "fields_hold a' es"
proof -
  obtain ixs where h: "arr_holds a ixs es" and p: "plain_cells a"
    and ik: "\<And>d. Some d \<in> set (a_data a) \<Longrightarrow> \<not> du_is_index_key d" using assms by (auto simp: fields_hold_def)
  from array_get_unused_string [OF h p] obtain a' u k' i w where
    u: "array_get_unused_element a TYPE_STRING = (a', u)"
      "(case u of None \<Rightarrow> data_string_init | Some du \<Rightarrow> du) = Data_Unset k' i (DString w False)"
      "k' = None \<and> \<not> i \<or> Some (Data_Unset k' i (DString w False)) \<in> set (a_data a)"
    and a': "arr_holds a' ixs es" "plain_cells a'" "set (a_data a') \<subseteq> insert None (set (a_data a))" .
  have "\<not> i" using u(3) ik by fastforce
  then have "header_element a k v = (a', dstring k v)" by (simp add: header_element_def u)
  moreover have "fields_hold a' es" using assms a' ik by (auto simp: fields_hold_def)
  ultimately show thesis by (rule that)
qed

lemma insert_header_new:
  assumes f: "fields_hold a es" and max: "length es < SSIZE_MAX" and none: "elem_of es (lkey k) = None"
  obtains a' where "insert_header a (dstring k v) = Some (a', Some (length es))" "fields_hold a' (es @ [dstring k v])"
proof -
  obtain ixs where h: "arr_holds a ixs es" using f by (auto simp: fields_hold_def)
  have n: "array_name_entry a (dstring k v) = Some (a, dstring k v)" by (simp add: array_name_entry_def)
  have max': "length es + 1 \<le> SSIZE_MAX" and none': "elem_of es (ekey (dstring k v)) = None" using max none by simp_all
  obtain a' ixs' where
    a': "array_insert_unique a (dstring k v) = Some a'" "array_find_or_insert a (dstring k v) = Some (a', dstring k v, None)"
      "arr_holds a' ixs' (es @ [dstring k v])"
    and cells: "\<And>d. Some d \<in> set (a_data a') \<Longrightarrow> d = dstring k v \<or> Some d \<in> set (a_data a)"
    using array_insert_new_cells [OF h n max' none'] by blast
  have "plain_cell d \<and> \<not> du_is_index_key d" if "Some d \<in> set (a_data a')" for d
    using cells [OF that] f by (auto simp: fields_hold_def plain_cells_def)
  then have "fields_hold a' (es @ [dstring k v])"
    using f a'(3) by (auto simp: fields_hold_def plain_cells_def)
  moreover have "insert_header a (dstring k v) = Some (a', Some (length es))"
    using a' h by (simp add: insert_header_def arr_holds_def)
  ultimately show thesis using that by blast
qed

lemma insert_header_dup:
  assumes f: "fields_hold a es" and max: "length es < SSIZE_MAX" and d: "n < length es" "es ! n = dstring k' w" "lkey k' = lkey k"
  obtains a' where "insert_header a (dstring k v) = Some (a', None)"
    "fields_hold a' (es[n := dstring k' (w @ '', '' @ v)])"
proof -
  obtain ixs where h: "arr_holds a ixs es" and p: "plain_cells a"
    and ik: "\<And>d. Some d \<in> set (a_data a) \<Longrightarrow> \<not> du_is_index_key d" using f by (auto simp: fields_hold_def)
  have ix: "index_ok ixs es" using h by (simp add: arr_holds_def)
  have el: "elem_of es (lkey k) = Some (es ! n)" using elem_of_nth [OF ix d(1)] d by simp
  have n: "array_name_entry a (dstring k v) = Some (a, dstring k v)" by (simp add: array_name_entry_def)
  from array_find_or_insert_cases [OF h n] max el obtain i where
    i: "array_find_or_insert a (dstring k v) = Some (a, dstring k v, Some i)" "i < length es" "ekey (es ! i) = lkey k"
    by (metis Suc_eq_plus1 Suc_leI dstring_simps(4) option.distinct(1))
  have "i = n" using index_ok_inj [OF ix i(2) d(1)] i(3) d by simp
  define a' where "a' = Arr ((a_data a)[n := Some (dstring k' (w @ '', '' @ v))]) (a_sorted a) (a_used a) (a_size a) (a_unique_ndx a)"
  have ins: "array_insert_unique a (dstring k v) = Some a'"
    using i(1) arr_holds_cells(1) [OF h d(1)] d(2) \<open>i = n\<close>
    by (simp add: array_insert_unique_def a'_def data_insert_dup_def data_string_insert_dup_def)
  have "arr_holds a' ixs (es[n := dstring k' (w @ '', '' @ v)])"
    unfolding a'_def using d by (intro arr_holds_update [OF h]) simp_all
  moreover have "plain_cells a'" unfolding a'_def by (rule plain_cells_set [OF p]) simp
  moreover have "\<not> du_is_index_key e" if "Some e \<in> set (a_data a')" for e
    using that ik set_update_subset_insert [of "a_data a" n "Some (dstring k' (w @ '', '' @ v))"]
    by (auto simp: a'_def)
  moreover have "\<forall>e \<in> set (es[n := dstring k' (w @ '', '' @ v)]). \<exists>k v. e = dstring k v"
    using f set_update_subset_insert [of es n "dstring k' (w @ '', '' @ v)"] by (auto simp: fields_hold_def)
  ultimately have "fields_hold a' (es[n := dstring k' (w @ '', '' @ v)])" by (auto simp: fields_hold_def)
  moreover have "insert_header a (dstring k v) = Some (a', None)"
    using ins i by (simp add: insert_header_def)
  ultimately show thesis using that by blast
qed

text \<open>Writing the value of a field in place.\<close>

lemma fields_hold_set:
  assumes f: "fields_hold a es" and n: "n < length es" "es ! n = dstring k w"
  shows "fields_hold (Arr ((a_data a)[n := Some (dstring k v)]) (a_sorted a) (a_used a) (a_size a) (a_unique_ndx a))
    (es[n := dstring k v])"
proof -
  obtain ixs where h: "arr_holds a ixs es" and p: "plain_cells a"
    and ik: "\<And>d. Some d \<in> set (a_data a) \<Longrightarrow> \<not> du_is_index_key d" using f by (auto simp: fields_hold_def)
  let ?a' = "Arr ((a_data a)[n := Some (dstring k v)]) (a_sorted a) (a_used a) (a_size a) (a_unique_ndx a)"
  have "arr_holds ?a' ixs (es[n := dstring k v])" using n by (intro arr_holds_update [OF h]) simp_all
  moreover have "plain_cells ?a'" by (rule plain_cells_set [OF p]) simp
  moreover have "\<not> du_is_index_key e" if "Some e \<in> set (a_data ?a')" for e
    using that ik set_update_subset_insert [of "a_data a" n "Some (dstring k v)"] by auto
  moreover have "\<forall>e \<in> set (es[n := dstring k v]). \<exists>k v. e = dstring k v"
    using f set_update_subset_insert [of es n "dstring k v"] by (auto simp: fields_hold_def)
  ultimately show ?thesis by (auto simp: fields_hold_def)
qed

end
