(* ===== verification/Request_Split.thy ===== *)
theory Request_Split
  imports Request_Fields
begin

text \<open>
  Lists of values in a header field (\<open>http_request_split_value\<close> in \<open>request.c\<close>) and the chain of comparisons
  that recognises the fields the parser looks at. The first is shown to cut at commas and strip blanks,
  the second to be a caseless lookup.
\<close>

section \<open>Lists of values\<close>

text \<open>
  \<open>http_request_split_value\<close>: the loop over the bytes of the value and its zero. The state is 1 inside
  a token; \<open>ts\<close> and \<open>te\<close> are \<open>token_start\<close> and \<open>token_end\<close>.
\<close>

definition split_insert :: "arr \<Rightarrow> string \<Rightarrow> arr option" where
  "split_insert vals v =
     (let (vals, unused) = array_get_unused_element vals TYPE_STRING;
          ds = (case unused of None \<Rightarrow> data_string_init | Some du \<Rightarrow> du)
      in array_insert_unique vals (Data_Unset (du_key ds) (du_is_index_key ds)
           (case du_payload ds of DString _ r \<Rightarrow> DString (Some v) r | p \<Rightarrow> p)))"

function split_value_loop :: "arr \<Rightarrow> string \<Rightarrow> nat \<Rightarrow> bool \<Rightarrow> nat \<Rightarrow> nat \<Rightarrow> arr option" where
  "split_value_loop vals b i in_token ts te =
     (if \<not> i \<le> length b then Some vals
      else let c = peek b i
        in if \<not> in_token
           then if c = SP \<or> c = TAB \<or> c = CHR '','' then split_value_loop vals b (i + 1) False ts te
             else if c = NUL then Some vals
             else split_value_loop vals b (i + 1) True i i
           else if c = SP \<or> c = TAB then split_value_loop vals b (i + 1) True ts te
           else if c = CHR '','' \<or> c = NUL then do {
             vals \<leftarrow> split_insert vals (take (te - ts + 1) (drop ts b));
             split_value_loop vals b (i + 1) False ts te
           }
           else split_value_loop vals b (i + 1) True ts i)"
  by pat_completeness auto
termination
  by (relation "measure (\<lambda>(vals, b, i, in_token, ts, te). Suc (length b) - i)") auto

declare split_value_loop.simps [simp del]

definition http_request_split_value :: "arr \<Rightarrow> string option \<Rightarrow> arr option" where
  "http_request_split_value vals b =
     (if bstr b = [] then Some vals else split_value_loop vals (bstr b) 0 False 0 0)"

section \<open>What splitting means\<close>

text \<open>The parts between commas, blanks around them removed, empty ones left out.\<close>

fun comma_parts :: "string \<Rightarrow> string list" where
  "comma_parts [] = [[]]"
| "comma_parts (c # cs) =
     (if c = CHR '','' then [] # comma_parts cs
      else case comma_parts cs of [] \<Rightarrow> [[c]] | p # ps \<Rightarrow> (c # p) # ps)"

definition blank :: "char \<Rightarrow> bool" where
  "blank c \<longleftrightarrow> c = SP \<or> c = TAB"

definition trim :: "string \<Rightarrow> string" where
  "trim s = rev (dropWhile blank (rev (dropWhile blank s)))"

definition header_values :: "string \<Rightarrow> string list" where
  "header_values v = filter (\<lambda>s. s \<noteq> []) (map trim (comma_parts v))"

lemma comma_parts_not_Nil: "comma_parts v \<noteq> []"
  by (induction v) (auto split: list.splits)

lemma comma_parts_one: "CHR '','' \<notin> set w \<Longrightarrow> comma_parts w = [w]"
  by (induction w) auto

lemma comma_parts_append: "CHR '','' \<notin> set w \<Longrightarrow> comma_parts (w @ CHR '','' # r) = w # comma_parts r"
  by (induction w) auto

lemma header_values_blank: "blank c \<or> c = CHR '','' \<Longrightarrow> header_values (c # cs) = header_values cs"
  using comma_parts_not_Nil [of cs]
  by (auto simp: header_values_def trim_def blank_def split: list.splits)

lemma trim_token:
  assumes "tok \<noteq> []" and "\<not> blank (hd tok)" and "\<not> blank (last tok)" and "\<forall>c \<in> set bl. blank c"
  shows "trim (tok @ bl) = tok"
proof -
  have "dropWhile blank (tok @ bl) = tok @ bl" using assms(1,2) by (cases tok) auto
  moreover have "dropWhile blank (rev bl @ rev tok) = dropWhile blank (rev tok)"
    using assms(4) by (intro dropWhile_append2) auto
  moreover have "dropWhile blank (rev tok) = rev tok" using assms(1,3) by (cases tok rule: rev_cases) auto
  ultimately show ?thesis by (simp add: trim_def)
qed

lemma itostr_chars: "c \<in> set (itostr val []) \<Longrightarrow> to_lower c = c"
proof -
  assume "c \<in> set (itostr val [])"
  then have "is_digit c \<or> c = CHR ''-''"
    using utostr_digits [of val] utostr_digits [of "NOT val + 1"] by (auto simp: itostr_def Let_def split: if_splits)
  then show "to_lower c = c" by (auto simp: to_lower_def is_upper_def is_digit_def)
qed

lemma lkey_itostr:
  assumes "lkey (itostr (of_nat i) []) = lkey (itostr (of_nat j) [])" and "i < 2 ^ 64" and "j < 2 ^ 64"
  shows "i = j"
proof -
  have low: "map to_lower (itostr v []) = itostr v []" for v
    using itostr_chars by (intro map_idI) blast
  have "itostr (of_nat i) [] = itostr (of_nat j) []" using assms(1) by (simp add: lkey_eq_iff low)
  then have "sint (of_nat i :: 64 word) = sint (of_nat j :: 64 word)"
    using strtol10_itostr [of "of_nat i"] strtol10_itostr [of "of_nat j"] by simp
  then have "(of_nat i :: 64 word) = of_nat j" by (rule word_eq_iff_signed [THEN iffD2])
  then show ?thesis using assms(2,3) by (simp add: word_of_nat_eq_iff take_bit_nat_eq_self)
qed

definition value_cell :: "nat \<Rightarrow> string \<Rightarrow> data_unset" where
  "value_cell i v = Data_Unset (Some (itostr (of_nat i) [])) True (DString (Some v) False)"

text \<open>An array of values: the keys were generated, cells in reserve have none or one that is replaced.\<close>

definition values_hold :: "arr \<Rightarrow> string list \<Rightarrow> bool" where
  "values_hold a vs \<longleftrightarrow> plain_cells a \<and>
     (\<forall>d. Some d \<in> set (a_data a) \<longrightarrow> du_key d = None \<or> du_is_index_key d) \<and>
     a_unique_ndx a = length vs \<and>
     (\<exists>ixs. arr_holds a ixs (map (\<lambda>i. value_cell i (vs ! i)) [0..<length vs]))"

lemma values_hold_init: "values_hold array_init []"
  using array_init_holds by (auto simp: values_hold_def array_init_def plain_cells_def)

lemma values_hold_reset:
  assumes "values_hold a vs"
  shows "values_hold (array_reset a) []"
proof -
  obtain dat srt used sz un where a: "a = Arr dat srt used sz un" by (cases a)
  have cells: "plain_cell d \<and> (du_key d = None \<or> du_is_index_key d)" if "Some d \<in> set (a_data (array_reset a))" for d
  proof -
    have "Some d \<in> set dat \<or> (\<exists>e. Some e \<in> set dat \<and> d = data_reset e)"
      using that by (auto simp: a map_option_case dest!: in_set_takeD in_set_dropD split: option.splits)
    moreover have "plain_cell (data_reset e) \<and> du_key (data_reset e) = None" if "plain_cell e" for e
      using that by (cases e, cases "du_payload e") (auto simp: plain_cell_def)
    ultimately show ?thesis using assms by (auto simp: values_hold_def plain_cells_def a)
  qed
  obtain ixs where "arr_holds (array_reset a) ixs []"
    using assms array_reset_holds by (auto simp: values_hold_def)
  then show ?thesis using cells by (auto simp: values_hold_def plain_cells_def a)
qed

lemma split_insert_ok:
  assumes v: "values_hold a vs" and max: "length vs < SSIZE_MAX"
  obtains a' where "split_insert a v = Some a'" "values_hold a' (vs @ [v])"
proof -
  let ?es = "map (\<lambda>i. value_cell i (vs ! i)) [0..<length vs]"
  obtain ixs where h: "arr_holds a ixs ?es" and p: "plain_cells a" and q: "a_unique_ndx a = length vs"
    and k: "\<And>d. Some d \<in> set (a_data a) \<Longrightarrow> du_key d = None \<or> du_is_index_key d"
    using v by (auto simp: values_hold_def)
  from array_get_unused_string [OF h p] obtain a1 u kk ii w where
    u: "array_get_unused_element a TYPE_STRING = (a1, u)"
      "(case u of None \<Rightarrow> data_string_init | Some du \<Rightarrow> du) = Data_Unset kk ii (DString w False)"
      "kk = None \<and> \<not> ii \<or> Some (Data_Unset kk ii (DString w False)) \<in> set (a_data a)"
    and a1: "arr_holds a1 ixs ?es" "plain_cells a1" "a_unique_ndx a1 = a_unique_ndx a"
      "set (a_data a1) \<subseteq> insert None (set (a_data a))" .
  have kk: "kk = None \<or> ii" using u(3) k by fastforce
  have ins: "split_insert a v = array_insert_unique a1 (Data_Unset kk ii (DString (Some v) False))"
    by (simp add: split_insert_def u)
  define a2 where "a2 = Arr (a_data a1) (a_sorted a1) (a_used a1) (a_size a1) (length vs + 1)"
  have n: "array_name_entry a1 (Data_Unset kk ii (DString (Some v) False)) = Some (a2, value_cell (length vs) v)"
    using kk a1(3) q max by (auto simp: array_name_entry_def a2_def value_cell_def SSIZE_MAX_def SIZE_T_def)
  have len: "length ?es + 1 \<le> SSIZE_MAX" using max by simp
  have none: "elem_of ?es (ekey (value_cell (length vs) v)) = None"
  proof -
    have "ekey (?es ! i) \<noteq> ekey (value_cell (length vs) v)" if "i < length ?es" for i
      using that max lkey_itostr [of i "length vs"]
      by (auto simp: ekey_def value_cell_def SSIZE_MAX_def)
    then show ?thesis by (simp add: elem_of_None)
  qed
  obtain a' ixs' where a': "array_insert_unique a1 (Data_Unset kk ii (DString (Some v) False)) = Some a'"
      "arr_holds a' ixs' (?es @ [value_cell (length vs) v])" "a_unique_ndx a' = a_unique_ndx a2"
    and cells: "\<And>d. Some d \<in> set (a_data a') \<Longrightarrow> d = value_cell (length vs) v \<or> Some d \<in> set (a_data a1)"
    using array_insert_new_cells [OF a1(1) n len none] by blast
  have es: "map (\<lambda>i. value_cell i ((vs @ [v]) ! i)) [0..<length (vs @ [v])] = ?es @ [value_cell (length vs) v]"
    by (simp add: nth_append)
  have "plain_cell d \<and> (du_key d = None \<or> du_is_index_key d)" if "Some d \<in> set (a_data a')" for d
    using cells [OF that] a1(2,4) k by (auto simp: plain_cells_def value_cell_def)
  then have "values_hold a' (vs @ [v])"
    using a' unfolding values_hold_def es plain_cells_def a2_def by auto
  then show thesis using that ins a'(1) by simp
qed

text \<open>The two states of the scan; inside a token it lies between \<open>ts\<close> and \<open>te\<close>, with blanks behind.\<close>

definition in_value :: "string \<Rightarrow> nat \<Rightarrow> nat \<Rightarrow> nat \<Rightarrow> bool" where
  "in_value v ts te i \<longleftrightarrow> ts \<le> te \<and> te < i \<and> i \<le> length v \<and> \<not> blank (v ! ts) \<and> \<not> blank (v ! te) \<and>
     (\<forall>k. ts \<le> k \<and> k < i \<longrightarrow> v ! k \<noteq> CHR '','') \<and> (\<forall>k. te < k \<and> k < i \<longrightarrow> blank (v ! k))"

lemma in_value_split:
  assumes "in_value v ts te i"
  shows "CHR '','' \<notin> set (take (i - ts) (drop ts v))" "trim (take (i - ts) (drop ts v)) = take (te - ts + 1) (drop ts v)"
    and "drop ts v = take (i - ts) (drop ts v) @ drop i v" "take (te - ts + 1) (drop ts v) \<noteq> []"
proof -
  note a = assms [unfolded in_value_def]
  show "CHR '','' \<notin> set (take (i - ts) (drop ts v))"
  proof
    assume "CHR '','' \<in> set (take (i - ts) (drop ts v))"
    then obtain k where "k < length (take (i - ts) (drop ts v))" "take (i - ts) (drop ts v) ! k = CHR '',''"
      by (auto simp: in_set_conv_nth)
    then have "v ! (ts + k) = CHR '',''" "ts + k < i" by (auto simp: less_diff_conv add.commute)
    then show False using a by (metis le_add1)
  qed
  let ?tok = "take (te - ts + 1) (drop ts v)" and ?bl = "take (i - te - 1) (drop (te + 1) v)"
  have nth: "k < te - ts + 1 \<Longrightarrow> ?tok ! k = v ! (ts + k)" for k using a by (simp add: add.commute)
  show ne: "?tok \<noteq> []" using a by simp
  have "hd ?tok = v ! ts" using ne nth [of 0] by (simp add: hd_conv_nth)
  moreover have "last ?tok = v ! te"
  proof -
    have "length ?tok = te - ts + 1" using a by (auto simp: min_def)
    then have "last ?tok = ?tok ! (te - ts)" using ne by (simp add: last_conv_nth)
    then show ?thesis using nth [of "te - ts"] a by simp
  qed
  moreover have "\<forall>c \<in> set ?bl. blank c"
  proof
    fix c assume "c \<in> set ?bl"
    then obtain k where "k < length ?bl" "c = ?bl ! k" by (auto simp: in_set_conv_nth)
    then have "c = v ! (te + 1 + k)" "te + 1 + k < i" by (auto simp: less_diff_conv add.commute)
    then show "blank c" using a by simp
  qed
  moreover have "take (i - ts) (drop ts v) = ?tok @ ?bl"
  proof -
    have "i - ts = (te - ts + 1) + (i - te - 1)" "ts + (te - ts + 1) = te + 1" using a by auto
    then show ?thesis using take_add [of "te - ts + 1" "i - te - 1" "drop ts v"] by (simp add: add.commute)
  qed
  ultimately show "trim (take (i - ts) (drop ts v)) = ?tok"
    using trim_token [OF ne] a by simp
  show "drop ts v = take (i - ts) (drop ts v) @ drop i v"
    using a by (metis append_take_drop_id drop_drop le_add_diff_inverse2 less_imp_le order.trans)
qed

lemma split_value_loop_ok:
  assumes "values_hold a vs" and "length vs + (length v + 1 - i) \<le> SSIZE_MAX" and "NUL \<notin> set v" and "i \<le> length v + 1"
    and "in_token \<Longrightarrow> in_value v ts te i"
  shows "\<exists>a'. split_value_loop a v i in_token ts te = Some a' \<and>
    values_hold a' (vs @ header_values (if in_token then drop ts v else drop i v))"
  using assms(1,2,4,5)
proof (induction "length v + 1 - i" arbitrary: a vs i in_token ts te rule: less_induct)
  case less
  note unfold = split_value_loop.simps [of a v i in_token ts te]
  have nul: "c \<noteq> NUL" if "i < length v" "c = v ! i" for c using that assms(3) nth_mem by metis
  show ?case
  proof (cases "i \<le> length v")
    case False
    then show ?thesis using less.prems by (subst unfold) (auto simp: header_values_def trim_def in_value_def)
  next
    case True
    show ?thesis
    proof (cases in_token)
      case False
      show ?thesis
      proof (cases "i = length v")
        case True
        then have "split_value_loop a v i in_token ts te = Some a"
          using False by (subst unfold) (simp add: peek_def NUL_def)
        then show ?thesis using True False less.prems(1) by (simp add: header_values_def trim_def)
      next
        case neq: False
        then have i: "i < length v" "drop i v = v ! i # drop (Suc i) v" using True by (simp_all add: Cons_nth_drop_Suc)
        show ?thesis
        proof (cases "blank (v ! i) \<or> v ! i = CHR '',''")
          case True
          then have "split_value_loop a v i in_token ts te = split_value_loop a v (i + 1) False ts te"
            using False i by (subst unfold) (auto simp: peek_def blank_def)
          moreover have "\<exists>a'. split_value_loop a v (i + 1) False ts te = Some a' \<and> values_hold a' (vs @ header_values (drop (i + 1) v))"
            using less.hyps [of "i + 1" a vs False ts te] less.prems i by auto
          ultimately show ?thesis using False True i by (simp add: header_values_blank)
        next
          case nb: False
          then have "split_value_loop a v i in_token ts te = split_value_loop a v (i + 1) True i i"
            using False i nul by (subst unfold) (auto simp: peek_def blank_def)
          moreover have "in_value v i i (i + 1)" using nb i by (auto simp: in_value_def less_Suc_eq_le)
          ultimately show ?thesis
            using less.hyps [of "i + 1" a vs True i i] less.prems i False by auto
        qed
      qed
    next
      case tok: True
      note iv = less.prems(4) [OF tok]
      note sp = in_value_split [OF iv]
      show ?thesis
      proof (cases "i = length v \<or> v ! i = CHR '',''")
        case end_of_value: True
        have "length vs < SSIZE_MAX" using less.prems(2) \<open>i \<le> length v\<close> by simp
        from split_insert_ok [OF less.prems(1) this, of "take (te - ts + 1) (drop ts v)"] obtain a1 where
          a1: "split_insert a (take (te - ts + 1) (drop ts v)) = Some a1"
            "values_hold a1 (vs @ [take (te - ts + 1) (drop ts v)])" .
        have step: "split_value_loop a v i in_token ts te = split_value_loop a1 v (i + 1) False ts te"
          using end_of_value tok a1(1) \<open>i \<le> length v\<close> by (subst unfold) (auto simp: peek_def NUL_def)
        have len: "length (vs @ [take (te - ts + 1) (drop ts v)]) + (length v + 1 - (i + 1)) \<le> SSIZE_MAX"
          using less.prems(2) \<open>i \<le> length v\<close> by simp
        have "header_values (drop ts v) = take (te - ts + 1) (drop ts v) # header_values (drop (i + 1) v)"
        proof (cases "i = length v")
          case True
          then show ?thesis using sp comma_parts_one [OF sp(1)]
            by (simp add: header_values_def trim_def)
        next
          case False
          then have "drop i v = CHR '','' # drop (i + 1) v"
            using end_of_value \<open>i \<le> length v\<close> by (simp add: Cons_nth_drop_Suc [symmetric])
          then have "comma_parts (drop ts v) = take (i - ts) (drop ts v) # comma_parts (drop (i + 1) v)"
            using sp(3) comma_parts_append [OF sp(1)] by metis
          then show ?thesis using sp by (simp add: header_values_def)
        qed
        moreover have "\<exists>a'. split_value_loop a1 v (i + 1) False ts te = Some a' \<and>
            values_hold a' ((vs @ [take (te - ts + 1) (drop ts v)]) @ header_values (drop (i + 1) v))"
          using less.hyps [of "i + 1" a1 "vs @ [take (te - ts + 1) (drop ts v)]" False ts te] a1(2) len \<open>i \<le> length v\<close> by auto
        ultimately show ?thesis using step tok by simp
      next
        case False
        then have i: "i < length v" using True by simp
        define te' where "te' = (if blank (v ! i) then te else i)"
        have "split_value_loop a v i in_token ts te = split_value_loop a v (i + 1) True ts te'"
          using False i tok nul by (subst unfold) (auto simp: peek_def blank_def te'_def)
        moreover have "in_value v ts te' (i + 1)"
          using iv False i by (auto simp: in_value_def te'_def less_Suc_eq)
        ultimately show ?thesis
          using less.hyps [of "i + 1" a vs True ts te'] less.prems i tok by auto
      qed
    qed
  qed
qed

lemma http_request_split_value_ok:
  assumes "values_hold a old" and "NUL \<notin> set v" and "length v < SSIZE_MAX"
  shows "\<exists>a'. http_request_split_value (array_reset a) (Some v) = Some a' \<and> values_hold a' (header_values v)"
proof (cases "v = []")
  case True
  then show ?thesis using values_hold_reset [OF assms(1)]
    by (simp add: http_request_split_value_def header_values_def trim_def)
next
  case False
  then show ?thesis
    using split_value_loop_ok [OF values_hold_reset [OF assms(1)] _ assms(2), of 0 False 0 0] assms(3)
    by (simp add: http_request_split_value_def)
qed

text \<open>C28: Splitting a field value into the emptied array of values leaves there exactly the parts between the
  commas, in their order, without the blanks around them and without the empty ones; every part is kept
  (the keys the array generates never collide), and no byte outside the value is read.\<close>

theorem split_value_parts:
  assumes "values_hold a old" and "NUL \<notin> set v" and "length v < SSIZE_MAX"
  shows "\<exists>a'. http_request_split_value (array_reset a) (Some v) = Some a' \<and> arr_ok a' \<and>
    map du_payload (arr_list a') = map (\<lambda>s. DString (Some s) False) (header_values v)"
proof -
  from http_request_split_value_ok [OF assms] obtain a' where
    a': "http_request_split_value (array_reset a) (Some v) = Some a'" "values_hold a' (header_values v)" by blast
  then have "arr_ok a' \<and> arr_list a' = map (\<lambda>i. value_cell i (header_values v ! i)) [0..<length (header_values v)]"
    using arr_okI by (auto simp: values_hold_def)
  moreover have "map (\<lambda>i. DString (Some (vs ! i)) False) [0..<length vs] = map (\<lambda>s. DString (Some s) False) vs" for vs
    by (intro nth_equalityI) simp_all
  ultimately show ?thesis using a'(1) by (simp add: value_cell_def comp_def)
qed

theorem split_value_parts_witness:
  "\<exists>a'. http_request_split_value (array_reset array_init) (Some '' a ,,b c'') = Some a' \<and> arr_ok a' \<and>
    map du_payload (arr_list a') = [DString (Some ''a'') False, DString (Some ''b c'') False]"
proof -
  have "header_values '' a ,,b c'' = [''a'', ''b c'']" by code_simp
  then show ?thesis
    using split_value_parts [OF values_hold_init, of "'' a ,,b c''"] by (simp add: NUL_def SSIZE_MAX_def)
qed

section \<open>The known headers\<close>

datatype header_kind =
    H_Connection | H_Content_Length | H_Content_Type | H_Expect | H_Host | H_If_Modified_Since
  | H_If_None_Match | H_Range | H_Other

definition header_chain :: "(string \<times> header_kind) list" where
  "header_chain =
     [(''Connection'', H_Connection), (''Content-Length'', H_Content_Length), (''Content-Type'', H_Content_Type),
      (''Expect'', H_Expect), (''Host'', H_Host), (''If-Modified-Since'', H_If_Modified_Since),
      (''If-None-Match'', H_If_None_Match), (''Range'', H_Range)]"

text \<open>The comparisons stop at the first name that is greater.\<close>

fun classify_from :: "(string \<times> header_kind) list \<Rightarrow> string \<Rightarrow> header_kind" where
  "classify_from [] key = H_Other"
| "classify_from ((name, kind) # rest) key =
     (let cmp = buffer_caseless_compare key name
      in if cmp = 0 then kind else if cmp > 0 then classify_from rest key else H_Other)"

definition classify_header :: "string \<Rightarrow> header_kind" where
  "classify_header = classify_from header_chain"


text \<open>The chain is a lookup because its names are in the order of the comparison.\<close>

definition find_kind :: "(string \<times> header_kind) list \<Rightarrow> string \<Rightarrow> header_kind" where
  "find_kind chain key = (case find (\<lambda>(name, _). lkey name = lkey key) chain of None \<Rightarrow> H_Other | Some (_, kind) \<Rightarrow> kind)"

lemma find_kind_Nil [simp]: "find_kind [] key = H_Other"
  by (simp add: find_kind_def)

lemma find_kind_Cons [simp]:
  "find_kind ((name, kind) # rest) key = (if lkey name = lkey key then kind else find_kind rest key)"
  by (simp add: find_kind_def)

lemma find_kind_none: "\<forall>(name, _) \<in> set chain. lkey name \<noteq> lkey key \<Longrightarrow> find_kind chain key = H_Other"
  by (induction chain) auto

lemma classify_from_find:
  "sorted_wrt (\<lambda>x y. lkey (fst x) < lkey (fst y)) chain \<Longrightarrow> classify_from chain key = find_kind chain key"
proof (induction chain key rule: classify_from.induct)
  case (2 name kind rest key)
  consider "lkey key = lkey name" | "lkey key < lkey name" | "lkey name < lkey key" by fastforce
  then show ?case
  proof cases
    case 1
    then show ?thesis by (simp add: buffer_caseless_compare_zero)
  next
    case lt: 2
    then have "buffer_caseless_compare key name < 0" by (simp add: buffer_caseless_compare_neg)
    moreover have "find_kind rest key = H_Other"
      using lt 2 by (intro find_kind_none) fastforce
    moreover have "lkey name \<noteq> lkey key" using lt by auto
    ultimately show ?thesis using lt by simp
  next
    case 3
    then have "\<not> buffer_caseless_compare key name < 0" "buffer_caseless_compare key name \<noteq> 0"
      by (simp_all add: buffer_caseless_compare_neg buffer_caseless_compare_zero)
    then show ?thesis using 2 3 by auto
  qed
qed simp

text \<open>The chain, which stops at the first name that is greater than the key, finds exactly the field whose
  name equals the key up to upper and lower case.\<close>

lemma classify_header_find: "classify_header key = find_kind header_chain key"
proof -
  have "sorted_wrt (\<lambda>x y. lkey (fst x) < lkey (fst y)) header_chain" by code_simp
  then show ?thesis unfolding classify_header_def by (rule classify_from_find)
qed

lemma classify_header_iff:
  assumes "kind \<noteq> H_Other"
  shows "classify_header key = kind \<longleftrightarrow> (\<exists>name. (name, kind) \<in> set header_chain \<and> lkey key = lkey name)"
proof -
  have "distinct (map (\<lambda>x. lkey (fst x)) header_chain)" "distinct (map snd header_chain)" by code_simp+
  then have *: "\<And>x y. x \<in> set header_chain \<Longrightarrow> y \<in> set header_chain \<Longrightarrow> lkey (fst x) = lkey (fst y) \<Longrightarrow> x = y"
    by (auto simp: distinct_map inj_on_def)
  show ?thesis
  proof (cases "find (\<lambda>(name, _). lkey name = lkey key) header_chain")
    case None
    then have "classify_header key = H_Other" by (simp add: classify_header_find find_kind_def)
    moreover have "\<forall>x \<in> set header_chain. lkey (fst x) \<noteq> lkey key" using None by (auto simp: find_None_iff)
    ultimately show ?thesis using assms by fastforce
  next
    case (Some x)
    then have "x \<in> set header_chain" "lkey (fst x) = lkey key" by (auto simp: find_Some_iff in_set_conv_nth)
    then have "classify_header key = snd x"
      using Some by (simp add: classify_header_find find_kind_def split: prod.split)
    moreover have "(\<exists>name. (name, kind) \<in> set header_chain \<and> lkey key = lkey name) \<longleftrightarrow> snd x = kind"
      using * [OF \<open>x \<in> _\<close>] \<open>x \<in> _\<close> \<open>lkey (fst x) = _\<close> by (metis fst_conv prod.collapse snd_conv)
    ultimately show ?thesis by simp
  qed
qed

end
