(* ===== verification/Request_Headers.thy ===== *)
theory Request_Headers
  imports Request_Split
begin

text \<open>The header lines of an HTTP request (second part of \<open>http_request_parse\<close> in \<open>request.c\<close>).\<close>

section \<open>The state of the loop\<close>

datatype keep_alive_set = HTTP_CONNECTION_UNSET | HTTP_CONNECTION_KEEPALIVE | HTTP_CONNECTION_CLOSE

text \<open>The local variables of the function; pointers are offsets into the copy \<open>hp_m\<close>.\<close>

record hparse =
  hp_m :: string
  hp_i :: nat
  hp_first :: nat
  hp_is_key :: bool
  hp_key_len :: nat
  hp_ws_after_key :: bool
  hp_in_folding :: bool
  hp_value :: "nat option"
  hp_key :: "nat option"
  hp_done :: bool
  hp_keep :: keep_alive_set
  hp_len_set :: bool
  hp_reqline_host :: bool
  hp_con :: req

datatype hresult = Go_On hparse | Refused req

text \<open>The first of the values that says what to do with the connection; a list without one changes nothing.\<close>

fun connection_vals :: "data_unset option list \<Rightarrow> keep_alive_set \<Rightarrow> keep_alive_set option" where
  "connection_vals [] keep = Some keep"
| "connection_vals (None # ds) keep = None"
| "connection_vals (Some d # ds) keep =
     (case du_payload d of
        DString v _ \<Rightarrow>
          if buffer_caseless_compare (bstr v) ''keep-alive'' = 0 then Some HTTP_CONNECTION_KEEPALIVE
          else if buffer_caseless_compare (bstr v) ''close'' = 0 then Some HTTP_CONNECTION_CLOSE
          else connection_vals ds keep
      | _ \<Rightarrow> None)"

text \<open>
  The text a pointer leads to. A value that was appended to is still in its buffer as long as it fits the
  size the buffer had at least when the pointer was taken; \<open>None\<close> when the buffer may have been moved, or was freed.
\<close>

definition deref_text :: "arr \<Rightarrow> text_ref \<Rightarrow> string option" where
  "deref_text headers r =
     (case r of
        Text_Freed \<Rightarrow> None
      | Text_At n v off \<Rightarrow> do {
          du \<leftarrow> cell_read (a_data headers) n;
          case du_payload du of
            DString w _ \<Rightarrow> if length (bstr w) < buffer_align_size (length v + 1) then Some (drop off (bstr w)) else None
          | _ \<Rightarrow> None
        })"

definition text_ref_of :: "nat option \<Rightarrow> string \<Rightarrow> nat \<Rightarrow> text_ref" where
  "text_ref_of n v off = (case n of None \<Rightarrow> Text_Freed | Some n \<Rightarrow> Text_At n v off)"

text \<open>Keep the element: \<open>array_insert_unique\<close> at the end of the chain, with what is set to its position.\<close>

definition keep_ds :: "hparse \<Rightarrow> data_unset \<Rightarrow> (nat option \<Rightarrow> req \<Rightarrow> req) \<Rightarrow> hresult option" where
  "keep_ds hp ds f = do {
     (headers, n) \<leftarrow> insert_header (rq_headers (hp_con hp)) ds;
     Some (Go_On (hp\<lparr>hp_con := f n ((hp_con hp)\<lparr>rq_headers := headers\<rparr>)\<rparr>))
   }"

text \<open>Refuse with a status; the element is kept as well.\<close>

definition refuse_ds :: "nat \<Rightarrow> hparse \<Rightarrow> data_unset \<Rightarrow> hresult option" where
  "refuse_ds status hp ds = do {
     (headers, _) \<leftarrow> insert_header (rq_headers (hp_con hp)) ds;
     Some (Refused (refuse status ((hp_con hp)\<lparr>rq_headers := headers\<rparr>)))
   }"

definition handle_connection :: "hparse \<Rightarrow> data_unset \<Rightarrow> string \<Rightarrow> hresult option" where
  "handle_connection hp ds v = do {
     vals \<leftarrow> http_request_split_value (array_reset (rq_split_vals (hp_con hp))) (Some v);
     keep \<leftarrow> connection_vals (take (a_used vals) (a_data vals)) (hp_keep hp);
     keep_ds (hp\<lparr>hp_keep := keep, hp_con := (hp_con hp)\<lparr>rq_split_vals := vals\<rparr>\<rparr>) ds (\<lambda>_ con. con)
   }"

definition handle_content_length :: "hparse \<Rightarrow> data_unset \<Rightarrow> string \<Rightarrow> hresult option" where
  "handle_content_length hp ds v =
     (if hp_len_set hp then refuse_ds 400 hp ds
      else if \<not> list_all is_digit v then refuse_ds 400 hp ds
      else let (r, err) = strtoul10 (cstr v)
        in if err = []
           then keep_ds (hp\<lparr>hp_len_set := True\<rparr>) ds (\<lambda>_ con. con\<lparr>rq_content_length := r\<rparr>)
           else refuse_ds 400 hp ds)"

definition handle_content_type :: "hparse \<Rightarrow> data_unset \<Rightarrow> string \<Rightarrow> hresult option" where
  "handle_content_type hp ds v =
     (if rq_http_content_type (hp_con hp) = None
      then keep_ds hp ds (\<lambda>n con. con\<lparr>rq_http_content_type := Some (text_ref_of n v 0)\<rparr>)
      else refuse_ds 400 hp ds)"

definition handle_expect :: "req_opts \<Rightarrow> hparse \<Rightarrow> data_unset \<Rightarrow> string \<Rightarrow> hresult option" where
  "handle_expect opts hp ds v =
     (if ro_reject_expect opts \<and> buffer_caseless_compare v ''100-continue'' = 0
      then refuse_ds 417 hp ds
      else keep_ds hp ds (\<lambda>_ con. con))"

definition handle_host :: "hparse \<Rightarrow> data_unset \<Rightarrow> hresult option" where
  "handle_host hp ds =
     (if hp_reqline_host hp then Some (Go_On hp)
      else if rq_http_host (hp_con hp) = None
      then keep_ds hp ds (\<lambda>n con. con\<lparr>rq_http_host := Some (buf_ref_of n)\<rparr>)
      else refuse_ds 400 hp ds)"

definition handle_if_modified_since :: "hparse \<Rightarrow> data_unset \<Rightarrow> string \<Rightarrow> hresult option" where
  "handle_if_modified_since hp ds v =
     (case rq_http_if_modified_since (hp_con hp) of
        None \<Rightarrow> keep_ds hp ds (\<lambda>n con. con\<lparr>rq_http_if_modified_since := Some (text_ref_of n v 0)\<rparr>)
      | Some r \<Rightarrow> do {
          old \<leftarrow> deref_text (rq_headers (hp_con hp)) r;
          if strcaseeq old v then Some (Go_On hp) else refuse_ds 400 hp ds
        })"

definition handle_if_none_match :: "hparse \<Rightarrow> data_unset \<Rightarrow> string \<Rightarrow> hresult option" where
  "handle_if_none_match hp ds v =
     (if rq_http_if_none_match (hp_con hp) = None
      then keep_ds hp ds (\<lambda>n con. con\<lparr>rq_http_if_none_match := Some (text_ref_of n v 0)\<rparr>)
      else Some (Go_On hp))"

definition handle_range :: "hparse \<Rightarrow> data_unset \<Rightarrow> string \<Rightarrow> hresult option" where
  "handle_range hp ds v =
     (if rq_http_range (hp_con hp) = None
      then keep_ds hp ds (\<lambda>n con.
        if strncaseeq v ''bytes='' 6 \<and> strchr (drop 6 v) CHR ''-'' \<noteq> None
        then con\<lparr>rq_http_range := Some (text_ref_of n v 6)\<rparr> else con)
      else refuse_ds 400 hp ds)"

text \<open>A header line with a value that is not empty.\<close>

definition process_header :: "req_opts \<Rightarrow> hparse \<Rightarrow> string \<Rightarrow> string \<Rightarrow> hresult option" where
  "process_header opts hp key v =
     (let (headers, ds) = header_element (rq_headers (hp_con hp)) key v;
          hp = hp\<lparr>hp_con := (hp_con hp)\<lparr>rq_headers := headers\<rparr>\<rparr>
      in case classify_header key of
           H_Connection \<Rightarrow> handle_connection hp ds v
         | H_Content_Length \<Rightarrow> handle_content_length hp ds v
         | H_Content_Type \<Rightarrow> handle_content_type hp ds v
         | H_Expect \<Rightarrow> handle_expect opts hp ds v
         | H_Host \<Rightarrow> handle_host hp ds
         | H_If_Modified_Since \<Rightarrow> handle_if_modified_since hp ds v
         | H_If_None_Match \<Rightarrow> handle_if_none_match hp ds v
         | H_Range \<Rightarrow> handle_range hp ds v
         | H_Other \<Rightarrow> keep_ds hp ds (\<lambda>_ con. con))"

section \<open>One byte of a key\<close>

definition key_separator :: "char \<Rightarrow> bool" where
  "key_separator c \<longleftrightarrow> c \<in> {CHR ''('', CHR '')'', CHR ''<'', CHR ''>'', CHR ''@'', CHR '','', CHR '';'', BSLASH, DQUOTE,
     CHR ''/'', CHR ''['', CHR '']'', CHR ''?'', CHR ''='', CHR ''{'', CHR ''}''}"

text \<open>The search for the colon behind white space, from offset \<open>i\<close> on.\<close>

function skip_to_colon :: "string \<Rightarrow> nat \<Rightarrow> nat option option" where
  "skip_to_colon m i =
     (if \<not> i < length m then None
      else if m ! i = SP \<or> m ! i = TAB then skip_to_colon m (i + 1)
      else if m ! i = CHR '':'' then Some (Some i)
      else Some None)"
  by pat_completeness auto
termination
  by (relation "measure (\<lambda>(m, i). length m - i)") auto

declare skip_to_colon.simps [simp del]

definition key_step :: "req_opts \<Rightarrow> hparse \<Rightarrow> hresult option" where
  "key_step opts hp =
     (let m = hp_m hp; i = hp_i hp; c = m ! i
      in if c = CHR '':'' then
           Some (Go_On (hp\<lparr>hp_is_key := False, hp_value := Some (i + 1),
             hp_key_len := (if \<not> hp_ws_after_key hp then i - hp_first hp else hp_key_len hp), hp_ws_after_key := False\<rparr>))
         else if key_separator c then Some (Refused (refuse_both 400 (hp_con hp)))
         else if c = SP \<or> c = TAB then
           if i = hp_first hp then Some (Go_On (hp\<lparr>hp_is_key := False, hp_in_folding := True, hp_value := Some i\<rparr>))
           else do {
             j \<leftarrow> skip_to_colon m (i + 1);
             case j of
               None \<Rightarrow> Some (Refused (refuse_both 400 (hp_con hp)))
             | Some j \<Rightarrow> Some (Go_On (hp\<lparr>hp_key_len := i - hp_first hp, hp_i := j - 1, hp_ws_after_key := True\<rparr>))
           }
         else if c = CR then do {
           force_assert (i + 1 < length m);
           if m ! (i + 1) = LF \<and> i = hp_first hp
           then Some (Go_On (hp\<lparr>hp_m := m[i := NUL, i + 1 := NUL], hp_i := i + 1, hp_done := True\<rparr>))
           else Some (Refused (refuse_both 400 (hp_con hp)))
         }
         else if (if ro_header_strict opts then byte c < 32 \<or> byte c \<ge> 127 else c = NUL)
         then Some (Refused (refuse_both 400 (hp_con hp)))
         else Some (Go_On hp))"

section \<open>One byte of a value\<close>

definition strip_ws :: "string \<Rightarrow> string" where
  "strip_ws s = rev (dropWhile (\<lambda>c. c = SP \<or> c = TAB) (rev s))"

text \<open>A folded line is appended to the value of the last key.\<close>

definition append_folded :: "arr \<Rightarrow> string \<Rightarrow> string \<Rightarrow> arr option" where
  "append_folded headers key v = do {
     (found, _) \<leftarrow> array_get_index headers (cstr key);
     case found of
       None \<Rightarrow> Some headers
     | Some n \<Rightarrow> do {
         du \<leftarrow> cell_read (a_data headers) n;
         case du_payload du of
           DString w r \<Rightarrow>
             Some (Arr ((a_data headers)[n := Some (Data_Unset (du_key du) (du_is_index_key du)
                      (DString (Some (bstr w @ v)) r))])
                 (a_sorted headers) (a_used headers) (a_size headers) (a_unique_ndx headers))
         | _ \<Rightarrow> None
       }
   }"

definition folded_line :: "hparse \<Rightarrow> hresult option" where
  "folded_line hp =
     (case hp_key hp of
        None \<Rightarrow> Some (Refused (refuse_both 400 (hp_con hp)))
      | Some key \<Rightarrow>
          if hp_key_len hp = 0 then Some (Refused (refuse_both 400 (hp_con hp)))
          else do {
            v \<leftarrow> hp_value hp;
            headers \<leftarrow> append_folded (rq_headers (hp_con hp)) (take (hp_key_len hp) (drop key (hp_m hp)))
              (cstr (drop v (hp_m hp)));
            Some (Go_On (hp\<lparr>hp_con := (hp_con hp)\<lparr>rq_headers := headers\<rparr>\<rparr>))
          })"

definition header_line :: "req_opts \<Rightarrow> hparse \<Rightarrow> hresult option" where
  "header_line opts hp = do {
     let hp = hp\<lparr>hp_key := Some (hp_first hp)\<rparr>;
     v \<leftarrow> hp_value hp;
     let t = strip_ws (take (hp_i hp - v) (drop v (hp_m hp)));
     let hp = hp\<lparr>hp_m := (hp_m hp)[v + length t := NUL]\<rparr>;
     if 0 < length t
     then process_header opts hp (take (hp_key_len hp) (drop (hp_first hp) (hp_m hp))) t
     else Some (Go_On hp)
   }"

definition value_step :: "req_opts \<Rightarrow> hparse \<Rightarrow> hresult option" where
  "value_step opts hp =
     (let m = hp_m hp; i = hp_i hp; c = m ! i
      in if c = CR then do {
           force_assert (i + 1 < length m);
           if m ! (i + 1) = LF then do {
             let hp = hp\<lparr>hp_m := m[i := NUL, i + 1 := NUL]\<rparr>;
             r \<leftarrow> (if hp_in_folding hp then folded_line hp else header_line opts hp);
             case r of
               Refused con \<Rightarrow> Some (Refused con)
             | Go_On hp \<Rightarrow>
                 Some (Go_On (hp\<lparr>hp_i := i + 1, hp_first := i + 2, hp_is_key := True, hp_value := None,
                   hp_in_folding := False\<rparr>))
           }
           else Some (Refused (refuse_both 400 (hp_con hp)))
         }
         else if c = SP \<or> c = TAB
         then Some (Go_On (if hp_value hp = Some i then hp\<lparr>hp_value := Some (i + 1)\<rparr> else hp))
         else if (if ro_header_strict opts then byte c < 32 else c = NUL)
         then Some (Refused (refuse 400 (hp_con hp)))
         else Some (Go_On hp))"

section \<open>The loop\<close>

definition header_step :: "req_opts \<Rightarrow> hparse \<Rightarrow> hresult option" where
  "header_step opts hp = do {
     force_assert (hp_i hp < length (hp_m hp));
     if hp_is_key hp then key_step opts hp else value_step opts hp
   }"

text \<open>\<open>fuel\<close> bounds the number of iterations; every one of them moves on by at least one byte.\<close>

fun header_loop :: "req_opts \<Rightarrow> nat \<Rightarrow> nat \<Rightarrow> hparse \<Rightarrow> hresult option" where
  "header_loop opts ilen 0 hp = None"
| "header_loop opts ilen (Suc fuel) hp =
     (if \<not> (hp_i hp \<le> ilen \<and> \<not> hp_done hp) then Some (Go_On hp)
      else do {
        r \<leftarrow> header_step opts hp;
        case r of
          Refused con \<Rightarrow> Some (Refused con)
        | Go_On hp \<Rightarrow> header_loop opts ilen fuel (hp\<lparr>hp_i := hp_i hp + 1\<rparr>)
      })"

end
