(* ===== verification/Request_Inv.thy ===== *)
theory Request_Inv
  imports Request_Headers
begin

text \<open>
  What the loop over the header lines keeps true: the array of fields is well formed, the
  pointers taken into it lead to their fields, the buffer behind the current line is untouched.
\<close>

declare lkey_simps(2) [simp del]

section \<open>The request between two lines\<close>

definition same_line :: "req \<Rightarrow> req \<Rightarrow> bool" where
  "same_line con con' \<longleftrightarrow>
     rq_request_line con' = rq_request_line con \<and> rq_uri con' = rq_uri con \<and> rq_orig_uri con' = rq_orig_uri con \<and>
     rq_http_method con' = rq_http_method con \<and> rq_http_version con' = rq_http_version con \<and>
     rq_http_status con' = rq_http_status con"

lemma same_line_refl [simp]: "same_line con con"
  by (simp add: same_line_def)

lemma same_line_trans: "same_line a b \<Longrightarrow> same_line b c \<Longrightarrow> same_line a c"
  by (simp add: same_line_def)

definition host_ref_ok :: "buf_ref option \<Rightarrow> data_unset list \<Rightarrow> bool" where
  "host_ref_ok r es \<longleftrightarrow>
     (case r of
        None \<Rightarrow> elem_of es (lkey ''Host'') = None
      | Some Buf_Freed \<Rightarrow> False
      | Some (Buf_At n) \<Rightarrow> n < length es \<and> ekey (es ! n) = lkey ''Host'')"

definition since_ref_ok :: "text_ref option \<Rightarrow> data_unset list \<Rightarrow> bool" where
  "since_ref_ok r es \<longleftrightarrow>
     (case r of
        None \<Rightarrow> elem_of es (lkey ''If-Modified-Since'') = None
      | Some r \<Rightarrow> (\<exists>n k v. r = Text_At n v 0 \<and> n < length es \<and> es ! n = dstring k v \<and>
          lkey k = lkey ''If-Modified-Since''))"

definition con_ok :: "req \<Rightarrow> data_unset list \<Rightarrow> bool" where
  "con_ok con es \<longleftrightarrow> fields_hold (rq_headers con) es \<and> (\<forall>k v. dstring k v \<in> set es \<longrightarrow> NUL \<notin> set v) \<and>
     (\<exists>vs. values_hold (rq_split_vals con) vs) \<and> host_ref_ok (rq_http_host con) es \<and>
     since_ref_ok (rq_http_if_modified_since con) es"

lemma host_since_differ [simp]: "lkey ''Host'' \<noteq> lkey ''If-Modified-Since''" "lkey ''If-Modified-Since'' \<noteq> lkey ''Host''"
  by code_simp+

text \<open>Inserting a field with another key moves no pointer.\<close>

lemma refs_ok_new:
  "host_ref_ok r es \<Longrightarrow> lkey k \<noteq> lkey ''Host'' \<Longrightarrow> host_ref_ok r (es @ [dstring k v])"
  "since_ref_ok r' es \<Longrightarrow> lkey k \<noteq> lkey ''If-Modified-Since'' \<Longrightarrow> since_ref_ok r' (es @ [dstring k v])"
  by (auto simp: host_ref_ok_def since_ref_ok_def elem_of_None nth_append less_Suc_eq
      split: option.splits buf_ref.splits)

lemma refs_ok_update:
  assumes "n < length es" and "es ! n = dstring k w"
  shows "host_ref_ok r es \<Longrightarrow> host_ref_ok r (es[n := dstring k v])"
    and "since_ref_ok r' es \<Longrightarrow> lkey k \<noteq> lkey ''If-Modified-Since'' \<Longrightarrow> since_ref_ok r' (es[n := dstring k v])"
proof -
  have key: "ekey (es[n := dstring k v] ! i) = ekey (es ! i)" if "i < length es" for i
    using assms that by (cases "i = n") simp_all
  show "host_ref_ok r es \<Longrightarrow> host_ref_ok r (es[n := dstring k v])"
    using key by (auto simp: host_ref_ok_def elem_of_None split: option.splits buf_ref.splits)
  show "since_ref_ok r' es \<Longrightarrow> lkey k \<noteq> lkey ''If-Modified-Since'' \<Longrightarrow> since_ref_ok r' (es[n := dstring k v])"
  proof (cases r')
    case None
    then show "since_ref_ok r' es \<Longrightarrow> ?thesis" using key by (auto simp: since_ref_ok_def elem_of_None)
  next
    case (Some r)
    assume "since_ref_ok r' es" "lkey k \<noteq> lkey ''If-Modified-Since''"
    then obtain i k' u where i: "r = Text_At i u 0" "i < length es" "es ! i = dstring k' u" "lkey k' = lkey ''If-Modified-Since''"
      using Some by (auto simp: since_ref_ok_def)
    then have "n \<noteq> i" using assms \<open>lkey k \<noteq> _\<close> by auto
    then show ?thesis using i Some by (auto simp: since_ref_ok_def)
  qed
qed

text \<open>The ways a field is kept.\<close>

lemma insert_header_some:
  assumes "fields_hold a es" and "length es < SSIZE_MAX"
  shows "\<exists>a' n. insert_header a (dstring k v) = Some (a', n)"
proof (cases "elem_of es (lkey k)")
  case None
  then show ?thesis using insert_header_new [OF assms None] by metis
next
  case (Some d)
  then obtain i where i: "i < length es" "ekey (es ! i) = lkey k" by (metis elem_of_None option.distinct(1))
  then obtain k' w where "es ! i = dstring k' w" using fields_hold_nth [OF assms(1)] by metis
  then show ?thesis using insert_header_dup [OF assms i(1), of k' w k v] i(2) by (metis dstring_simps(4))
qed

lemma con_ok_insert_other:
  assumes c: "con_ok con es" and max: "length es < SSIZE_MAX" and v: "NUL \<notin> set v"
    and k: "lkey k \<noteq> lkey ''Host''" "lkey k \<noteq> lkey ''If-Modified-Since''"
  obtains a' n es' where "insert_header (rq_headers con) (dstring k v) = Some (a', n)" "con_ok (con\<lparr>rq_headers := a'\<rparr>) es'"
    "length es' \<le> Suc (length es)"
proof -
  have f: "fields_hold (rq_headers con) es" using c by (simp add: con_ok_def)
  show thesis
  proof (cases "elem_of es (lkey k)")
    case None
    from insert_header_new [OF f max None] obtain a' where
      "insert_header (rq_headers con) (dstring k v) = Some (a', Some (length es))" "fields_hold a' (es @ [dstring k v])" .
    then show thesis
      using c v refs_ok_new(1) [OF _ k(1)] refs_ok_new(2) [OF _ k(2)] by (intro that) (auto simp: con_ok_def)
  next
    case (Some d)
    then obtain i where i: "i < length es" "ekey (es ! i) = lkey k" by (metis elem_of_None option.distinct(1))
    then obtain k' w where d: "es ! i = dstring k' w" using fields_hold_nth [OF f] by metis
    have k': "lkey k' = lkey k" using i(2) d by simp
    have w: "NUL \<notin> set w" using c d i(1) nth_mem [of i es] by (auto simp: con_ok_def)
    from insert_header_dup [OF f max i(1) d k'] obtain a' where
      a': "insert_header (rq_headers con) (dstring k v) = Some (a', None)" "fields_hold a' (es[i := dstring k' (w @ '', '' @ v)])" .
    have "\<forall>k v'. dstring k v' \<in> set (es[i := dstring k' (w @ '', '' @ v)]) \<longrightarrow> NUL \<notin> set v'"
      using c v w set_update_subset_insert [of es i "dstring k' (w @ '', '' @ v)"]
      by (fastforce simp: con_ok_def NUL_def)
    then show thesis
      using a' c k k' refs_ok_update [OF i(1) d] by (intro that) (auto simp: con_ok_def)
  qed
qed

lemma con_ok_insert_host:
  assumes c: "con_ok con es" and max: "length es < SSIZE_MAX" and v: "NUL \<notin> set v"
    and k: "lkey k = lkey ''Host''" and none: "rq_http_host con = None"
  obtains a' where "insert_header (rq_headers con) (dstring k v) = Some (a', Some (length es))"
    "con_ok (con\<lparr>rq_headers := a', rq_http_host := Some (Buf_At (length es))\<rparr>) (es @ [dstring k v])"
proof -
  have f: "fields_hold (rq_headers con) es" using c by (simp add: con_ok_def)
  have "elem_of es (lkey k) = None" using c k none by (simp add: con_ok_def host_ref_ok_def)
  from insert_header_new [OF f max this] obtain a' where
    "insert_header (rq_headers con) (dstring k v) = Some (a', Some (length es))" "fields_hold a' (es @ [dstring k v])" .
  then show thesis
    using c v k refs_ok_new(2) [of "rq_http_if_modified_since con" es k v]
    by (intro that) (auto simp: con_ok_def host_ref_ok_def)
qed

lemma con_ok_insert_since:
  assumes c: "con_ok con es" and max: "length es < SSIZE_MAX" and v: "NUL \<notin> set v"
    and k: "lkey k = lkey ''If-Modified-Since''" and none: "rq_http_if_modified_since con = None"
  obtains a' where "insert_header (rq_headers con) (dstring k v) = Some (a', Some (length es))"
    "con_ok (con\<lparr>rq_headers := a', rq_http_if_modified_since := Some (Text_At (length es) v 0)\<rparr>) (es @ [dstring k v])"
proof -
  have f: "fields_hold (rq_headers con) es" using c by (simp add: con_ok_def)
  have "elem_of es (lkey k) = None" using c k none by (simp add: con_ok_def since_ref_ok_def)
  from insert_header_new [OF f max this] obtain a' where
    "insert_header (rq_headers con) (dstring k v) = Some (a', Some (length es))" "fields_hold a' (es @ [dstring k v])" .
  then show thesis
    using c v k refs_ok_new(1) [of "rq_http_host con" es k v]
    by (intro that) (auto simp: con_ok_def since_ref_ok_def)
qed

section \<open>One field\<close>

lemma classify_host_since:
  "classify_header k = H_Host \<longleftrightarrow> lkey k = lkey ''Host''"
  "classify_header k = H_If_Modified_Since \<longleftrightarrow> lkey k = lkey ''If-Modified-Since''"
  by (simp_all add: classify_header_iff header_chain_def)

text \<open>What a handler may do: refuse with one of its statuses, or go on with one more field at most.\<close>

definition field_done :: "hparse \<Rightarrow> data_unset list \<Rightarrow> hresult option \<Rightarrow> bool" where
  "field_done hp es r \<longleftrightarrow>
     (\<exists>con'. r = Some (Refused con') \<and> rq_http_status con' \<in> {400, 417}) \<or>
     (\<exists>con' keep len es'. r = Some (Go_On (hp\<lparr>hp_keep := keep, hp_len_set := len, hp_con := con'\<rparr>)) \<and> con_ok con' es' \<and>
        length es' \<le> Suc (length es) \<and> same_line (hp_con hp) con' \<and>
        (rq_http_host (hp_con hp) \<noteq> None \<longrightarrow> rq_http_host con' \<noteq> None))"

lemma field_doneI:
  assumes "r = Some (Go_On (hp\<lparr>hp_keep := keep, hp_len_set := len, hp_con := con'\<rparr>))" and "con_ok con' es'"
    and "length es' \<le> Suc (length es)" and "same_line (hp_con hp) con'"
    and "rq_http_host (hp_con hp) \<noteq> None \<Longrightarrow> rq_http_host con' \<noteq> None"
  shows "field_done hp es r"
  using assms unfolding field_done_def by blast

lemma field_doneE:
  assumes "field_done hp es r"
  obtains (refused) con' where "r = Some (Refused con')" "rq_http_status con' \<in> {400, 417}"
  | (kept) con' keep len es' where "r = Some (Go_On (hp\<lparr>hp_keep := keep, hp_len_set := len, hp_con := con'\<rparr>))"
      "con_ok con' es'" "length es' \<le> Suc (length es)" "same_line (hp_con hp) con'"
      "rq_http_host (hp_con hp) \<noteq> None \<Longrightarrow> rq_http_host con' \<noteq> None"
  using assms unfolding field_done_def by blast

definition ref_fields_kept :: "(nat option \<Rightarrow> req \<Rightarrow> req) \<Rightarrow> bool" where
  "ref_fields_kept f \<longleftrightarrow>
     (\<forall>n con. rq_headers (f n con) = rq_headers con \<and> rq_split_vals (f n con) = rq_split_vals con \<and>
        rq_http_host (f n con) = rq_http_host con \<and> rq_http_if_modified_since (f n con) = rq_http_if_modified_since con \<and>
        same_line con (f n con))"

lemma ref_fields_keptD:
  "ref_fields_kept f \<Longrightarrow> con_ok con es \<Longrightarrow> con_ok (f n con) es"
  "ref_fields_kept f \<Longrightarrow> same_line con (f n con)"
  "ref_fields_kept f \<Longrightarrow> rq_http_host (f n con) = rq_http_host con"
  by (simp_all add: ref_fields_kept_def con_ok_def)

lemma keep_ds_other:
  assumes c: "con_ok (hp_con hp) es" and max: "length es < SSIZE_MAX" and v: "NUL \<notin> set v"
    and k: "lkey k \<noteq> lkey ''Host''" "lkey k \<noteq> lkey ''If-Modified-Since''" and f: "ref_fields_kept f"
  shows "field_done hp es (keep_ds hp (dstring k v) f)"
proof -
  from con_ok_insert_other [OF c max v k] obtain a' n es' where
    a': "insert_header (rq_headers (hp_con hp)) (dstring k v) = Some (a', n)" "con_ok (hp_con hp\<lparr>rq_headers := a'\<rparr>) es'"
      "length es' \<le> Suc (length es)" .
  let ?con = "f n (hp_con hp\<lparr>rq_headers := a'\<rparr>)"
  have "same_line (hp_con hp) ?con"
    using ref_fields_keptD(2) [OF f, of "hp_con hp\<lparr>rq_headers := a'\<rparr>" n] by (simp add: same_line_def)
  then have "keep_ds hp (dstring k v) f = Some (Go_On (hp\<lparr>hp_keep := hp_keep hp, hp_len_set := hp_len_set hp, hp_con := ?con\<rparr>)) \<and>
      con_ok ?con es' \<and> length es' \<le> Suc (length es) \<and> same_line (hp_con hp) ?con \<and>
      (rq_http_host (hp_con hp) \<noteq> None \<longrightarrow> rq_http_host ?con \<noteq> None)"
    using a' ref_fields_keptD [OF f] by (simp add: keep_ds_def)
  then show ?thesis unfolding field_done_def by blast
qed

lemma refuse_ds_done:
  assumes "con_ok (hp_con hp) es" and "length es < SSIZE_MAX" and "st \<in> {400, 417}"
  shows "field_done hp es (refuse_ds st hp (dstring k v))"
proof -
  obtain a' n where "insert_header (rq_headers (hp_con hp)) (dstring k v) = Some (a', n)"
    using insert_header_some [of "rq_headers (hp_con hp)" es k v] assms by (auto simp: con_ok_def)
  then show ?thesis using assms by (auto simp: field_done_def refuse_ds_def)
qed

lemma field_done_same:
  assumes "con_ok (hp_con hp) es"
  shows "field_done hp es (Some (Go_On hp))"
proof -
  have "hp = hp\<lparr>hp_keep := hp_keep hp, hp_len_set := hp_len_set hp, hp_con := hp_con hp\<rparr>" by simp
  then show ?thesis using assms unfolding field_done_def by (metis le_Suc_eq order_refl same_line_refl)
qed

text \<open>A change of the locals and of the values array before the field is kept.\<close>

lemma field_done_change:
  assumes "field_done (hp\<lparr>hp_keep := keep, hp_len_set := len, hp_con := con\<rparr>) es r" and "same_line (hp_con hp) con"
    and "rq_http_host con = rq_http_host (hp_con hp)"
  shows "field_done hp es r"
  using assms(1)
proof (cases rule: field_doneE)
  case (kept con' keep' len' es')
  have "same_line con con'" using kept(4) by simp
  then show ?thesis
    using kept assms(3) same_line_trans [OF assms(2)]
    by (intro field_doneI [where keep = keep' and len = len' and con' = con' and es' = es']) simp_all
qed (simp add: field_done_def)

lemma connection_vals_ok:
  assumes "\<forall>d \<in> set ds. \<exists>e. d = Some e \<and> plain_cell e"
  shows "\<exists>keep'. connection_vals ds keep = Some keep'"
  using assms
proof (induction ds)
  case (Cons d ds)
  then obtain e where "d = Some e" "plain_cell e" by auto
  then show ?case using Cons by (auto elim!: plain_cellE)
qed simp

lemma values_hold_used:
  assumes "values_hold a vs"
  shows "take (a_used a) (a_data a) = map (\<lambda>i. Some (value_cell i (vs ! i))) [0..<length vs]"
  using assms by (auto simp: values_hold_def arr_holds_def)

lemma handle_connection_done:
  assumes c: "con_ok (hp_con hp) es" and max: "length es < SSIZE_MAX" and v: "NUL \<notin> set v" "length v < SSIZE_MAX"
    and k: "lkey k \<noteq> lkey ''Host''" "lkey k \<noteq> lkey ''If-Modified-Since''"
  shows "field_done hp es (handle_connection hp (dstring k v) v)"
proof -
  obtain vs where vs: "values_hold (rq_split_vals (hp_con hp)) vs" using c by (auto simp: con_ok_def)
  obtain a' where a': "http_request_split_value (array_reset (rq_split_vals (hp_con hp))) (Some v) = Some a'"
      "values_hold a' (header_values v)"
    using http_request_split_value_ok [OF vs v] by blast
  obtain keep where keep: "connection_vals (take (a_used a') (a_data a')) (hp_keep hp) = Some keep"
    using connection_vals_ok [of "take (a_used a') (a_data a')"] unfolding values_hold_used [OF a'(2)]
    by (auto simp: value_cell_def)
  let ?con = "hp_con hp\<lparr>rq_split_vals := a'\<rparr>"
  have "con_ok ?con es" using c a'(2) by (auto simp: con_ok_def)
  then have "field_done (hp\<lparr>hp_keep := keep, hp_len_set := hp_len_set hp, hp_con := ?con\<rparr>) es
      (keep_ds (hp\<lparr>hp_keep := keep, hp_len_set := hp_len_set hp, hp_con := ?con\<rparr>) (dstring k v) (\<lambda>_ con. con))"
    using max v k by (intro keep_ds_other) (auto simp: ref_fields_kept_def)
  then have "field_done hp es (keep_ds (hp\<lparr>hp_keep := keep, hp_len_set := hp_len_set hp, hp_con := ?con\<rparr>) (dstring k v) (\<lambda>_ con. con))"
    by (rule field_done_change) (simp_all add: same_line_def)
  then show ?thesis using a'(1) keep by (simp add: handle_connection_def)
qed

lemma handle_content_length_done:
  assumes c: "con_ok (hp_con hp) es" and max: "length es < SSIZE_MAX" and v: "NUL \<notin> set v"
    and k: "lkey k \<noteq> lkey ''Host''" "lkey k \<noteq> lkey ''If-Modified-Since''"
  shows "field_done hp es (handle_content_length hp (dstring k v) v)"
proof -
  obtain r err where r: "strtoul10 (cstr v) = (r, err)" by fastforce
  have "field_done (hp\<lparr>hp_keep := hp_keep hp, hp_len_set := True, hp_con := hp_con hp\<rparr>) es
      (keep_ds (hp\<lparr>hp_keep := hp_keep hp, hp_len_set := True, hp_con := hp_con hp\<rparr>) (dstring k v)
        (\<lambda>_ con. con\<lparr>rq_content_length := r\<rparr>))"
    using c max v k by (intro keep_ds_other) (auto simp: ref_fields_kept_def same_line_def)
  then have "field_done hp es (keep_ds (hp\<lparr>hp_keep := hp_keep hp, hp_len_set := True, hp_con := hp_con hp\<rparr>) (dstring k v)
        (\<lambda>_ con. con\<lparr>rq_content_length := r\<rparr>))"
    by (rule field_done_change) simp_all
  then show ?thesis using refuse_ds_done [OF c max, of 400 k v] r by (simp add: handle_content_length_def)
qed

lemma buffer_align_size_ge: "sz \<le> buffer_align_size sz"
  by (simp add: buffer_align_size_def Let_def)

lemma handle_if_modified_since_done:
  assumes c: "con_ok (hp_con hp) es" and max: "length es < SSIZE_MAX" and v: "NUL \<notin> set v"
    and k: "lkey k = lkey ''If-Modified-Since''"
  shows "field_done hp es (handle_if_modified_since hp (dstring k v) v)"
proof (cases "rq_http_if_modified_since (hp_con hp)")
  case None
  from con_ok_insert_since [OF c max v k None] obtain a' where
    a': "insert_header (rq_headers (hp_con hp)) (dstring k v) = Some (a', Some (length es))"
      "con_ok (hp_con hp\<lparr>rq_headers := a', rq_http_if_modified_since := Some (Text_At (length es) v 0)\<rparr>) (es @ [dstring k v])" .
  let ?con = "hp_con hp\<lparr>rq_headers := a', rq_http_if_modified_since := Some (Text_At (length es) v 0)\<rparr>"
  have "handle_if_modified_since hp (dstring k v) v =
      Some (Go_On (hp\<lparr>hp_keep := hp_keep hp, hp_len_set := hp_len_set hp, hp_con := ?con\<rparr>))"
    using None a'(1) by (simp add: handle_if_modified_since_def keep_ds_def text_ref_of_def)
  moreover have "same_line (hp_con hp) ?con" "rq_http_host ?con = rq_http_host (hp_con hp)" by (simp_all add: same_line_def)
  ultimately show ?thesis using a'(2) by (intro field_doneI [where keep = "hp_keep hp" and len = "hp_len_set hp" and con' = ?con and es' = "es @ [dstring k v]"]) simp_all
next
  case (Some r)
  then obtain n k' w where w: "r = Text_At n w 0" "n < length es" "es ! n = dstring k' w"
    using c by (auto simp: con_ok_def since_ref_ok_def)
  have "deref_text (rq_headers (hp_con hp)) r = Some w"
    using fields_hold_cell [of "rq_headers (hp_con hp)" es n] c w
    by (simp add: deref_text_def con_ok_def Suc_le_lessD [OF buffer_align_size_ge])
  then show ?thesis
    using field_done_same [OF c] refuse_ds_done [OF c max, of 400 k v] Some by (simp add: handle_if_modified_since_def)
qed

lemma handle_host_done:
  assumes c: "con_ok (hp_con hp) es" and max: "length es < SSIZE_MAX" and v: "NUL \<notin> set v"
    and k: "lkey k = lkey ''Host''"
  shows "field_done hp es (handle_host hp (dstring k v))"
proof (cases "hp_reqline_host hp \<or> rq_http_host (hp_con hp) \<noteq> None")
  case True
  then show ?thesis
    using field_done_same [OF c] refuse_ds_done [OF c max, of 400 k v] by (auto simp: handle_host_def)
next
  case False
  then have none: "rq_http_host (hp_con hp) = None" by simp
  from con_ok_insert_host [OF c max v k none] obtain a' where
    a': "insert_header (rq_headers (hp_con hp)) (dstring k v) = Some (a', Some (length es))"
      "con_ok (hp_con hp\<lparr>rq_headers := a', rq_http_host := Some (Buf_At (length es))\<rparr>) (es @ [dstring k v])" .
  let ?con = "hp_con hp\<lparr>rq_headers := a', rq_http_host := Some (Buf_At (length es))\<rparr>"
  have "handle_host hp (dstring k v) =
      Some (Go_On (hp\<lparr>hp_keep := hp_keep hp, hp_len_set := hp_len_set hp, hp_con := ?con\<rparr>))"
    using False a'(1) by (simp add: handle_host_def keep_ds_def buf_ref_of_def)
  moreover have "same_line (hp_con hp) ?con" by (simp add: same_line_def)
  ultimately show ?thesis using a'(2) by (intro field_doneI [where keep = "hp_keep hp" and len = "hp_len_set hp" and con' = ?con and es' = "es @ [dstring k v]"]) simp_all
qed

lemma process_header_done:
  assumes c: "con_ok (hp_con hp) es" and max: "length es < SSIZE_MAX" and v: "NUL \<notin> set v" "length v < SSIZE_MAX"
  shows "field_done hp es (process_header opts hp k v)"
proof -
  from header_element_ok [of "rq_headers (hp_con hp)" es k v] c obtain a' where
    a': "header_element (rq_headers (hp_con hp)) k v = (a', dstring k v)" "fields_hold a' es"
    by (auto simp: con_ok_def)
  define hp1 where "hp1 = hp\<lparr>hp_con := hp_con hp\<lparr>rq_headers := a'\<rparr>\<rparr>"
  have c1: "con_ok (hp_con hp1) es" using c a'(2) by (simp add: con_ok_def hp1_def)
  note other = keep_ds_other [OF c1 max v(1)] and refused = refuse_ds_done [OF c1 max, of _ k v]
  have eq: "process_header opts hp k v =
      (case classify_header k of
           H_Connection \<Rightarrow> handle_connection hp1 (dstring k v) v
         | H_Content_Length \<Rightarrow> handle_content_length hp1 (dstring k v) v
         | H_Content_Type \<Rightarrow> handle_content_type hp1 (dstring k v) v
         | H_Expect \<Rightarrow> handle_expect opts hp1 (dstring k v) v
         | H_Host \<Rightarrow> handle_host hp1 (dstring k v)
         | H_If_Modified_Since \<Rightarrow> handle_if_modified_since hp1 (dstring k v) v
         | H_If_None_Match \<Rightarrow> handle_if_none_match hp1 (dstring k v) v
         | H_Range \<Rightarrow> handle_range hp1 (dstring k v) v
         | H_Other \<Rightarrow> keep_ds hp1 (dstring k v) (\<lambda>_ con. con))"
    unfolding process_header_def a' Let_def prod.case hp1_def ..
  have "field_done hp1 es (process_header opts hp k v)"
  proof (cases "classify_header k = H_Host \<or> classify_header k = H_If_Modified_Since")
    case True
    then show ?thesis
      using handle_host_done [OF c1 max v(1), of k] handle_if_modified_since_done [OF c1 max v(1), of k]
      unfolding eq classify_host_since [symmetric] by auto
  next
    case False
    then have k: "lkey k \<noteq> lkey ''Host''" "lkey k \<noteq> lkey ''If-Modified-Since''" by (simp_all add: classify_host_since)
    note kept = other [OF k]
    show ?thesis
    proof (cases "classify_header k")
      case H_Connection
      then show ?thesis using handle_connection_done [OF c1 max v k] by (simp add: eq)
    next
      case H_Content_Length
      then show ?thesis using handle_content_length_done [OF c1 max v(1) k] by (simp add: eq)
    next
      case H_Content_Type
      then show ?thesis using refused [of 400]
        by (auto simp: eq handle_content_type_def ref_fields_kept_def same_line_def intro!: kept)
    next
      case H_Expect
      then show ?thesis using refused [of 417]
        by (auto simp: eq handle_expect_def ref_fields_kept_def intro!: kept)
    next
      case H_If_None_Match
      then show ?thesis using field_done_same [OF c1]
        by (auto simp: eq handle_if_none_match_def ref_fields_kept_def same_line_def intro!: kept)
    next
      case H_Range
      then show ?thesis using refused [of 400]
        by (auto simp: eq handle_range_def ref_fields_kept_def same_line_def intro!: kept)
    next
      case H_Other
      then show ?thesis by (auto simp: eq ref_fields_kept_def intro!: kept)
    qed (use False in auto)
  qed
  then have "field_done (hp\<lparr>hp_keep := hp_keep hp, hp_len_set := hp_len_set hp, hp_con := hp_con hp\<lparr>rq_headers := a'\<rparr>\<rparr>) es
      (process_header opts hp k v)"
    by (simp add: hp1_def)
  then show ?thesis by (rule field_done_change) (simp_all add: same_line_def)
qed

section \<open>One byte\<close>

text \<open>
  \<open>s\<close> is the request text. A line that starts with a blank would fold a field; the invariant is that of a
  request without such lines.
\<close>

definition unfolded :: "string \<Rightarrow> bool" where
  "unfolded s \<longleftrightarrow> (\<forall>i. i + 2 < length s \<and> s ! i = CR \<and> s ! (i + 1) = LF \<longrightarrow> \<not> blank (s ! (i + 2)))"

definition untouched :: "string \<Rightarrow> nat \<Rightarrow> string \<Rightarrow> bool" where
  "untouched s first m \<longleftrightarrow> (\<forall>k. first \<le> k \<and> k \<le> length s \<longrightarrow> m ! k = (s @ [NUL]) ! k)"

definition no_zero :: "string \<Rightarrow> nat \<Rightarrow> nat \<Rightarrow> bool" where
  "no_zero s v i \<longleftrightarrow> (\<forall>k. v \<le> k \<and> k < i \<longrightarrow> (s @ [NUL]) ! k \<noteq> NUL)"

lemma no_zero_empty [simp]: "no_zero s i i"
  by (auto simp: no_zero_def)

lemma no_zero_Suc: "no_zero s v i \<Longrightarrow> (s @ [NUL]) ! i \<noteq> NUL \<Longrightarrow> no_zero s v (Suc i)"
  by (auto simp: no_zero_def less_Suc_eq)

definition loop_ok :: "req \<Rightarrow> string \<Rightarrow> hparse \<Rightarrow> data_unset list \<Rightarrow> bool" where
  "loop_ok con0 s hp es \<longleftrightarrow>
     length (hp_m hp) = Suc (length s) \<and> 2 \<le> hp_first hp \<and> hp_first hp \<le> hp_i hp \<and> hp_i hp \<le> length s \<and>
     untouched s (hp_first hp) (hp_m hp) \<and>
     s ! (hp_first hp - 2) = CR \<and> s ! (hp_first hp - 1) = LF \<and>
     \<not> hp_done hp \<and> \<not> hp_in_folding hp \<and> con_ok (hp_con hp) es \<and> length es < hp_first hp \<and> same_line con0 (hp_con hp) \<and>
     (hp_reqline_host hp \<longrightarrow> rq_http_host (hp_con hp) \<noteq> None) \<and>
     (\<not> hp_is_key hp \<longrightarrow> (\<exists>v. hp_value hp = Some v \<and> hp_first hp \<le> v \<and> v \<le> hp_i hp \<and>
        no_zero s v (hp_i hp)))"

lemma loop_ok_nth:
  "loop_ok con0 s hp es \<Longrightarrow> hp_first hp \<le> k \<Longrightarrow> k \<le> length s \<Longrightarrow> hp_m hp ! k = (s @ [NUL]) ! k"
  by (simp add: loop_ok_def untouched_def)

lemma skip_to_colon_ok:
  assumes "i \<le> n" and "length m = Suc n" and "m ! n = NUL"
  shows "\<exists>r. skip_to_colon m i = Some r \<and> (\<forall>j. r = Some j \<longrightarrow> i \<le> j \<and> j < n)"
  using assms
proof (induction "n - i" arbitrary: i rule: less_induct)
  case less
  note unfold = skip_to_colon.simps [of m i]
  have "i = n \<Longrightarrow> \<not> blank (m ! i)" using less.prems by (simp add: blank_def NUL_def)
  show ?case
  proof (cases "blank (m ! i)")
    case True
    then have "i < n" using less.prems by (cases "i = n") (auto simp: blank_def NUL_def)
    then obtain r where "skip_to_colon m (i + 1) = Some r" "\<forall>j. r = Some j \<longrightarrow> i + 1 \<le> j \<and> j < n"
      using less.hyps [of "i + 1"] less.prems \<open>i < n\<close> by (metis diff_less_mono2 less_add_one Suc_eq_plus1 Suc_leI)
    then show ?thesis using less.prems True by (subst unfold) (auto simp: blank_def)
  next
    case False
    then show ?thesis using less.prems by (subst unfold) (auto simp: blank_def NUL_def le_less)
  qed
qed

text \<open>The result of a step: refused, the end of the header lines, or the invariant after moving on.\<close>

definition step_done :: "req \<Rightarrow> string \<Rightarrow> hparse \<Rightarrow> hresult option \<Rightarrow> bool" where
  "step_done con0 s hp r \<longleftrightarrow>
     (\<exists>con'. r = Some (Refused con') \<and> rq_http_status con' \<in> {400, 417}) \<or>
     (\<exists>hp' es'. r = Some (Go_On hp') \<and> hp_i hp \<le> hp_i hp' \<and> hp_i hp' < length s \<and>
        (if hp_done hp' then con_ok (hp_con hp') es' \<and> length es' < SSIZE_MAX \<and> same_line con0 (hp_con hp')
         else loop_ok con0 s (hp'\<lparr>hp_i := hp_i hp' + 1\<rparr>) es'))"

lemma step_done_refused [simp]: "step_done con0 s hp (Some (Refused (refuse_both 400 con)))"
  "step_done con0 s hp (Some (Refused (refuse 400 con)))"
  by (simp_all add: step_done_def)

lemma key_step_done:
  assumes l: "loop_ok con0 s hp es" and k: "hp_is_key hp" and u: "unfolded s" and max: "length s < SSIZE_MAX"
  shows "step_done con0 s hp (key_step opts hp)"
proof -
  define m i c where "m = hp_m hp" and "i = hp_i hp" and "c = m ! i"
  note a = l [unfolded loop_ok_def, folded m_def i_def]
  have nth: "m ! j = (s @ [NUL]) ! j" if "hp_first hp \<le> j" "j \<le> length s" for j
    using loop_ok_nth [OF l that] by (simp add: m_def)
  have end_nul: "m ! length s = NUL" using nth [of "length s"] a by simp
  have i: "i < length s" if "c \<noteq> NUL" using that a end_nul by (cases "i = length s") (auto simp: c_def)
  note unfold = key_step_def [of opts hp, unfolded Let_def, folded m_def i_def, folded c_def]
  consider (colon) "c = CHR '':''" | (sep) "key_separator c" | (ws) "blank c" | (cr) "c = CR"
    | (bad) "c \<noteq> CHR '':''" "\<not> key_separator c" "\<not> blank c" "c \<noteq> CR" "if ro_header_strict opts then byte c < 32 \<or> byte c \<ge> 127 else c = NUL"
    | (good) "c \<noteq> CHR '':''" "\<not> key_separator c" "\<not> blank c" "c \<noteq> CR" "\<not> (if ro_header_strict opts then byte c < 32 \<or> byte c \<ge> 127 else c = NUL)"
    by blast
  then show ?thesis
  proof cases
    case colon
    then have lt: "i < length s" using i by (simp add: NUL_def)
    define hp' where "hp' = hp\<lparr>hp_is_key := False, hp_value := Some (i + 1),
             hp_key_len := (if \<not> hp_ws_after_key hp then i - hp_first hp else hp_key_len hp), hp_ws_after_key := False\<rparr>"
    have "loop_ok con0 s (hp'\<lparr>hp_i := hp_i hp' + 1\<rparr>) es"
      using a lt by (simp add: loop_ok_def hp'_def i_def m_def)
    moreover have "hp_i hp' = i" "\<not> hp_done hp'" using a by (simp_all add: hp'_def i_def)
    moreover have "key_step opts hp = Some (Go_On hp')" using colon by (simp add: unfold hp'_def)
    ultimately show ?thesis using lt unfolding step_done_def by (auto simp: i_def)
  next
    case sep
    then show ?thesis by (auto simp: unfold key_separator_def)
  next
    case ws
    then have lt: "i < length s" using i by (auto simp: NUL_def blank_def)
    have ne: "i \<noteq> hp_first hp"
    proof
      assume "i = hp_first hp"
      then have "blank (s ! i)" "s ! (i - 2) = CR" "s ! (i - 2 + 1) = LF" "i - 2 + 2 = i"
        using ws a lt nth [of i] by (auto simp: c_def nth_append numeral_2_eq_2 Suc_diff_Suc)
      then show False using u lt unfolding unfolded_def by (metis Suc_eq_plus1 add_2_eq_Suc')
    qed
    obtain r where r: "skip_to_colon m (i + 1) = Some r" "\<forall>j. r = Some j \<longrightarrow> i + 1 \<le> j \<and> j < length s"
      using skip_to_colon_ok [of "i + 1" "length s" m] lt a end_nul by auto
    show ?thesis
    proof (cases r)
      case None
      then show ?thesis using ws r ne by (auto simp: unfold key_separator_def blank_def)
    next
      case (Some j)
      define hp' where "hp' = hp\<lparr>hp_key_len := i - hp_first hp, hp_i := j - 1, hp_ws_after_key := True\<rparr>"
      have j: "i + 1 \<le> j" "j < length s" using r(2) Some by auto
      have "loop_ok con0 s (hp'\<lparr>hp_i := hp_i hp' + 1\<rparr>) es"
        using a j k by (simp add: loop_ok_def hp'_def i_def m_def)
      moreover have "key_step opts hp = Some (Go_On hp')"
        using ws r Some ne by (auto simp: unfold hp'_def key_separator_def blank_def)
      moreover have "hp_i hp \<le> hp_i hp'" "hp_i hp' < length s" "\<not> hp_done hp'" using j a by (simp_all add: hp'_def i_def)
      ultimately show ?thesis unfolding step_done_def by auto
    qed
  next
    case cr
    then have lt: "i < length s" using i by (simp add: NUL_def)
    show ?thesis
    proof (cases "m ! (i + 1) = LF \<and> i = hp_first hp")
      case True
      define hp' where "hp' = hp\<lparr>hp_m := m[i := NUL, i + 1 := NUL], hp_i := i + 1, hp_done := True\<rparr>"
      have "i + 1 < length s" using lt True end_nul by (cases "i + 1 = length s") (auto simp: NUL_def)
      moreover have "key_step opts hp = Some (Go_On hp')"
      proof -
        have "m ! Suc i = LF" "hp_first hp = i" "Suc i < length m" using True lt a by auto
        then show ?thesis using cr by (simp add: unfold hp'_def key_separator_def)
      qed
      moreover have "hp_done hp'" "hp_i hp' = i + 1" "con_ok (hp_con hp') es" "same_line con0 (hp_con hp')" "length es < SSIZE_MAX"
        using a max lt by (simp_all add: hp'_def)
      ultimately show ?thesis unfolding step_done_def by (auto simp: i_def)
    next
      case False
      then show ?thesis using cr lt a by (auto simp: unfold key_separator_def)
    qed
  next
    case bad
    then show ?thesis by (simp add: unfold blank_def)
  next
    case good
    then have "c \<noteq> NUL" by (auto split: if_splits)
    then have lt: "i < length s" by (rule i)
    have "key_step opts hp = Some (Go_On hp)" using good by (simp add: unfold blank_def)
    moreover have "loop_ok con0 s (hp\<lparr>hp_i := hp_i hp + 1\<rparr>) es" using a lt k by (simp add: loop_ok_def i_def m_def)
    ultimately show ?thesis using lt a unfolding step_done_def by (auto simp: i_def)
  qed
qed

lemma header_line_done:
  assumes l: "loop_ok con0 s hp es" and k: "\<not> hp_is_key hp" and max: "length s < SSIZE_MAX"
  obtains v t m' where "header_line opts (hp\<lparr>hp_m := (hp_m hp)[hp_i hp := NUL, hp_i hp + 1 := NUL]\<rparr>) =
      (if t = [] then Some (Go_On (hp\<lparr>hp_key := Some (hp_first hp), hp_m := m'\<rparr>))
       else process_header opts (hp\<lparr>hp_key := Some (hp_first hp), hp_m := m'\<rparr>) v t)"
    "length m' = length (hp_m hp)" "untouched s (hp_i hp + 2) m'" "NUL \<notin> set t" "length t < SSIZE_MAX"
proof -
  define i where "i = hp_i hp"
  note a = l [unfolded loop_ok_def, folded i_def]
  obtain v where v: "hp_value hp = Some v" "hp_first hp \<le> v" "v \<le> i" "no_zero s v i" using a k by auto
  define m1 where "m1 = (hp_m hp)[i := NUL, i + 1 := NUL]"
  define t where "t = strip_ws (take (i - v) (drop v m1))"
  define m' where "m' = m1[v + length t := NUL]"
  have len: "length m1 = Suc (length s)" using a by (simp add: m1_def)
  have sub: "set t \<subseteq> set (take (i - v) (drop v m1))" "length t \<le> i - v"
  proof -
    have "set t \<subseteq> set (rev (take (i - v) (drop v m1)))" by (auto simp: t_def strip_ws_def dest: set_dropWhileD)
    then show "set t \<subseteq> set (take (i - v) (drop v m1))" by simp
    have "length t \<le> length (take (i - v) (drop v m1))"
      unfolding t_def strip_ws_def using length_dropWhile_le by (metis length_rev)
    then show "length t \<le> i - v" by simp
  qed
  have "c \<noteq> NUL" if "c \<in> set (take (i - v) (drop v m1))" for c
  proof -
    from that obtain j where "j < length (take (i - v) (drop v m1))" "take (i - v) (drop v m1) ! j = c"
      unfolding in_set_conv_nth by blast
    then have "j < i - v" "c = m1 ! (v + j)" using len by auto
    then have "c = (s @ [NUL]) ! (v + j)" "v \<le> v + j" "v + j < i"
      using loop_ok_nth [OF l, of "v + j"] v a by (auto simp: m1_def i_def)
    then show ?thesis using v(4) by (auto simp: no_zero_def)
  qed
  then have nz: "NUL \<notin> set t" using sub by blast
  have "untouched s (i + 2) m'"
    using a v sub(2) by (auto simp: untouched_def m'_def m1_def)
  moreover have "length m' = length (hp_m hp)" "length t < SSIZE_MAX" using len a sub(2) max by (auto simp: m'_def)
  moreover have "header_line opts (hp\<lparr>hp_m := m1\<rparr>) =
      (if t = [] then Some (Go_On (hp\<lparr>hp_key := Some (hp_first hp), hp_m := m'\<rparr>))
       else process_header opts (hp\<lparr>hp_key := Some (hp_first hp), hp_m := m'\<rparr>)
         (take (hp_key_len hp) (drop (hp_first hp) m')) t)"
    using v(1) by (simp add: header_line_def t_def m'_def i_def Let_def)
  ultimately show thesis using that nz unfolding m1_def i_def by blast
qed

lemma value_step_done:
  assumes l: "loop_ok con0 s hp es" and k: "\<not> hp_is_key hp" and max: "length s < SSIZE_MAX"
  shows "step_done con0 s hp (value_step opts hp)"
proof -
  define m i c where "m = hp_m hp" and "i = hp_i hp" and "c = m ! i"
  note a = l [unfolded loop_ok_def, folded m_def i_def]
  have end_nul: "m ! length s = NUL" using loop_ok_nth [OF l, of "length s"] a by (simp add: m_def)
  have i: "i < length s" if "c \<noteq> NUL" using that a end_nul by (cases "i = length s") (auto simp: c_def)
  have ci: "c = (s @ [NUL]) ! i" using loop_ok_nth [OF l, of i] a by (simp add: c_def m_def)
  obtain v where v: "hp_value hp = Some v" "hp_first hp \<le> v" "v \<le> i" "no_zero s v i" using a k by auto
  note unfold = value_step_def [of opts hp, unfolded Let_def, folded m_def i_def, folded c_def]
  consider (cr) "c = CR" | (ws) "blank c"
    | (bad) "\<not> blank c" "c \<noteq> CR" "if ro_header_strict opts then byte c < 32 else c = NUL"
    | (good) "\<not> blank c" "c \<noteq> CR" "\<not> (if ro_header_strict opts then byte c < 32 else c = NUL)"
    by blast
  then show ?thesis
  proof cases
    case cr
    then have lt: "i < length s" using i by (simp add: NUL_def)
    show ?thesis
    proof (cases "m ! (i + 1) = LF")
      case False
      then show ?thesis using cr lt a by (simp add: unfold)
    next
      case True
      then have lt2: "i + 1 < length s" using lt end_nul by (cases "i + 1 = length s") (auto simp: NUL_def)
      have line: "s ! i = CR" "s ! (i + 1) = LF"
        using ci cr lt lt2 loop_ok_nth [OF l, of "i + 1"] a True by (auto simp: nth_append m_def)
      have eq: "value_step opts hp =
          (case header_line opts (hp\<lparr>hp_m := m[i := NUL, i + 1 := NUL]\<rparr>) of None \<Rightarrow> None
           | Some (Refused con) \<Rightarrow> Some (Refused con)
           | Some (Go_On hp) \<Rightarrow> Some (Go_On (hp\<lparr>hp_i := i + 1, hp_first := i + 2, hp_is_key := True, hp_value := None,
                   hp_in_folding := False\<rparr>)))"
        using cr True lt a by (simp add: unfold split: option.splits hresult.splits)
      from header_line_done [OF l k max] obtain key t m' where
        h: "header_line opts (hp\<lparr>hp_m := m[i := NUL, i + 1 := NUL]\<rparr>) =
          (if t = [] then Some (Go_On (hp\<lparr>hp_key := Some (hp_first hp), hp_m := m'\<rparr>))
           else process_header opts (hp\<lparr>hp_key := Some (hp_first hp), hp_m := m'\<rparr>) key t)"
        and m': "length m' = length m" "untouched s (i + 2) m'" and t: "NUL \<notin> set t" "length t < SSIZE_MAX"
        unfolding m_def i_def by metis
      define hp1 where "hp1 = hp\<lparr>hp_key := Some (hp_first hp), hp_m := m'\<rparr>"
      have c1: "con_ok (hp_con hp1) es" "length es < SSIZE_MAX" using a max by (simp_all add: hp1_def)
      have "field_done hp1 es (header_line opts (hp\<lparr>hp_m := m[i := NUL, i + 1 := NUL]\<rparr>))"
        unfolding h hp1_def [symmetric] using field_done_same [OF c1(1)] process_header_done [OF c1 t] by simp
      then show ?thesis
      proof (cases rule: field_doneE)
        case (refused con')
        then show ?thesis by (simp add: eq step_done_def)
      next
        case (kept con' keep len es')
        define hp' where "hp' = hp1\<lparr>hp_keep := keep, hp_len_set := len, hp_con := con', hp_i := i + 1, hp_first := i + 2,
          hp_is_key := True, hp_value := None, hp_in_folding := False\<rparr>"
        have "same_line con0 con'" using kept(4) a same_line_trans by (auto simp: hp1_def)
        then have "loop_ok con0 s (hp'\<lparr>hp_i := hp_i hp' + 1\<rparr>) es'"
          using kept a m' lt2 line by (simp add: loop_ok_def hp'_def hp1_def m_def)
        moreover have "value_step opts hp = Some (Go_On hp')" using kept(1) by (simp add: eq hp'_def)
        moreover have "\<not> hp_done hp'" "hp_i hp' = i + 1" using a by (simp_all add: hp'_def hp1_def)
        ultimately show ?thesis using lt2 unfolding step_done_def by (auto simp: i_def)
      qed
    qed
  next
    case ws
    then have lt: "i < length s" using i by (auto simp: NUL_def blank_def)
    define hp' where "hp' = (if hp_value hp = Some i then hp\<lparr>hp_value := Some (i + 1)\<rparr> else hp)"
    have "c \<noteq> NUL" using ws by (auto simp: blank_def NUL_def)
    then have "loop_ok con0 s (hp'\<lparr>hp_i := hp_i hp' + 1\<rparr>) es"
      using a lt v no_zero_Suc [of s v i] ci by (auto simp: loop_ok_def hp'_def i_def m_def)
    moreover have "value_step opts hp = Some (Go_On hp')" using ws by (auto simp: unfold hp'_def blank_def)
    moreover have "\<not> hp_done hp'" "hp_i hp' = i" using a by (simp_all add: hp'_def i_def)
    ultimately show ?thesis using lt unfolding step_done_def by (auto simp: i_def)
  next
    case bad
    then show ?thesis by (simp add: unfold blank_def)
  next
    case good
    then have c: "c \<noteq> NUL" by (auto split: if_splits)
    then have lt: "i < length s" using i by simp
    have "value_step opts hp = Some (Go_On hp)" using good by (simp add: unfold blank_def)
    moreover have "loop_ok con0 s (hp\<lparr>hp_i := hp_i hp + 1\<rparr>) es"
      using a lt v no_zero_Suc [of s v i] ci c by (auto simp: loop_ok_def i_def m_def)
    ultimately show ?thesis using lt a unfolding step_done_def by (auto simp: i_def)
  qed
qed

section \<open>The loop\<close>

lemma header_step_done:
  assumes "loop_ok con0 s hp es" and "unfolded s" and "length s < SSIZE_MAX"
  shows "step_done con0 s hp (header_step opts hp)"
  using key_step_done [OF assms(1) _ assms(2,3), of opts] value_step_done [OF assms(1) _ assms(3), of opts] assms(1)
  by (simp add: header_step_def loop_ok_def)

text \<open>The bound on the number of iterations is never reached.\<close>

lemma header_loop_done:
  assumes "loop_ok con0 s hp es" and u: "unfolded s" and max: "length s < SSIZE_MAX" and "length s + 2 \<le> fuel + hp_i hp"
  shows "(\<exists>con'. header_loop opts (length s) fuel hp = Some (Refused con') \<and> rq_http_status con' \<in> {400, 417}) \<or>
    (\<exists>hp' es'. header_loop opts (length s) fuel hp = Some (Go_On hp') \<and> con_ok (hp_con hp') es' \<and>
       length es' < SSIZE_MAX \<and> same_line con0 (hp_con hp'))"
  using assms(1,4)
proof (induction fuel arbitrary: hp es)
  case 0
  then show ?case by (simp add: loop_ok_def)
next
  case (Suc fuel)
  have run: "hp_i hp \<le> length s \<and> \<not> hp_done hp" using Suc.prems(1) by (simp add: loop_ok_def)
  from header_step_done [OF Suc.prems(1) u max, of opts]
  consider (refused) con' where "header_step opts hp = Some (Refused con')" "rq_http_status con' \<in> {400, 417}"
    | (finished) hp' es' where "header_step opts hp = Some (Go_On hp')" "hp_done hp'" "con_ok (hp_con hp') es'"
      "length es' < SSIZE_MAX" "same_line con0 (hp_con hp')" "hp_i hp' < length s" "hp_i hp \<le> hp_i hp'"
    | (more) hp' es' where "header_step opts hp = Some (Go_On hp')" "loop_ok con0 s (hp'\<lparr>hp_i := hp_i hp' + 1\<rparr>) es'"
      "hp_i hp \<le> hp_i hp'"
    unfolding step_done_def by (auto split: if_splits)
  then show ?case
  proof cases
    case refused
    then show ?thesis using run by simp
  next
    case finished
    then have "header_loop opts (length s) fuel (hp'\<lparr>hp_i := hp_i hp' + 1\<rparr>) = Some (Go_On (hp'\<lparr>hp_i := hp_i hp' + 1\<rparr>))"
      using Suc.prems(2) run by (cases fuel) auto
    then show ?thesis using finished run by auto
  next
    case more
    then show ?thesis using Suc.IH [OF more(2)] Suc.prems(2) run by simp
  qed
qed

end
