(* ===== verification/Request.thy ===== *)
theory Request
  imports Request_Inv
begin

text \<open>
  Parsing an HTTP request (\<open>http_request_parse\<close> and \<open>http_request_header_finished\<close> in \<open>request.c\<close>):
  the request line, the header lines and the checks on the whole.
\<close>

section \<open>The checks behind the header lines\<close>

definition keep_alive_default :: "keep_alive_set \<Rightarrow> req \<Rightarrow> req" where
  "keep_alive_default keep con =
     (if rq_http_version con = HTTP_VERSION_1_1
      then con\<lparr>rq_keep_alive := keep \<noteq> HTTP_CONNECTION_CLOSE\<rparr>
      else con\<lparr>rq_keep_alive := keep = HTTP_CONNECTION_KEEPALIVE\<rparr>)"

text \<open>The value \<open>http_host\<close> points to: no pointer, or the element and its value.\<close>

definition host_value :: "req \<Rightarrow> (nat \<times> string option) option option" where
  "host_value con =
     (case rq_http_host con of
        None \<Rightarrow> Some None
      | Some Buf_Freed \<Rightarrow> None
      | Some (Buf_At n) \<Rightarrow> do {
          du \<leftarrow> cell_read (a_data (rq_headers con)) n;
          case du_payload du of DString v _ \<Rightarrow> Some (Some (n, v)) | _ \<Rightarrow> None
        })"

definition set_host_value :: "req \<Rightarrow> nat \<Rightarrow> string \<Rightarrow> req" where
  "set_host_value con n v =
     (let a = rq_headers con
      in con\<lparr>rq_headers := Arr
           ((a_data a)[n := map_option (\<lambda>du. Data_Unset (du_key du) (du_is_index_key du)
               (case du_payload du of DString _ r \<Rightarrow> DString (Some v) r | p \<Rightarrow> p)) (a_data a ! n)])
           (a_sorted a) (a_used a) (a_size a) (a_unique_ndx a)\<rparr>)"

text \<open>Checking and normalising the host in place; the flag is whether it is fine.\<close>

definition check_host :: "'a inet \<Rightarrow> req_opts \<Rightarrow> req \<Rightarrow> (req \<times> bool) option" where
  "check_host net opts con = do {
     host \<leftarrow> host_value con;
     case host of
       None \<Rightarrow> Some (con, True)
     | Some (n, None) \<Rightarrow> Some (con, True)
     | Some (n, Some host) \<Rightarrow>
         let (host, ok) = (if ro_host_strict opts then request_check_hostname host else (host, True))
         in if \<not> ok then Some (set_host_value con n host, False)
            else if ro_host_normalize opts
            then case http_request_host_normalize net host of
                None \<Rightarrow> Some (set_host_value con n host, False)
              | Some host \<Rightarrow> Some (set_host_value con n host, True)
            else Some (set_host_value con n host, True)
   }"

definition host_missing :: "req \<Rightarrow> bool option" where
  "host_missing con = map_option (\<lambda>h. case h of None \<Rightarrow> True | Some (_, v) \<Rightarrow> bstr v = []) (host_value con)"

text \<open>The method and the length of the body; the status to refuse with.\<close>

definition check_method :: "bool \<Rightarrow> req \<Rightarrow> nat option option" where
  "check_method len_set con =
     (case rq_http_method con of
        HTTP_METHOD_GET \<Rightarrow> Some (if len_set \<and> rq_content_length con \<noteq> 0 then Some 400 else None)
      | HTTP_METHOD_HEAD \<Rightarrow> Some (if len_set \<and> rq_content_length con \<noteq> 0 then Some 400 else None)
      | HTTP_METHOD_POST \<Rightarrow> Some (if \<not> len_set then Some 411 else None)
      | _ \<Rightarrow> map_option (\<lambda>du. if du \<noteq> None then Some 411 else None)
               (array_get_element (rq_headers con) ''Transfer-Encoding''))"

text \<open>The result is the request and the return value: 1 when a body follows.\<close>

definition finish_request :: "'a inet \<Rightarrow> req_opts \<Rightarrow> keep_alive_set \<Rightarrow> bool \<Rightarrow> req \<Rightarrow> (req \<times> nat) option" where
  "finish_request net opts keep len_set con = do {
     let con = keep_alive_default keep con;
     missing \<leftarrow> (if rq_http_version con = HTTP_VERSION_1_1 then host_missing con else Some False);
     if missing then Some (refuse_both 400 con, 0)
     else do {
       (con, ok) \<leftarrow> check_host net opts con;
       if \<not> ok then Some (refuse_both 400 con, 0)
       else do {
         bad \<leftarrow> check_method len_set con;
         case bad of
           Some status \<Rightarrow> Some (refuse status con, 0)
         | None \<Rightarrow>
             if len_set \<and> rq_content_length con > SSIZE_MAX then Some (refuse 413 con, 0)
             else Some (con, if len_set \<and> rq_content_length con \<noteq> 0 then 1 else 0)
       }
     }
   }"

section \<open>The whole request\<close>

definition hparse_init :: "string \<Rightarrow> nat \<Rightarrow> nat \<Rightarrow> (nat \<times> nat) option \<Rightarrow> req \<Rightarrow> hparse" where
  "hparse_init m i first host con =
     \<lparr>hp_m = m, hp_i = i, hp_first = first, hp_is_key = True, hp_key_len = 0, hp_ws_after_key = False,
      hp_in_folding = False, hp_value = None, hp_key = None, hp_done = False, hp_keep = HTTP_CONNECTION_UNSET,
      hp_len_set = False, hp_reqline_host = (host \<noteq> None), hp_con = con\<rparr>"

text \<open>The copy of the request: an empty line left over from the request before is dropped.\<close>

definition parse_buffer :: "nat \<Rightarrow> string \<Rightarrow> string" where
  "parse_buffer request_count request =
     (if request_count > 1 \<and> peek request 0 = CR \<and> peek request 1 = LF then drop 2 request else request)"

definition http_request_parse :: "'a inet \<Rightarrow> req_opts \<Rightarrow> nat \<Rightarrow> string \<Rightarrow> req \<Rightarrow> (req \<times> nat) option" where
  "http_request_parse net opts request_count request con = do {
     let s = parse_buffer request_count request;
     let ilen = length s;
     r \<leftarrow> request_line opts (s @ [NUL]) ilen 0 0 None None 0 con;
     case r of
       Line_Refused con \<Rightarrow> Some (con, 0)
     | Line_Done m i first con host \<Rightarrow>
         if rq_uri con = [] then Some (refuse_both 400 con, 0)
         else do {
           con \<leftarrow> reqline_host_header m host con;
           r \<leftarrow> header_loop opts ilen (ilen + 2) (hparse_init m i first host con);
           case r of
             Refused con \<Rightarrow> Some (con, 0)
           | Go_On hp \<Rightarrow>
               finish_request net opts (hp_keep hp) (hp_len_set hp) ((hp_con hp)\<lparr>rq_header_len := hp_i hp\<rparr>)
         }
   }"

definition http_request_header_finished :: "string \<Rightarrow> bool" where
  "http_request_header_finished request =
     (if length request < 4 then False
      else drop (length request - 4) request = CRLF @ CRLF \<or> has_substring (CRLF @ CRLF) (cstr request))"

section \<open>A run\<close>

definition req_init :: req where
  "req_init = \<lparr>rq_request_line = [], rq_uri = [], rq_orig_uri = [], rq_http_method = HTTP_METHOD_UNSET,
     rq_http_version = HTTP_VERSION_UNSET, rq_headers = array_init, rq_http_host = None, rq_http_range = None,
     rq_http_content_type = None, rq_http_if_modified_since = None, rq_http_if_none_match = None,
     rq_content_length = 0, rq_http_status = 0, rq_keep_alive = False, rq_resp_keep_alive = False,
     rq_header_len = 0, rq_split_vals = array_init\<rparr>"

section \<open>The end of the parser\<close>

lemma host_value_ok:
  assumes "con_ok con es"
  shows "(rq_http_host con = None \<and> host_value con = Some None) \<or>
    (\<exists>n k v. rq_http_host con = Some (Buf_At n) \<and> n < length es \<and> es ! n = dstring k v \<and> lkey k = lkey ''Host'' \<and>
       NUL \<notin> set v \<and> host_value con = Some (Some (n, Some v)))"
proof (cases "rq_http_host con")
  case (Some r)
  then obtain n where n: "r = Buf_At n" "n < length es" "ekey (es ! n) = lkey ''Host''"
    using assms by (cases r) (auto simp: con_ok_def host_ref_ok_def)
  have f: "fields_hold (rq_headers con) es" using assms by (simp add: con_ok_def)
  obtain k v where kv: "es ! n = dstring k v" using fields_hold_nth [OF f n(2)] by blast
  have "NUL \<notin> set v" using assms kv n(2) nth_mem [of n es] by (auto simp: con_ok_def)
  then show ?thesis using Some n kv fields_hold_cell [OF f n(2)] by (auto simp: host_value_def)
qed (simp add: host_value_def)

lemma set_host_value_ok:
  assumes c: "con_ok con es" and n: "n < length es" "es ! n = dstring k v" "lkey k = lkey ''Host''"
  shows "fields_hold (rq_headers (set_host_value con n w)) (es[n := dstring k w])"
    and "same_line con (set_host_value con n w)" and "rq_http_host (set_host_value con n w) = rq_http_host con"
    and "rq_content_length (set_host_value con n w) = rq_content_length con"
    and "rq_http_host con = Some (Buf_At n) \<Longrightarrow> host_value (set_host_value con n w) = Some (Some (n, Some w))"
proof -
  have f: "fields_hold (rq_headers con) es" using c by (simp add: con_ok_def)
  have cell: "a_data (rq_headers con) ! n = Some (dstring k v)" "n < length (a_data (rq_headers con))"
    using fields_hold_cell [OF f n(1)] n(2) by (auto simp: cell_read_def split: if_splits)
  show fh: "fields_hold (rq_headers (set_host_value con n w)) (es[n := dstring k w])"
    using fields_hold_set [OF f n(1,2), of w] cell by (simp add: set_host_value_def Let_def)
  show "same_line con (set_host_value con n w)" "rq_http_host (set_host_value con n w) = rq_http_host con"
    "rq_content_length (set_host_value con n w) = rq_content_length con"
    by (simp_all add: set_host_value_def same_line_def Let_def)
  show "rq_http_host con = Some (Buf_At n) \<Longrightarrow> host_value (set_host_value con n w) = Some (Some (n, Some w))"
    using cell by (simp add: host_value_def set_host_value_def Let_def cell_read_def)
qed

text \<open>What strict checking guarantees, before and after normalising.\<close>

definition checked_host :: "'a inet \<Rightarrow> req_opts \<Rightarrow> string \<Rightarrow> bool" where
  "checked_host net opts h \<longleftrightarrow>
     (ro_host_strict opts \<and> \<not> ro_host_normalize opts \<longrightarrow> host_shape h) \<and>
     (ro_host_strict opts \<and> inet_ok net \<longrightarrow> CHR ''/'' \<notin> set h)"

lemma check_host_ok:
  assumes c: "con_ok con es"
  obtains con' ok es' where "check_host net opts con = Some (con', ok)" "fields_hold (rq_headers con') es'"
    "same_line con con'" "rq_http_host con \<noteq> None \<Longrightarrow> \<exists>n h. host_value con' = Some (Some (n, Some h))"
    "\<And>n h. ok \<Longrightarrow> host_value con' = Some (Some (n, Some h)) \<Longrightarrow> checked_host net opts h"
proof -
  have f: "fields_hold (rq_headers con) es" using c by (simp add: con_ok_def)
  from host_value_ok [OF c] show thesis
  proof (elim disjE exE conjE)
    assume "rq_http_host con = None" "host_value con = Some None"
    then show thesis using f by (intro that [of con True es]) (simp_all add: check_host_def)
  next
    fix n k v
    assume h: "rq_http_host con = Some (Buf_At n)" "n < length es" "es ! n = dstring k v" "lkey k = lkey ''Host''"
      "NUL \<notin> set v" "host_value con = Some (Some (n, Some v))"
    note set = set_host_value_ok [OF c h(2-4)]
    obtain v1 ok1 where v1: "(if ro_host_strict opts then request_check_hostname v else (v, True)) = (v1, ok1)" by fastforce
    have shape: "host_shape v1 \<and> NUL \<notin> set v1" if "ro_host_strict opts" ok1
      using request_check_hostname_host_shape [OF h(5), of v1] request_check_hostname_chars [OF h(5), of v1] v1 that by simp
    have "\<exists>w ok. check_host net opts con = Some (set_host_value con n w, ok) \<and>
        (ok \<longrightarrow> ok1 \<and> (if ro_host_normalize opts then http_request_host_normalize net v1 = Some w else w = v1))"
      using h(6) v1
      by (cases ok1; cases "ro_host_normalize opts"; cases "http_request_host_normalize net v1") (auto simp: check_host_def)
    then obtain w ok where w: "check_host net opts con = Some (set_host_value con n w, ok)"
      "ok \<Longrightarrow> ok1 \<and> (if ro_host_normalize opts then http_request_host_normalize net v1 = Some w else w = v1)" by blast
    have checked: "checked_host net opts w" if ok
      using w(2) [OF that] shape host_shape_no_slash host_normalize_no_slash [of net v1 w]
      by (auto simp: checked_host_def split: if_splits)
    show thesis
    proof (rule that [OF w(1) set(1-2)])
      show "\<exists>n' h'. host_value (set_host_value con n w) = Some (Some (n', Some h'))" using h set(5) by simp
      fix n' h' assume "ok" "host_value (set_host_value con n w) = Some (Some (n', Some h'))"
      then show "checked_host net opts h'" using checked set(5) h by auto
    qed
  qed
qed

lemma check_method_ok:
  assumes "fields_hold (rq_headers con) es"
  shows "\<exists>bad. check_method len_set con = Some bad \<and> (bad = None \<or> bad = Some 400 \<or> bad = Some 411) \<and>
    (bad = None \<longrightarrow> rq_http_method con \<in> {HTTP_METHOD_GET, HTTP_METHOD_HEAD} \<longrightarrow> \<not> (len_set \<and> rq_content_length con \<noteq> 0))"
proof -
  obtain ixs where "arr_holds (rq_headers con) ixs es" using assms by (auto simp: fields_hold_def)
  from array_get_element_ok [OF this, of "''Transfer-Encoding''"]
  obtain d where d: "array_get_element (rq_headers con) ''Transfer-Encoding'' = Some d" by simp
  show ?thesis
  proof (cases "rq_http_method con \<in> {HTTP_METHOD_GET, HTTP_METHOD_HEAD, HTTP_METHOD_POST}")
    case True
    then show ?thesis by (auto simp: check_method_def)
  next
    case False
    then have "check_method len_set con = Some (if d \<noteq> None then Some 411 else None)"
      using d by (cases "rq_http_method con") (simp_all add: check_method_def)
    then show ?thesis using False by auto
  qed
qed

text \<open>What an accepted request looks like.\<close>

definition accepted :: "'a inet \<Rightarrow> req_opts \<Rightarrow> req \<Rightarrow> nat \<Rightarrow> bool" where
  "accepted net opts con body \<longleftrightarrow>
     rq_http_method con \<noteq> HTTP_METHOD_UNSET \<and> version_1 opts (rq_http_version con) \<and>
     rq_uri con \<noteq> [] \<and> uri_chars_ok opts (rq_uri con) \<and> rq_orig_uri con = rq_uri con \<and>
     arr_ok (rq_headers con) \<and>
     (rq_http_version con = HTTP_VERSION_1_1 \<longrightarrow> (\<exists>n h. host_value con = Some (Some (n, Some h)))) \<and>
     (\<forall>n h. host_value con = Some (Some (n, Some h)) \<longrightarrow> checked_host net opts h) \<and>
     (body = 1 \<longrightarrow> 0 < rq_content_length con \<and> rq_content_length con \<le> SSIZE_MAX \<and>
        rq_http_method con \<notin> {HTTP_METHOD_GET, HTTP_METHOD_HEAD})"

lemma finish_request_done:
  assumes c: "con_ok con es" and st: "rq_http_status con = 0" and line: "rq_http_method con \<noteq> HTTP_METHOD_UNSET"
    "version_1 opts (rq_http_version con)" "rq_uri con \<noteq> []" "uri_chars_ok opts (rq_uri con)" "rq_orig_uri con = rq_uri con"
  shows "\<exists>con' body. finish_request net opts keep len_set con = Some (con', body) \<and> body \<le> 1 \<and>
    (rq_http_status con' \<in> {400, 411, 413} \<and> body = 0 \<or> rq_http_status con' = 0 \<and> accepted net opts con' body)"
proof -
  define con1 where "con1 = keep_alive_default keep con"
  have k: "con_ok con1 es" "same_line con con1" "rq_http_host con1 = rq_http_host con"
    using c by (simp_all add: con1_def keep_alive_default_def con_ok_def same_line_def)
  have "\<exists>missing. (if rq_http_version con1 = HTTP_VERSION_1_1 then host_missing con1 else Some False) = Some missing \<and>
      (\<not> missing \<longrightarrow> rq_http_version con1 = HTTP_VERSION_1_1 \<longrightarrow> rq_http_host con1 \<noteq> None)"
    using host_value_ok [OF k(1)] by (auto simp: host_missing_def)
  then obtain missing where missing: "(if rq_http_version con1 = HTTP_VERSION_1_1 then host_missing con1 else Some False) = Some missing"
    "\<not> missing \<Longrightarrow> rq_http_version con1 = HTTP_VERSION_1_1 \<Longrightarrow> rq_http_host con1 \<noteq> None"
    by blast
  show ?thesis
  proof (cases missing)
    case True
    then show ?thesis using missing(1) by (simp add: finish_request_def Let_def flip: con1_def)
  next
    case False
    obtain con2 ok es2 where
      ch: "check_host net opts con1 = Some (con2, ok)" "fields_hold (rq_headers con2) es2" "same_line con1 con2"
      and hv: "rq_http_host con1 \<noteq> None \<Longrightarrow> \<exists>n h. host_value con2 = Some (Some (n, Some h))"
      and shape: "\<And>n h. ok \<Longrightarrow> host_value con2 = Some (Some (n, Some h)) \<Longrightarrow> checked_host net opts h"
      using check_host_ok [OF k(1), of net opts] by blast
    show ?thesis
    proof (cases ok)
      case False
      then show ?thesis using \<open>\<not> missing\<close> missing(1) ch(1) by (simp add: finish_request_def Let_def flip: con1_def)
    next
      case True
      obtain bad where bad: "check_method len_set con2 = Some bad" "bad = None \<or> bad = Some 400 \<or> bad = Some 411"
        "bad = None \<Longrightarrow> rq_http_method con2 \<in> {HTTP_METHOD_GET, HTTP_METHOD_HEAD} \<Longrightarrow> \<not> (len_set \<and> rq_content_length con2 \<noteq> 0)"
        using check_method_ok [OF ch(2), of len_set] by auto
      have eq: "finish_request net opts keep len_set con =
          (case bad of Some status \<Rightarrow> Some (refuse status con2, 0)
           | None \<Rightarrow> if len_set \<and> rq_content_length con2 > SSIZE_MAX then Some (refuse 413 con2, 0)
               else Some (con2, if len_set \<and> rq_content_length con2 \<noteq> 0 then 1 else 0))"
        using \<open>\<not> missing\<close> missing(1) ch(1) True bad(1) by (simp add: finish_request_def Let_def flip: con1_def)
      show ?thesis
      proof (cases bad)
        case (Some status)
        then show ?thesis using bad(2) by (auto simp: eq)
      next
        case None
        have same: "same_line con con2" using k(2) ch(3) same_line_trans by blast
        then have "rq_http_status con2 = 0" using st by (simp add: same_line_def)
        moreover have "accepted net opts con2 (if len_set \<and> rq_content_length con2 \<noteq> 0 then 1 else 0)"
          if "\<not> (len_set \<and> rq_content_length con2 > SSIZE_MAX)"
          using that line same missing(2) \<open>\<not> missing\<close> hv shape True k(2) bad(3) None fields_hold_list [OF ch(2)]
          by (auto simp: accepted_def same_line_def)
        ultimately show ?thesis using None by (auto simp: eq)
      qed
    qed
  qed
qed

section \<open>Guarantees\<close>

text \<open>A request as \<open>connection_reset\<close> leaves it; what else the record holds does not matter.\<close>

definition req_fresh :: "req \<Rightarrow> bool" where
  "req_fresh con \<longleftrightarrow> fields_hold (rq_headers con) [] \<and> (\<exists>vs. values_hold (rq_split_vals con) vs) \<and>
     rq_uri con = [] \<and> rq_http_host con = None \<and> rq_http_if_modified_since con = None"

lemma req_init_fresh: "req_fresh req_init"
  using values_hold_init by (auto simp: req_fresh_def req_init_def)

lemma reqline_host_header_ok:
  assumes "con_ok con []" and "host_text_ok m host"
  shows "\<exists>con' es. reqline_host_header m host con = Some con' \<and> con_ok con' es \<and> length es \<le> 1 \<and> same_line con con' \<and>
    (host \<noteq> None \<longrightarrow> rq_http_host con' \<noteq> None)"
proof (cases host)
  case None
  then show ?thesis using assms by (auto simp: reqline_host_header_def)
next
  case (Some x)
  then obtain off len where x: "host = Some (off, len)" by (cases x) simp
  then have v: "NUL \<notin> set (take len (drop off m))" using assms(2) by (simp add: host_text_ok_def)
  obtain a1 where a1: "header_element (rq_headers con) ''Host'' (take len (drop off m)) = (a1, dstring ''Host'' (take len (drop off m)))"
      "fields_hold a1 []"
    using header_element_ok [of "rq_headers con" "[]" "''Host''" "take len (drop off m)"] assms(1) by (auto simp: con_ok_def)
  have none: "elem_of [] (lkey ''Host'') = None" by (simp add: elem_of_def)
  obtain a2 where a2: "insert_header a1 (dstring ''Host'' (take len (drop off m))) = Some (a2, Some 0)"
      "fields_hold a2 [dstring ''Host'' (take len (drop off m))]"
    using insert_header_new [OF a1(2) _ none, of "take len (drop off m)"] by (auto simp: SSIZE_MAX_def)
  let ?con = "con\<lparr>rq_headers := a2, rq_http_host := Some (Buf_At 0)\<rparr>"
  have "reqline_host_header m host con = Some ?con"
    using x a1(1) a2(1) by (simp add: reqline_host_header_def buf_ref_of_def)
  moreover have "con_ok ?con [dstring ''Host'' (take len (drop off m))]"
    using assms(1) a2(2) v refs_ok_new(2) [of "rq_http_if_modified_since con" "[]" "''Host''"]
    by (auto simp: con_ok_def host_ref_ok_def)
  moreover have "same_line con ?con" by (simp add: same_line_def)
  ultimately show ?thesis by fastforce
qed

lemma http_request_parse_done:
  assumes fresh: "req_fresh con" and u: "unfolded (parse_buffer request_count request)"
    and max: "length (parse_buffer request_count request) < SSIZE_MAX"
  shows "\<exists>con' body. http_request_parse net opts request_count request con = Some (con', body) \<and> body \<le> 1 \<and>
    (rq_http_status con' \<in> {400, 411, 413, 417, 501, 505} \<and> body = 0 \<or> rq_http_status con' = 0 \<and> accepted net opts con' body)"
proof -
  define s m where "s = parse_buffer request_count request" and "m = s @ [NUL]"
  have c: "con_ok con []"
    using fresh by (auto simp: req_fresh_def con_ok_def host_ref_ok_def since_ref_ok_def elem_of_def)
  have "line_outcome opts m (length s) con (request_line opts m (length s) 0 0 None None 0 con)"
    by (rule request_line_outcome) (simp_all add: tokens_ok_def m_def NUL_def)
  then consider (parsed) m' i' con1 host where
      "request_line opts m (length s) 0 0 None None 0 con = Some (Line_Done m' i' i' con1 host)" "length m' = length m"
      "drop i' m' = drop i' m" "2 \<le> i'" "i' \<le> length s" "line_ok opts con con1" "host_text_ok m' host" "m ! (i' - 2) = CR" "m ! (i' - 1) = LF"
    | (open_line) first' where "request_line opts m (length s) 0 0 None None 0 con = Some (Line_Done m (length s) first' con None)"
    | (refused) con' where "request_line opts m (length s) 0 0 None None 0 con = Some (Line_Refused con')" "rq_http_status con' \<in> {400, 501, 505}"
    unfolding line_outcome_def by blast
  then show ?thesis
  proof cases
    case refused
    then show ?thesis by (auto simp: http_request_parse_def Let_def simp flip: s_def m_def)
  next
    case open_line
    then show ?thesis using fresh by (simp add: http_request_parse_def Let_def req_fresh_def flip: s_def m_def)
  next
    case parsed
    from parsed(6) obtain l r v u where con1: "r \<noteq> HTTP_METHOD_UNSET" "version_1 opts v" "uri_chars_ok opts u"
      "con1 = con\<lparr>rq_request_line := l, rq_http_method := r, rq_http_version := v, rq_uri := u, rq_orig_uri := u, rq_http_status := 0\<rparr>"
      by (auto simp: line_ok_def)
    show ?thesis
    proof (cases "u = []")
      case True
      then show ?thesis using parsed(1) con1(4) by (simp add: http_request_parse_def Let_def flip: s_def m_def)
    next
      case False
      have "con_ok con1 []" using c by (simp add: con1(4) con_ok_def)
      obtain con2 es where
        con2: "reqline_host_header m' host con1 = Some con2" "con_ok con2 es" "length es \<le> 1" "same_line con1 con2"
          "host \<noteq> None \<longrightarrow> rq_http_host con2 \<noteq> None"
        using reqline_host_header_ok [OF \<open>con_ok con1 []\<close> parsed(7)] by (elim exE conjE) (rule that)
      define hp where "hp = hparse_init m' i' i' host con2"
      have "untouched s i' m'"
      proof -
        have lm: "length m = Suc (length s)" by (simp add: m_def)
        have "m' ! k = m ! k" if k: "i' \<le> k" "k \<le> length s" for k
        proof -
          have "k < length m'" "k < length m" using k(2) lm parsed(2) by simp_all
          then have "drop i' m' ! (k - i') = m' ! k" "drop i' m ! (k - i') = m ! k" using k(1) by (simp_all only: nth_drop le_add_diff_inverse less_imp_le)
          then show ?thesis using parsed(3) by metis
        qed
        then show ?thesis by (auto simp: untouched_def m_def)
      qed
      then have "loop_ok con1 s hp es"
        using parsed con2 by (simp add: loop_ok_def hp_def hparse_init_def m_def nth_append split: if_splits)
      from header_loop_done [OF this _ _, of "length s + 2" opts] u max
      consider (refused) con' where "header_loop opts (length s) (length s + 2) hp = Some (Refused con')" "rq_http_status con' \<in> {400, 417}"
        | (ended) hp' es' where "header_loop opts (length s) (length s + 2) hp = Some (Go_On hp')" "con_ok (hp_con hp') es'"
          "same_line con1 (hp_con hp')"
        by (auto simp: s_def)
      then show ?thesis
      proof cases
        case refused
        then show ?thesis using parsed(1) con1(4) False con2(1)
          by (auto simp: http_request_parse_def Let_def hp_def simp flip: s_def m_def)
      next
        case ended
        define con3 where "con3 = (hp_con hp')\<lparr>rq_header_len := hp_i hp'\<rparr>"
        have "http_request_parse net opts request_count request con = finish_request net opts (hp_keep hp') (hp_len_set hp') con3"
          using ended(1) parsed(1) con1(4) False con2(1)
          by (simp add: http_request_parse_def Let_def hp_def con3_def flip: s_def m_def)
        moreover have "con_ok con3 es'" using ended(2) by (simp add: con3_def con_ok_def)
        moreover have "same_line con1 con3" using ended(3) by (simp add: con3_def same_line_def)
        ultimately show ?thesis
          using finish_request_done [of con3 es' opts net "hp_keep hp'" "hp_len_set hp'"] con1 False
          by (fastforce simp: same_line_def)
      qed
    qed
  qed
qed

end
