(* ===== verification/Request_Run.thy ===== *)
theory Request_Run
  imports Request
begin

text \<open>
  Requests as a client prints them: a request line and header fields, each with its name, a colon, a blank
  and its value. The parser gives back what was printed.
\<close>

section \<open>The text of a request\<close>

definition print_field :: "string \<times> string \<Rightarrow> string" where
  "print_field f = fst f @ '': '' @ snd f @ CRLF"

definition print_request :: "string \<Rightarrow> string \<Rightarrow> http_version \<Rightarrow> (string \<times> string) list \<Rightarrow> string" where
  "print_request name u v fs =
     name @ [SP] @ u @ [SP] @ version_text v @ CRLF @ concat (map print_field fs) @ CRLF"

definition key_char :: "char \<Rightarrow> bool" where
  "key_char c \<longleftrightarrow> 32 < byte c \<and> byte c < 127 \<and> c \<noteq> CHR '':'' \<and> \<not> key_separator c"

definition value_char :: "char \<Rightarrow> bool" where
  "value_char c \<longleftrightarrow> c = TAB \<or> 32 \<le> byte c"

definition field_text :: "string \<times> string \<Rightarrow> bool" where
  "field_text f \<longleftrightarrow> fst f \<noteq> [] \<and> list_all key_char (fst f) \<and> snd f \<noteq> [] \<and> list_all value_char (snd f) \<and>
     \<not> blank (hd (snd f)) \<and> \<not> blank (last (snd f))"

section \<open>Running over a line\<close>

lemma key_char_simps: "key_char c \<Longrightarrow> c \<noteq> CR \<and> \<not> blank c \<and> c \<noteq> NUL \<and> c \<noteq> CHR '':'' \<and> \<not> key_separator c"
  by (auto simp: key_char_def blank_def NUL_def)

lemma value_char_simps: "value_char c \<Longrightarrow> c \<noteq> CR \<and> c \<noteq> NUL"
  by (auto simp: value_char_def NUL_def)

lemma key_run:
  assumes "\<forall>j < length k. hp_m hp ! (hp_i hp + j) = k ! j" and "list_all key_char k" and "hp_i hp + length k \<le> n"
    and "length (hp_m hp) = Suc n" and "hp_is_key hp" and "\<not> hp_done hp"
  shows "header_loop opts n (length k + f) hp = header_loop opts n f (hp\<lparr>hp_i := hp_i hp + length k\<rparr>)"
  using assms
proof (induction k arbitrary: hp)
  case (Cons c k)
  have c: "hp_m hp ! hp_i hp = c" "key_char c" using Cons.prems(1,2) by auto
  have "header_step opts hp = Some (Go_On hp)"
    using c Cons.prems key_char_simps [OF c(2)]
    by (auto simp: header_step_def key_step_def Let_def blank_def key_char_def)
  then have step: "header_loop opts n (length (c # k) + f) hp = header_loop opts n (length k + f) (hp\<lparr>hp_i := hp_i hp + 1\<rparr>)"
    using Cons.prems by simp
  have "\<forall>j < length k. hp_m hp ! (hp_i hp + 1 + j) = k ! j" using Cons.prems(1) by auto
  then show ?case unfolding step using Cons.IH [of "hp\<lparr>hp_i := hp_i hp + 1\<rparr>"] Cons.prems by simp
qed simp

lemma value_run:
  assumes "\<forall>j < length v. hp_m hp ! (hp_i hp + j) = v ! j" and "list_all value_char v" and "hp_i hp + length v \<le> n"
    and "length (hp_m hp) = Suc n" and "\<not> hp_is_key hp" and "\<not> hp_done hp"
    and "v = [] \<or> \<not> blank (hd v) \<or> hp_value hp \<noteq> Some (hp_i hp)" and "\<exists>x. hp_value hp = Some x \<and> x \<le> hp_i hp"
  shows "header_loop opts n (length v + f) hp = header_loop opts n f (hp\<lparr>hp_i := hp_i hp + length v\<rparr>)"
  using assms
proof (induction v arbitrary: hp)
  case (Cons c v)
  have c: "hp_m hp ! hp_i hp = c" "value_char c" using Cons.prems(1,2) by auto
  have "header_step opts hp = Some (Go_On hp)"
    using c Cons.prems value_char_simps [OF c(2)]
    by (auto simp: header_step_def value_step_def Let_def blank_def value_char_def)
  then have step: "header_loop opts n (length (c # v) + f) hp = header_loop opts n (length v + f) (hp\<lparr>hp_i := hp_i hp + 1\<rparr>)"
    using Cons.prems by simp
  have "\<forall>j < length v. hp_m hp ! (hp_i hp + 1 + j) = v ! j" using Cons.prems(1) by auto
  then show ?case unfolding step using Cons.IH [of "hp\<lparr>hp_i := hp_i hp + 1\<rparr>"] Cons.prems by auto
qed simp

text \<open>The parser at the start of a line; \<open>p\<close> is its offset.\<close>

definition line_start :: "string \<Rightarrow> nat \<Rightarrow> hparse \<Rightarrow> bool" where
  "line_start s p hp \<longleftrightarrow> length (hp_m hp) = Suc (length s) \<and> hp_i hp = p \<and> hp_first hp = p \<and> untouched s p (hp_m hp) \<and>
     hp_is_key hp \<and> \<not> hp_ws_after_key hp \<and> \<not> hp_in_folding hp \<and> \<not> hp_done hp"

lemma line_start_nth:
  assumes "line_start s p hp" and "s = pre @ t @ rest" and "length pre = p" and "j < length t"
  shows "hp_m hp ! (p + j) = t ! j"
  using assms by (simp add: line_start_def untouched_def nth_append)

text \<open>A printed field: the loop comes to the next line with what \<open>process_header\<close> does to the request.\<close>

lemma field_run:
  assumes st: "line_start s p hp" and s: "s = pre @ print_field (k, v) @ rest" "length pre = p" and t: "field_text (k, v)"
  obtains hp1 where "length (hp_m hp1) = Suc (length s)" "untouched s (p + length (print_field (k, v))) (hp_m hp1)"
    "hp_con hp1 = hp_con hp" "hp_keep hp1 = hp_keep hp" "hp_len_set hp1 = hp_len_set hp"
    "hp_reqline_host hp1 = hp_reqline_host hp" "\<not> hp_done hp1" "\<not> hp_ws_after_key hp1"
    "\<forall>hp2 f. process_header opts hp1 k v = Some (Go_On hp2) \<longrightarrow>
      header_loop opts (length s) (length k + length v + 3 + f) hp =
      header_loop opts (length s) f (hp2\<lparr>hp_first := p + length (print_field (k, v)), hp_is_key := True, hp_value := None,
        hp_in_folding := False, hp_i := p + length (print_field (k, v))\<rparr>)"
proof -
  define n m where "n = length s" and "m = hp_m hp"
  define a b e where "a = p + length k" and "b = p + length k + 2" and "e = p + length k + 2 + length v"
  have len: "n = e + 2 + length rest" using s by (simp add: n_def e_def print_field_def)
  note a' = st [unfolded line_start_def, folded m_def n_def]
  have nth: "m ! (p + j) = print_field (k, v) ! j" if "j < length (print_field (k, v))" for j
    using line_start_nth [OF st s that] by (simp add: m_def)
  have kn: "\<forall>j < length k. m ! (p + j) = k ! j"
    using nth by (auto simp: print_field_def nth_append)
  have vn: "\<forall>j < length v. m ! (b + j) = v ! j"
  proof (intro allI impI)
    fix j assume "j < length v"
    then show "m ! (b + j) = v ! j"
      using nth [of "length k + 2 + j"] by (simp add: print_field_def nth_append b_def add.assoc)
  qed
  have an: "m ! a = CHR '':''" "m ! (a + 1) = SP" "m ! e = CR" "m ! (e + 1) = LF"
    using nth [of "length k"] nth [of "length k + 1"] nth [of "length k + 2 + length v"] nth [of "length k + 3 + length v"]
    by (simp_all add: print_field_def nth_append a_def e_def add.assoc numeral_3_eq_3)
  define h1 where "h1 = hp\<lparr>hp_i := a\<rparr>"
  define h2 where "h2 = h1\<lparr>hp_is_key := False, hp_value := Some (a + 1), hp_key_len := length k, hp_ws_after_key := False, hp_i := a + 1\<rparr>"
  define h3 where "h3 = h2\<lparr>hp_value := Some b, hp_i := b\<rparr>"
  define h4 where "h4 = h3\<lparr>hp_i := e\<rparr>"
  have r1: "header_loop opts n (length k + f) hp = header_loop opts n f h1" for f
    using key_run [of k hp n opts f] kn t a' len by (simp add: field_text_def h1_def a_def e_def m_def)
  have r2: "header_loop opts n (Suc f) h1 = header_loop opts n f h2" for f
    using an a' len by (simp add: h1_def h2_def header_step_def key_step_def Let_def m_def a_def e_def)
  have r3: "header_loop opts n (Suc f) h2 = header_loop opts n f h3" for f
    using an a' len by (simp add: h1_def h2_def h3_def header_step_def value_step_def Let_def m_def a_def b_def e_def)
  have r4: "header_loop opts n (length v + f) h3 = header_loop opts n f h4" for f
    using value_run [of v h3 n opts f] vn t a' len by (simp add: field_text_def h1_def h2_def h3_def h4_def b_def e_def m_def)
  define m1 where "m1 = m[e := NUL, e + 1 := NUL, e := NUL]"
  define hp1 where "hp1 = h4\<lparr>hp_key := Some p, hp_m := m1\<rparr>"
  have ws: "strip_ws v = v"
  proof -
    have "rev v \<noteq> []" "\<not> blank (hd (rev v))" using t by (simp_all add: field_text_def hd_rev)
    then have "dropWhile (\<lambda>c. c = SP \<or> c = TAB) (rev v) = rev v" by (cases "rev v") (auto simp: blank_def)
    then show ?thesis by (simp add: strip_ws_def)
  qed
  have tv: "take (e - b) (drop b (m[e := NUL, e + 1 := NUL])) = v"
  proof (rule nth_equalityI)
    show "length (take (e - b) (drop b (m[e := NUL, e + 1 := NUL]))) = length v" using a' len by (simp add: b_def e_def)
    fix j assume "j < length (take (e - b) (drop b (m[e := NUL, e + 1 := NUL])))"
    then have "j < length v" "b + j < e" by (simp_all add: b_def e_def)
    then show "take (e - b) (drop b (m[e := NUL, e + 1 := NUL])) ! j = v ! j" using vn a' len by (simp add: b_def e_def)
  qed
  have tk: "take (length k) (drop p m1) = k"
  proof (rule nth_equalityI)
    show "length (take (length k) (drop p m1)) = length k" using a' len by (simp add: e_def m1_def)
    fix j assume "j < length (take (length k) (drop p m1))"
    then have "j < length k" by simp
    then show "take (length k) (drop p m1) ! j = k ! j" using kn a' len by (simp add: e_def m1_def)
  qed
  have ne: "v \<noteq> []" using t by (simp add: field_text_def)
  have be: "b + length v = e" by (simp add: b_def e_def)
  have hl: "header_line opts (h4\<lparr>hp_m := m[e := NUL, e + 1 := NUL]\<rparr>) = process_header opts hp1 k v"
    using tv tk ne ws a' be
    by (simp add: header_line_def hp1_def h4_def h3_def h2_def h1_def m1_def Let_def)
  have r5: "header_loop opts n (Suc f) h4 =
      header_loop opts n f (hp2\<lparr>hp_first := e + 2, hp_is_key := True, hp_value := None, hp_in_folding := False, hp_i := e + 2\<rparr>)"
    if "process_header opts hp1 k v = Some (Go_On hp2)" for hp2 f
  proof -
    have hm: "hp_m h4 = m" "hp_i h4 = e" "\<not> hp_is_key h4" "\<not> hp_in_folding h4" "\<not> hp_done h4"
      using a' by (simp_all add: h4_def h3_def h2_def h1_def m_def)
    have "header_step opts h4 = Some (Go_On (hp2\<lparr>hp_i := e + 1, hp_first := e + 2, hp_is_key := True, hp_value := None, hp_in_folding := False\<rparr>))"
      using hm hl that an a' len by (simp add: header_step_def value_step_def)
    then show ?thesis using hm len by simp
  qed
  have pos: "e + 2 = p + length (print_field (k, v))" by (simp add: e_def print_field_def)
  have "untouched s (e + 2) m1" using a' by (auto simp: untouched_def m1_def e_def)
  moreover have "header_loop opts n (length k + length v + 3 + f) hp = header_loop opts n (Suc f) h4" for f
    using r1 [of "Suc (Suc (length v + Suc f))"] r2 r3 r4 [of "Suc f"] by (simp add: add.assoc numeral_3_eq_3)
  ultimately show thesis
    using that [of hp1] r5 a' pos
    by (simp add: hp1_def h4_def h3_def h2_def h1_def m1_def n_def m_def)
qed

section \<open>All fields\<close>

text \<open>Fields the parser only stores, and the host.\<close>

definition plain_field :: "string \<times> string \<Rightarrow> bool" where
  "plain_field f \<longleftrightarrow> field_text f \<and> (classify_header (fst f) = H_Other \<or> classify_header (fst f) = H_Host)"

lemma field_text_no_zero: "field_text (k, v) \<Longrightarrow> NUL \<notin> set v"
  using value_char_simps by (auto simp: field_text_def list_all_iff)

lemma process_plain_field:
  assumes c: "con_ok (hp_con hp) es" and max: "length es < SSIZE_MAX" and f: "plain_field (k, v)"
    and none: "elem_of es (lkey k) = None" and rl: "\<not> hp_reqline_host hp"
  obtains con' where "process_header opts hp k v = Some (Go_On (hp\<lparr>hp_con := con'\<rparr>))"
    "con_ok con' (es @ [dstring k v])" "same_line (hp_con hp) con'"
proof -
  have v: "NUL \<notin> set v" using f field_text_no_zero by (auto simp: plain_field_def)
  from header_element_ok [of "rq_headers (hp_con hp)" es k v] c obtain a' where
    a': "header_element (rq_headers (hp_con hp)) k v = (a', dstring k v)" "fields_hold a' es"
    by (auto simp: con_ok_def)
  define con1 where "con1 = (hp_con hp)\<lparr>rq_headers := a'\<rparr>"
  have c1: "con_ok con1 es" using c a'(2) by (simp add: con_ok_def con1_def)
  show thesis
  proof (cases "classify_header k = H_Host")
    case True
    then have k: "lkey k = lkey ''Host''" by (simp add: classify_host_since)
    have "rq_http_host con1 = None"
      using c1 none k by (auto simp: con_ok_def host_ref_ok_def elem_of_None split: option.splits buf_ref.splits)
    from con_ok_insert_host [OF c1 max v k this] obtain a2 where
      a2: "insert_header (rq_headers con1) (dstring k v) = Some (a2, Some (length es))"
        "con_ok (con1\<lparr>rq_headers := a2, rq_http_host := Some (Buf_At (length es))\<rparr>) (es @ [dstring k v])" .
    have "process_header opts hp k v =
        Some (Go_On (hp\<lparr>hp_con := con1\<lparr>rq_headers := a2, rq_http_host := Some (Buf_At (length es))\<rparr>\<rparr>))"
      using True a'(1) a2(1) rl \<open>rq_http_host con1 = None\<close>
      by (simp add: process_header_def handle_host_def keep_ds_def buf_ref_of_def con1_def)
    then show thesis using a2(2) by (rule that) (simp add: same_line_def con1_def)
  next
    case False
    then have other: "classify_header k = H_Other" using f by (simp add: plain_field_def)
    then have k: "lkey k \<noteq> lkey ''Host''" "lkey k \<noteq> lkey ''If-Modified-Since''"
      using classify_host_since [of k] by auto
    have "fields_hold (rq_headers con1) es" using c1 by (simp add: con_ok_def)
    from insert_header_new [OF this max none] obtain a2 where
      a2: "insert_header (rq_headers con1) (dstring k v) = Some (a2, Some (length es))" "fields_hold a2 (es @ [dstring k v])" .
    have "process_header opts hp k v = Some (Go_On (hp\<lparr>hp_con := con1\<lparr>rq_headers := a2\<rparr>\<rparr>))"
      using other a'(1) a2(1) by (simp add: process_header_def keep_ds_def con1_def)
    moreover have "con_ok (con1\<lparr>rq_headers := a2\<rparr>) (es @ [dstring k v])"
      using c1 a2(2) v refs_ok_new(1) [OF _ k(1)] refs_ok_new(2) [OF _ k(2)] by (auto simp: con_ok_def)
    ultimately show thesis by (rule that) (simp add: same_line_def con1_def)
  qed
qed

text \<open>The iterations the fields take.\<close>

definition field_steps :: "(string \<times> string) list \<Rightarrow> nat" where
  "field_steps fs = sum_list (map (\<lambda>f. length (fst f) + length (snd f) + 3) fs)"

definition to_dstrings :: "(string \<times> string) list \<Rightarrow> data_unset list" where
  "to_dstrings fs = map (\<lambda>f. dstring (fst f) (snd f)) fs"

lemma field_steps_le: "field_steps fs \<le> length (concat (map print_field fs))"
  by (induction fs) (auto simp: field_steps_def print_field_def)

lemma fields_run:
  assumes "line_start s p hp" and "s = pre @ concat (map print_field fs) @ rest" and "length pre = p"
    and "\<forall>f \<in> set fs. plain_field f" and "con_ok (hp_con hp) es"
    and "distinct (map (\<lambda>f. lkey (fst f)) fs)" and "\<forall>e \<in> set es. \<forall>f \<in> set fs. ekey e \<noteq> lkey (fst f)"
    and "length es + length fs \<le> SSIZE_MAX" and "\<not> hp_reqline_host hp"
  shows "\<exists>hp'. (\<forall>f. header_loop opts (length s) (field_steps fs + f) hp = header_loop opts (length s) f hp') \<and>
    line_start s (p + length (concat (map print_field fs))) hp' \<and> con_ok (hp_con hp') (es @ to_dstrings fs) \<and>
    same_line (hp_con hp) (hp_con hp') \<and> hp_keep hp' = hp_keep hp \<and> hp_len_set hp' = hp_len_set hp"
  using assms
proof (induction fs arbitrary: p hp pre es)
  case Nil
  then show ?case by (intro exI [of _ hp]) (simp add: field_steps_def to_dstrings_def)
next
  case (Cons x fs)
  obtain k v where x: "x = (k, v)" by (cases x)
  let ?q = "p + length (print_field (k, v))"
  have s: "s = pre @ print_field (k, v) @ (concat (map print_field fs) @ rest)" using Cons.prems(2) x by simp
  have pf: "plain_field (k, v)" using Cons.prems(4) x by simp
  then have ft: "field_text (k, v)" by (simp add: plain_field_def)
  from field_run [OF Cons.prems(1) s Cons.prems(3) ft, of opts] obtain hp1 where
    h1: "length (hp_m hp1) = Suc (length s)" "untouched s ?q (hp_m hp1)" "hp_con hp1 = hp_con hp" "hp_keep hp1 = hp_keep hp"
      "hp_len_set hp1 = hp_len_set hp" "hp_reqline_host hp1 = hp_reqline_host hp" "\<not> hp_done hp1" "\<not> hp_ws_after_key hp1"
    and run: "\<forall>hp2 f. process_header opts hp1 k v = Some (Go_On hp2) \<longrightarrow>
      header_loop opts (length s) (length k + length v + 3 + f) hp =
      header_loop opts (length s) f (hp2\<lparr>hp_first := ?q, hp_is_key := True, hp_value := None, hp_in_folding := False, hp_i := ?q\<rparr>)" .
  have none: "elem_of es (lkey k) = None"
  proof -
    have "\<forall>e \<in> set es. ekey e \<noteq> lkey k" using Cons.prems(7) x by simp
    then show ?thesis by (simp add: elem_of_def find_None_iff)
  qed
  have "con_ok (hp_con hp1) es" "length es < SSIZE_MAX" "\<not> hp_reqline_host hp1" using Cons.prems h1 by simp_all
  from process_plain_field [OF this(1,2) pf none this(3), of opts] obtain con' where
    con': "process_header opts hp1 k v = Some (Go_On (hp1\<lparr>hp_con := con'\<rparr>))" "con_ok con' (es @ [dstring k v])"
      "same_line (hp_con hp1) con'" .
  define hp2 where "hp2 = hp1\<lparr>hp_con := con', hp_first := ?q, hp_is_key := True, hp_value := None, hp_in_folding := False, hp_i := ?q\<rparr>"
  have "line_start s ?q hp2" using h1 by (simp add: line_start_def hp2_def)
  moreover have "s = (pre @ print_field (k, v)) @ concat (map print_field fs) @ rest" using s by simp
  moreover have "con_ok (hp_con hp2) (es @ [dstring k v])" using con'(2) by (simp add: hp2_def)
  moreover have "\<forall>f \<in> set fs. lkey k \<noteq> lkey (fst f)" using Cons.prems(6) x by auto
  then have "\<forall>e \<in> set (es @ [dstring k v]). \<forall>f \<in> set fs. ekey e \<noteq> lkey (fst f)" using Cons.prems(7) by auto
  moreover have "distinct (map (\<lambda>f. lkey (fst f)) fs)" "length (es @ [dstring k v]) + length fs \<le> SSIZE_MAX"
    "\<not> hp_reqline_host hp2" "\<forall>f \<in> set fs. plain_field f" "length (pre @ print_field (k, v)) = ?q"
    using Cons.prems h1(6) by (simp_all add: hp2_def)
  ultimately obtain hp' where hp':
    "\<forall>f. header_loop opts (length s) (field_steps fs + f) hp2 = header_loop opts (length s) f hp'"
    "line_start s (?q + length (concat (map print_field fs))) hp'" "con_ok (hp_con hp') ((es @ [dstring k v]) @ to_dstrings fs)"
    "same_line (hp_con hp2) (hp_con hp')" "hp_keep hp' = hp_keep hp2" "hp_len_set hp' = hp_len_set hp2"
    using Cons.IH [of ?q hp2 "pre @ print_field (k, v)" "es @ [dstring k v]"] by blast
  have "header_loop opts (length s) (field_steps (x # fs) + f) hp = header_loop opts (length s) f hp'" for f
    using run [rule_format, OF con'(1), of "field_steps fs + f"] hp'(1) [rule_format, of f] by (simp add: field_steps_def x hp2_def add.assoc)
  moreover have "same_line (hp_con hp) (hp_con hp')"
    using con'(3) hp'(4) h1(3) same_line_trans by (fastforce simp: hp2_def)
  ultimately show ?case using hp' h1 x
    by (intro exI [of _ hp']) (simp add: to_dstrings_def hp2_def add.assoc)
qed

text \<open>The empty line at the end.\<close>

lemma end_run:
  assumes st: "line_start s p hp" and s: "s = pre @ CRLF" "length pre = p"
  obtains hp' where "header_loop opts (length s) (Suc (Suc f)) hp = Some (Go_On hp')" "hp_con hp' = hp_con hp"
    "hp_keep hp' = hp_keep hp" "hp_len_set hp' = hp_len_set hp" "hp_i hp' = length s"
proof -
  have nth: "hp_m hp ! p = CR" "hp_m hp ! Suc p = LF"
    using line_start_nth [OF st, of pre CRLF "[]" 0] line_start_nth [OF st, of pre CRLF "[]" 1] s by simp_all
  define hp' where "hp' = hp\<lparr>hp_m := (hp_m hp)[p := NUL, Suc p := NUL], hp_done := True, hp_i := p + 2\<rparr>"
  have "header_step opts hp = Some (Go_On (hp\<lparr>hp_m := (hp_m hp)[p := NUL, Suc p := NUL], hp_i := Suc p, hp_done := True\<rparr>))"
    using st nth s by (simp add: header_step_def key_step_def Let_def line_start_def key_separator_def)
  then have "header_loop opts (length s) (Suc (Suc f)) hp = Some (Go_On hp')"
    using st s by (simp add: line_start_def hp'_def)
  then show thesis by (rule that) (use s in \<open>simp_all add: hp'_def\<close>)
qed

section \<open>The checks on a printed request\<close>

lemma set_host_value_same:
  assumes "cell_read (a_data (rq_headers con)) n = Some (dstring k v)"
  shows "set_host_value con n v = con"
proof -
  have "a_data (rq_headers con) ! n = Some (dstring k v)" using assms by (simp add: cell_read_def split: if_splits)
  then have "(a_data (rq_headers con))[n := Some (dstring k v)] = a_data (rq_headers con)"
    by (metis list_update_id)
  then show ?thesis
    using \<open>a_data (rq_headers con) ! n = _\<close> by (cases "rq_headers con") (simp add: set_host_value_def Let_def)
qed

text \<open>A host in the form the checks leave it.\<close>

definition host_stays :: "'a inet \<Rightarrow> req_opts \<Rightarrow> string \<Rightarrow> bool" where
  "host_stays net opts h \<longleftrightarrow> (ro_host_strict opts \<longrightarrow> request_check_hostname h = (h, True)) \<and>
     (ro_host_normalize opts \<longrightarrow> http_request_host_normalize net h = Some h)"

lemma check_host_printed:
  assumes c: "con_ok con (to_dstrings fs)"
    and strict: "\<forall>f \<in> set fs. lkey (fst f) = lkey ''Host'' \<longrightarrow> host_stays net opts (snd f)"
  shows "check_host net opts con = Some (con, True)"
  using host_value_ok [OF c]
proof (elim disjE exE conjE)
  assume "host_value con = Some None"
  then show ?thesis by (simp add: check_host_def)
next
  fix n k v
  assume h: "n < length (to_dstrings fs)" "to_dstrings fs ! n = dstring k v" "lkey k = lkey ''Host''" "host_value con = Some (Some (n, Some v))"
  then have "(k, v) \<in> set fs" using nth_mem [of n fs] by (auto simp: to_dstrings_def prod_eq_iff)
  then have "host_stays net opts v" using strict h(3) by auto
  moreover have "set_host_value con n v = con"
    using fields_hold_cell [of "rq_headers con" "to_dstrings fs" n] c h by (intro set_host_value_same) (simp add: con_ok_def)
  ultimately show ?thesis using h(4) by (auto simp: check_host_def host_stays_def)
qed

lemma check_method_printed:
  assumes c: "con_ok con (to_dstrings fs)" and post: "rq_http_method con \<noteq> HTTP_METHOD_POST"
    and te: "\<forall>f \<in> set fs. lkey (fst f) \<noteq> lkey ''Transfer-Encoding''"
  shows "check_method False con = Some None"
proof -
  obtain ixs where "arr_holds (rq_headers con) ixs (to_dstrings fs)" using c by (auto simp: con_ok_def fields_hold_def)
  from array_get_element_ok [OF this, of "''Transfer-Encoding''"]
  have "array_get_element (rq_headers con) ''Transfer-Encoding'' = Some (elem_of (to_dstrings fs) (lkey ''Transfer-Encoding''))"
    by (simp add: NUL_def cstr_def)
  moreover have "elem_of (to_dstrings fs) (lkey ''Transfer-Encoding'') = None"
    using te by (auto simp: elem_of_def find_None_iff to_dstrings_def)
  ultimately show ?thesis using post by (cases "rq_http_method con") (simp_all add: check_method_def)
qed

lemma finish_printed:
  assumes c: "con_ok con (to_dstrings fs)"
    and strict: "\<forall>f \<in> set fs. lkey (fst f) = lkey ''Host'' \<longrightarrow> host_stays net opts (snd f)"
    and host: "rq_http_version con = HTTP_VERSION_1_1 \<Longrightarrow> \<exists>f \<in> set fs. lkey (fst f) = lkey ''Host''"
    and ne: "\<forall>f \<in> set fs. snd f \<noteq> []"
    and post: "rq_http_method con \<noteq> HTTP_METHOD_POST" and te: "\<forall>f \<in> set fs. lkey (fst f) \<noteq> lkey ''Transfer-Encoding''"
  shows "finish_request net opts HTTP_CONNECTION_UNSET False con =
    Some (con\<lparr>rq_keep_alive := rq_http_version con = HTTP_VERSION_1_1\<rparr>, 0)"
proof -
  define con1 where "con1 = con\<lparr>rq_keep_alive := rq_http_version con = HTTP_VERSION_1_1\<rparr>"
  have k: "keep_alive_default HTTP_CONNECTION_UNSET con = con1" by (simp add: keep_alive_default_def con1_def)
  have c1: "con_ok con1 (to_dstrings fs)" "rq_http_method con1 \<noteq> HTTP_METHOD_POST"
    using c post by (simp_all add: con1_def con_ok_def)
  have "host_missing con1 = Some False" if "rq_http_version con = HTTP_VERSION_1_1"
    using host_value_ok [OF c1(1)]
  proof (elim disjE exE conjE)
    assume "rq_http_host con1 = None"
    then have "elem_of (to_dstrings fs) (lkey ''Host'') = None" using c1 by (simp add: con_ok_def host_ref_ok_def)
    then show ?thesis using host [OF that] by (auto simp: elem_of_def find_None_iff to_dstrings_def)
  next
    fix n k v
    assume "n < length (to_dstrings fs)" "to_dstrings fs ! n = dstring k v" "host_value con1 = Some (Some (n, Some v))"
    then show ?thesis using ne nth_mem [of n fs] by (auto simp: host_missing_def to_dstrings_def)
  qed
  then have "(if rq_http_version con1 = HTTP_VERSION_1_1 then host_missing con1 else Some False) = Some False"
    by (simp add: con1_def)
  then show ?thesis
    using check_host_printed [OF c1(1) strict] check_method_printed [OF c1(1,2) te]
    by (simp add: finish_request_def k Let_def flip: con1_def)
qed

section \<open>From the text to the fields\<close>

lemma parse_printed_line:
  assumes fresh: "req_fresh con"
    and name: "get_http_method_key name = http_method_num r" "r \<noteq> HTTP_METHOD_UNSET" "line_token name"
    and u: "line_token u" "u \<noteq> []" "uri_chars_ok opts u" "\<not> absolute_uri u"
    and v: "v \<noteq> HTTP_VERSION_UNSET" "v = HTTP_VERSION_1_1 \<Longrightarrow> ro_allow_http11 opts"
    and s: "s = print_request name u v fs"
  obtains hp con1 line where "s = line @ concat (map print_field fs) @ CRLF" "line_start s (length line) hp" "hp_con hp = con1"
    "hp_keep hp = HTTP_CONNECTION_UNSET" "\<not> hp_len_set hp" "\<not> hp_reqline_host hp" "con_ok con1 []"
    "rq_http_version con1 = v \<and> rq_http_method con1 = r \<and> rq_uri con1 = u \<and> rq_http_status con1 = 0 \<and> rq_http_range con1 = rq_http_range con \<and>
       rq_http_host con1 = None"
    "\<forall>hp2. header_loop opts (length s) (length s + 2) hp = Some (Go_On hp2) \<longrightarrow>
      http_request_parse net opts request_count s con =
      finish_request net opts (hp_keep hp2) (hp_len_set hp2) ((hp_con hp2)\<lparr>rq_header_len := hp_i hp2\<rparr>)"
proof -
  define line where "line = name @ [SP] @ u @ [SP] @ version_text v @ CRLF"
  have s': "s = line @ concat (map print_field fs) @ CRLF" by (simp add: s print_request_def line_def)
  have buf: "parse_buffer request_count s = s"
    using name(3) by (cases name) (auto simp: parse_buffer_def s print_request_def peek_def line_token_def)
  define rest where "rest = concat (map print_field fs) @ CRLF @ [NUL]"
  have m: "s @ [NUL] = name @ [SP] @ u @ [SP] @ version_text v @ CRLF @ rest"
    by (simp add: s print_request_def rest_def)
  have pos: "length (s @ [NUL]) - length rest = length line" by (simp add: s' rest_def)
  define con1 where "con1 = con\<lparr>rq_request_line := name @ [SP] @ u @ [SP] @ version_text v, rq_http_method := r,
    rq_http_version := v, rq_uri := u, rq_orig_uri := u, rq_http_status := 0\<rparr>"
  have "length (s @ [NUL]) = Suc (length s)" "rest \<noteq> []" by (simp_all add: rest_def)
  from request_line_parts [OF m name u(1,3,4) v this, of con] obtain m' where
    rl: "request_line opts (s @ [NUL]) (length s) 0 0 None None 0 con = Some (Line_Done m' (length line) (length line) con1 None)"
    and m': "m' = name @ [NUL] @ u @ [NUL] @ version_text v @ [NUL, NUL] @ rest"
    unfolding pos con1_def by blast
  define hp where "hp = hparse_init m' (length line) (length line) None con1"
  define q where "q = name @ [NUL] @ u @ [NUL] @ version_text v @ [NUL, NUL]"
  have lm: "m' = q @ rest" "s @ [NUL] = line @ rest" "length q = length line"
    using m m' by (simp_all add: line_def q_def)
  then have "m' ! k = (s @ [NUL]) ! k" if "length line \<le> k" for k
    unfolding lm using that lm(3) by (simp add: nth_append)
  moreover have "length m' = Suc (length s)"
  proof -
    have "Suc (length s) = length (s @ [NUL])" by simp
    also have "\<dots> = length m'" unfolding lm using lm(3) by simp
    finally show ?thesis by simp
  qed
  ultimately have "untouched s (length line) m'" "length m' = Suc (length s)" by (simp_all add: untouched_def)
  then have st: "line_start s (length line) hp" by (simp add: line_start_def hp_def hparse_init_def)
  have c: "con_ok con1 []"
    using fresh by (auto simp: req_fresh_def con_ok_def host_ref_ok_def since_ref_ok_def elem_of_def con1_def)
  have u1: "rq_uri con1 \<noteq> []" "reqline_host_header m' None con1 = Some con1"
    using u(2) by (simp_all add: con1_def reqline_host_header_def)
  have run: "http_request_parse net opts request_count s con =
      finish_request net opts (hp_keep hp2) (hp_len_set hp2) ((hp_con hp2)\<lparr>rq_header_len := hp_i hp2\<rparr>)"
    if "header_loop opts (length s) (length s + 2) hp = Some (Go_On hp2)" for hp2
    using rl u1 that by (simp add: http_request_parse_def Let_def buf flip: hp_def del: header_loop.simps)
  show thesis
    using that [OF s' st, of con1] c run fresh
    by (simp add: hp_def hparse_init_def con1_def req_fresh_def del: header_loop.simps)
qed

section \<open>Guarantees\<close>

text \<open>C3: A request without a body, of any known method but POST, printed from the method, a path, a version and
  fields the parser only stores (none of those it interprets, such as Content-Length, Transfer-Encoding, Connection, Expect or
  Range) with distinct names and the usual characters, and perhaps a Host that is already in its accepted and
  normalised form (HTTP/1.1 needs one), is parsed back: the parser accepts it, says that no body follows, and leaves
  exactly the method, the path, the version and, in their order, the fields with their values; the
  connection is kept alive just for HTTP/1.1, and the whole text counts as header.\<close>

theorem http_request_parse_print:
  assumes fresh: "req_fresh con"
    and name: "get_http_method_key name = http_method_num r" "r \<notin> {HTTP_METHOD_UNSET, HTTP_METHOD_POST}" "line_token name"
    and u: "line_token u" "u \<noteq> []" "uri_chars_ok opts u" "\<not> absolute_uri u"
    and v: "v \<noteq> HTTP_VERSION_UNSET" "v = HTTP_VERSION_1_1 \<Longrightarrow> ro_allow_http11 opts \<and> (\<exists>f \<in> set fs. lkey (fst f) = lkey ''Host'')"
    and fs: "\<forall>f \<in> set fs. plain_field f" "distinct (map (\<lambda>f. lkey (fst f)) fs)" "\<forall>f \<in> set fs. lkey (fst f) \<noteq> lkey ''Transfer-Encoding''"
    and host: "\<forall>f \<in> set fs. lkey (fst f) = lkey ''Host'' \<longrightarrow> host_stays net opts (snd f)"
    and max: "length (print_request name u v fs) < SSIZE_MAX"
  shows "\<exists>con'. http_request_parse net opts request_count (print_request name u v fs) con = Some (con', 0) \<and>
    rq_http_status con' = 0 \<and> rq_http_method con' = r \<and> rq_uri con' = u \<and> rq_http_version con' = v \<and>
    arr_ok (rq_headers con') \<and> arr_list (rq_headers con') = map (\<lambda>f. dstring (fst f) (snd f)) fs \<and>
    rq_keep_alive con' = (v = HTTP_VERSION_1_1) \<and> rq_header_len con' = length (print_request name u v fs)"
proof -
  define s where "s = print_request name u v fs"
  have nr: "r \<noteq> HTTP_METHOD_UNSET" and vv: "v = HTTP_VERSION_1_1 \<Longrightarrow> ro_allow_http11 opts" using name v by auto
  obtain hp con1 line where s: "s = line @ concat (map print_field fs) @ CRLF" and st: "line_start s (length line) hp"
    and hp: "hp_con hp = con1" "hp_keep hp = HTTP_CONNECTION_UNSET" "\<not> hp_len_set hp" "\<not> hp_reqline_host hp"
    and c: "con_ok con1 []" and con1: "rq_http_version con1 = v \<and> rq_http_method con1 = r \<and> rq_uri con1 = u \<and> rq_http_status con1 = 0 \<and>
      rq_http_range con1 = rq_http_range con \<and> rq_http_host con1 = None"
    and run: "\<forall>hp2. header_loop opts (length s) (length s + 2) hp = Some (Go_On hp2) \<longrightarrow>
      http_request_parse net opts request_count s con =
      finish_request net opts (hp_keep hp2) (hp_len_set hp2) ((hp_con hp2)\<lparr>rq_header_len := hp_i hp2\<rparr>)"
    by (rule parse_printed_line [OF fresh name(1) nr name(3) u v(1) vv s_def])
  have nfs: "length fs \<le> SSIZE_MAX"
  proof -
    have "length fs \<le> length (concat (map print_field fs))" by (induction fs) (auto simp: print_field_def)
    then show ?thesis using max s by (simp add: s_def [symmetric])
  qed
  obtain hp1 where h1: "\<forall>f. header_loop opts (length s) (field_steps fs + f) hp = header_loop opts (length s) f hp1"
    "line_start s (length line + length (concat (map print_field fs))) hp1" "con_ok (hp_con hp1) (to_dstrings fs)"
    "same_line con1 (hp_con hp1)" "hp_keep hp1 = HTTP_CONNECTION_UNSET" "\<not> hp_len_set hp1"
    using fields_run [OF st s refl fs(1) _ fs(2), of "[]" opts] nfs c hp by auto
  define f where "f = length s - field_steps fs"
  have "length s = length line + length (concat (map print_field fs)) + 2" unfolding s by simp
  then have f: "length s + 2 = field_steps fs + Suc (Suc f)" using field_steps_le [of fs] by (simp add: f_def)
  have "s = (line @ concat (map print_field fs)) @ CRLF"
    "length (line @ concat (map print_field fs)) = length line + length (concat (map print_field fs))"
    using s by simp_all
  from end_run [OF h1(2) this, of opts f] obtain hp2 where
    h2: "header_loop opts (length s) (Suc (Suc f)) hp1 = Some (Go_On hp2)" "hp_con hp2 = hp_con hp1" "hp_keep hp2 = hp_keep hp1"
      "hp_len_set hp2 = hp_len_set hp1" "hp_i hp2 = length s" .
  have loop: "header_loop opts (length s) (length s + 2) hp = Some (Go_On hp2)"
    unfolding f using h2(1) by (simp only: h1(1) [rule_format])
  define con2 where "con2 = (hp_con hp1)\<lparr>rq_header_len := length s\<rparr>"
  have c2: "con_ok con2 (to_dstrings fs)" using h1(3) by (simp add: con2_def con_ok_def)
  have line: "rq_http_version con2 = v" "rq_http_method con2 = r" "rq_uri con2 = u" "rq_http_status con2 = 0" "rq_header_len con2 = length s"
    using h1(4) con1 by (simp_all add: con2_def same_line_def)
  have ne: "\<forall>f \<in> set fs. snd f \<noteq> []" using fs(1) by (auto simp: plain_field_def field_text_def)
  have fin: "finish_request net opts HTTP_CONNECTION_UNSET False con2 = Some (con2\<lparr>rq_keep_alive := v = HTTP_VERSION_1_1\<rparr>, 0)"
    using finish_printed [OF c2 host _ ne] line v name fs(3) by auto
  have "http_request_parse net opts request_count s con = Some (con2\<lparr>rq_keep_alive := v = HTTP_VERSION_1_1\<rparr>, 0)"
    using run loop fin h1(5,6) h2(2-5) by (simp add: con2_def del: header_loop.simps)
  moreover have "arr_ok (rq_headers con2) \<and> arr_list (rq_headers con2) = to_dstrings fs"
    using c2 fields_hold_list by (auto simp: con_ok_def)
  ultimately show ?thesis using line unfolding s_def [symmetric] by (simp add: to_dstrings_def)
qed

text \<open>The options of a server whose configuration does not set them: strict checking of hosts comes with normalising.\<close>

definition default_opts :: req_opts where
  "default_opts = \<lparr>ro_header_strict = True, ro_host_strict = True, ro_host_normalize = True, ro_allow_http11 = True,
     ro_reject_expect = True\<rparr>"

theorem http_request_parse_print_witness:
  "\<exists>con'. http_request_parse plain_inet default_opts 1
      (print_request ''GET'' ''/a?b'' HTTP_VERSION_1_1 [(''Host'', ''h.org''), (''Via'', ''x y'')]) req_init = Some (con', 0) \<and>
    rq_http_status con' = 0 \<and> rq_http_method con' = HTTP_METHOD_GET \<and> rq_uri con' = ''/a?b'' \<and> rq_http_version con' = HTTP_VERSION_1_1 \<and>
    arr_ok (rq_headers con') \<and> arr_list (rq_headers con') = [dstring ''Host'' ''h.org'', dstring ''Via'' ''x y''] \<and>
    rq_keep_alive con' = True \<and> rq_header_len con' = 44"
proof -
  have name: "get_http_method_key ''GET'' = http_method_num HTTP_METHOD_GET" "line_token ''GET''" "line_token ''/a?b''"
    "uri_chars_ok default_opts ''/a?b''" "\<not> absolute_uri ''/a?b''" "ro_allow_http11 default_opts"
    by code_simp+
  have fs: "plain_field (''Host'', ''h.org'')" "plain_field (''Via'', ''x y'')" "lkey ''Host'' \<noteq> lkey ''Transfer-Encoding''"
    "lkey ''Via'' \<noteq> lkey ''Transfer-Encoding''" "lkey ''Host'' \<noteq> lkey ''Via''" "lkey ''Via'' \<noteq> lkey ''Host''"
    "host_stays plain_inet default_opts ''h.org''"
    by code_simp+
  have len: "length (print_request ''GET'' ''/a?b'' HTTP_VERSION_1_1 [(''Host'', ''h.org''), (''Via'', ''x y'')]) = 44"
    by code_simp
  show ?thesis
    using http_request_parse_print [OF req_init_fresh name(1) _ name(2,3) _ name(4,5), of HTTP_VERSION_1_1
        "[(''Host'', ''h.org''), (''Via'', ''x y'')]" plain_inet 1] name fs len
    by (simp add: SSIZE_MAX_def)
qed

text \<open>C4: The parser always comes to an end with an answer, whatever bytes were received, as long as no line is
  continued (a continued value may be moved while a pointer leads into it): reading stays inside the
  buffer, no assertion fails, the loop over the header lines is over after at most two more steps than
  there are bytes. The answer is one of the seven statuses, and a refused request never announces a
  body.\<close>

theorem http_request_parse_total:
  assumes "req_fresh con" and "unfolded (parse_buffer request_count request)"
    and "length (parse_buffer request_count request) < SSIZE_MAX"
  shows "\<exists>con' body. http_request_parse net opts request_count request con = Some (con', body) \<and> body \<le> 1 \<and>
    rq_http_status con' \<in> {0, 400, 411, 413, 417, 501, 505} \<and> (rq_http_status con' \<noteq> 0 \<longrightarrow> body = 0)"
  using http_request_parse_done [OF assms, of net opts] by auto

theorem http_request_parse_total_witness:
  "\<exists>con' body. http_request_parse plain_inet default_opts 2 (''GET'' @ CRLF @ ''x: y'') req_init = Some (con', body) \<and> body \<le> 1 \<and>
    rq_http_status con' \<in> {0, 400, 411, 413, 417, 501, 505} \<and> (rq_http_status con' \<noteq> 0 \<longrightarrow> body = 0)"
proof -
  have b: "parse_buffer 2 (''GET'' @ CRLF @ ''x: y'') = ''GET'' @ CRLF @ ''x: y''" by code_simp
  have "unfolded (''GET'' @ CRLF @ ''x: y'')"
    by (auto simp: unfolded_def blank_def less_Suc_eq)
  then show ?thesis
    using http_request_parse_total [OF req_init_fresh, of 2 "''GET'' @ CRLF @ ''x: y''" plain_inet default_opts]
    unfolding b by (simp add: SSIZE_MAX_def)
qed

text \<open>C2: What the rest of the server may rely on for every request without continued lines that the parser
  accepts: a known method, HTTP/1.0 or an allowed HTTP/1.1, a path that is not empty, a well-formed array of
  fields, a host for HTTP/1.1, and a body only with a length from 1 to \<open>SSIZE_MAX\<close> and never for GET and HEAD.
  With strict header parsing the path has no control character or blank; with strict host parsing the host has
  no slash (it may be used as a directory), whatever the conversions of addresses print, and is
  a name or an address with an optional port when it is not normalised. (Continued lines are left out, as
  a continued value may be moved while a pointer leads into it.)\<close>

theorem http_request_parse_accepts:
  assumes "req_fresh con" and "unfolded (parse_buffer request_count request)"
    and "length (parse_buffer request_count request) < SSIZE_MAX"
    and "http_request_parse net opts request_count request con = Some (con', body)" and "rq_http_status con' = 0"
    and "inet_ok net"
  shows "rq_http_method con' \<noteq> HTTP_METHOD_UNSET \<and>
    (rq_http_version con' = HTTP_VERSION_1_0 \<or> rq_http_version con' = HTTP_VERSION_1_1 \<and> ro_allow_http11 opts) \<and>
    rq_uri con' \<noteq> [] \<and> (ro_header_strict opts \<longrightarrow> list_all request_uri_is_valid_char (rq_uri con')) \<and> arr_ok (rq_headers con') \<and>
    (rq_http_version con' = HTTP_VERSION_1_1 \<longrightarrow> (\<exists>n h. host_value con' = Some (Some (n, Some h)))) \<and>
    (ro_host_strict opts \<longrightarrow> (\<forall>n h. host_value con' = Some (Some (n, Some h)) \<longrightarrow>
       CHR ''/'' \<notin> set h \<and> (\<not> ro_host_normalize opts \<longrightarrow> host_shape h))) \<and>
    (body = 1 \<longrightarrow> 0 < rq_content_length con' \<and> rq_content_length con' \<le> SSIZE_MAX \<and>
       rq_http_method con' \<notin> {HTTP_METHOD_GET, HTTP_METHOD_HEAD})"
  using http_request_parse_done [OF assms(1-3), of net opts] assms(4-6)
  by (auto simp: accepted_def version_1_def uri_chars_ok_def checked_host_def split: if_splits)

theorem http_request_parse_accepts_witness:
  "\<exists>con' body. http_request_parse plain_inet default_opts 1 (''GET / HTTP/1.0'' @ CRLF @ CRLF) req_init = Some (con', body) \<and>
     rq_http_method con' \<noteq> HTTP_METHOD_UNSET \<and> rq_uri con' \<noteq> [] \<and> arr_ok (rq_headers con')"
proof -
  let ?s = "''GET / HTTP/1.0'' @ CRLF @ CRLF"
  have b: "parse_buffer 1 ?s = ?s" by code_simp
  have "unfolded ?s" by (auto simp: unfolded_def blank_def less_Suc_eq)
  moreover have "map_option (\<lambda>(c, n). rq_http_status c) (http_request_parse plain_inet default_opts 1 ?s req_init) = Some 0"
    by code_simp
  then obtain con' body where "http_request_parse plain_inet default_opts 1 ?s req_init = Some (con', body)" "rq_http_status con' = 0"
    by auto
  ultimately show ?thesis
    using http_request_parse_accepts [OF req_init_fresh, of 1 ?s plain_inet default_opts con' body] plain_inet_ok
    unfolding b by (simp add: SSIZE_MAX_def)
qed

section \<open>What the parser lets through\<close>

text \<open>The value of a Range field the parser takes note of.\<close>

definition range_form :: "string \<Rightarrow> bool" where
  "range_form v \<longleftrightarrow> strncaseeq v ''bytes='' 6 \<and> strchr (drop 6 v) CHR ''-'' \<noteq> None"

lemma process_range:
  assumes c: "con_ok (hp_con hp) es" and max: "length es < SSIZE_MAX" and v: "NUL \<notin> set v" and none: "rq_http_range (hp_con hp) = None"
  shows "elem_of es (lkey ''Range'') = None \<Longrightarrow> \<not> range_form v \<Longrightarrow>
      \<exists>con'. process_header opts hp ''Range'' v = Some (Go_On (hp\<lparr>hp_con := con'\<rparr>)) \<and> con_ok con' (es @ [dstring ''Range'' v]) \<and>
        same_line (hp_con hp) con' \<and> rq_http_range con' = None \<and> rq_http_host con' = rq_http_host (hp_con hp)"
    and "es = [dstring ''Range'' w] \<Longrightarrow> range_form v \<Longrightarrow>
      \<exists>con'. process_header opts hp ''Range'' v = Some (Go_On (hp\<lparr>hp_con := con'\<rparr>)) \<and> fields_hold (rq_headers con') [dstring ''Range'' (w @ '', '' @ v)] \<and>
        same_line (hp_con hp) con' \<and> rq_http_range con' = Some Text_Freed \<and> rq_http_host con' = rq_http_host (hp_con hp)"
proof -
  have k: "lkey ''Range'' \<noteq> lkey ''Host''" "lkey ''Range'' \<noteq> lkey ''If-Modified-Since''" "classify_header ''Range'' = H_Range"
    by code_simp+
  from header_element_ok [of "rq_headers (hp_con hp)" es "''Range''" v] c obtain a' where
    a': "header_element (rq_headers (hp_con hp)) ''Range'' v = (a', dstring ''Range'' v)" "fields_hold a' es"
    by (auto simp: con_ok_def)
  define con1 where "con1 = (hp_con hp)\<lparr>rq_headers := a'\<rparr>"
  have c1: "con_ok con1 es" and f1: "fields_hold (rq_headers con1) es" using c a'(2) by (simp_all add: con_ok_def con1_def)
  have eq: "process_header opts hp ''Range'' v =
      keep_ds (hp\<lparr>hp_con := con1\<rparr>) (dstring ''Range'' v) (\<lambda>n con. if range_form v then con\<lparr>rq_http_range := Some (text_ref_of n v 6)\<rparr> else con)"
    using a'(1) none k(3) by (simp add: process_header_def handle_range_def con1_def range_form_def)
  show "\<exists>con'. process_header opts hp ''Range'' v = Some (Go_On (hp\<lparr>hp_con := con'\<rparr>)) \<and> con_ok con' (es @ [dstring ''Range'' v]) \<and>
        same_line (hp_con hp) con' \<and> rq_http_range con' = None \<and> rq_http_host con' = rq_http_host (hp_con hp)"
    if new: "elem_of es (lkey ''Range'') = None" and nf: "\<not> range_form v"
  proof -
    from insert_header_new [OF f1 max new] obtain a2 where
      a2: "insert_header (rq_headers con1) (dstring ''Range'' v) = Some (a2, Some (length es))" "fields_hold a2 (es @ [dstring ''Range'' v])" .
    have "con_ok (con1\<lparr>rq_headers := a2\<rparr>) (es @ [dstring ''Range'' v])"
      using c1 a2(2) v refs_ok_new(1) [OF _ k(1)] refs_ok_new(2) [OF _ k(2)] by (auto simp: con_ok_def)
    then show ?thesis using eq a2(1) nf none
      by (intro exI [of _ "con1\<lparr>rq_headers := a2\<rparr>"]) (simp add: keep_ds_def same_line_def con1_def)
  qed
  show "\<exists>con'. process_header opts hp ''Range'' v = Some (Go_On (hp\<lparr>hp_con := con'\<rparr>)) \<and> fields_hold (rq_headers con') [dstring ''Range'' (w @ '', '' @ v)] \<and>
        same_line (hp_con hp) con' \<and> rq_http_range con' = Some Text_Freed \<and> rq_http_host con' = rq_http_host (hp_con hp)"
    if es: "es = [dstring ''Range'' w]" and nf: "range_form v"
  proof -
    from insert_header_dup [OF f1 max, of 0 "''Range''" w "''Range''" v] es obtain a2 where
      a2: "insert_header (rq_headers con1) (dstring ''Range'' v) = Some (a2, None)" "fields_hold a2 [dstring ''Range'' (w @ '', '' @ v)]" by auto
    then show ?thesis using eq nf
      by (intro exI [of _ "con1\<lparr>rq_headers := a2, rq_http_range := Some Text_Freed\<rparr>"])
        (simp add: keep_ds_def same_line_def con1_def text_ref_of_def)
  qed
qed

text \<open>C11: A request with two Range fields, the first one without a range of bytes, is accepted, but the pointer to
  the range leads into the second element, which was merged into the first one and freed: whoever uses
  the range of the request reads freed memory.\<close>

theorem duplicate_range_dangles:
  assumes fresh: "req_fresh con" "rq_http_range con = None"
    and u: "line_token u" "u \<noteq> []" "uri_chars_ok opts u" "\<not> absolute_uri u"
    and a: "field_text (''Range'', a)" "\<not> range_form a" and b: "field_text (''Range'', b)" "range_form b"
    and s: "s = print_request ''GET'' u HTTP_VERSION_1_0 [(''Range'', a), (''Range'', b)]"
  shows "\<exists>con'. http_request_parse net opts request_count s con = Some (con', 0) \<and> rq_http_status con' = 0 \<and>
    rq_http_range con' = Some Text_Freed \<and> arr_list (rq_headers con') = [dstring ''Range'' (a @ '', '' @ b)]"
proof -
  have name: "get_http_method_key ''GET'' = http_method_num HTTP_METHOD_GET" "HTTP_METHOD_GET \<noteq> HTTP_METHOD_UNSET" "line_token ''GET''"
    by code_simp+
  obtain hp con1 line where s': "s = line @ concat (map print_field [(''Range'', a), (''Range'', b)]) @ CRLF"
    and st: "line_start s (length line) hp"
    and hp: "hp_con hp = con1" "hp_keep hp = HTTP_CONNECTION_UNSET" "\<not> hp_len_set hp" "\<not> hp_reqline_host hp"
    and c: "con_ok con1 []" and con1: "rq_http_version con1 = HTTP_VERSION_1_0 \<and> rq_http_method con1 = HTTP_METHOD_GET \<and> rq_uri con1 = u \<and>
      rq_http_status con1 = 0 \<and> rq_http_range con1 = rq_http_range con \<and> rq_http_host con1 = None"
    and run: "\<forall>hp2. header_loop opts (length s) (length s + 2) hp = Some (Go_On hp2) \<longrightarrow>
      http_request_parse net opts request_count s con =
      finish_request net opts (hp_keep hp2) (hp_len_set hp2) ((hp_con hp2)\<lparr>rq_header_len := hp_i hp2\<rparr>)"
    by (rule parse_printed_line [OF fresh(1) name u _ _ s, of net request_count]) (simp_all del: header_loop.simps)
  define p q where "p = length line + length (print_field (''Range'', a))" and "q = p + length (print_field (''Range'', b))"
  have "s = line @ print_field (''Range'', a) @ (print_field (''Range'', b) @ CRLF)" using s' by simp
  from field_run [OF st this refl a(1), of opts] obtain hp1 where
    h1: "length (hp_m hp1) = Suc (length s)" "untouched s p (hp_m hp1)" "hp_con hp1 = con1" "hp_keep hp1 = HTTP_CONNECTION_UNSET"
      "\<not> hp_len_set hp1" "\<not> hp_done hp1" "\<not> hp_ws_after_key hp1"
    and r1: "\<forall>hp2 f. process_header opts hp1 ''Range'' a = Some (Go_On hp2) \<longrightarrow>
      header_loop opts (length s) (length ''Range'' + length a + 3 + f) hp =
      header_loop opts (length s) f (hp2\<lparr>hp_first := p, hp_is_key := True, hp_value := None, hp_in_folding := False, hp_i := p\<rparr>)"
    unfolding p_def hp(1) using hp(2-4) by metis
  have na: "NUL \<notin> set a" "NUL \<notin> set b" using a(1) b(1) field_text_no_zero by blast+
  have none: "elem_of [] (lkey ''Range'') = None" by (simp add: elem_of_def)
  have "con_ok (hp_con hp1) []" "rq_http_range (hp_con hp1) = None" "length ([] :: data_unset list) < SSIZE_MAX"
    using c con1 fresh(2) h1(3) by (simp_all add: SSIZE_MAX_def)
  from process_range(1) [OF this(1,3) na(1) this(2) none a(2), of opts] obtain con2 where
    c2: "process_header opts hp1 ''Range'' a = Some (Go_On (hp1\<lparr>hp_con := con2\<rparr>))" "con_ok con2 [dstring ''Range'' a]"
      "same_line con1 con2" "rq_http_range con2 = None" "rq_http_host con2 = None"
    using h1(3) con1 by auto
  define hp2 where "hp2 = hp1\<lparr>hp_con := con2, hp_first := p, hp_is_key := True, hp_value := None, hp_in_folding := False, hp_i := p\<rparr>"
  have st2: "line_start s p hp2" using h1 by (simp add: line_start_def hp2_def)
  have h2f: "hp_con hp2 = con2" "hp_keep hp2 = HTTP_CONNECTION_UNSET" "\<not> hp_len_set hp2"
    using h1(4,5) by (simp_all add: hp2_def)
  have "s = (line @ print_field (''Range'', a)) @ print_field (''Range'', b) @ CRLF" "length (line @ print_field (''Range'', a)) = p"
    using s' by (simp_all add: p_def)
  from field_run [OF st2 this b(1), of opts] obtain hp3 where
    h3: "length (hp_m hp3) = Suc (length s)" "untouched s q (hp_m hp3)" "hp_con hp3 = con2" "hp_keep hp3 = HTTP_CONNECTION_UNSET"
      "\<not> hp_len_set hp3" "\<not> hp_done hp3" "\<not> hp_ws_after_key hp3"
    and r2: "\<forall>hp' f. process_header opts hp3 ''Range'' b = Some (Go_On hp') \<longrightarrow>
      header_loop opts (length s) (length ''Range'' + length b + 3 + f) hp2 =
      header_loop opts (length s) f (hp'\<lparr>hp_first := q, hp_is_key := True, hp_value := None, hp_in_folding := False, hp_i := q\<rparr>)"
    unfolding q_def using h2f by metis
  have "con_ok (hp_con hp3) [dstring ''Range'' a]" "rq_http_range (hp_con hp3) = None" "length [dstring ''Range'' a] < SSIZE_MAX"
    using c2 h3(3) by (simp_all add: SSIZE_MAX_def)
  from process_range(2) [OF this(1,3) na(2) this(2) refl b(2), of opts] obtain con3 where
    c3: "process_header opts hp3 ''Range'' b = Some (Go_On (hp3\<lparr>hp_con := con3\<rparr>))"
      "fields_hold (rq_headers con3) [dstring ''Range'' (a @ '', '' @ b)]"
      "same_line con2 con3" "rq_http_range con3 = Some Text_Freed" "rq_http_host con3 = None"
    using h3(3) c2(5) by auto
  define hp4 where "hp4 = hp3\<lparr>hp_con := con3, hp_first := q, hp_is_key := True, hp_value := None, hp_in_folding := False, hp_i := q\<rparr>"
  have st4: "line_start s q hp4" using h3 by (simp add: line_start_def hp4_def)
  define f where "f = length s - (length a + length b + 16)"
  have "length s = length line + (length a + length b + 18) + 2" using s' by (simp add: print_field_def)
  then have f: "length s + 2 = length ''Range'' + length a + 3 + (length ''Range'' + length b + 3 + Suc (Suc f))"
    by (simp add: f_def)
  have "s = (line @ print_field (''Range'', a) @ print_field (''Range'', b)) @ CRLF"
    "length (line @ print_field (''Range'', a) @ print_field (''Range'', b)) = q"
    using s' by (simp_all add: p_def q_def)
  from end_run [OF st4 this, of opts f] obtain hp5 where
    h5: "header_loop opts (length s) (Suc (Suc f)) hp4 = Some (Go_On hp5)" "hp_con hp5 = hp_con hp4" "hp_keep hp5 = hp_keep hp4"
      "hp_len_set hp5 = hp_len_set hp4" "hp_i hp5 = length s" .
  have "header_loop opts (length s) (length s + 2) hp = Some (Go_On hp5)"
    unfolding f by (simp only: r1 [rule_format, OF c2(1), folded hp2_def] r2 [rule_format, OF c3(1), folded hp4_def] h5(1))
  then have "http_request_parse net opts request_count s con =
      finish_request net opts HTTP_CONNECTION_UNSET False (con3\<lparr>rq_header_len := length s\<rparr>)"
    using run h5 h3 by (simp add: hp4_def del: header_loop.simps)
  also have "\<dots> = Some (con3\<lparr>rq_header_len := length s, rq_keep_alive := False\<rparr>, 0)"
    using c2(3) c3(3,5) con1
    by (simp add: finish_request_def keep_alive_default_def check_host_def host_value_def check_method_def same_line_def)
  finally show ?thesis
    using c2(3) c3 con1 fields_hold_list [OF c3(2)] by (simp add: same_line_def)
qed

theorem duplicate_range_dangles_witness:
  "\<exists>con'. http_request_parse plain_inet default_opts 1
      (print_request ''GET'' ''/'' HTTP_VERSION_1_0 [(''Range'', ''x''), (''Range'', ''bytes=1-2'')]) req_init = Some (con', 0) \<and>
    rq_http_status con' = 0 \<and> rq_http_range con' = Some Text_Freed \<and> arr_list (rq_headers con') = [dstring ''Range'' ''x, bytes=1-2'']"
proof -
  have "rq_http_range req_init = None" "line_token ''/''" "uri_chars_ok default_opts ''/''" "\<not> absolute_uri ''/''" by code_simp+
  moreover have "field_text (''Range'', ''x'')" "\<not> range_form ''x''" "field_text (''Range'', ''bytes=1-2'')" "range_form ''bytes=1-2''"
    by code_simp+
  moreover have "\<exists>con'. http_request_parse plain_inet default_opts 1
      (print_request ''GET'' ''/'' HTTP_VERSION_1_0 [(''Range'', ''x''), (''Range'', ''bytes=1-2'')]) req_init = Some (con', 0) \<and>
    rq_http_status con' = 0 \<and> rq_http_range con' = Some Text_Freed \<and> arr_list (rq_headers con') = [dstring ''Range'' (''x'' @ '', '' @ ''bytes=1-2'')]"
    by (rule duplicate_range_dangles [OF req_init_fresh _ _ _ _ _ _ _ _ _ refl]) (use calculation in simp_all)
  ultimately show ?thesis by simp
qed

text \<open>The numbers of a version go through \<open>int\<close> and \<open>strtol\<close>.\<close>

lemma parse_version_wraps:
  "parse_version default_opts ''HTTP/4294967297. +1'' con = (con\<lparr>rq_http_version := HTTP_VERSION_1_1\<rparr>, True)"
proof -
  have "strneq ''HTTP/4294967297. +1'' ''HTTP/'' 5" "version_numbers (drop 5 ''HTTP/4294967297. +1'') = Some (1, 1)"
    by (simp_all add: strneq_def version_numbers_def strchr_def cstr_def NUL_def strtol10_def is_space_def is_digit_def
        dec_val_def digit_val_def clamp_long_def LONG_MAX_def LONG_MIN_def to_int_def)
  then show ?thesis by (simp add: parse_version_def default_opts_def)
qed

text \<open>A folded line changes the value of a field, but not the length that was read from it.\<close>

lemma folded_line_keeps_length:
  "folded_line hp = Some (Go_On hp') \<Longrightarrow> rq_content_length (hp_con hp') = rq_content_length (hp_con hp)"
  by (auto simp: folded_line_def bind_eq_Some_conv split: option.splits if_splits)

end
