(* ===== verification/Config_Cond.thy ===== *)
theory Config_Cond
  imports Store Keyvalue
begin

text \<open>
  The conditions of the configuration (\<open>configfile-glue.c\<close>): a tree of blocks with else branches, a cache of
  results per connection, and the comparison of the parts of a request with the texts, patterns and
  networks of the conditions. Log messages are left out.
\<close>

section \<open>Conditions\<close>

datatype comp_key =
    COMP_UNSET | COMP_SERVER_SOCKET | COMP_HTTP_URL | COMP_HTTP_HOST | COMP_HTTP_REFERER | COMP_HTTP_USER_AGENT
  | COMP_HTTP_LANGUAGE | COMP_HTTP_COOKIE | COMP_HTTP_REMOTE_IP | COMP_HTTP_QUERY_STRING | COMP_HTTP_SCHEME
  | COMP_HTTP_REQUEST_METHOD

datatype config_cond = CONFIG_COND_UNSET | CONFIG_COND_EQ | CONFIG_COND_MATCH | CONFIG_COND_NE | CONFIG_COND_NOMATCH

datatype cond_result = COND_RESULT_UNSET | COND_RESULT_SKIP | COND_RESULT_FALSE | COND_RESULT_TRUE

text \<open>
  A block of the configuration. \<open>context_ndx\<close> is its position in \<open>srv->config_context\<close>, and the pointers to
  other blocks are their positions; the block at position 0 is the global one.
\<close>

record 'p data_config =
  dc_comp :: comp_key
  dc_cond :: config_cond
  dc_value :: arr
  dc_string :: string
  dc_regex :: 'p
  dc_parent :: "nat option"
  dc_prev :: "nat option"
  dc_next :: "nat option"
  dc_children :: "nat list"

text \<open>The buffer a captured text lies in: fields of the connection, or scratch buffers of the server.\<close>

datatype cond_value =
    Val_Authority | Val_Check_Buf | Val_Remote_Ip | Val_Scheme | Val_Url | Val_Query | Val_Token
  | Val_Header nat | Val_Tmp_Buf | Val_Empty

record cond_cache =
  cc_result :: cond_result
  cc_local_result :: cond_result
  cc_patterncount :: int
  cc_matches :: "int list"
  cc_comp_value :: "cond_value option"

text \<open>
  The parts of a connection that conditions look at. Addresses are numbers in host order: 32 bits, or 16 octets.
\<close>

datatype sock_addr = AF_INET "32 word" | AF_INET6 "8 word list" | AF_OTHER

record cond_env =
  ce_authority :: "string option"
  ce_remote_ip :: "string option"
  ce_dst_addr :: sock_addr
  ce_scheme :: "string option"
  ce_path :: "string option"
  ce_query :: "string option"
  ce_token :: "string option"
  ce_port :: nat
  ce_headers :: arr
  ce_method :: http_method

record cond_state =
  cs_env :: cond_env
  cs_cache :: "cond_cache list"
  cs_valid :: "comp_key \<Rightarrow> bool"
  cs_check_buf :: "string option"
  cs_tmp_buf :: "string option"

text \<open>
  The libraries: \<open>pcre_exec\<close> returns the number of captured texts and the offsets it stored (a negative
  number without a match); for an unset buffer it gets \<open>None\<close>, which stands for the pointer of such a buffer (it may be
  \<open>NULL\<close>, an error for pcre). \<open>inet_pton\<close> reads addresses.
\<close>

record 'p cond_lib =
  pcre_exec :: "'p \<Rightarrow> string option \<Rightarrow> int \<times> int list"
  inet_pton4 :: "string \<Rightarrow> 32 word option"
  inet_pton6 :: "string \<Rightarrow> 8 word list option"

section \<open>Networks\<close>

definition is_v4mapped :: "8 word list \<Rightarrow> bool" where
  "is_v4mapped a \<longleftrightarrow> take 10 a = replicate 10 0 \<and> take 2 (drop 10 a) = [255, 255]"

definition v4_part :: "8 word list \<Rightarrow> 32 word" where
  "v4_part a = word_rcat (drop 12 a)"

text \<open>The loop over the octets of two addresses; \<open>None\<close> would be reading behind them.\<close>

fun ip6_prefix :: "8 word list \<Rightarrow> 8 word list \<Rightarrow> nat \<Rightarrow> bool option" where
  "ip6_prefix (a # as) (b # bs) nm_bits =
     (let match = (if nm_bits \<ge> 8 then a = b else drop_bit (8 - nm_bits) a = drop_bit (8 - nm_bits) b)
      in if match \<and> nm_bits > 8 then ip6_prefix as bs (nm_bits - 8) else Some match)"
| "ip6_prefix _ _ _ = None"

definition ip4_mask :: "nat \<Rightarrow> 32 word" where
  "ip4_mask nm_bits = NOT (push_bit (32 - (if nm_bits \<noteq> 0 then nm_bits else 32)) 1 - 1)"

definition mapped_mask :: "nat \<Rightarrow> 32 word" where
  "mapped_mask nm_bits =
     (if nm_bits < 128 then NOT (drop_bit (if nm_bits > 96 then nm_bits - 96 else 0) (NOT 0)) else NOT 0)"

text \<open>\<open>None\<close> (outside) is undefined behaviour, the result is 1, 0 or -1.\<close>

definition config_addrstr_eq_remote_ip_mask ::
    "'p cond_lib \<Rightarrow> string \<Rightarrow> nat \<Rightarrow> sock_addr \<Rightarrow> int option" where
  "config_addrstr_eq_remote_ip_mask lib addrstr nm_bits rmt =
     (case inet_pton4 lib addrstr of
        Some val \<Rightarrow>
          if nm_bits > 32 then Some (- 1)
          else let nm = ip4_mask nm_bits
            in (case rmt of
                  AF_INET x \<Rightarrow> Some (of_bool (and val nm = and x nm))
                | AF_INET6 a \<Rightarrow>
                    if is_v4mapped a then Some (of_bool (and val nm = and (v4_part a) nm)) else Some 0
                | AF_OTHER \<Rightarrow> Some 0)
      | None \<Rightarrow>
          case inet_pton6 lib addrstr of
            Some val \<Rightarrow>
              if nm_bits > 128 then Some (- 1)
              else (case rmt of
                      AF_INET6 a \<Rightarrow> map_option of_bool (ip6_prefix val a nm_bits)
                    | AF_INET x \<Rightarrow>
                        if is_v4mapped val
                        then let nm = mapped_mask nm_bits in Some (of_bool (and (v4_part val) nm = and x nm))
                        else Some 0
                    | AF_OTHER \<Rightarrow> Some 0)
          | None \<Rightarrow> Some (- 1))"

definition config_addrbuf_eq_remote_ip_mask ::
    "'p cond_lib \<Rightarrow> string \<Rightarrow> nat \<Rightarrow> sock_addr \<Rightarrow> int option" where
  "config_addrbuf_eq_remote_ip_mask lib s nm_slash rmt =
     (let (v, err) = strtol10 (drop (nm_slash + 1) s);
          nm_bits = to_int v
      in if err \<noteq> [] then Some (- 1)
         else if nm_bits \<le> 0 then Some (- 1)
         else if nm_slash \<ge> 64 then Some (- 1)
         else config_addrstr_eq_remote_ip_mask lib (take nm_slash s) (nat nm_bits) rmt)"

section \<open>The value a condition looks at\<close>

definition header_value :: "cond_env \<Rightarrow> string \<Rightarrow> cond_value option" where
  "header_value env key = do {
     (found, _) \<leftarrow> array_get_index (ce_headers env) key;
     case found of
       None \<Rightarrow> Some Val_Empty
     | Some n \<Rightarrow> do {
         du \<leftarrow> cell_read (a_data (ce_headers env)) n;
         case du_payload du of DString _ _ \<Rightarrow> Some (Val_Header n) | _ \<Rightarrow> None
       }
   }"

definition value_text :: "cond_state \<Rightarrow> cond_value \<Rightarrow> string option option" where
  "value_text st v =
     (case v of
        Val_Authority \<Rightarrow> Some (ce_authority (cs_env st))
      | Val_Check_Buf \<Rightarrow> Some (cs_check_buf st)
      | Val_Remote_Ip \<Rightarrow> Some (ce_remote_ip (cs_env st))
      | Val_Scheme \<Rightarrow> Some (ce_scheme (cs_env st))
      | Val_Url \<Rightarrow> Some (ce_path (cs_env st))
      | Val_Query \<Rightarrow> Some (ce_query (cs_env st))
      | Val_Token \<Rightarrow> Some (ce_token (cs_env st))
      | Val_Header n \<Rightarrow> do {
          du \<leftarrow> cell_read (a_data (ce_headers (cs_env st))) n;
          case du_payload du of DString s _ \<Rightarrow> Some s | _ \<Rightarrow> None
        }
      | Val_Tmp_Buf \<Rightarrow> Some (cs_tmp_buf st)
      | Val_Empty \<Rightarrow> Some (Some []))"

definition is_eq_or_ne :: "config_cond \<Rightarrow> bool" where
  "is_eq_or_ne c \<longleftrightarrow> c = CONFIG_COND_NE \<or> c = CONFIG_COND_EQ"

text \<open>The host: the port is added or dropped to make the request comparable with the condition.\<close>

definition host_cond_value :: "'p data_config \<Rightarrow> cond_state \<Rightarrow> cond_state \<times> cond_value" where
  "host_cond_value dc st =
     (let l = bstr (ce_authority (cs_env st))
      in if l \<noteq> [] then
           if is_eq_or_ne (dc_cond dc)
           then case (strchr (dc_string dc) CHR '':'', strchr l CHR '':'') of
               (Some _, None) \<Rightarrow>
                 (st\<lparr>cs_check_buf := Some (l @ '':'' @ itostr (of_nat (ce_port (cs_env st))) [])\<rparr>, Val_Check_Buf)
             | (None, Some k) \<Rightarrow> (st\<lparr>cs_check_buf := Some (take k l)\<rparr>, Val_Check_Buf)
             | _ \<Rightarrow> (st, Val_Authority)
           else (st, Val_Authority)
         else (st, Val_Empty))"

text \<open>\<open>Inr\<close> is a result that needs no comparison.\<close>

definition remote_cond_value :: "'p cond_lib \<Rightarrow> 'p data_config \<Rightarrow> cond_state \<Rightarrow> (cond_value + cond_result) option" where
  "remote_cond_value lib dc st =
     (case (if is_eq_or_ne (dc_cond dc) then strchr (dc_string dc) CHR ''/'' else None) of
        None \<Rightarrow> Some (Inl Val_Remote_Ip)
      | Some nm_slash \<Rightarrow> do {
          r \<leftarrow> config_addrbuf_eq_remote_ip_mask lib (dc_string dc) nm_slash (ce_dst_addr (cs_env st));
          Some (Inr
            (if r = 1 then if dc_cond dc = CONFIG_COND_EQ then COND_RESULT_TRUE else COND_RESULT_FALSE
             else if r = 0 then if dc_cond dc = CONFIG_COND_EQ then COND_RESULT_FALSE else COND_RESULT_TRUE
             else COND_RESULT_FALSE))
        })"

definition cond_value_of ::
    "'p cond_lib \<Rightarrow> 'p data_config \<Rightarrow> cond_state \<Rightarrow> (cond_state \<times> (cond_value + cond_result)) option" where
  "cond_value_of lib dc st =
     (let header = (\<lambda>key. map_option (\<lambda>v. (st, Inl v)) (header_value (cs_env st) key))
      in case dc_comp dc of
           COMP_HTTP_HOST \<Rightarrow> (case host_cond_value dc st of (st, v) \<Rightarrow> Some (st, Inl v))
         | COMP_HTTP_REMOTE_IP \<Rightarrow> map_option (Pair st) (remote_cond_value lib dc st)
         | COMP_HTTP_SCHEME \<Rightarrow> Some (st, Inl Val_Scheme)
         | COMP_HTTP_URL \<Rightarrow> Some (st, Inl Val_Url)
         | COMP_HTTP_QUERY_STRING \<Rightarrow> Some (st, Inl Val_Query)
         | COMP_SERVER_SOCKET \<Rightarrow> Some (st, Inl Val_Token)
         | COMP_HTTP_REFERER \<Rightarrow> header ''Referer''
         | COMP_HTTP_COOKIE \<Rightarrow> header ''Cookie''
         | COMP_HTTP_USER_AGENT \<Rightarrow> header ''User-Agent''
         | COMP_HTTP_REQUEST_METHOD \<Rightarrow>
             Some (st\<lparr>cs_tmp_buf := Some (bstr (get_http_method_name (ce_method (cs_env st))))\<rparr>, Inl Val_Tmp_Buf)
         | COMP_HTTP_LANGUAGE \<Rightarrow> header ''Accept-Language''
         | COMP_UNSET \<Rightarrow> Some (st, Inr COND_RESULT_FALSE))"

section \<open>Checking a condition\<close>

definition cache_at :: "cond_state \<Rightarrow> nat \<Rightarrow> cond_cache option" where
  "cache_at st n = (if n < length (cs_cache st) then Some (cs_cache st ! n) else None)"

definition set_cache :: "nat \<Rightarrow> cond_cache \<Rightarrow> cond_state \<Rightarrow> cond_state" where
  "set_cache n c st = st\<lparr>cs_cache := (cs_cache st)[n := c]\<rparr>"

definition cond_compare ::
    "'p cond_lib \<Rightarrow> 'p data_config \<Rightarrow> nat \<Rightarrow> cond_value \<Rightarrow> cond_state \<Rightarrow> (cond_state \<times> cond_result) option" where
  "cond_compare lib dc n v st = do {
     l \<leftarrow> value_text st v;
     if is_eq_or_ne (dc_cond dc)
     then Some (st,
       if l = Some (dc_string dc)
       then if dc_cond dc = CONFIG_COND_EQ then COND_RESULT_TRUE else COND_RESULT_FALSE
       else if dc_cond dc = CONFIG_COND_EQ then COND_RESULT_FALSE else COND_RESULT_TRUE)
     else if dc_cond dc = CONFIG_COND_UNSET then Some (st, COND_RESULT_FALSE)
     else do {
       c \<leftarrow> cache_at st n;
       let (k, matches) = pcre_exec lib (dc_regex dc) l;
       let c = c\<lparr>cc_patterncount := k, cc_matches := matches\<rparr>;
       if k > 0
       then Some (set_cache n (c\<lparr>cc_comp_value := Some v\<rparr>) st,
         if dc_cond dc = CONFIG_COND_MATCH then COND_RESULT_TRUE else COND_RESULT_FALSE)
       else Some (set_cache n c st,
         if dc_cond dc = CONFIG_COND_MATCH then COND_RESULT_FALSE else COND_RESULT_TRUE)
     }
   }"

text \<open>The second half of \<open>config_check_cond_nocache\<close>: the condition itself.\<close>

definition config_check_local ::
    "'p cond_lib \<Rightarrow> 'p data_config \<Rightarrow> nat \<Rightarrow> cond_state \<Rightarrow> (cond_state \<times> cond_result) option" where
  "config_check_local lib dc n st =
     (if \<not> cs_valid st (dc_comp dc) then Some (st, COND_RESULT_UNSET)
      else do {
        c \<leftarrow> cache_at st n;
        if cc_local_result c = COND_RESULT_TRUE \<or> cc_local_result c = COND_RESULT_FALSE
        then Some (st, cc_local_result c)
        else do {
          (st, v) \<leftarrow> cond_value_of lib dc st;
          case v of Inr r \<Rightarrow> Some (st, r) | Inl v \<Rightarrow> cond_compare lib dc n v st
        }
      })"

text \<open>The first half: the blocks around it and before it, checked by \<open>check\<close>.\<close>

definition config_check_cond_nocache ::
    "(nat \<Rightarrow> cond_state \<Rightarrow> (cond_state \<times> cond_result) option) \<Rightarrow> 'p cond_lib \<Rightarrow> 'p data_config list \<Rightarrow>
       nat \<Rightarrow> cond_state \<Rightarrow> (cond_state \<times> cond_result) option" where
  "config_check_cond_nocache check lib ctx n st = do {
     force_assert (n < length ctx);
     let dc = ctx ! n;
     (st, up) \<leftarrow> (case dc_parent dc of
         Some p \<Rightarrow> if p \<noteq> 0 then check p st else Some (st, COND_RESULT_TRUE)
       | None \<Rightarrow> Some (st, COND_RESULT_TRUE));
     if up = COND_RESULT_UNSET then Some (st, COND_RESULT_UNSET)
     else if up \<noteq> COND_RESULT_TRUE then Some (st, COND_RESULT_SKIP)
     else do {
       (st, before) \<leftarrow> (case dc_prev dc of Some q \<Rightarrow> check q st | None \<Rightarrow> Some (st, COND_RESULT_FALSE));
       if before = COND_RESULT_UNSET then Some (st, COND_RESULT_UNSET)
       else if before \<noteq> COND_RESULT_FALSE then Some (st, COND_RESULT_SKIP)
       else config_check_local lib dc n st
     }
   }"

text \<open>The two functions call each other; \<open>fuel\<close> bounds the depth.\<close>

fun config_check_cond_cached ::
    "'p cond_lib \<Rightarrow> 'p data_config list \<Rightarrow> nat \<Rightarrow> nat \<Rightarrow> cond_state \<Rightarrow> (cond_state \<times> cond_result) option" where
  "config_check_cond_cached lib ctx 0 n st = None"
| "config_check_cond_cached lib ctx (Suc fuel) n st = do {
     c \<leftarrow> cache_at st n;
     if cc_result c = COND_RESULT_UNSET
     then do {
       (st, r) \<leftarrow> config_check_cond_nocache (config_check_cond_cached lib ctx fuel) lib ctx n st;
       c \<leftarrow> cache_at st n;
       let c = c\<lparr>cc_result := r\<rparr>;
       let c = (if r = COND_RESULT_FALSE \<or> r = COND_RESULT_TRUE then c\<lparr>cc_local_result := r\<rparr> else c);
       Some (set_cache n c st, r)
     }
     else Some (st, cc_result c)
   }"

definition config_check_cond :: "'p cond_lib \<Rightarrow> 'p data_config list \<Rightarrow> nat \<Rightarrow> cond_state \<Rightarrow> (cond_state \<times> bool) option" where
  "config_check_cond lib ctx n st =
     map_option (\<lambda>(st, r). (st, r = COND_RESULT_TRUE)) (config_check_cond_cached lib ctx (n + 1) n st)"

section \<open>Clearing the cache\<close>

text \<open>A node with its children, of which each chain is entered at its first branch, and the branches behind it.\<close>

fun config_cond_clear_node :: "'p data_config list \<Rightarrow> nat \<Rightarrow> nat \<Rightarrow> cond_state \<Rightarrow> cond_state option" where
  "config_cond_clear_node ctx 0 n st = None"
| "config_cond_clear_node ctx (Suc fuel) n st = do {
     c \<leftarrow> cache_at st n;
     force_assert (n < length ctx);
     if cc_result c \<noteq> COND_RESULT_UNSET
     then do {
       let st = set_cache n (c\<lparr>cc_result := COND_RESULT_UNSET, cc_patterncount := 0, cc_comp_value := None\<rparr>) st;
       st \<leftarrow> fold (\<lambda>m r. do {
           st \<leftarrow> r;
           force_assert (m < length ctx);
           if dc_prev (ctx ! m) = None then config_cond_clear_node ctx fuel m st else Some st
         }) (dc_children (ctx ! n)) (Some st);
       case dc_next (ctx ! n) of None \<Rightarrow> Some st | Some m \<Rightarrow> config_cond_clear_node ctx fuel m st
     }
     else Some st
   }"

definition reset_item_at :: "'p data_config list \<Rightarrow> comp_key \<Rightarrow> nat \<Rightarrow> cond_state \<Rightarrow> cond_state option" where
  "reset_item_at ctx item i st =
     (if dc_comp (ctx ! i) = item
      then do {
        c \<leftarrow> cache_at st i;
        config_cond_clear_node ctx (length ctx) i (set_cache i (c\<lparr>cc_local_result := COND_RESULT_UNSET\<rparr>) st)
      }
      else Some st)"

definition config_cond_cache_reset_item :: "'p data_config list \<Rightarrow> comp_key \<Rightarrow> cond_state \<Rightarrow> cond_state option" where
  "config_cond_cache_reset_item ctx item st =
     fold (\<lambda>i r. do { st \<leftarrow> r; reset_item_at ctx item i st }) [0..<length ctx] (Some st)"

definition config_cond_cache_reset :: "'p data_config list \<Rightarrow> cond_state \<Rightarrow> cond_state option" where
  "config_cond_cache_reset ctx st = do {
     force_assert (length ctx \<le> length (cs_cache st));
     Some (st\<lparr>cs_cache := map (\<lambda>c. c\<lparr>cc_result := COND_RESULT_UNSET, cc_local_result := COND_RESULT_UNSET,
                cc_patterncount := 0, cc_comp_value := None\<rparr>) (take (length ctx) (cs_cache st)) @ drop (length ctx) (cs_cache st),
              cs_valid := \<lambda>_. False\<rparr>)
   }"

text \<open>Using what a pattern captured: \<open>None\<close> (outside) is reading outside the buffer or through \<open>NULL\<close>.\<close>

definition config_append_cond_match_buffer ::
    "cond_state \<Rightarrow> nat \<Rightarrow> string \<Rightarrow> nat \<Rightarrow> (string \<times> bool) option" where
  "config_append_cond_match_buffer st ndx buf n = do {
     c \<leftarrow> cache_at st ndx;
     if int n \<ge> cc_patterncount c then Some (buf, False)
     else do {
       v \<leftarrow> cc_comp_value c;
       l \<leftarrow> value_text st v;
       force_assert (2 * n + 1 < length (cc_matches c));
       let s = cc_matches c ! (2 * n);
       let e = cc_matches c ! (2 * n + 1);
       if e = s then Some (buf, True)
       else do {
         force_assert (0 \<le> s \<and> s \<le> e \<and> e \<le> int (length (bstr l)));
         Some (buf @ take (nat (e - s)) (drop (nat s) (bstr l)), True)
       }
     }
   }"

end
