(* ===== verification/Config_Inv.thy ===== *)
theory Config_Inv
  imports Config_Cond
begin

text \<open>
  What a condition means without the cache, and the invariant of the cache: a stored result is the meaning
  of its block, and a block with a result has one for the blocks it depends on.
\<close>

section \<open>The meaning of a condition\<close>

definition header_text :: "cond_env \<Rightarrow> string \<Rightarrow> string option" where
  "header_text env key =
     (case store_look ds_value (ce_headers env) (lkey key) of None \<Rightarrow> Some [] | Some v \<Rightarrow> v)"

definition has_colon :: "string \<Rightarrow> bool" where
  "has_colon s \<longleftrightarrow> CHR '':'' \<in> set (cstr s)"

text \<open>The host is compared with or without its port, as the condition has one or not.\<close>

definition host_text :: "'p data_config \<Rightarrow> cond_env \<Rightarrow> string option" where
  "host_text dc env =
     (let l = bstr (ce_authority env)
      in if l = [] then Some []
         else if \<not> is_eq_or_ne (dc_cond dc) \<or> has_colon (dc_string dc) = has_colon l then ce_authority env
         else if has_colon l then Some (takeWhile (\<lambda>c. c \<noteq> CHR '':'') l)
         else Some (l @ '':'' @ itostr (of_nat (ce_port env)) []))"

definition cond_text :: "'p data_config \<Rightarrow> cond_env \<Rightarrow> string option" where
  "cond_text dc env =
     (case dc_comp dc of
        COMP_UNSET \<Rightarrow> None
      | COMP_SERVER_SOCKET \<Rightarrow> ce_token env
      | COMP_HTTP_URL \<Rightarrow> ce_path env
      | COMP_HTTP_HOST \<Rightarrow> host_text dc env
      | COMP_HTTP_REFERER \<Rightarrow> header_text env ''Referer''
      | COMP_HTTP_USER_AGENT \<Rightarrow> header_text env ''User-Agent''
      | COMP_HTTP_LANGUAGE \<Rightarrow> header_text env ''Accept-Language''
      | COMP_HTTP_COOKIE \<Rightarrow> header_text env ''Cookie''
      | COMP_HTTP_REMOTE_IP \<Rightarrow> ce_remote_ip env
      | COMP_HTTP_QUERY_STRING \<Rightarrow> ce_query env
      | COMP_HTTP_SCHEME \<Rightarrow> ce_scheme env
      | COMP_HTTP_REQUEST_METHOD \<Rightarrow> Some (bstr (get_http_method_name (ce_method env))))"

definition text_matches :: "'p cond_lib \<Rightarrow> 'p data_config \<Rightarrow> string option \<Rightarrow> bool" where
  "text_matches lib dc l =
     (case dc_cond dc of
        CONFIG_COND_UNSET \<Rightarrow> False
      | CONFIG_COND_EQ \<Rightarrow> l = Some (dc_string dc)
      | CONFIG_COND_NE \<Rightarrow> l \<noteq> Some (dc_string dc)
      | CONFIG_COND_MATCH \<Rightarrow> 0 < fst (pcre_exec lib (dc_regex dc) l)
      | CONFIG_COND_NOMATCH \<Rightarrow> \<not> 0 < fst (pcre_exec lib (dc_regex dc) l))"

definition is_network :: "'p data_config \<Rightarrow> bool" where
  "is_network dc \<longleftrightarrow> dc_comp dc = COMP_HTTP_REMOTE_IP \<and> is_eq_or_ne (dc_cond dc) \<and> CHR ''/'' \<in> set (cstr (dc_string dc))"

definition in_network :: "'p cond_lib \<Rightarrow> 'p data_config \<Rightarrow> cond_env \<Rightarrow> int" where
  "in_network lib dc env =
     the (config_addrbuf_eq_remote_ip_mask lib (dc_string dc) (the (strchr (dc_string dc) CHR ''/'')) (ce_dst_addr env))"

definition cond_true :: "'p cond_lib \<Rightarrow> 'p data_config \<Rightarrow> cond_env \<Rightarrow> bool" where
  "cond_true lib dc env =
     (if dc_comp dc = COMP_UNSET then False
      else if is_network dc then in_network lib dc env = (if dc_cond dc = CONFIG_COND_EQ then 1 else 0)
      else text_matches lib dc (cond_text dc env))"

definition result_of :: "bool \<Rightarrow> cond_result" where
  "result_of b = (if b then COND_RESULT_TRUE else COND_RESULT_FALSE)"

lemma result_of_simps [simp]:
  "result_of True = COND_RESULT_TRUE" "result_of False = COND_RESULT_FALSE"
  "result_of b \<noteq> COND_RESULT_UNSET" "result_of b \<noteq> COND_RESULT_SKIP"
  "result_of b = COND_RESULT_TRUE \<longleftrightarrow> b" "result_of b = COND_RESULT_FALSE \<longleftrightarrow> \<not> b"
  by (simp_all add: result_of_def)

text \<open>What the block at \<open>n\<close> yields: its condition, in a true block, behind branches that are false.\<close>

function cond_spec ::
    "'p cond_lib \<Rightarrow> 'p data_config list \<Rightarrow> cond_env \<Rightarrow> (comp_key \<Rightarrow> bool) \<Rightarrow> nat \<Rightarrow> cond_result" where
  "cond_spec lib ctx env valid n =
     (let dc = ctx ! n;
          up = (case dc_parent dc of
              Some p \<Rightarrow> if 0 < p \<and> p < n then cond_spec lib ctx env valid p else COND_RESULT_TRUE
            | None \<Rightarrow> COND_RESULT_TRUE);
          before = (case dc_prev dc of
              Some q \<Rightarrow> if q < n then cond_spec lib ctx env valid q else COND_RESULT_FALSE
            | None \<Rightarrow> COND_RESULT_FALSE)
      in if up = COND_RESULT_UNSET then COND_RESULT_UNSET
         else if up \<noteq> COND_RESULT_TRUE then COND_RESULT_SKIP
         else if before = COND_RESULT_UNSET then COND_RESULT_UNSET
         else if before \<noteq> COND_RESULT_FALSE then COND_RESULT_SKIP
         else if \<not> valid (dc_comp dc) then COND_RESULT_UNSET
         else result_of (cond_true lib dc env))"
  by pat_completeness auto
termination
  by (relation "measure (\<lambda>(lib, ctx, env, valid, n). n)") auto

declare cond_spec.simps [simp del]

text \<open>The links between the blocks, as the configuration parser sets them.\<close>

definition wf_ctx :: "'p data_config list \<Rightarrow> bool" where
  "wf_ctx ctx \<longleftrightarrow> (\<forall>n < length ctx.
     (\<forall>p. dc_parent (ctx ! n) = Some p \<longrightarrow> p < n \<and> n \<in> set (dc_children (ctx ! p))) \<and>
     (\<forall>q. dc_prev (ctx ! n) = Some q \<longrightarrow> 0 < q \<and> q < n \<and> dc_next (ctx ! q) = Some n \<and>
        dc_parent (ctx ! q) = dc_parent (ctx ! n)) \<and>
     (\<forall>m. dc_next (ctx ! n) = Some m \<longrightarrow> n < m \<and> m < length ctx) \<and>
     (\<forall>m \<in> set (dc_children (ctx ! n)). n < m \<and> m < length ctx))"

lemma wf_ctxD:
  assumes "wf_ctx ctx" and "n < length ctx"
  shows "dc_parent (ctx ! n) = Some p \<Longrightarrow> p < n" and "dc_parent (ctx ! n) = Some p \<Longrightarrow> n \<in> set (dc_children (ctx ! p))"
    and "dc_prev (ctx ! n) = Some q \<Longrightarrow> 0 < q" and "dc_prev (ctx ! n) = Some q \<Longrightarrow> q < n"
    and "dc_prev (ctx ! n) = Some q \<Longrightarrow> dc_next (ctx ! q) = Some n"
    and "dc_prev (ctx ! n) = Some q \<Longrightarrow> dc_parent (ctx ! q) = dc_parent (ctx ! n)"
    and "dc_next (ctx ! n) = Some m \<Longrightarrow> n < m" and "dc_next (ctx ! n) = Some m \<Longrightarrow> m < length ctx"
    and "m \<in> set (dc_children (ctx ! n)) \<Longrightarrow> n < m" and "m \<in> set (dc_children (ctx ! n)) \<Longrightarrow> m < length ctx"
  using assms unfolding wf_ctx_def by blast+

definition deps :: "'p data_config \<Rightarrow> nat set" where
  "deps dc = {p. dc_parent dc = Some p \<and> p \<noteq> 0} \<union> {q. dc_prev dc = Some q}"

lemma deps_less: "wf_ctx ctx \<Longrightarrow> n < length ctx \<Longrightarrow> d \<in> deps (ctx ! n) \<Longrightarrow> 0 < d \<and> d < n"
  using wf_ctxD(1,3,4) by (fastforce simp: deps_def)

text \<open>The meaning in terms of the blocks it depends on.\<close>

definition spec_up ::
    "'p cond_lib \<Rightarrow> 'p data_config list \<Rightarrow> cond_env \<Rightarrow> (comp_key \<Rightarrow> bool) \<Rightarrow> nat \<Rightarrow> cond_result" where
  "spec_up lib ctx env valid n = (case dc_parent (ctx ! n) of
      Some p \<Rightarrow> if p \<noteq> 0 then cond_spec lib ctx env valid p else COND_RESULT_TRUE | None \<Rightarrow> COND_RESULT_TRUE)"

definition spec_before ::
    "'p cond_lib \<Rightarrow> 'p data_config list \<Rightarrow> cond_env \<Rightarrow> (comp_key \<Rightarrow> bool) \<Rightarrow> nat \<Rightarrow> cond_result" where
  "spec_before lib ctx env valid n = (case dc_prev (ctx ! n) of
      Some q \<Rightarrow> cond_spec lib ctx env valid q | None \<Rightarrow> COND_RESULT_FALSE)"

lemma cond_spec_wf:
  assumes "wf_ctx ctx" and "n < length ctx"
  shows "cond_spec lib ctx env valid n =
    (if spec_up lib ctx env valid n = COND_RESULT_UNSET then COND_RESULT_UNSET
     else if spec_up lib ctx env valid n \<noteq> COND_RESULT_TRUE then COND_RESULT_SKIP
     else if spec_before lib ctx env valid n = COND_RESULT_UNSET then COND_RESULT_UNSET
     else if spec_before lib ctx env valid n \<noteq> COND_RESULT_FALSE then COND_RESULT_SKIP
     else if \<not> valid (dc_comp (ctx ! n)) then COND_RESULT_UNSET else result_of (cond_true lib (ctx ! n) env))"
proof -
  have "(case dc_parent (ctx ! n) of
      Some p \<Rightarrow> if 0 < p \<and> p < n then cond_spec lib ctx env valid p else COND_RESULT_TRUE | None \<Rightarrow> COND_RESULT_TRUE) =
    spec_up lib ctx env valid n"
    using wf_ctxD(1) [OF assms(1,2)] by (auto simp: spec_up_def split: option.splits)
  moreover have "(case dc_prev (ctx ! n) of
      Some q \<Rightarrow> if q < n then cond_spec lib ctx env valid q else COND_RESULT_FALSE | None \<Rightarrow> COND_RESULT_FALSE) =
    spec_before lib ctx env valid n"
    using wf_ctxD(4) [OF assms(1,2)] by (auto simp: spec_before_def split: option.splits)
  ultimately show ?thesis by (subst cond_spec.simps) (simp only: Let_def)
qed

lemma cond_spec_prev:
  assumes wf: "wf_ctx ctx" and n: "n < length ctx" and q: "dc_prev (ctx ! n) = Some q"
    and r: "cond_spec lib ctx env valid n \<noteq> COND_RESULT_UNSET"
  shows "cond_spec lib ctx env valid q \<noteq> COND_RESULT_UNSET"
proof -
  have ql: "q < length ctx" and "dc_parent (ctx ! q) = dc_parent (ctx ! n)" using wf_ctxD [OF wf n] q n by force+
  then have "spec_up lib ctx env valid q = spec_up lib ctx env valid n" by (simp add: spec_up_def)
  moreover have "spec_before lib ctx env valid n = cond_spec lib ctx env valid q" using q by (simp add: spec_before_def)
  ultimately show ?thesis
    using r cond_spec_wf [OF wf n, of lib env valid] cond_spec_wf [OF wf ql, of lib env valid]
    by (auto split: if_splits)
qed

text \<open>Two environments in which the blocks it depends on mean the same.\<close>

lemma cond_spec_cong:
  assumes wf: "wf_ctx ctx" and n: "n < length ctx" and r: "cond_spec lib ctx env valid n \<noteq> COND_RESULT_UNSET"
    and deps: "\<And>d. d \<in> deps (ctx ! n) \<Longrightarrow> cond_spec lib ctx env valid d \<noteq> COND_RESULT_UNSET \<Longrightarrow>
      cond_spec lib ctx env' valid' d = cond_spec lib ctx env valid d"
    and own: "valid (dc_comp (ctx ! n)) \<Longrightarrow> valid' (dc_comp (ctx ! n)) \<and>
      cond_true lib (ctx ! n) env' = cond_true lib (ctx ! n) env"
  shows "cond_spec lib ctx env' valid' n = cond_spec lib ctx env valid n"
proof -
  note spec = cond_spec_wf [OF wf n, of lib]
  have "spec_up lib ctx env valid n \<noteq> COND_RESULT_UNSET" using r spec [of env valid] by (auto split: if_splits)
  then have up: "spec_up lib ctx env' valid' n = spec_up lib ctx env valid n"
    using deps by (auto simp: spec_up_def deps_def split: option.splits)
  have before: "spec_before lib ctx env' valid' n = spec_before lib ctx env valid n"
    using deps cond_spec_prev [OF wf n _ r] by (auto simp: spec_before_def deps_def split: option.splits)
  show ?thesis
    using r own unfolding spec [of env valid] spec [of env' valid'] up before by (auto split: if_splits)
qed

text \<open>A result that is known stays when more of the request becomes known.\<close>

lemma cond_spec_mono:
  assumes wf: "wf_ctx ctx" and more: "\<forall>k. valid k \<longrightarrow> valid' k"
    and "n < length ctx" and "cond_spec lib ctx env valid n \<noteq> COND_RESULT_UNSET"
  shows "cond_spec lib ctx env valid' n = cond_spec lib ctx env valid n"
  using assms(3,4)
proof (induction n rule: less_induct)
  case (less n)
  show ?case
    using deps_less [OF wf less.prems(1)] less.prems(1) more
    by (intro cond_spec_cong [OF wf less.prems]) (auto intro!: less.IH dest: less_trans)
qed

end
