(* ===== verification/Config_Check.thy ===== *)
theory Config_Check
  imports Config_Inv
begin

text \<open>Checking a block through the cache gives its meaning and keeps the invariant.\<close>

section \<open>The condition itself\<close>

definition env_ok :: "cond_env \<Rightarrow> bool" where
  "env_ok env \<longleftrightarrow> store_ok is_dstring (ce_headers env) \<and>
     (case ce_dst_addr env of AF_INET6 a \<Rightarrow> length a = 16 | _ \<Rightarrow> True)"

definition lib_ok :: "'p cond_lib \<Rightarrow> bool" where
  "lib_ok lib \<longleftrightarrow> (\<forall>s a. inet_pton6 lib s = Some a \<longrightarrow> length a = 16)"

lemma header_value_ok:
  assumes "env_ok (cs_env st)" and "NUL \<notin> set key"
  shows "\<exists>v. header_value (cs_env st) key = Some v \<and> value_text st v = Some (header_text (cs_env st) key)"
proof -
  let ?h = "ce_headers (cs_env st)"
  obtain ixs where h: "arr_holds ?h ixs (arr_list ?h)" and of: "arr_of is_dstring ?h"
    using assms(1) by (auto simp: env_ok_def elim: store_okE)
  from h show ?thesis
  proof (cases rule: array_get_index_cases [where key = key])
    case (found pos)
    note cell = arr_holds_cells(1) [OF h found(3)]
    have "is_dstring (du_payload (arr_list ?h ! (ixs ! pos)))" using arr_of_elem [OF of cell] by simp
    then show ?thesis
      using found cell
      by (auto simp: header_value_def value_text_def header_text_def store_look_def elim!: is_dstringE)
  next
    case (absent pos)
    then show ?thesis by (simp add: header_value_def value_text_def header_text_def store_look_def)
  qed
qed

lemma ip6_prefix_total: "length a = length b \<Longrightarrow> nm \<le> 8 * length a \<Longrightarrow> a \<noteq> [] \<Longrightarrow> ip6_prefix a b nm \<noteq> None"
proof (induction a b nm rule: ip6_prefix.induct)
  case (1 a as b bs nm)
  then show ?case by (cases "as = []") (auto simp: Let_def)
qed auto

lemma network_total:
  assumes "lib_ok lib" and "env_ok env"
  shows "config_addrbuf_eq_remote_ip_mask lib s k (ce_dst_addr env) \<noteq> None"
proof -
  have ip6: "\<exists>r. ip6_prefix a b nm = Some r" if "length a = 16" "length b = 16" "nm \<le> 128" for a b nm
    using ip6_prefix_total [of a b nm] that by fastforce
  have "config_addrstr_eq_remote_ip_mask lib t nm (ce_dst_addr env) \<noteq> None" for t nm
  proof (cases "inet_pton4 lib t")
    case None
    show ?thesis
    proof (cases "inet_pton6 lib t")
      case (Some a)
      then have "length a = 16" using assms(1) by (simp add: lib_ok_def)
      then show ?thesis
        using None Some assms(2) ip6 [of a _ nm]
        by (cases "ce_dst_addr env") (fastforce simp: config_addrstr_eq_remote_ip_mask_def env_ok_def Let_def)+
    qed (simp add: config_addrstr_eq_remote_ip_mask_def None)
  qed (simp add: config_addrstr_eq_remote_ip_mask_def Let_def split: sock_addr.splits)
  then show ?thesis by (simp add: config_addrbuf_eq_remote_ip_mask_def Let_def split: prod.splits)
qed

lemma addrstr_results:
  "config_addrstr_eq_remote_ip_mask lib t nm rmt = Some r \<Longrightarrow> r \<in> {- 1, 0, 1}"
  by (auto simp: config_addrstr_eq_remote_ip_mask_def Let_def split: option.splits sock_addr.splits if_splits)

lemma addrbuf_results:
  "config_addrbuf_eq_remote_ip_mask lib s k rmt = Some r \<Longrightarrow> r \<in> {- 1, 0, 1}"
  using addrstr_results
  by (fastforce simp: config_addrbuf_eq_remote_ip_mask_def Let_def split: prod.splits if_splits)

lemma strchr_has_colon: "has_colon s \<longleftrightarrow> strchr s CHR '':'' \<noteq> None"
  by (simp add: has_colon_def strchr_def memchr_None_iff)

lemma memchr_take: "memchr c s = Some k \<Longrightarrow> take k s = takeWhile (\<lambda>x. x \<noteq> c) s"
  by (induction s arbitrary: k) (auto split: if_splits)

lemma takeWhile_cstr: "c \<in> set (cstr s) \<Longrightarrow> takeWhile (\<lambda>x. x \<noteq> c) (cstr s) = takeWhile (\<lambda>x. x \<noteq> c) s"
  by (induction s) (auto simp: cstr_def split: if_splits)

lemma strchr_take:
  assumes "strchr s c = Some k"
  shows "take k s = takeWhile (\<lambda>x. x \<noteq> c) s"
proof -
  from assms have m: "memchr c (cstr s) = Some k" by (simp add: strchr_def)
  then have k: "k < length (cstr s)" "c \<in> set (cstr s)" unfolding memchr_Some_iff by (blast, metis nth_mem)
  obtain r where "s = cstr s @ r" by (metis cstr_def takeWhile_dropWhile_id)
  then have "take k s = take k (cstr s @ r)" by simp
  then have "take k (cstr s) = take k s" using k(1) by (simp only: take_append) simp
  then show ?thesis using memchr_take [OF m] takeWhile_cstr [OF k(2)] by simp
qed

text \<open>Only scratch buffers, and the captures of the block, change while a condition is evaluated.\<close>

definition same_view :: "nat \<Rightarrow> cond_state \<Rightarrow> cond_state \<Rightarrow> bool" where
  "same_view n st st' \<longleftrightarrow> cs_env st' = cs_env st \<and> cs_valid st' = cs_valid st \<and>
     length (cs_cache st') = length (cs_cache st) \<and>
     (\<forall>m < length (cs_cache st). cc_result (cs_cache st' ! m) = cc_result (cs_cache st ! m) \<and>
        cc_local_result (cs_cache st' ! m) = cc_local_result (cs_cache st ! m) \<and>
        (m \<noteq> n \<longrightarrow> cs_cache st' ! m = cs_cache st ! m))"

lemma same_view_refl [simp]: "same_view n st st"
  by (simp add: same_view_def)

lemma same_view_trans: "same_view n st st' \<Longrightarrow> same_view n st' st'' \<Longrightarrow> same_view n st st''"
  by (simp add: same_view_def)

lemma host_cond_value_ok:
  assumes "host_cond_value dc st = (st', v)"
  shows "cs_cache st' = cs_cache st \<and> same_view n st st' \<and> value_text st' v = Some (host_text dc (cs_env st))"
proof (cases "bstr (ce_authority (cs_env st)) = [] \<or> \<not> is_eq_or_ne (dc_cond dc)")
  case True
  then show ?thesis
    using assms by (auto simp: host_cond_value_def host_text_def Let_def value_text_def split: if_splits)
next
  case False
  then show ?thesis
    using assms strchr_take [of "bstr (ce_authority (cs_env st))" "CHR '':''"]
    by (cases "strchr (dc_string dc) CHR '':''"; cases "strchr (bstr (ce_authority (cs_env st))) CHR '':''")
      (auto simp: host_cond_value_def host_text_def Let_def strchr_has_colon same_view_def value_text_def)
qed

lemma remote_value_ok:
  assumes ok: "lib_ok lib" "env_ok (cs_env st)" and comp: "dc_comp dc = COMP_HTTP_REMOTE_IP"
  shows "\<exists>v. cond_value_of lib dc st = Some (st, v) \<and>
    v = (if is_network dc then Inr (result_of (cond_true lib dc (cs_env st))) else Inl Val_Remote_Ip)"
proof (cases "is_network dc")
  case True
  then obtain k where k: "strchr (dc_string dc) CHR ''/'' = Some k" "is_eq_or_ne (dc_cond dc)"
    using memchr_None_iff [of "CHR ''/''" "cstr (dc_string dc)"] by (auto simp: is_network_def strchr_def)
  obtain r where r: "config_addrbuf_eq_remote_ip_mask lib (dc_string dc) k (ce_dst_addr (cs_env st)) = Some r"
    using network_total [OF ok] by blast
  from addrbuf_results [OF this] show ?thesis
    using True comp k r
    by (auto simp: cond_value_of_def remote_cond_value_def cond_true_def in_network_def result_of_def)
next
  case False
  then have "\<not> is_eq_or_ne (dc_cond dc) \<or> strchr (dc_string dc) CHR ''/'' = None"
    using comp by (auto simp: is_network_def strchr_def memchr_None_iff)
  then have "remote_cond_value lib dc st = Some (Inl Val_Remote_Ip)"
    by (auto simp: remote_cond_value_def)
  then show ?thesis using comp False by (simp add: cond_value_of_def)
qed

lemma header_cond_value_ok:
  assumes "env_ok (cs_env st)" and "NUL \<notin> set key"
    and "cond_value_of lib dc st = map_option (\<lambda>v. (st, Inl v)) (header_value (cs_env st) key)"
    and "cond_text dc (cs_env st) = header_text (cs_env st) key"
  shows "\<exists>v. cond_value_of lib dc st = Some (st, Inl v) \<and> value_text st v = Some (cond_text dc (cs_env st))"
  using header_value_ok [OF assms(1,2)] assms(3,4) by auto

lemma cond_value_of_ok:
  assumes ok: "lib_ok lib" "env_ok (cs_env st)"
  shows "\<exists>st' v. cond_value_of lib dc st = Some (st', v) \<and> cs_cache st' = cs_cache st \<and> same_view n st st' \<and>
    (case v of
       Inr r \<Rightarrow> r = result_of (cond_true lib dc (cs_env st))
     | Inl v \<Rightarrow> value_text st' v = Some (cond_text dc (cs_env st)) \<and> dc_comp dc \<noteq> COMP_UNSET \<and> \<not> is_network dc)"
proof -
  have "NUL \<notin> set ''Referer''" "NUL \<notin> set ''Cookie''" "NUL \<notin> set ''User-Agent''" "NUL \<notin> set ''Accept-Language''"
    by (simp_all add: NUL_def)
  note header = header_cond_value_ok [OF ok(2) this(1)] header_cond_value_ok [OF ok(2) this(2)]
    header_cond_value_ok [OF ok(2) this(3)] header_cond_value_ok [OF ok(2) this(4)]
  have net: "\<not> is_network dc" if "dc_comp dc \<noteq> COMP_HTTP_REMOTE_IP" using that by (simp add: is_network_def)
  show ?thesis
  proof (cases "dc_comp dc")
    case COMP_UNSET
    then show ?thesis by (simp add: cond_value_of_def cond_true_def result_of_def)
  next
    case COMP_HTTP_HOST
    obtain st' v where "host_cond_value dc st = (st', v)" by fastforce
    then show ?thesis
      using COMP_HTTP_HOST net host_cond_value_ok [of dc st st' v n] by (simp add: cond_value_of_def cond_text_def)
  next
    case COMP_HTTP_REMOTE_IP
    then show ?thesis
      using remote_value_ok [OF ok COMP_HTTP_REMOTE_IP] by (auto simp: value_text_def cond_text_def)
  next
    case COMP_HTTP_REFERER
    then show ?thesis using header(1) [of lib dc] net by (force simp: cond_value_of_def cond_text_def)
  next
    case COMP_HTTP_COOKIE
    then show ?thesis using header(2) [of lib dc] net by (force simp: cond_value_of_def cond_text_def)
  next
    case COMP_HTTP_USER_AGENT
    then show ?thesis using header(3) [of lib dc] net by (force simp: cond_value_of_def cond_text_def)
  next
    case COMP_HTTP_LANGUAGE
    then show ?thesis using header(4) [of lib dc] net by (force simp: cond_value_of_def cond_text_def)
  qed (simp_all add: cond_value_of_def cond_text_def value_text_def same_view_def net)
qed

lemma cond_compare_ok:
  assumes "value_text st v = Some (cond_text dc (cs_env st))" and "dc_comp dc \<noteq> COMP_UNSET" and "\<not> is_network dc"
    and "n < length (cs_cache st)"
  shows "\<exists>st'. cond_compare lib dc n v st = Some (st', result_of (cond_true lib dc (cs_env st))) \<and> same_view n st st'"
proof (cases "is_eq_or_ne (dc_cond dc) \<or> dc_cond dc = CONFIG_COND_UNSET")
  case True
  then show ?thesis
    using assms by (auto simp: cond_compare_def cond_true_def text_matches_def is_eq_or_ne_def result_of_def)
next
  case False
  then have m: "dc_cond dc = CONFIG_COND_MATCH \<or> dc_cond dc = CONFIG_COND_NOMATCH" "\<not> is_eq_or_ne (dc_cond dc)"
    by (cases "dc_cond dc"; simp add: is_eq_or_ne_def)+
  obtain k ms where "pcre_exec lib (dc_regex dc) (cond_text dc (cs_env st)) = (k, ms)" by fastforce
  then show ?thesis
    using assms m
    by (auto simp: cond_compare_def cond_true_def text_matches_def cache_at_def result_of_def same_view_def
        set_cache_def nth_list_update)
qed

lemma config_check_local_ok:
  assumes ok: "lib_ok lib" "env_ok (cs_env st)" and n: "n < length (cs_cache st)"
    and local: "cc_local_result (cs_cache st ! n) \<in> {COND_RESULT_TRUE, COND_RESULT_FALSE} \<Longrightarrow>
      cc_local_result (cs_cache st ! n) = result_of (cond_true lib dc (cs_env st))"
  shows "\<exists>st'. config_check_local lib dc n st =
      Some (st', if cs_valid st (dc_comp dc) then result_of (cond_true lib dc (cs_env st)) else COND_RESULT_UNSET) \<and>
    same_view n st st' \<and>
    (cc_local_result (cs_cache st ! n) \<in> {COND_RESULT_TRUE, COND_RESULT_FALSE} \<longrightarrow> st' = st)"
proof (cases "\<not> cs_valid st (dc_comp dc) \<or> cc_local_result (cs_cache st ! n) \<in> {COND_RESULT_TRUE, COND_RESULT_FALSE}")
  case True
  then show ?thesis using local n by (auto simp: config_check_local_def cache_at_def)
next
  case False
  obtain st1 v where v: "cond_value_of lib dc st = Some (st1, v)" "cs_cache st1 = cs_cache st" "same_view n st st1"
    "case v of Inr r \<Rightarrow> r = result_of (cond_true lib dc (cs_env st))
     | Inl v \<Rightarrow> value_text st1 v = Some (cond_text dc (cs_env st)) \<and> dc_comp dc \<noteq> COMP_UNSET \<and> \<not> is_network dc"
    using cond_value_of_ok [OF ok] by blast
  have env: "cs_env st1 = cs_env st" using v(3) by (simp add: same_view_def)
  show ?thesis
  proof (cases v)
    case (Inr r)
    then show ?thesis using v False n by (simp add: config_check_local_def cache_at_def)
  next
    case (Inl w)
    then obtain st2 where "cond_compare lib dc n w st1 = Some (st2, result_of (cond_true lib dc (cs_env st)))"
      "same_view n st1 st2"
      using cond_compare_ok [of st1 w dc n lib] v(2,4) n env by auto
    then show ?thesis
      using v(1) Inl False n same_view_trans [OF v(3)] by (simp add: config_check_local_def cache_at_def)
  qed
qed

end
