(* ===== verification/Config_Run.thy ===== *)
theory Config_Run
  imports Config_Check
begin

text \<open>
  The cache of condition results over the life of a connection: evaluating all blocks, learning more of the
  request, changing parts of it. The answers are those of the conditions without a cache.
\<close>

section \<open>The invariant\<close>

abbreviation res :: "cond_state \<Rightarrow> nat \<Rightarrow> cond_result" where
  "res st n \<equiv> cc_result (cs_cache st ! n)"

abbreviation loc :: "cond_state \<Rightarrow> nat \<Rightarrow> cond_result" where
  "loc st n \<equiv> cc_local_result (cs_cache st ! n)"

abbreviation spec :: "'p cond_lib \<Rightarrow> 'p data_config list \<Rightarrow> cond_state \<Rightarrow> nat \<Rightarrow> cond_result" where
  "spec lib ctx st \<equiv> cond_spec lib ctx (cs_env st) (cs_valid st)"

definition closed :: "'p data_config list \<Rightarrow> cond_state \<Rightarrow> bool" where
  "closed ctx st \<longleftrightarrow> (\<forall>n < length ctx. res st n \<noteq> COND_RESULT_UNSET \<longrightarrow>
     (\<forall>d \<in> deps (ctx ! n). res st d \<noteq> COND_RESULT_UNSET))"

definition results_valid :: "'p cond_lib \<Rightarrow> 'p data_config list \<Rightarrow> cond_state \<Rightarrow> bool" where
  "results_valid lib ctx st \<longleftrightarrow>
     (\<forall>n < length ctx. res st n \<noteq> COND_RESULT_UNSET \<longrightarrow> res st n = spec lib ctx st n)"

definition locals_valid :: "'p cond_lib \<Rightarrow> 'p data_config list \<Rightarrow> cond_state \<Rightarrow> bool" where
  "locals_valid lib ctx st \<longleftrightarrow>
     (\<forall>n < length ctx. loc st n \<in> {COND_RESULT_TRUE, COND_RESULT_FALSE} \<longrightarrow>
        loc st n = result_of (cond_true lib (ctx ! n) (cs_env st)))"

definition cache_valid :: "'p cond_lib \<Rightarrow> 'p data_config list \<Rightarrow> cond_state \<Rightarrow> bool" where
  "cache_valid lib ctx st \<longleftrightarrow> length ctx \<le> length (cs_cache st) \<and> closed ctx st \<and> results_valid lib ctx st \<and>
     locals_valid lib ctx st"

text \<open>The blocks before \<open>n\<close>, without the global one, have been evaluated.\<close>

definition evaluated :: "'p cond_lib \<Rightarrow> 'p data_config list \<Rightarrow> nat \<Rightarrow> cond_state \<Rightarrow> bool" where
  "evaluated lib ctx n st \<longleftrightarrow> (\<forall>m. 0 < m \<and> m < n \<longrightarrow> res st m = spec lib ctx st m)"

text \<open>What a check leaves as it was; captured texts belong to a condition until it is evaluated anew.\<close>

definition kept :: "cond_state \<Rightarrow> cond_state \<Rightarrow> bool" where
  "kept st st' \<longleftrightarrow> cs_env st' = cs_env st \<and> cs_valid st' = cs_valid st \<and>
     length (cs_cache st') = length (cs_cache st) \<and>
     (\<forall>m < length (cs_cache st). loc st m \<in> {COND_RESULT_TRUE, COND_RESULT_FALSE} \<longrightarrow>
        loc st' m = loc st m \<and> cc_patterncount (cs_cache st' ! m) = cc_patterncount (cs_cache st ! m))"

lemma kept_refl [simp]: "kept st st"
  by (simp add: kept_def)

lemma kept_trans: "kept st st' \<Longrightarrow> kept st' st'' \<Longrightarrow> kept st st''"
  by (auto simp: kept_def)

section \<open>Checking\<close>

lemma spec_deps:
  assumes wf: "wf_ctx ctx" and n: "n < length ctx" and d: "d \<in> deps (ctx ! n)"
    and r: "cond_spec lib ctx env valid n \<noteq> COND_RESULT_UNSET"
  shows "cond_spec lib ctx env valid d \<noteq> COND_RESULT_UNSET"
proof (cases "dc_prev (ctx ! n) = Some d")
  case True
  then show ?thesis using cond_spec_prev [OF wf n _ r] by simp
next
  case False
  then have "spec_up lib ctx env valid n = cond_spec lib ctx env valid d" using d by (auto simp: deps_def spec_up_def)
  then show ?thesis using r cond_spec_wf [OF wf n, of lib env valid] by (auto split: if_splits)
qed

lemma spec_local:
  assumes "wf_ctx ctx" and "n < length ctx"
    and "cond_spec lib ctx env valid n \<in> {COND_RESULT_TRUE, COND_RESULT_FALSE}"
  shows "cond_spec lib ctx env valid n = result_of (cond_true lib (ctx ! n) env)"
  using assms(3) cond_spec_wf [OF assms(1,2), of lib env valid] by (auto split: if_splits)

definition with_result :: "cond_result \<Rightarrow> cond_cache \<Rightarrow> cond_cache" where
  "with_result r c = (let c = c\<lparr>cc_result := r\<rparr>
     in if r = COND_RESULT_FALSE \<or> r = COND_RESULT_TRUE then c\<lparr>cc_local_result := r\<rparr> else c)"

lemma with_result_simps [simp]:
  "cc_result (with_result r c) = r" "cc_patterncount (with_result r c) = cc_patterncount c"
  "cc_local_result (with_result r c) =
     (if r = COND_RESULT_FALSE \<or> r = COND_RESULT_TRUE then r else cc_local_result c)"
  by (simp_all add: with_result_def Let_def)

lemma set_cache_simps [simp]:
  "cs_env (set_cache n c st) = cs_env st" "cs_valid (set_cache n c st) = cs_valid st"
  "cs_cache (set_cache n c st) = (cs_cache st)[n := c]"
  by (simp_all add: set_cache_def)

text \<open>Storing the meaning of a block whose predecessors have been evaluated.\<close>

lemma store_result:
  assumes wf: "wf_ctx ctx" and v: "cache_valid lib ctx st" and n: "n < length ctx"
    and ev: "evaluated lib ctx n st" and unset: "res st n = COND_RESULT_UNSET"
  defines "r \<equiv> spec lib ctx st n"
  defines "st' \<equiv> set_cache n (with_result r (cs_cache st ! n)) st"
  shows "cache_valid lib ctx st' \<and> kept st st' \<and> (\<forall>m. res st' m = (if m = n then r else res st m))"
proof -
  have len: "n < length (cs_cache st)" using v n by (simp add: cache_valid_def)
  have res: "res st' m = (if m = n then r else res st m)" for m using len by (simp add: st'_def nth_list_update)
  have deps: "res st d \<noteq> COND_RESULT_UNSET" if "d \<in> deps (ctx ! n)" "r \<noteq> COND_RESULT_UNSET" for d
    using spec_deps [OF wf n that(1)] deps_less [OF wf n that(1)] ev that(2) by (simp add: evaluated_def r_def)
  have "closed ctx st'"
    unfolding closed_def
  proof (intro allI impI ballI)
    fix m d
    assume m: "m < length ctx" "res st' m \<noteq> COND_RESULT_UNSET" "d \<in> deps (ctx ! m)"
    show "res st' d \<noteq> COND_RESULT_UNSET"
    proof (cases "m = n")
      case True
      then show ?thesis using m deps [of d] deps_less [OF wf m(1,3)] res by auto
    next
      case False
      then have "res st d \<noteq> COND_RESULT_UNSET" using m v res by (auto simp: cache_valid_def closed_def)
      then show ?thesis using unset res by auto
    qed
  qed
  moreover have "results_valid lib ctx st'"
    using v res by (auto simp: results_valid_def cache_valid_def st'_def r_def)
  moreover have loc: "loc st' m = (if m = n \<and> (r = COND_RESULT_TRUE \<or> r = COND_RESULT_FALSE)
      then result_of (cond_true lib (ctx ! n) (cs_env st)) else loc st m)" for m
    using len spec_local [OF wf n, of lib "cs_env st" "cs_valid st"] by (auto simp: st'_def nth_list_update r_def)
  then have "locals_valid lib ctx st'"
    using v by (auto simp: locals_valid_def cache_valid_def st'_def)
  moreover have "kept st st'"
    using v n loc len by (auto simp: kept_def st'_def nth_list_update cache_valid_def locals_valid_def)
  ultimately show ?thesis using v res by (auto simp: cache_valid_def st'_def)
qed

lemma same_viewD:
  assumes "same_view n st st'" and "m < length (cs_cache st)"
  shows "res st' m = res st m" and "loc st' m = loc st m"
  using assms by (simp_all add: same_view_def)

lemma same_view_evaluated:
  assumes "same_view n st st'" and "k \<le> length (cs_cache st)"
  shows "evaluated lib ctx k st' = evaluated lib ctx k st"
proof -
  have "\<And>m. m < k \<Longrightarrow> res st' m = res st m" using same_viewD(1) [OF assms(1)] assms(2) by simp
  moreover have "spec lib ctx st' = spec lib ctx st" using assms(1) by (simp add: same_view_def)
  ultimately show ?thesis by (simp add: evaluated_def)
qed

lemma same_view_valid:
  assumes "same_view n st st'" and wf: "wf_ctx ctx" and v: "cache_valid lib ctx st"
  shows "cache_valid lib ctx st'"
proof -
  have len: "length ctx \<le> length (cs_cache st)" using v by (simp add: cache_valid_def)
  have eqs: "\<And>m. m < length ctx \<Longrightarrow> res st' m = res st m" "\<And>m. m < length ctx \<Longrightarrow> loc st' m = loc st m"
    using same_viewD [OF assms(1)] len by simp_all
  have env: "cs_env st' = cs_env st" "cs_valid st' = cs_valid st" "length (cs_cache st') = length (cs_cache st)"
    using assms(1) by (simp_all add: same_view_def)
  have "closed ctx st'"
    unfolding closed_def
  proof (intro allI impI ballI)
    fix m d
    assume m: "m < length ctx" "res st' m \<noteq> COND_RESULT_UNSET" "d \<in> deps (ctx ! m)"
    then have "d < length ctx" using deps_less [OF wf m(1,3)] by simp
    moreover have "res st d \<noteq> COND_RESULT_UNSET" using m v eqs(1) by (simp add: cache_valid_def closed_def)
    ultimately show "res st' d \<noteq> COND_RESULT_UNSET" using eqs(1) by simp
  qed
  moreover have "results_valid lib ctx st'"
    using v unfolding results_valid_def cache_valid_def env(1,2) by (simp add: eqs(1))
  moreover have "locals_valid lib ctx st'"
    using v unfolding locals_valid_def cache_valid_def env(1,2) by (simp add: eqs(2))
  ultimately show ?thesis using v by (simp add: cache_valid_def env(3))
qed

text \<open>A block that is checked has its meaning afterwards, and no other result has changed.\<close>

lemma config_check_cond_cached_ok:
  assumes wf: "wf_ctx ctx" and lib: "lib_ok lib"
    and "env_ok (cs_env st)" and "cache_valid lib ctx st"
    and "n < length ctx" and "n < fuel" and "evaluated lib ctx n st"
  shows "\<exists>st'. config_check_cond_cached lib ctx fuel n st = Some (st', spec lib ctx st n) \<and>
    cache_valid lib ctx st' \<and> kept st st' \<and> (\<forall>m < length ctx. res st' m = (if m = n then spec lib ctx st n else res st m))"
  using assms(3-)
proof (induction fuel arbitrary: n st)
  case (Suc fuel)
  note v = Suc.prems(2) and n = Suc.prems(3) and ev = Suc.prems(5)
  have len: "length ctx \<le> length (cs_cache st)" using v by (simp add: cache_valid_def)
  show ?case
  proof (cases "res st n = COND_RESULT_UNSET")
    case False
    then show ?thesis using n len v by (auto simp: cache_at_def cache_valid_def results_valid_def)
  next
    case unset: True
    have sub: "\<exists>st'. config_check_cond_cached lib ctx fuel d s = Some (st', spec lib ctx st d) \<and>
        cache_valid lib ctx st' \<and> kept st st' \<and> (\<forall>m < length ctx. res st' m = res st m)"
      if d: "d < n" "0 < d" and s: "cache_valid lib ctx s" "kept st s" "\<forall>m < length ctx. res s m = res st m" for d s
    proof -
      have env: "spec lib ctx s = spec lib ctx st" "env_ok (cs_env s)" using s(2) Suc.prems(1) by (simp_all add: kept_def)
      have "evaluated lib ctx d s" using ev d s(3) n env by (auto simp: evaluated_def)
      from Suc.IH [OF env(2) s(1) _ _ this] obtain st' where
        "config_check_cond_cached lib ctx fuel d s = Some (st', spec lib ctx s d)" "cache_valid lib ctx st'" "kept s st'"
        "\<forall>m < length ctx. res st' m = (if m = d then spec lib ctx s d else res s m)"
        using d n Suc.prems(4) by auto
      moreover have "spec lib ctx s d = res st d" using ev d env by (simp add: evaluated_def)
      ultimately show ?thesis using s env kept_trans by (intro exI [of _ st']) auto
    qed
    obtain st1 where st1: "(case dc_parent (ctx ! n) of
          Some p \<Rightarrow> if p \<noteq> 0 then config_check_cond_cached lib ctx fuel p st else Some (st, COND_RESULT_TRUE)
        | None \<Rightarrow> Some (st, COND_RESULT_TRUE)) = Some (st1, spec_up lib ctx (cs_env st) (cs_valid st) n)"
      "cache_valid lib ctx st1" "kept st st1" "\<forall>m < length ctx. res st1 m = res st m"
    proof (cases "\<exists>p. dc_parent (ctx ! n) = Some p \<and> p \<noteq> 0")
      case True
      then obtain p where p: "dc_parent (ctx ! n) = Some p" "0 < p" by blast
      then show ?thesis
        using sub [OF wf_ctxD(1) [OF wf n p(1)] p(2) v] by (auto simp: spec_up_def intro: that)
    next
      case False
      then show ?thesis using v by (intro that [of st]) (auto simp: spec_up_def split: option.splits)
    qed
    obtain st2 where st2: "(case dc_prev (ctx ! n) of Some q \<Rightarrow> config_check_cond_cached lib ctx fuel q st1
        | None \<Rightarrow> Some (st1, COND_RESULT_FALSE)) = Some (st2, spec_before lib ctx (cs_env st) (cs_valid st) n)"
      "cache_valid lib ctx st2" "kept st st2" "\<forall>m < length ctx. res st2 m = res st m"
    proof (cases "dc_prev (ctx ! n)")
      case (Some q)
      then show ?thesis
        using sub [OF wf_ctxD(4,3) [OF wf n Some] st1(2-4)] by (auto simp: spec_before_def intro: that)
    qed (use st1(2-4) in \<open>auto simp: spec_before_def intro: that [of st1]\<close>)
    have env2: "cs_env st2 = cs_env st" "cs_valid st2 = cs_valid st" "length (cs_cache st2) = length (cs_cache st)"
      using st2(3) by (simp_all add: kept_def)
    have local2: "loc st2 n = result_of (cond_true lib (ctx ! n) (cs_env st2))"
      if "loc st2 n \<in> {COND_RESULT_TRUE, COND_RESULT_FALSE}"
      using st2(2) n that unfolding cache_valid_def locals_valid_def by blast
    have ok2: "env_ok (cs_env st2)" "n < length (cs_cache st2)" using env2 Suc.prems(1) n len by simp_all
    obtain st3 where st3: "config_check_local lib (ctx ! n) n st2 = Some (st3,
        if cs_valid st2 (dc_comp (ctx ! n)) then result_of (cond_true lib (ctx ! n) (cs_env st2)) else COND_RESULT_UNSET)"
      "same_view n st2 st3" "loc st2 n \<in> {COND_RESULT_TRUE, COND_RESULT_FALSE} \<longrightarrow> st3 = st2"
      using config_check_local_ok [OF lib ok2 local2] by blast
    have kept3: "kept st2 st3"
      using st3(2,3) unfolding kept_def same_view_def by metis
    have sv3: "cache_valid lib ctx st3" "\<forall>m < length ctx. res st3 m = res st m"
      using same_view_valid [OF st3(2) wf st2(2)] same_viewD(1) [OF st3(2)] st2(4) len env2(3) by auto
    obtain s where s: "config_check_cond_nocache (config_check_cond_cached lib ctx fuel) lib ctx n st = Some (s, spec lib ctx st n)"
      "cache_valid lib ctx s" "kept st s" "\<forall>m < length ctx. res s m = res st m"
      using st1 st2 st3(1) sv3 kept_trans [OF st2(3) kept3] n env2 cond_spec_wf [OF wf n, of lib "cs_env st" "cs_valid st"]
      by (auto simp: config_check_cond_nocache_def split: if_splits)
    have eq: "spec lib ctx s = spec lib ctx st" and slen: "length (cs_cache s) = length (cs_cache st)"
      using s(3) by (simp_all add: kept_def)
    have "evaluated lib ctx n s" using ev s(4) n eq by (simp add: evaluated_def)
    from store_result [OF wf s(2) n this] s(4) n unset eq
    have "cache_valid lib ctx (set_cache n (with_result (spec lib ctx st n) (cs_cache s ! n)) s)"
      "kept s (set_cache n (with_result (spec lib ctx st n) (cs_cache s ! n)) s)"
      "\<forall>m. res (set_cache n (with_result (spec lib ctx st n) (cs_cache s ! n)) s) m = (if m = n then spec lib ctx st n else res s m)"
      by auto
    then show ?thesis
      using s(1,4) unset n len slen kept_trans [OF s(3)]
      by (simp add: cache_at_def with_result_def Let_def)
  qed
qed simp

end
