(* ===== verification/Config_Clear.thy ===== *)
theory Config_Clear
  imports Config_Run
begin

text \<open>
  Clearing results: everything that depends on a cleared block is cleared with it, so the cache is right
  again for the changed request.
\<close>

section \<open>One node\<close>

text \<open>The links at which a block has a result and one it depends on has none.\<close>

definition broken :: "'p data_config list \<Rightarrow> cond_state \<Rightarrow> (nat \<times> nat) set" where
  "broken ctx st = {(d, n). n < length ctx \<and> d \<in> deps (ctx ! n) \<and>
     res st n \<noteq> COND_RESULT_UNSET \<and> res st d = COND_RESULT_UNSET}"

lemma closed_iff: "closed ctx st \<longleftrightarrow> broken ctx st = {}"
  by (auto simp: closed_def broken_def)

definition emptied :: "cond_cache \<Rightarrow> cond_cache" where
  "emptied c = c\<lparr>cc_result := COND_RESULT_UNSET, cc_patterncount := 0, cc_comp_value := None\<rparr>"

lemma emptied_simps [simp]:
  "cc_result (emptied c) = COND_RESULT_UNSET" "cc_local_result (emptied c) = cc_local_result c"
  "cc_patterncount (emptied c) = 0" "emptied (emptied c) = emptied c"
  by (simp_all add: emptied_def)

definition cleared :: "cond_state \<Rightarrow> cond_state \<Rightarrow> bool" where
  "cleared st st' \<longleftrightarrow> cs_env st' = cs_env st \<and> cs_valid st' = cs_valid st \<and>
     length (cs_cache st') = length (cs_cache st) \<and>
     (\<forall>m. cs_cache st' ! m = cs_cache st ! m \<or> cs_cache st' ! m = emptied (cs_cache st ! m))"

lemma cleared_refl [simp]: "cleared st st"
  by (simp add: cleared_def)

lemma cleared_trans: "cleared st st' \<Longrightarrow> cleared st' st'' \<Longrightarrow> cleared st st''"
  by (simp add: cleared_def) (metis emptied_simps(4))

lemma cleared_unset: "cleared st st' \<Longrightarrow> res st m = COND_RESULT_UNSET \<Longrightarrow> res st' m = COND_RESULT_UNSET"
  by (simp add: cleared_def) (metis emptied_simps(1))

lemma cleared_loc: "cleared st st' \<Longrightarrow> loc st' m = loc st m"
  by (simp add: cleared_def) (metis emptied_simps(2))

definition clears ::
    "'p data_config list \<Rightarrow> nat \<Rightarrow> cond_state \<Rightarrow> cond_state option \<Rightarrow> bool" where
  "clears ctx n st r \<longleftrightarrow> (\<exists>st'. r = Some st' \<and> res st' n = COND_RESULT_UNSET \<and>
     broken ctx st' \<subseteq> broken ctx st \<and> cleared st st')"

text \<open>The loop over the children, for a recursive call that does its work.\<close>

lemma clear_children:
  assumes call: "\<And>m st. n < m \<Longrightarrow> m < length ctx \<Longrightarrow> length ctx \<le> length (cs_cache st) \<Longrightarrow>
      \<forall>(d, k) \<in> broken ctx st. d \<le> n \<Longrightarrow> clears ctx m st (clear m st)"
    and "\<forall>m \<in> set ms. n < m \<and> m < length ctx" and "length ctx \<le> length (cs_cache st)"
    and "\<forall>(d, k) \<in> broken ctx st. d \<le> n"
  shows "\<exists>st'. fold (\<lambda>m r. do {
        st \<leftarrow> r;
        force_assert (m < length ctx);
        if dc_prev (ctx ! m) = None then clear m st else Some st
      }) ms (Some st) = Some st' \<and>
    (\<forall>m \<in> set ms. dc_prev (ctx ! m) = None \<longrightarrow> res st' m = COND_RESULT_UNSET) \<and>
    broken ctx st' \<subseteq> broken ctx st \<and> cleared st st'"
  using assms(2-)
proof (induction ms arbitrary: st)
  case (Cons m ms)
  have m: "n < m" "m < length ctx" using Cons.prems(1) by simp_all
  obtain st1 where st1: "(if dc_prev (ctx ! m) = None then clear m st else Some st) = Some st1"
    "dc_prev (ctx ! m) = None \<longrightarrow> res st1 m = COND_RESULT_UNSET" "broken ctx st1 \<subseteq> broken ctx st" "cleared st st1"
    using call [OF m Cons.prems(2,3)] by (cases "dc_prev (ctx ! m) = None") (auto simp: clears_def)
  have "length ctx \<le> length (cs_cache st1)" "\<forall>(d, k) \<in> broken ctx st1. d \<le> n"
    using st1(3,4) Cons.prems(2,3) by (auto simp: cleared_def)
  from Cons.IH [OF _ this] Cons.prems(1) obtain st2 where st2:
    "fold (\<lambda>m r. do {
        st \<leftarrow> r;
        force_assert (m < length ctx);
        if dc_prev (ctx ! m) = None then clear m st else Some st
      }) ms (Some st1) = Some st2"
    "\<forall>m \<in> set ms. dc_prev (ctx ! m) = None \<longrightarrow> res st2 m = COND_RESULT_UNSET" "broken ctx st2 \<subseteq> broken ctx st1" "cleared st1 st2"
    by auto
  show ?case
    using st1 st2 m cleared_trans [OF st1(4) st2(4)] cleared_unset [OF st2(4), of m]
    by (intro exI [of _ st2]) auto
qed simp

lemma broken_set:
  assumes "n < length (cs_cache st)"
  shows "broken ctx (set_cache n (emptied (cs_cache st ! n)) st) \<subseteq> broken ctx st \<union> {(n, m) |m. n \<in> deps (ctx ! m)}"
  using assms by (auto simp: broken_def nth_list_update split: if_splits)

lemma cleared_set: "n < length (cs_cache st) \<Longrightarrow> cleared st (set_cache n (emptied (cs_cache st ! n)) st)"
  by (auto simp: cleared_def nth_list_update)

text \<open>
  After the children and the branch behind it, nothing is left that depends on the node: the first child of a chain
  is cleared, and the others have no result because their predecessor has none.
\<close>

lemma nothing_left:
  assumes wf: "wf_ctx ctx" and n: "n < length ctx" and m: "m < length ctx" "n \<in> deps (ctx ! m)"
    and children: "\<forall>m \<in> set (dc_children (ctx ! n)). dc_prev (ctx ! m) = None \<longrightarrow> res st m = COND_RESULT_UNSET"
    and behind: "\<forall>m. dc_next (ctx ! n) = Some m \<longrightarrow> res st m = COND_RESULT_UNSET"
    and broken: "\<forall>(d, k) \<in> broken ctx st. d \<le> n"
  shows "res st m = COND_RESULT_UNSET"
proof (cases "dc_prev (ctx ! m) = Some n")
  case True
  then show ?thesis using wf_ctxD(5) [OF wf m(1)] behind by simp
next
  case False
  then have "dc_parent (ctx ! m) = Some n" using m(2) by (auto simp: deps_def)
  with m(1) show ?thesis
  proof (induction m rule: less_induct)
    case (less m)
    have nm: "n < m" using wf_ctxD(1) [OF wf less.prems] .
    show ?case
    proof (cases "dc_prev (ctx ! m)")
      case None
      then show ?thesis using children wf_ctxD(2) [OF wf less.prems] by simp
    next
      case (Some q)
      note q = wf_ctxD(3-6) [OF wf less.prems(1) Some]
      then have "res st q = COND_RESULT_UNSET" using less.IH [of q] less.prems by simp
      moreover have "n < q" using wf_ctxD(1) [OF wf, of q n] q less.prems by simp
      ultimately show ?thesis
        using broken Some less.prems(1) by (force simp: broken_def deps_def)
    qed
  qed
qed

lemma config_cond_clear_node_ok:
  assumes wf: "wf_ctx ctx" and "n < length ctx" and "length ctx \<le> length (cs_cache st)" and "length ctx - n \<le> fuel"
    and "\<forall>(d, k) \<in> broken ctx st. d < n"
  shows "clears ctx n st (config_cond_clear_node ctx fuel n st)"
  using assms(2-)
proof (induction fuel arbitrary: n st)
  case (Suc fuel)
  note n = Suc.prems(1) and len = Suc.prems(2)
  show ?case
  proof (cases "res st n = COND_RESULT_UNSET")
    case True
    then show ?thesis using n len by (auto simp: clears_def cache_at_def)
  next
    case False
    let ?st1 = "set_cache n (emptied (cs_cache st ! n)) st"
    have nl: "n < length (cs_cache st)" using n len by simp
    have b1: "broken ctx ?st1 \<subseteq> broken ctx st \<union> {(n, m) |m. n \<in> deps (ctx ! m)}" by (rule broken_set [OF nl])
    have c1: "cleared st ?st1" by (rule cleared_set [OF nl])
    have l1: "length ctx \<le> length (cs_cache ?st1)" using len by simp
    have s1: "\<forall>(d, k) \<in> broken ctx ?st1. d \<le> n" using b1 Suc.prems(4) by fastforce
    have call: "clears ctx m s (config_cond_clear_node ctx fuel m s)"
      if "n < m" "m < length ctx" "length ctx \<le> length (cs_cache s)" "\<forall>(d, k) \<in> broken ctx s. d \<le> n" for m s
      using Suc.IH [of m s] that Suc.prems(3) by fastforce
    have ch: "\<forall>m \<in> set (dc_children (ctx ! n)). n < m \<and> m < length ctx" using wf_ctxD(9,10) [OF wf n] by blast
    obtain st2 where st2: "fold (\<lambda>m r. do {
        st \<leftarrow> r;
        force_assert (m < length ctx);
        if dc_prev (ctx ! m) = None then config_cond_clear_node ctx fuel m st else Some st
      }) (dc_children (ctx ! n)) (Some ?st1) = Some st2"
      "\<forall>m \<in> set (dc_children (ctx ! n)). dc_prev (ctx ! m) = None \<longrightarrow> res st2 m = COND_RESULT_UNSET"
      "broken ctx st2 \<subseteq> broken ctx ?st1" "cleared ?st1 st2"
      using clear_children [OF call ch l1 s1] by blast
    have l2: "length ctx \<le> length (cs_cache st2)" and s2: "\<forall>(d, k) \<in> broken ctx st2. d \<le> n"
      using st2(3,4) l1 s1 by (auto simp: cleared_def)
    obtain st3 where st3: "(case dc_next (ctx ! n) of None \<Rightarrow> Some st2 | Some m \<Rightarrow> config_cond_clear_node ctx fuel m st2) = Some st3"
      "\<forall>m. dc_next (ctx ! n) = Some m \<longrightarrow> res st3 m = COND_RESULT_UNSET" "broken ctx st3 \<subseteq> broken ctx st2" "cleared st2 st3"
    proof (cases "dc_next (ctx ! n)")
      case (Some m)
      then show ?thesis using call [OF wf_ctxD(7,8) [OF wf n Some] l2 s2] by (auto simp: clears_def intro: that)
    qed (auto intro: that [of st2])
    have left: "res st3 m = COND_RESULT_UNSET" if "m < length ctx" "n \<in> deps (ctx ! m)" for m
      using nothing_left [OF wf n that, of st3] st2(2) st3(2,3) cleared_unset [OF st3(4)] s2 by fast
    have "broken ctx st3 \<subseteq> broken ctx st"
      using b1 st2(3) st3(3) left by (fastforce simp: broken_def)
    moreover have "cleared st st3" using cleared_trans [OF cleared_trans [OF c1 st2(4)] st3(4)] .
    moreover have "res st3 n = COND_RESULT_UNSET"
      using cleared_unset [OF cleared_trans [OF st2(4) st3(4)], of n] nl by simp
    ultimately show ?thesis
      using False n nl st2(1) st3(1) by (simp add: clears_def cache_at_def emptied_def)
  qed
qed simp

section \<open>All blocks that look at one part of the request\<close>

definition undone :: "cond_state \<Rightarrow> cond_state \<Rightarrow> bool" where
  "undone st st' \<longleftrightarrow> cs_env st' = cs_env st \<and> cs_valid st' = cs_valid st \<and>
     length (cs_cache st') = length (cs_cache st) \<and>
     (\<forall>m. loc st' m = loc st m \<or> loc st' m = COND_RESULT_UNSET) \<and>
     (\<forall>m. res st' m = res st m \<and> cc_patterncount (cs_cache st' ! m) = cc_patterncount (cs_cache st ! m) \<or>
        res st' m = COND_RESULT_UNSET \<and> cc_patterncount (cs_cache st' ! m) = 0)"

lemma undone_refl [simp]: "undone st st"
  by (simp add: undone_def)

lemma undone_trans: "undone st st' \<Longrightarrow> undone st' st'' \<Longrightarrow> undone st st''"
  unfolding undone_def by metis

lemma undone_unset: "undone st st' \<Longrightarrow> res st m = COND_RESULT_UNSET \<Longrightarrow> res st' m = COND_RESULT_UNSET"
  unfolding undone_def by metis

lemma undone_loc: "undone st st' \<Longrightarrow> loc st m = COND_RESULT_UNSET \<Longrightarrow> loc st' m = COND_RESULT_UNSET"
  unfolding undone_def by metis

lemma cleared_undone: "cleared st st' \<Longrightarrow> undone st st'"
  unfolding cleared_def undone_def by (metis emptied_simps(1-3))

lemma reset_item_at_ok:
  assumes wf: "wf_ctx ctx" and i: "i < length ctx" and len: "length ctx \<le> length (cs_cache st)" and cl: "closed ctx st"
  shows "\<exists>st'. reset_item_at ctx item i st = Some st' \<and> closed ctx st' \<and> undone st st' \<and>
    (dc_comp (ctx ! i) = item \<longrightarrow> res st' i = COND_RESULT_UNSET \<and> loc st' i = COND_RESULT_UNSET) \<and>
    (\<forall>m. m \<noteq> i \<or> dc_comp (ctx ! i) \<noteq> item \<longrightarrow> loc st' m = loc st m)"
proof (cases "dc_comp (ctx ! i) = item")
  case True
  let ?st1 = "set_cache i ((cs_cache st ! i)\<lparr>cc_local_result := COND_RESULT_UNSET\<rparr>) st"
  have il: "i < length (cs_cache st)" using i len by simp
  have same: "res ?st1 m = res st m" "cc_patterncount (cs_cache ?st1 ! m) = cc_patterncount (cs_cache st ! m)" for m
    using il by (auto simp: nth_list_update)
  then have b: "broken ctx ?st1 = {}" using cl by (simp add: closed_iff broken_def)
  have l1: "loc ?st1 m = (if m = i then COND_RESULT_UNSET else loc st m)" for m using il by (auto simp: nth_list_update)
  have u1: "undone st ?st1" using same l1 by (simp add: undone_def)
  have "clears ctx i ?st1 (config_cond_clear_node ctx (length ctx) i ?st1)"
    using len b by (intro config_cond_clear_node_ok [OF wf i]) auto
  then obtain st' where st': "config_cond_clear_node ctx (length ctx) i ?st1 = Some st'" "res st' i = COND_RESULT_UNSET"
    "broken ctx st' \<subseteq> {}" "cleared ?st1 st'"
    unfolding clears_def b by blast
  have "reset_item_at ctx item i st = Some st'" using True il st'(1) by (simp add: reset_item_at_def cache_at_def)
  moreover have "closed ctx st'" using st'(3) by (simp add: closed_iff)
  moreover have "undone st st'" using undone_trans [OF u1 cleared_undone [OF st'(4)]] .
  moreover have "loc st' m = (if m = i then COND_RESULT_UNSET else loc st m)" for m
    using cleared_loc [OF st'(4), of m] l1 by simp
  ultimately show ?thesis using st'(2) True by simp
qed (use cl in \<open>simp add: reset_item_at_def\<close>)

lemma reset_items_ok:
  assumes wf: "wf_ctx ctx" and "\<forall>i \<in> set is. i < length ctx" and "length ctx \<le> length (cs_cache st)" and "closed ctx st"
  shows "\<exists>st'. fold (\<lambda>i r. do { st \<leftarrow> r; reset_item_at ctx item i st }) is (Some st) = Some st' \<and>
    closed ctx st' \<and> undone st st' \<and>
    (\<forall>i \<in> set is. dc_comp (ctx ! i) = item \<longrightarrow> res st' i = COND_RESULT_UNSET \<and> loc st' i = COND_RESULT_UNSET) \<and>
    (\<forall>m < length ctx. dc_comp (ctx ! m) \<noteq> item \<longrightarrow> loc st' m = loc st m)"
  using assms(2-)
proof (induction "is" arbitrary: st)
  case (Cons i "is")
  obtain st1 where st1: "reset_item_at ctx item i st = Some st1" "closed ctx st1" "undone st st1"
    "dc_comp (ctx ! i) = item \<longrightarrow> res st1 i = COND_RESULT_UNSET \<and> loc st1 i = COND_RESULT_UNSET"
    "\<forall>m. m \<noteq> i \<or> dc_comp (ctx ! i) \<noteq> item \<longrightarrow> loc st1 m = loc st m"
    using reset_item_at_ok [OF wf _ Cons.prems(2,3), of i item] Cons.prems(1) by auto
  have "length ctx \<le> length (cs_cache st1)" using st1(3) Cons.prems(2) by (simp add: undone_def)
  from Cons.IH [OF _ this st1(2)] Cons.prems(1) obtain st2 where st2:
    "fold (\<lambda>i r. do { st \<leftarrow> r; reset_item_at ctx item i st }) is (Some st1) = Some st2"
    "closed ctx st2" "undone st1 st2"
    "\<forall>i \<in> set is. dc_comp (ctx ! i) = item \<longrightarrow> res st2 i = COND_RESULT_UNSET \<and> loc st2 i = COND_RESULT_UNSET"
    "\<forall>m < length ctx. dc_comp (ctx ! m) \<noteq> item \<longrightarrow> loc st2 m = loc st1 m"
    by auto
  have "\<forall>m < length ctx. dc_comp (ctx ! m) \<noteq> item \<longrightarrow> loc st2 m = loc st m" using st1(5) st2(5) by metis
  then show ?case
    using st1 st2 undone_trans [OF st1(3) st2(3)] undone_unset [OF st2(3)] undone_loc [OF st2(3)]
    by (intro exI [of _ st2]) auto
qed simp

lemma config_cond_cache_reset_item_ok:
  assumes "wf_ctx ctx" and "length ctx \<le> length (cs_cache st)" and "closed ctx st"
  shows "\<exists>st'. config_cond_cache_reset_item ctx item st = Some st' \<and> closed ctx st' \<and> undone st st' \<and>
    (\<forall>i < length ctx. dc_comp (ctx ! i) = item \<longrightarrow> res st' i = COND_RESULT_UNSET \<and> loc st' i = COND_RESULT_UNSET) \<and>
    (\<forall>m < length ctx. dc_comp (ctx ! m) \<noteq> item \<longrightarrow> loc st' m = loc st m)"
  using reset_items_ok [OF assms(1) _ assms(2,3), of "[0..<length ctx]" item]
  by (simp add: config_cond_cache_reset_item_def Ball_def)

section \<open>The cache after a change of the request\<close>

text \<open>What a part of the request consists of.\<close>

fun same_part :: "cond_env \<Rightarrow> cond_env \<Rightarrow> comp_key \<Rightarrow> bool" where
  "same_part e e' COMP_UNSET \<longleftrightarrow> True"
| "same_part e e' COMP_SERVER_SOCKET \<longleftrightarrow> ce_token e' = ce_token e"
| "same_part e e' COMP_HTTP_URL \<longleftrightarrow> ce_path e' = ce_path e"
| "same_part e e' COMP_HTTP_HOST \<longleftrightarrow> ce_authority e' = ce_authority e \<and> ce_port e' = ce_port e"
| "same_part e e' COMP_HTTP_REFERER \<longleftrightarrow> header_text e' ''Referer'' = header_text e ''Referer''"
| "same_part e e' COMP_HTTP_USER_AGENT \<longleftrightarrow> header_text e' ''User-Agent'' = header_text e ''User-Agent''"
| "same_part e e' COMP_HTTP_LANGUAGE \<longleftrightarrow> header_text e' ''Accept-Language'' = header_text e ''Accept-Language''"
| "same_part e e' COMP_HTTP_COOKIE \<longleftrightarrow> header_text e' ''Cookie'' = header_text e ''Cookie''"
| "same_part e e' COMP_HTTP_REMOTE_IP \<longleftrightarrow> ce_remote_ip e' = ce_remote_ip e \<and> ce_dst_addr e' = ce_dst_addr e"
| "same_part e e' COMP_HTTP_QUERY_STRING \<longleftrightarrow> ce_query e' = ce_query e"
| "same_part e e' COMP_HTTP_SCHEME \<longleftrightarrow> ce_scheme e' = ce_scheme e"
| "same_part e e' COMP_HTTP_REQUEST_METHOD \<longleftrightarrow> ce_method e' = ce_method e"

lemma cond_true_same: "same_part e e' (dc_comp dc) \<Longrightarrow> cond_true lib dc e' = cond_true lib dc e"
  by (cases "dc_comp dc") (simp_all add: cond_true_def cond_text_def is_network_def in_network_def host_text_def Let_def)

lemma spec_same:
  assumes wf: "wf_ctx ctx" and "closed ctx st" and v: "results_valid lib ctx st"
    and same: "\<forall>m < length ctx. res st m \<noteq> COND_RESULT_UNSET \<longrightarrow> same_part (cs_env st) e' (dc_comp (ctx ! m))"
    and "n < length ctx" and "res st n \<noteq> COND_RESULT_UNSET"
  shows "cond_spec lib ctx e' (cs_valid st) n = spec lib ctx st n"
  using assms(5,6)
proof (induction n rule: less_induct)
  case (less n)
  have "spec lib ctx st n \<noteq> COND_RESULT_UNSET" using v less.prems by (simp add: results_valid_def)
  then show ?case
  proof (rule cond_spec_cong [OF wf less.prems(1)])
    fix d
    assume d: "d \<in> deps (ctx ! n)"
    then have "d < n" "res st d \<noteq> COND_RESULT_UNSET"
      using deps_less [OF wf less.prems(1)] assms(2) less.prems by (auto simp: closed_def)
    then show "cond_spec lib ctx e' (cs_valid st) d = spec lib ctx st d" using less.IH less.prems(1) by simp
  next
    show "cs_valid st (dc_comp (ctx ! n)) \<and> cond_true lib (ctx ! n) e' = cond_true lib (ctx ! n) (cs_env st)"
      if "cs_valid st (dc_comp (ctx ! n))"
      using that same less.prems cond_true_same [of "cs_env st" e' "ctx ! n" lib] by simp
  qed
qed

text \<open>Resetting the parts that change, one after the other.\<close>

definition reset_parts :: "'p data_config list \<Rightarrow> comp_key list \<Rightarrow> cond_state \<Rightarrow> cond_state option" where
  "reset_parts ctx ks st = fold (\<lambda>k r. do { st \<leftarrow> r; config_cond_cache_reset_item ctx k st }) ks (Some st)"

lemma reset_parts_ok:
  assumes wf: "wf_ctx ctx" and "length ctx \<le> length (cs_cache st)" and "closed ctx st"
  shows "\<exists>st'. reset_parts ctx ks st = Some st' \<and> closed ctx st' \<and> undone st st' \<and>
    (\<forall>i < length ctx. dc_comp (ctx ! i) \<in> set ks \<longrightarrow> res st' i = COND_RESULT_UNSET \<and> loc st' i = COND_RESULT_UNSET) \<and>
    (\<forall>m < length ctx. dc_comp (ctx ! m) \<notin> set ks \<longrightarrow> loc st' m = loc st m)"
  using assms(2,3)
proof (induction ks arbitrary: st)
  case (Cons k ks)
  obtain st1 where st1: "config_cond_cache_reset_item ctx k st = Some st1" "closed ctx st1" "undone st st1"
    "\<forall>i < length ctx. dc_comp (ctx ! i) = k \<longrightarrow> res st1 i = COND_RESULT_UNSET \<and> loc st1 i = COND_RESULT_UNSET"
    "\<forall>m < length ctx. dc_comp (ctx ! m) \<noteq> k \<longrightarrow> loc st1 m = loc st m"
    using config_cond_cache_reset_item_ok [OF wf Cons.prems] by blast
  have "length ctx \<le> length (cs_cache st1)" using st1(3) Cons.prems(1) by (simp add: undone_def)
  from Cons.IH [OF this st1(2)] obtain st2 where st2: "reset_parts ctx ks st1 = Some st2" "closed ctx st2" "undone st1 st2"
    "\<forall>i < length ctx. dc_comp (ctx ! i) \<in> set ks \<longrightarrow> res st2 i = COND_RESULT_UNSET \<and> loc st2 i = COND_RESULT_UNSET"
    "\<forall>m < length ctx. dc_comp (ctx ! m) \<notin> set ks \<longrightarrow> loc st2 m = loc st1 m"
    by blast
  have "reset_parts ctx (k # ks) st = Some st2" using st1(1) st2(1) by (simp add: reset_parts_def)
  then show ?case
    using st1 st2 undone_trans [OF st1(3) st2(3)] undone_unset [OF st2(3)] undone_loc [OF st2(3)] by auto
qed (simp add: reset_parts_def)

lemma change_ok:
  assumes wf: "wf_ctx ctx" and v: "cache_valid lib ctx st"
    and part: "\<forall>k. k \<notin> set ks \<longrightarrow> same_part (cs_env st) e' k"
  shows "\<exists>st'. reset_parts ctx ks (st\<lparr>cs_env := e'\<rparr>) = Some st' \<and> cache_valid lib ctx st' \<and>
    cs_env st' = e' \<and> cs_valid st' = cs_valid st"
proof -
  have len: "length ctx \<le> length (cs_cache st)" and cl: "closed ctx st" using v by (auto simp: cache_valid_def)
  have "closed ctx (st\<lparr>cs_env := e'\<rparr>)" using cl by (simp add: closed_def)
  from reset_parts_ok [OF wf _ this, of ks] len obtain st' where st':
    "reset_parts ctx ks (st\<lparr>cs_env := e'\<rparr>) = Some st'" "closed ctx st'" "undone (st\<lparr>cs_env := e'\<rparr>) st'"
    "\<forall>i < length ctx. dc_comp (ctx ! i) \<in> set ks \<longrightarrow> res st' i = COND_RESULT_UNSET \<and> loc st' i = COND_RESULT_UNSET"
    "\<forall>m < length ctx. dc_comp (ctx ! m) \<notin> set ks \<longrightarrow> loc st' m = loc st m"
    by auto
  have env: "cs_env st' = e'" "cs_valid st' = cs_valid st" "length (cs_cache st') = length (cs_cache st)"
    using st'(3) by (simp_all add: undone_def)
  let ?s = "st'\<lparr>cs_env := cs_env st\<rparr>"
  have rs: "res ?s m = res st m" if "res ?s m \<noteq> COND_RESULT_UNSET" for m
    using st'(3) that by (auto simp: undone_def)
  have "closed ctx ?s" using st'(2) by (simp add: closed_def)
  moreover have "results_valid lib ctx ?s"
    using v rs env by (simp add: results_valid_def cache_valid_def)
  moreover have "\<forall>m < length ctx. res ?s m \<noteq> COND_RESULT_UNSET \<longrightarrow> same_part (cs_env ?s) e' (dc_comp (ctx ! m))"
    using st'(4) part by fastforce
  ultimately have spec: "cond_spec lib ctx e' (cs_valid st) n = spec lib ctx st n"
    if "n < length ctx" "res st' n \<noteq> COND_RESULT_UNSET" for n
    using spec_same [OF wf, of ?s lib e' n] that env by simp
  have "results_valid lib ctx st'"
    using v rs spec env by (simp add: results_valid_def cache_valid_def)
  moreover have "locals_valid lib ctx st'"
    unfolding locals_valid_def
  proof (intro allI impI)
    fix n
    assume n: "n < length ctx" "loc st' n \<in> {COND_RESULT_TRUE, COND_RESULT_FALSE}"
    then have k: "dc_comp (ctx ! n) \<notin> set ks" using st'(4) by auto
    then have "loc st' n = loc st n" using st'(5) n by simp
    then show "loc st' n = result_of (cond_true lib (ctx ! n) (cs_env st'))"
      using v n cond_true_same [of "cs_env st" e' "ctx ! n" lib] part k env
      by (auto simp: cache_valid_def locals_valid_def)
  qed
  ultimately show ?thesis using st'(1,2) env len by (auto simp: cache_valid_def)
qed

end
