(* ===== verification/Config_Patch.thy ===== *)
theory Config_Patch
  imports Config_Clear
begin

text \<open>
  Using the conditions: the settings of a connection are those of the global block, overridden block by block
  by the conditional ones that hold (\<open>config_setup_connection\<close> and \<open>config_patch_connection\<close> in
  \<open>configfile.c\<close>).
\<close>

section \<open>Settings\<close>

text \<open>
  The settings are fields of \<open>con->conf\<close> (and \<open>con->server_name\<close>), copied from \<open>srv->config_storage\<close>: numbers, or
  pointers to buffers, arrays and counters. TLS is not compiled in.
\<close>

datatype conf_value = Num int | Ref nat

type_synonym conf = "string \<Rightarrow> conf_value"

definition setup_fields :: "string list" where
  "setup_fields = [
     ''http_parseopts'', ''allow_http11'', ''mimetypes'', ''document_root'', ''high_precision_timestamps'',
     ''max_keep_alive_requests'', ''max_keep_alive_idle'', ''max_read_idle'', ''max_write_idle'',
     ''max_request_size'', ''use_xattr'', ''error_handler'', ''error_handler_404'', ''errorfile_prefix'',
     ''follow_symlink'', ''server_tag'', ''kbytes_per_second'', ''global_kbytes_per_second'',
     ''global_bytes_per_second_cnt'', ''global_bytes_per_second_cnt_ptr'', ''server_name'',
     ''log_request_header'', ''log_response_header'', ''log_request_handling'', ''log_condition_handling'',
     ''log_file_not_found'', ''log_ssl_noise'', ''log_timeouts'', ''range_requests'',
     ''force_lowercase_filenames'', ''stream_request_body'', ''stream_response_body'', ''ssl_enabled'',
     ''ssl_pemfile'', ''ssl_ca_file'', ''ssl_cipher_list'', ''ssl_dh_file'', ''ssl_ec_curve'',
     ''ssl_honor_cipher_order'', ''ssl_empty_fragments'', ''ssl_use_sslv2'', ''ssl_use_sslv3'',
     ''etag_use_inode'', ''etag_use_mtime'', ''etag_use_size'', ''ssl_verifyclient'',
     ''ssl_verifyclient_enforce'', ''ssl_verifyclient_depth'', ''ssl_verifyclient_username'',
     ''ssl_verifyclient_export_cert'', ''ssl_disable_client_renegotiation'']"

definition patch_fields :: "(string \<times> string list) list" where
  "patch_fields = [
     (''server.document-root'', [''document_root'']), (''server.range-requests'', [''range_requests'']),
     (''server.error-handler'', [''error_handler'']), (''server.error-handler-404'', [''error_handler_404'']),
     (''server.errorfile-prefix'', [''errorfile_prefix'']), (''mimetype.assign'', [''mimetypes'']),
     (''server.max-keep-alive-requests'', [''max_keep_alive_requests'']),
     (''server.max-keep-alive-idle'', [''max_keep_alive_idle'']),
     (''server.max-write-idle'', [''max_write_idle'']), (''server.max-read-idle'', [''max_read_idle'']),
     (''server.max-request-size'', [''max_request_size'']), (''mimetype.use-xattr'', [''use_xattr'']),
     (''etag.use-inode'', [''etag_use_inode'']), (''etag.use-mtime'', [''etag_use_mtime'']),
     (''etag.use-size'', [''etag_use_size'']), (''ssl.pemfile'', [''ssl_pemfile'']),
     (''ssl.ca-file'', [''ssl_ca_file'']), (''ssl.honor-cipher-order'', [''ssl_honor_cipher_order'']),
     (''ssl.empty-fragments'', [''ssl_empty_fragments'']), (''ssl.use-sslv2'', [''ssl_use_sslv2'']),
     (''ssl.use-sslv3'', [''ssl_use_sslv3'']), (''ssl.cipher-list'', [''ssl_cipher_list'']),
     (''ssl.engine'', [''ssl_enabled'']), (''ssl.dh-file'', [''ssl_dh_file'']),
     (''ssl.ec-curve'', [''ssl_ec_curve'']), (''server.follow-symlink'', [''follow_symlink'']),
     (''server.name'', [''server_name'']), (''server.tag'', [''server_tag'']),
     (''server.stream-request-body'', [''stream_request_body'']),
     (''server.stream-response-body'', [''stream_response_body'']),
     (''connection.kbytes-per-second'', [''kbytes_per_second'']),
     (''debug.log-request-handling'', [''log_request_handling'']),
     (''debug.log-request-header'', [''log_request_header'']),
     (''debug.log-response-header'', [''log_response_header'']),
     (''debug.log-condition-handling'', [''log_condition_handling'']),
     (''debug.log-file-not-found'', [''log_file_not_found'']), (''debug.log-ssl-noise'', [''log_ssl_noise'']),
     (''debug.log-timeouts'', [''log_timeouts'']), (''server.protocol-http11'', [''allow_http11'']),
     (''server.force-lowercase-filenames'', [''force_lowercase_filenames'']),
     (''server.kbytes-per-second'', [''global_kbytes_per_second'', ''global_bytes_per_second_cnt'', ''global_bytes_per_second_cnt_ptr'']),
     (''ssl.verifyclient.activate'', [''ssl_verifyclient'']),
     (''ssl.verifyclient.enforce'', [''ssl_verifyclient_enforce'']),
     (''ssl.verifyclient.depth'', [''ssl_verifyclient_depth'']),
     (''ssl.verifyclient.username'', [''ssl_verifyclient_username'']),
     (''ssl.verifyclient.exportcert'', [''ssl_verifyclient_export_cert'']),
     (''ssl.disable-client-renegotiation'', [''ssl_disable_client_renegotiation''])]"

definition patch_field :: "conf \<Rightarrow> string \<Rightarrow> conf \<Rightarrow> conf" where
  "patch_field s f conf = conf(f := s f)"

definition config_setup_connection :: "(nat \<Rightarrow> conf) \<Rightarrow> conf \<Rightarrow> conf" where
  "config_setup_connection storage conf = fold (patch_field (storage 0)) setup_fields conf"

definition option_fields :: "string \<Rightarrow> string list" where
  "option_fields k = (case map_of patch_fields k of None \<Rightarrow> [] | Some fs \<Rightarrow> fs)"

definition merge_config :: "conf \<Rightarrow> string list \<Rightarrow> conf \<Rightarrow> conf" where
  "merge_config s ks conf = fold (\<lambda>k. fold (patch_field s) (option_fields k)) ks conf"

text \<open>The options a block sets; \<open>None\<close> would be reading an element that is not there.\<close>

definition block_keys :: "'p data_config \<Rightarrow> string list option" where
  "block_keys dc = all_some (map (\<lambda>j. map_option (\<lambda>du. bstr (du_key du)) (cell_read (a_data (dc_value dc)) j))
     [0..<a_used (dc_value dc)])"

text \<open>The loop over the conditional blocks, with what is done for each one that holds.\<close>

definition for_true_blocks ::
    "'p cond_lib \<Rightarrow> 'p data_config list \<Rightarrow> (nat \<Rightarrow> 'c \<Rightarrow> 'c option) \<Rightarrow> cond_state \<Rightarrow> 'c \<Rightarrow> (cond_state \<times> 'c) option" where
  "for_true_blocks lib ctx f st c = fold (\<lambda>i r. do {
       (st, c) \<leftarrow> r;
       (st, b) \<leftarrow> config_check_cond lib ctx i st;
       if b then do { c \<leftarrow> f i c; Some (st, c) } else Some (st, c)
     }) [1..<length ctx] (Some (st, c))"

definition etag_flags_of :: "conf \<Rightarrow> nat" where
  "etag_flags_of conf =
     or (or (if conf ''etag_use_mtime'' \<noteq> Num 0 then 2 else 0) (if conf ''etag_use_inode'' \<noteq> Num 0 then 1 else 0))
       (if conf ''etag_use_size'' \<noteq> Num 0 then 4 else 0)"

definition config_patch_connection ::
    "'p cond_lib \<Rightarrow> 'p data_config list \<Rightarrow> (nat \<Rightarrow> conf) \<Rightarrow> cond_state \<Rightarrow> conf \<Rightarrow> (cond_state \<times> conf \<times> nat) option" where
  "config_patch_connection lib ctx storage st conf = do {
     (st, conf) \<leftarrow> for_true_blocks lib ctx (\<lambda>i conf. do {
         ks \<leftarrow> block_keys (ctx ! i);
         Some (merge_config (storage i) ks conf)
       }) st conf;
     Some (st, conf, etag_flags_of conf)
   }"

section \<open>Evaluating all blocks\<close>

definition true_blocks ::
    "'p cond_lib \<Rightarrow> 'p data_config list \<Rightarrow> cond_env \<Rightarrow> (comp_key \<Rightarrow> bool) \<Rightarrow> nat list" where
  "true_blocks lib ctx env valid =
     filter (\<lambda>i. cond_spec lib ctx env valid i = COND_RESULT_TRUE) [1..<length ctx]"

lemma config_check_cond_ok:
  assumes wf: "wf_ctx ctx" and ok: "lib_ok lib" "env_ok (cs_env st)" and v: "cache_valid lib ctx st"
    and n: "n < length ctx" and ev: "evaluated lib ctx n st"
  shows "\<exists>st'. config_check_cond lib ctx n st = Some (st', spec lib ctx st n = COND_RESULT_TRUE) \<and>
    cache_valid lib ctx st' \<and> kept st st' \<and> evaluated lib ctx (Suc n) st'"
proof -
  obtain st' where st': "config_check_cond_cached lib ctx (n + 1) n st = Some (st', spec lib ctx st n)"
    "cache_valid lib ctx st'" "kept st st'" "\<forall>m < length ctx. res st' m = (if m = n then spec lib ctx st n else res st m)"
    using config_check_cond_cached_ok [OF wf ok v n _ ev, of "n + 1"] by auto
  have "spec lib ctx st' = spec lib ctx st" using st'(3) by (simp add: kept_def)
  then have "evaluated lib ctx (Suc n) st'" using ev st'(4) n by (auto simp: evaluated_def less_Suc_eq)
  then show ?thesis using st' by (simp add: config_check_cond_def)
qed

lemma blocks_from:
  assumes wf: "wf_ctx ctx" and lib: "lib_ok lib" and "env_ok (cs_env st)" and "cache_valid lib ctx st"
    and "0 < n" and "n + k \<le> length ctx" and "evaluated lib ctx n st"
    and f: "\<And>i c. i < length ctx \<Longrightarrow> f i c = Some (g i c)"
  shows "\<exists>st'. fold (\<lambda>i r. do {
       (st, c) \<leftarrow> r;
       (st, b) \<leftarrow> config_check_cond lib ctx i st;
       if b then do { c \<leftarrow> f i c; Some (st, c) } else Some (st, c)
     }) [n..<n + k] (Some (st, c)) =
     Some (st', fold g (filter (\<lambda>i. spec lib ctx st i = COND_RESULT_TRUE) [n..<n + k]) c) \<and>
     cache_valid lib ctx st' \<and> kept st st' \<and> evaluated lib ctx (n + k) st'"
  using assms(3-7)
proof (induction k arbitrary: n st c)
  case (Suc k)
  obtain st1 where st1: "config_check_cond lib ctx n st = Some (st1, spec lib ctx st n = COND_RESULT_TRUE)"
    "cache_valid lib ctx st1" "kept st st1" "evaluated lib ctx (Suc n) st1"
    using config_check_cond_ok [OF wf lib Suc.prems(1,2) _ Suc.prems(5)] Suc.prems(4) by auto
  have env: "env_ok (cs_env st1)" "spec lib ctx st1 = spec lib ctx st" using st1(3) Suc.prems(1) by (simp_all add: kept_def)
  let ?c = "if spec lib ctx st n = COND_RESULT_TRUE then g n c else c"
  from Suc.IH [OF env(1) st1(2) _ _ st1(4), of ?c] Suc.prems(4) obtain st' where st':
    "fold (\<lambda>i r. do {
       (st, c) \<leftarrow> r;
       (st, b) \<leftarrow> config_check_cond lib ctx i st;
       if b then do { c \<leftarrow> f i c; Some (st, c) } else Some (st, c)
     }) [Suc n..<Suc n + k] (Some (st1, ?c)) =
     Some (st', fold g (filter (\<lambda>i. spec lib ctx st i = COND_RESULT_TRUE) [Suc n..<Suc n + k]) ?c)"
    "cache_valid lib ctx st'" "kept st1 st'" "evaluated lib ctx (Suc n + k) st'"
    by (auto simp: env(2))
  have "[n..<n + Suc k] = n # [Suc n..<Suc n + k]" by (simp add: upt_conv_Cons)
  then show ?case
    using st' st1(1) f [of n c] Suc.prems(4) kept_trans [OF st1(3) st'(3)] by (intro exI [of _ st']) auto
qed simp

lemma for_true_blocks_ok:
  assumes wf: "wf_ctx ctx" and ok: "lib_ok lib" "env_ok (cs_env st)" and v: "cache_valid lib ctx st"
    and f: "\<And>i c. i < length ctx \<Longrightarrow> f i c = Some (g i c)"
  shows "\<exists>st'. for_true_blocks lib ctx f st c = Some (st', fold g (true_blocks lib ctx (cs_env st) (cs_valid st)) c) \<and>
    cache_valid lib ctx st' \<and> kept st st' \<and> evaluated lib ctx (length ctx) st'"
proof (cases "length ctx = 0")
  case True
  then show ?thesis using v by (auto simp: for_true_blocks_def true_blocks_def evaluated_def)
next
  case False
  then show ?thesis
    using blocks_from [OF wf ok v, of 1 "length ctx - 1" f g c] f
    by (auto simp: for_true_blocks_def true_blocks_def evaluated_def)
qed

section \<open>A connection's events\<close>

text \<open>
  Patching (which of the blocks hold), learning parts of the request, changing parts of it and resetting what depends on
  them, and the start of the next request.
\<close>

datatype cond_event =
  Patch | Available "comp_key list" | Change "comp_key list" cond_env | Restart cond_env

definition available :: "comp_key list \<Rightarrow> (comp_key \<Rightarrow> bool) \<Rightarrow> comp_key \<Rightarrow> bool" where
  "available ks valid k \<longleftrightarrow> k \<in> set ks \<or> valid k"

fun cond_step ::
    "'p cond_lib \<Rightarrow> 'p data_config list \<Rightarrow> cond_event \<Rightarrow> cond_state \<Rightarrow> (cond_state \<times> nat list list) option" where
  "cond_step lib ctx Patch st = map_option (\<lambda>(st, is). (st, [is])) (for_true_blocks lib ctx (\<lambda>i is. Some (is @ [i])) st [])"
| "cond_step lib ctx (Available ks) st = Some (st\<lparr>cs_valid := available ks (cs_valid st)\<rparr>, [])"
| "cond_step lib ctx (Change ks env) st = map_option (\<lambda>st. (st, [])) (reset_parts ctx ks (st\<lparr>cs_env := env\<rparr>))"
| "cond_step lib ctx (Restart env) st = map_option (\<lambda>st. (st, [])) (config_cond_cache_reset ctx (st\<lparr>cs_env := env\<rparr>))"

fun cond_run ::
    "'p cond_lib \<Rightarrow> 'p data_config list \<Rightarrow> cond_event list \<Rightarrow> cond_state \<Rightarrow> (cond_state \<times> nat list list) option" where
  "cond_run lib ctx [] st = Some (st, [])"
| "cond_run lib ctx (e # es) st = do {
     (st, out) \<leftarrow> cond_step lib ctx e st;
     (st, outs) \<leftarrow> cond_run lib ctx es st;
     Some (st, out @ outs)
   }"

text \<open>The same without a cache: every patch evaluates the conditions anew.\<close>

fun pure_run ::
    "'p cond_lib \<Rightarrow> 'p data_config list \<Rightarrow> cond_event list \<Rightarrow> cond_env \<Rightarrow> (comp_key \<Rightarrow> bool) \<Rightarrow> nat list list" where
  "pure_run lib ctx [] env valid = []"
| "pure_run lib ctx (Patch # es) env valid = true_blocks lib ctx env valid # pure_run lib ctx es env valid"
| "pure_run lib ctx (Available ks # es) env valid = pure_run lib ctx es env (available ks valid)"
| "pure_run lib ctx (Change ks env' # es) env valid = pure_run lib ctx es env' valid"
| "pure_run lib ctx (Restart env' # es) env valid = pure_run lib ctx es env' (\<lambda>_. False)"

text \<open>A change names every part that is different afterwards.\<close>

fun events_ok :: "cond_event list \<Rightarrow> cond_env \<Rightarrow> bool" where
  "events_ok [] env \<longleftrightarrow> True"
| "events_ok (Patch # es) env \<longleftrightarrow> events_ok es env"
| "events_ok (Available ks # es) env \<longleftrightarrow> events_ok es env"
| "events_ok (Change ks env' # es) env \<longleftrightarrow>
     env_ok env' \<and> (\<forall>k. k \<notin> set ks \<longrightarrow> same_part env env' k) \<and> events_ok es env'"
| "events_ok (Restart env' # es) env \<longleftrightarrow> env_ok env' \<and> events_ok es env'"

lemma fold_snoc: "fold (\<lambda>i is. is @ [i]) xs ys = ys @ xs"
  by (induction xs arbitrary: ys) simp_all

lemma available_ok:
  assumes wf: "wf_ctx ctx" and v: "cache_valid lib ctx st"
  shows "cache_valid lib ctx (st\<lparr>cs_valid := available ks (cs_valid st)\<rparr>)"
proof -
  have "results_valid lib ctx (st\<lparr>cs_valid := available ks (cs_valid st)\<rparr>)"
    unfolding results_valid_def
  proof (intro allI impI)
    fix n
    assume n: "n < length ctx" "res (st\<lparr>cs_valid := available ks (cs_valid st)\<rparr>) n \<noteq> COND_RESULT_UNSET"
    then have "res st n = spec lib ctx st n" "spec lib ctx st n \<noteq> COND_RESULT_UNSET"
      using v by (auto simp: cache_valid_def results_valid_def)
    then show "res (st\<lparr>cs_valid := available ks (cs_valid st)\<rparr>) n = spec lib ctx (st\<lparr>cs_valid := available ks (cs_valid st)\<rparr>) n"
      using cond_spec_mono [OF wf _ n(1), of "cs_valid st" "available ks (cs_valid st)" lib "cs_env st"]
      by (simp add: available_def)
  qed
  then show ?thesis using v by (simp add: cache_valid_def closed_def locals_valid_def)
qed

lemma config_cond_cache_reset_ok:
  assumes "length ctx \<le> length (cs_cache st)"
  shows "\<exists>st'. config_cond_cache_reset ctx st = Some st' \<and> cache_valid lib ctx st' \<and> cs_env st' = cs_env st \<and>
    cs_valid st' = (\<lambda>_. False)"
  using assms
  by (auto simp: config_cond_cache_reset_def cache_valid_def closed_def results_valid_def locals_valid_def nth_append)

lemma cond_run_ok:
  assumes wf: "wf_ctx ctx" and lib: "lib_ok lib" and "env_ok (cs_env st)" and "cache_valid lib ctx st"
    and "events_ok es (cs_env st)"
  shows "\<exists>st'. cond_run lib ctx es st = Some (st', pure_run lib ctx es (cs_env st) (cs_valid st)) \<and> cache_valid lib ctx st'"
  using assms(3-)
proof (induction es arbitrary: st)
  case (Cons e es)
  have len: "length ctx \<le> length (cs_cache st)" using Cons.prems(2) by (simp add: cache_valid_def)
  show ?case
  proof (cases e)
    case Patch
    obtain st1 where st1: "for_true_blocks lib ctx (\<lambda>i is. Some (is @ [i])) st [] =
        Some (st1, true_blocks lib ctx (cs_env st) (cs_valid st))" "cache_valid lib ctx st1" "kept st st1"
      using for_true_blocks_ok [OF wf lib Cons.prems(1,2), of "\<lambda>i is. Some (is @ [i])" "\<lambda>i is. is @ [i]" "[]"]
      by (auto simp: fold_snoc)
    then have "cs_env st1 = cs_env st" "cs_valid st1 = cs_valid st" by (simp_all add: kept_def)
    then show ?thesis using Patch st1 Cons.IH [of st1] Cons.prems by auto
  next
    case (Available ks)
    then show ?thesis using Cons.IH [OF _ available_ok [OF wf Cons.prems(2)], of ks] Cons.prems by auto
  next
    case (Change ks env)
    then obtain st1 where "reset_parts ctx ks (st\<lparr>cs_env := env\<rparr>) = Some st1" "cache_valid lib ctx st1"
      "cs_env st1 = env" "cs_valid st1 = cs_valid st"
      using change_ok [OF wf Cons.prems(2), of ks env] Cons.prems(3) by auto
    then show ?thesis using Change Cons.IH [of st1] Cons.prems(3) by auto
  next
    case (Restart env)
    obtain st1 where "config_cond_cache_reset ctx (st\<lparr>cs_env := env\<rparr>) = Some st1" "cache_valid lib ctx st1"
      "cs_env st1 = env" "cs_valid st1 = (\<lambda>_. False)"
      using config_cond_cache_reset_ok [of ctx "st\<lparr>cs_env := env\<rparr>" lib] len by auto
    then show ?thesis using Restart Cons.IH [of st1] Cons.prems(3) by auto
  qed
qed simp

end
