(* ===== verification/Config_Net.thy ===== *)
theory Config_Net
  imports Config_Check
begin

text \<open>Networks in conditions: the masks and the loop over octets compare exactly the leading bits.\<close>

section \<open>Leading bits\<close>

definition octet_bits :: "8 word \<Rightarrow> bool list" where
  "octet_bits w = map (bit w) (rev [0..<8])"

definition addr_bits :: "8 word list \<Rightarrow> bool list" where
  "addr_bits a = concat (map octet_bits a)"

lemma length_octet_bits [simp]: "length (octet_bits w) = 8"
  by (simp add: octet_bits_def)

lemma take_octet_bits:
  assumes "n \<le> 8"
  shows "take n (octet_bits w) = map (bit w) (rev [8 - n..<8])"
proof -
  have "[0..<8] = [0..<8 - n] @ [8 - n..<8]" using upt_add_eq_append [of 0 "8 - n" n] assms by simp
  then show ?thesis using assms by (simp add: octet_bits_def)
qed

lemma prefix_octet:
  assumes "n \<le> 8"
  shows "take n (octet_bits a) = take n (octet_bits b) \<longleftrightarrow> drop_bit (8 - n) a = drop_bit (8 - n) b"
proof
  assume "take n (octet_bits a) = take n (octet_bits b)"
  then have eq: "bit a i = bit b i" if "8 - n \<le> i" "i < 8" for i
    using that by (simp add: take_octet_bits [OF assms])
  show "drop_bit (8 - n) a = drop_bit (8 - n) b"
  proof (rule bit_word_eqI)
    fix k
    show "bit (drop_bit (8 - n) a) k = bit (drop_bit (8 - n) b) k"
      using eq [of "8 - n + k"] by (cases "8 - n + k < 8") (auto simp: bit_drop_bit_eq dest: bit_imp_le_length)
  qed
next
  assume eq: "drop_bit (8 - n) a = drop_bit (8 - n) b"
  have "bit a i = bit b i" if "8 - n \<le> i" for i
  proof -
    have "bit (drop_bit (8 - n) a) (i - (8 - n)) = bit (drop_bit (8 - n) b) (i - (8 - n))" by (simp only: eq)
    then show ?thesis using that by (simp add: bit_drop_bit_eq)
  qed
  then show "take n (octet_bits a) = take n (octet_bits b)" by (simp add: take_octet_bits [OF assms])
qed

lemma octet_bits_inject: "octet_bits a = octet_bits b \<longleftrightarrow> a = b"
  using prefix_octet [of 8 a b] by simp

lemma ip6_prefix_ok:
  "length a = length b \<Longrightarrow> 0 < n \<Longrightarrow> n \<le> 8 * length a \<Longrightarrow>
     ip6_prefix a b n = Some (take n (addr_bits a) = take n (addr_bits b))"
proof (induction a b n rule: ip6_prefix.induct)
  case (1 a as b bs n)
  have step: "take n (addr_bits (a # as)) = take n (addr_bits (b # bs)) \<longleftrightarrow>
      take n (octet_bits a) = take n (octet_bits b) \<and> take (n - 8) (addr_bits as) = take (n - 8) (addr_bits bs)"
    by (simp add: addr_bits_def)
  show ?case
  proof (cases "8 < n")
    case True
    then show ?thesis using 1 step by (simp add: octet_bits_inject Let_def)
  next
    case False
    then show ?thesis using step prefix_octet [of n a b] by auto
  qed
qed auto

lemma masked_eq:
  fixes x y m :: "32 word"
  assumes "\<And>i. i < 32 \<Longrightarrow> bit m i \<longleftrightarrow> k \<le> i" and "k \<le> 32"
  shows "and x m = and y m \<longleftrightarrow> drop_bit k x = drop_bit k y"
proof
  assume eq: "and x m = and y m"
  show "drop_bit k x = drop_bit k y"
  proof (rule bit_word_eqI)
    fix i
    have "bit (and x m) (k + i) = bit (and y m) (k + i)" by (simp only: eq)
    then show "bit (drop_bit k x) i = bit (drop_bit k y) i"
      using assms(1) [of "k + i"]
      by (cases "k + i < 32") (auto simp: bit_drop_bit_eq bit_and_iff dest: bit_imp_le_length)
  qed
next
  assume eq: "drop_bit k x = drop_bit k y"
  show "and x m = and y m"
  proof (rule bit_word_eqI)
    fix i
    assume i: "i < LENGTH(32)"
    show "bit (and x m) i = bit (and y m) i"
    proof (cases "k \<le> i")
      case True
      have "bit (drop_bit k x) (i - k) = bit (drop_bit k y) (i - k)" by (simp only: eq)
      then show ?thesis using True by (simp add: bit_drop_bit_eq bit_and_iff)
    qed (use assms i in \<open>simp add: bit_and_iff\<close>)
  qed
qed

lemma ip4_mask_ok:
  assumes "1 \<le> n" and "n \<le> 32"
  shows "and x (ip4_mask n) = and y (ip4_mask n) \<longleftrightarrow> drop_bit (32 - n) x = drop_bit (32 - n) y"
proof (rule masked_eq)
  fix i :: nat
  assume "i < 32"
  then show "bit (ip4_mask n) i \<longleftrightarrow> 32 - n \<le> i"
    using assms by (simp add: ip4_mask_def push_bit_of_1 flip: mask_eq_exp_minus_1) (auto simp: bit_not_iff bit_mask_iff)
qed simp

lemma mapped_mask_ok:
  assumes "n \<le> 128"
  shows "and x (mapped_mask n) = and y (mapped_mask n) \<longleftrightarrow> n \<le> 96 \<or> drop_bit (128 - n) x = drop_bit (128 - n) y"
proof (cases "n \<le> 96")
  case True
  then show ?thesis by (simp add: mapped_mask_def)
next
  case False
  have "and x (mapped_mask n) = and y (mapped_mask n) \<longleftrightarrow> drop_bit (128 - n) x = drop_bit (128 - n) y"
  proof (rule masked_eq)
    fix i :: nat
    assume i: "i < 32"
    show "bit (mapped_mask n) i \<longleftrightarrow> 128 - n \<le> i"
    proof (cases "n < 128")
      case True
      then show ?thesis
        using i False assms by (auto simp: mapped_mask_def bit_not_iff bit_drop_bit_eq bit_mask_iff)
    qed (use i assms in \<open>simp add: mapped_mask_def\<close>)
  qed (use False in simp)
  then show ?thesis using False by simp
qed

section \<open>Conditions on addresses\<close>

definition in_net4 :: "32 word \<Rightarrow> nat \<Rightarrow> sock_addr \<Rightarrow> bool" where
  "in_net4 net n rmt =
     (case rmt of
        AF_INET x \<Rightarrow> drop_bit (32 - n) net = drop_bit (32 - n) x
      | AF_INET6 a \<Rightarrow> is_v4mapped a \<and> drop_bit (32 - n) net = drop_bit (32 - n) (v4_part a)
      | AF_OTHER \<Rightarrow> False)"

definition in_net6 :: "8 word list \<Rightarrow> nat \<Rightarrow> sock_addr \<Rightarrow> bool" where
  "in_net6 net n rmt =
     (case rmt of
        AF_INET6 a \<Rightarrow> take n (addr_bits net) = take n (addr_bits a)
      | AF_INET x \<Rightarrow> is_v4mapped net \<and> (n \<le> 96 \<or> drop_bit (128 - n) (v4_part net) = drop_bit (128 - n) x)
      | AF_OTHER \<Rightarrow> False)"

lemma addrbuf_digits:
  assumes "length addr < 64" and "0 < n" and "n \<le> 128"
  shows "config_addrbuf_eq_remote_ip_mask lib (addr @ ''/'' @ utostr (of_nat n) []) (length addr) rmt =
    config_addrstr_eq_remote_ip_mask lib addr n rmt"
proof -
  have "unat (of_nat n :: 64 word) = n" using assms(3) by (simp add: unat_of_nat take_bit_nat_eq_self)
  then have "strtol10 (utostr (of_nat n) []) = (int n, [])"
    using strtol10_digits [OF utostr_not_Nil, of "of_nat n" "[]"] utostr_digits assms(3)
    by (simp add: dec_val_utostr LONG_MAX_def)
  moreover have "to_int (int n) = int n"
    using assms(3) unfolding to_int_def sint_sbintrunc' by (simp add: signed_take_bit_int_eq_self)
  ultimately show ?thesis using assms by (simp add: config_addrbuf_eq_remote_ip_mask_def)
qed

text \<open>C15: A condition on a network, such as 10.0.0.0/8 or 2001:db8::/32, holds exactly for the clients whose address
  has the same leading bits: for IPv4 and IPv6, and across the families for addresses of the form
  ::ffff:a.b.c.d. No octet behind an address is read.\<close>

theorem remote_network:
  assumes "length addr < 64" and "1 \<le> n"
    and "case rmt of AF_INET6 a \<Rightarrow> length a = 16 | _ \<Rightarrow> True"
    and "inet_pton4 lib addr = Some net4 \<and> n \<le> 32 \<and> hit = in_net4 net4 n rmt \<or>
      inet_pton4 lib addr = None \<and> inet_pton6 lib addr = Some net6 \<and> length net6 = 16 \<and> n \<le> 128 \<and> hit = in_net6 net6 n rmt"
  shows "config_addrbuf_eq_remote_ip_mask lib (addr @ ''/'' @ utostr (of_nat n) []) (length addr) rmt = Some (of_bool hit)"
proof -
  have "config_addrbuf_eq_remote_ip_mask lib (addr @ ''/'' @ utostr (of_nat n) []) (length addr) rmt =
      config_addrstr_eq_remote_ip_mask lib addr n rmt"
    using assms by (intro addrbuf_digits) auto
  moreover from assms(4) have "config_addrstr_eq_remote_ip_mask lib addr n rmt = Some (of_bool hit)"
  proof (elim disjE conjE)
    assume "inet_pton4 lib addr = Some net4" "n \<le> 32" "hit = in_net4 net4 n rmt"
    then show ?thesis
      using assms(2) ip4_mask_ok [of n]
      by (simp add: config_addrstr_eq_remote_ip_mask_def Let_def in_net4_def split: sock_addr.splits)
  next
    assume "inet_pton4 lib addr = None" "inet_pton6 lib addr = Some net6" "length net6 = 16" "n \<le> 128"
      "hit = in_net6 net6 n rmt"
    then show ?thesis
      using assms(2,3) mapped_mask_ok [of n] ip6_prefix_ok [of net6 _ n]
      by (cases rmt) (simp_all add: config_addrstr_eq_remote_ip_mask_def Let_def in_net6_def del: of_bool_eq_iff)
  qed
  ultimately show ?thesis by simp
qed

text \<open>The network 10.0.0.0/8 and the client 10.1.2.3, with \<open>inet_pton\<close> known on this address.\<close>

definition sample_lib :: "bool cond_lib" where
  "sample_lib = \<lparr>pcre_exec = (\<lambda>p s. if p then (2, [0, int (length (bstr s)), 1, int (length (bstr s))] @ replicate 26 0) else (- 1, replicate 30 0)),
     inet_pton4 = (\<lambda>s. if s = ''10.0.0.0'' then Some 0x0A000000 else None), inet_pton6 = (\<lambda>_. None)\<rparr>"

theorem remote_network_witness:
  "config_addrbuf_eq_remote_ip_mask sample_lib (''10.0.0.0'' @ ''/'' @ utostr (of_nat 8) []) (length ''10.0.0.0'')
     (AF_INET 0x0A010203) = Some 1"
proof -
  have "in_net4 0x0A000000 8 (AF_INET 0x0A010203)" unfolding in_net4_def by code_simp
  then show ?thesis
    using remote_network [where addr = "''10.0.0.0''" and n = 8 and rmt = "AF_INET 0x0A010203" and lib = sample_lib
        and hit = True]
    by (simp add: sample_lib_def)
qed

end
