(* ===== verification/Config_Props.thy ===== *)
theory Config_Props
  imports Config_Patch Config_Net
begin

text \<open>What the rest of the server relies on: properties of the conditions and of the settings they select.\<close>

section \<open>A sample configuration\<close>

text \<open>
  A block for a scheme with two branches inside: one for hosts that match a pattern (which captures all but the
  first letter), one for other hosts.
\<close>

definition sample_block :: "comp_key \<Rightarrow> config_cond \<Rightarrow> string \<Rightarrow> bool data_config" where
  "sample_block k c s = \<lparr>dc_comp = k, dc_cond = c, dc_value = array_init, dc_string = s, dc_regex = True,
     dc_parent = None, dc_prev = None, dc_next = None, dc_children = []\<rparr>"

definition sample_ctx :: "bool data_config list" where
  "sample_ctx =
     [(sample_block COMP_UNSET CONFIG_COND_UNSET '''')\<lparr>dc_children := [1]\<rparr>,
      (sample_block COMP_HTTP_SCHEME CONFIG_COND_EQ ''http'')\<lparr>dc_parent := Some 0, dc_children := [2, 3]\<rparr>,
      (sample_block COMP_HTTP_HOST CONFIG_COND_MATCH ''.(.*)'')\<lparr>dc_parent := Some 1, dc_next := Some 3\<rparr>,
      (sample_block COMP_HTTP_URL CONFIG_COND_NE ''/'')\<lparr>dc_parent := Some 1, dc_prev := Some 2\<rparr>]"

definition sample_env :: cond_env where
  "sample_env = \<lparr>ce_authority = Some ''host'', ce_remote_ip = Some ''10.1.2.3'', ce_dst_addr = AF_INET 0x0A010203,
     ce_scheme = Some ''http'', ce_path = Some ''/'', ce_query = None, ce_token = Some '':80'', ce_port = 80,
     ce_headers = array_init, ce_method = HTTP_METHOD_GET\<rparr>"

definition sample_state :: cond_state where
  "sample_state = \<lparr>cs_env = sample_env, cs_cache = replicate 4 \<lparr>cc_result = COND_RESULT_UNSET,
       cc_local_result = COND_RESULT_UNSET, cc_patterncount = 0, cc_matches = [], cc_comp_value = None\<rparr>,
     cs_valid = (\<lambda>_. False), cs_check_buf = None, cs_tmp_buf = None\<rparr>"

definition all_parts :: "comp_key list" where
  "all_parts = [COMP_SERVER_SOCKET, COMP_HTTP_SCHEME, COMP_HTTP_HOST, COMP_HTTP_REMOTE_IP, COMP_HTTP_REFERER,
     COMP_HTTP_USER_AGENT, COMP_HTTP_LANGUAGE, COMP_HTTP_COOKIE, COMP_HTTP_REQUEST_METHOD, COMP_HTTP_URL,
     COMP_HTTP_QUERY_STRING]"

lemma sample_wf: "wf_ctx sample_ctx"
proof -
  have len: "length sample_ctx = 4" by (simp add: sample_ctx_def)
  have less4: "n < 4 \<longleftrightarrow> n = 0 \<or> n = 1 \<or> n = 2 \<or> n = 3" for n :: nat by auto
  show ?thesis unfolding wf_ctx_def len less4 by (auto simp: sample_ctx_def sample_block_def)
qed

lemma sample_state_ok: "env_ok sample_env" "lib_ok sample_lib" "cache_valid sample_lib sample_ctx sample_state"
proof -
  have "store_ok is_dstring array_init"
    using arr_okI [OF array_init_holds] by (simp add: store_ok_def arr_of_def array_init_def)
  then show "env_ok sample_env" by (simp add: env_ok_def sample_env_def)
  show "lib_ok sample_lib" by (simp add: lib_ok_def sample_lib_def)
  show "cache_valid sample_lib sample_ctx sample_state"
    by (auto simp: cache_valid_def closed_def results_valid_def locals_valid_def sample_state_def sample_ctx_def)
qed

section \<open>The cache\<close>

text \<open>C5: The cache of condition results cannot be observed: over any run of evaluations of all blocks, of parts of the
  request becoming known, of changes of some parts followed by resetting exactly those, and of new
  requests, every evaluation finds just the blocks that hold when their conditions are evaluated from
  scratch against the request as it is then; the recursion ends and no access is out of bounds.\<close>

theorem cond_cache_transparent:
  assumes "wf_ctx ctx" and "lib_ok lib" and "length ctx \<le> length (cs_cache st)"
    and "events_ok (Restart env # es) (cs_env st)"
  shows "\<exists>st'. cond_run lib ctx (Restart env # es) st = Some (st', pure_run lib ctx es env (\<lambda>_. False))"
proof -
  obtain st1 where "config_cond_cache_reset ctx (st\<lparr>cs_env := env\<rparr>) = Some st1" "cache_valid lib ctx st1"
    "cs_env st1 = env" "cs_valid st1 = (\<lambda>_. False)"
    using config_cond_cache_reset_ok [of ctx "st\<lparr>cs_env := env\<rparr>" lib] assms(3) by auto
  then show ?thesis using cond_run_ok [OF assms(1,2), of st1 es] assms(4) by auto
qed

text \<open>A request for "host": the branch for the pattern holds; when the scheme turns out to be https, no block does.\<close>

theorem cond_cache_transparent_witness:
  "\<exists>st'. cond_run sample_lib sample_ctx [Restart sample_env, Patch, Available all_parts, Patch,
       Change [COMP_HTTP_SCHEME] (sample_env\<lparr>ce_scheme := Some ''https''\<rparr>), Patch] sample_state =
     Some (st', [[], [1, 2], []])"
proof -
  let ?es = "[Patch, Available all_parts, Patch, Change [COMP_HTTP_SCHEME] (sample_env\<lparr>ce_scheme := Some ''https''\<rparr>), Patch]"
  have "same_part sample_env (sample_env\<lparr>ce_scheme := Some ''https''\<rparr>) k" if "k \<noteq> COMP_HTTP_SCHEME" for k
    using that by (cases k) (simp_all add: header_text_def)
  then have "events_ok (Restart sample_env # ?es) (cs_env sample_state)"
    using sample_state_ok(1) by (auto simp: env_ok_def)
  moreover have "length sample_ctx \<le> length (cs_cache sample_state)" by (simp add: sample_ctx_def sample_state_def)
  moreover have "pure_run sample_lib sample_ctx ?es sample_env (\<lambda>_. False) = [[], [1, 2], []]" by code_simp
  ultimately show ?thesis using cond_cache_transparent [OF sample_wf sample_state_ok(2)] by metis
qed

section \<open>Blocks and branches\<close>

definition branch_before :: "'p data_config list \<Rightarrow> nat \<Rightarrow> nat \<Rightarrow> bool" where
  "branch_before ctx q n \<longleftrightarrow> dc_prev (ctx ! n) = Some q"

lemma branches_false:
  assumes wf: "wf_ctx ctx" and "(branch_before ctx)\<^sup>+\<^sup>+ q n" and "n < length ctx"
    and "cond_spec lib ctx env valid n \<in> {COND_RESULT_TRUE, COND_RESULT_FALSE}"
  shows "q < length ctx \<and> cond_spec lib ctx env valid q = COND_RESULT_FALSE"
proof -
  have one: "q < length ctx \<and> cond_spec lib ctx env valid q = COND_RESULT_FALSE"
    if "branch_before ctx q n" "n < length ctx" "cond_spec lib ctx env valid n \<in> {COND_RESULT_TRUE, COND_RESULT_FALSE}"
    for q n
  proof -
    have "spec_before lib ctx env valid n = cond_spec lib ctx env valid q"
      using that(1) by (simp add: branch_before_def spec_before_def)
    moreover have "q < n" using wf_ctxD(4) [OF wf that(2)] that(1) by (simp add: branch_before_def)
    ultimately show ?thesis
      using that(2,3) cond_spec_wf [OF wf that(2), of lib env valid] by (auto split: if_splits)
  qed
  from assms(2-4) show ?thesis
  proof (induction rule: tranclp_induct)
    case (base n)
    then show ?case using one by blast
  next
    case (step m n)
    then show ?case using one [OF step.hyps(2)] by simp
  qed
qed

lemma true_block:
  assumes wf: "wf_ctx ctx" and n: "n < length ctx" and r: "cond_spec lib ctx env valid n = COND_RESULT_TRUE"
  shows "cond_true lib (ctx ! n) env"
    and "dc_parent (ctx ! n) = Some p \<Longrightarrow> p \<noteq> 0 \<Longrightarrow> cond_spec lib ctx env valid p = COND_RESULT_TRUE"
  using r cond_spec_wf [OF wf n, of lib env valid]
  by (auto simp: spec_up_def split: if_splits)

text \<open>C25: The blocks that are applied to a request, in the order of the configuration, are consistent: the condition
  of each holds for the request, the blocks it is nested in are applied too, and no earlier branch of
  its if-else chain is, so at most one branch of every chain is applied.\<close>

theorem applied_blocks_consistent:
  assumes "wf_ctx ctx" and "lib_ok lib" and "env_ok (cs_env st)" and "cache_valid lib ctx st"
  shows "\<exists>st' is. for_true_blocks lib ctx (\<lambda>i is. Some (is @ [i])) st [] = Some (st', is) \<and>
    sorted_wrt (<) is \<and> (\<forall>i \<in> set is. 0 < i \<and> i < length ctx \<and> cond_true lib (ctx ! i) (cs_env st) \<and>
      (\<forall>p. dc_parent (ctx ! i) = Some p \<longrightarrow> p = 0 \<or> p \<in> set is) \<and>
      (\<forall>q. (branch_before ctx)\<^sup>+\<^sup>+ q i \<longrightarrow> q \<notin> set is))"
proof -
  let ?is = "true_blocks lib ctx (cs_env st) (cs_valid st)"
  obtain st' where st': "for_true_blocks lib ctx (\<lambda>i is. Some (is @ [i])) st [] = Some (st', ?is)"
    using for_true_blocks_ok [OF assms, of "\<lambda>i is. Some (is @ [i])" "\<lambda>i is. is @ [i]" "[]"] by (auto simp: fold_snoc)
  have "sorted_wrt (<) ?is" by (simp add: true_blocks_def sorted_wrt_filter)
  moreover have "0 < i \<and> i < length ctx \<and> cond_true lib (ctx ! i) (cs_env st) \<and>
      (\<forall>p. dc_parent (ctx ! i) = Some p \<longrightarrow> p = 0 \<or> p \<in> set ?is) \<and>
      (\<forall>q. (branch_before ctx)\<^sup>+\<^sup>+ q i \<longrightarrow> q \<notin> set ?is)" if "i \<in> set ?is" for i
  proof -
    have i: "0 < i" "i < length ctx" "spec lib ctx st i = COND_RESULT_TRUE" using that by (auto simp: true_blocks_def)
    show ?thesis
      using i true_block [OF assms(1) i(2,3)] wf_ctxD(1) [OF assms(1) i(2)] branches_false [OF assms(1) _ i(2)]
      by (fastforce simp: true_blocks_def)
  qed
  ultimately show ?thesis using st' by blast
qed

theorem applied_blocks_consistent_witness:
  "\<exists>st' is. for_true_blocks sample_lib sample_ctx (\<lambda>i is. Some (is @ [i])) sample_state [] = Some (st', is) \<and>
     sorted_wrt (<) is"
  using applied_blocks_consistent [OF sample_wf sample_state_ok(2) _ sample_state_ok(3)] sample_state_ok(1)
  by (auto simp: sample_state_def)

section \<open>Settings\<close>

definition sets_field :: "'p data_config \<Rightarrow> string \<Rightarrow> bool" where
  "sets_field dc f \<longleftrightarrow> (\<exists>k \<in> set (the (block_keys dc)). f \<in> set (option_fields k))"

text \<open>The last of the blocks that hold and set the field, or the global one.\<close>

definition last_setting :: "'p data_config list \<Rightarrow> nat list \<Rightarrow> string \<Rightarrow> nat" where
  "last_setting ctx is f = (case find (\<lambda>i. sets_field (ctx ! i) f) (rev is) of None \<Rightarrow> 0 | Some i \<Rightarrow> i)"

lemma patch_fields_at: "fold (patch_field s) fs conf f = (if f \<in> set fs then s f else conf f)"
  by (induction fs arbitrary: conf) (auto simp: patch_field_def)

lemma merge_config_at:
  "merge_config s ks conf f = (if \<exists>k \<in> set ks. f \<in> set (option_fields k) then s f else conf f)"
  unfolding merge_config_def
  by (induction ks arbitrary: conf) (auto simp: patch_fields_at)

lemma merge_all_at:
  assumes "conf f = storage 0 f"
  shows "fold (\<lambda>i. merge_config (storage i) (the (block_keys (ctx ! i)))) is conf f =
    storage (last_setting ctx is f) f"
proof (induction "is" rule: rev_induct)
  case Nil
  then show ?case using assms by (simp add: last_setting_def)
next
  case (snoc i "is")
  then show ?case by (auto simp: merge_config_at last_setting_def sets_field_def)
qed

text \<open>C13: Every setting of a connection comes from the last block of the configuration that holds for the request and
  sets it, and from the global block if there is none; the flags for entity tags follow from the
  settings that result.\<close>

theorem config_patch_last_match:
  assumes "wf_ctx ctx" and "lib_ok lib" and "env_ok (cs_env st)" and "cache_valid lib ctx st"
    and keys: "\<forall>i < length ctx. block_keys (ctx ! i) \<noteq> None"
  shows "\<exists>st' conf'. config_patch_connection lib ctx storage st (config_setup_connection storage conf) =
      Some (st', conf', etag_flags_of conf') \<and>
    (\<forall>f \<in> set setup_fields. conf' f =
       storage (last_setting ctx (true_blocks lib ctx (cs_env st) (cs_valid st)) f) f)"
proof -
  let ?c = "config_setup_connection storage conf"
  let ?g = "\<lambda>i. merge_config (storage i) (the (block_keys (ctx ! i)))"
  let ?is = "true_blocks lib ctx (cs_env st) (cs_valid st)"
  have "(block_keys (ctx ! i) \<bind> (\<lambda>ks. Some (merge_config (storage i) ks c))) = Some (?g i c)" if "i < length ctx" for i c
    using keys that by auto
  from for_true_blocks_ok [OF assms(1-4), where g = ?g and c = ?c, OF this] obtain st' where
    "config_patch_connection lib ctx storage st ?c = Some (st', fold ?g ?is ?c, etag_flags_of (fold ?g ?is ?c))"
    by (auto simp: config_patch_connection_def)
  moreover have "?c f = storage 0 f" if "f \<in> set setup_fields" for f
    using that by (simp add: config_setup_connection_def patch_fields_at)
  ultimately show ?thesis using merge_all_at [of ?c _ storage ctx ?is] by blast
qed

theorem config_patch_last_match_witness:
  "\<exists>st' conf'. config_patch_connection sample_lib sample_ctx (\<lambda>i f. Num (int i)) sample_state
      (config_setup_connection (\<lambda>i f. Num (int i)) (\<lambda>_. Ref 0)) = Some (st', conf', etag_flags_of conf')"
proof -
  have len: "length sample_ctx = 4" by (simp add: sample_ctx_def)
  have "\<forall>i < length sample_ctx. block_keys (sample_ctx ! i) \<noteq> None"
    unfolding len by (simp add: sample_ctx_def sample_block_def block_keys_def array_init_def numeral_eq_Suc less_Suc_eq)
  then show ?thesis
    using config_patch_last_match [OF sample_wf sample_state_ok(2) _ sample_state_ok(3)] sample_state_ok(1)
    by (fastforce simp: sample_state_def)
qed

section \<open>Captured texts\<close>

text \<open>C14: Resetting a part of the request loses the captured texts of conditions nested in a block for it, although their
  own part did not change: when the block is evaluated again the nested condition holds as before, by
  its remembered result, but its pattern is not matched again, so every use of a captured text appends
  nothing.\<close>

theorem reset_loses_captures:
  assumes wf: "wf_ctx ctx" and ok: "lib_ok lib" "env_ok (cs_env st)" and v: "cache_valid lib ctx st"
    and n: "n < length ctx" "dc_comp (ctx ! n) \<noteq> item"
    and p: "dc_parent (ctx ! n) = Some p" "p \<noteq> 0" "dc_comp (ctx ! p) = item"
    and held: "res st n = COND_RESULT_TRUE" "loc st n = COND_RESULT_TRUE"
  shows "\<exists>st1 st2 is. config_cond_cache_reset_item ctx item st = Some st1 \<and>
    for_true_blocks lib ctx (\<lambda>i is. Some (is @ [i])) st1 [] = Some (st2, is) \<and> n \<in> set is \<and>
    (\<forall>buf j. config_append_cond_match_buffer st2 n buf j = Some (buf, False))"
proof -
  have len: "length ctx \<le> length (cs_cache st)" and cl: "closed ctx st" using v by (simp_all add: cache_valid_def)
  have pl: "p < n" using wf_ctxD(1) [OF wf n(1) p(1)] .
  obtain st1 where st1: "config_cond_cache_reset_item ctx item st = Some st1" "closed ctx st1" "undone st st1"
    "\<forall>i < length ctx. dc_comp (ctx ! i) = item \<longrightarrow> res st1 i = COND_RESULT_UNSET \<and> loc st1 i = COND_RESULT_UNSET"
    "\<forall>m < length ctx. dc_comp (ctx ! m) \<noteq> item \<longrightarrow> loc st1 m = loc st m"
    using config_cond_cache_reset_item_ok [OF wf len cl, of item] by blast
  have env: "cs_env st1 = cs_env st" "cs_valid st1 = cs_valid st" "length (cs_cache st1) = length (cs_cache st)"
    using st1(3) by (simp_all add: undone_def)
  have loc1: "loc st1 n = COND_RESULT_TRUE" using st1(5) n held by simp
  have "res st1 p = COND_RESULT_UNSET" using st1(4) p(3) pl n(1) by simp
  then have "res st1 n = COND_RESULT_UNSET"
    using st1(2) n(1) p(1,2) by (auto simp: closed_def deps_def)
  then have cap1: "cc_patterncount (cs_cache st1 ! n) = 0"
    using st1(3) held(1) unfolding undone_def by (metis cond_result.distinct(5))
  have v1: "cache_valid lib ctx st1"
  proof -
    have "results_valid lib ctx st1"
      using v st1(3) env unfolding results_valid_def cache_valid_def undone_def by metis
    moreover have "locals_valid lib ctx st1"
      unfolding locals_valid_def env(1)
    proof (intro allI impI)
      fix m
      assume m: "m < length ctx" "loc st1 m \<in> {COND_RESULT_TRUE, COND_RESULT_FALSE}"
      then have "loc st1 m = loc st m" using st1(4,5) by (metis cond_result.distinct(3,5) insertE singletonD)
      then show "loc st1 m = result_of (cond_true lib (ctx ! m) (cs_env st))"
        using v m by (auto simp: cache_valid_def locals_valid_def)
    qed
    ultimately show ?thesis using st1(2) env len by (simp add: cache_valid_def)
  qed
  obtain st2 where st2: "for_true_blocks lib ctx (\<lambda>i is. Some (is @ [i])) st1 [] =
      Some (st2, true_blocks lib ctx (cs_env st) (cs_valid st))" "kept st1 st2"
    using for_true_blocks_ok [OF wf ok(1) _ v1, of "\<lambda>i is. Some (is @ [i])" "\<lambda>i is. is @ [i]" "[]"] ok(2) env
    by (auto simp: fold_snoc)
  have "spec lib ctx st n = COND_RESULT_TRUE" using v held(1) n(1) by (auto simp: cache_valid_def results_valid_def)
  then have "n \<in> set (true_blocks lib ctx (cs_env st) (cs_valid st))" using n(1) pl by (simp add: true_blocks_def)
  moreover have "cc_patterncount (cs_cache st2 ! n) = 0" "n < length (cs_cache st2)"
    using st2(2) loc1 cap1 n(1) len env by (auto simp: kept_def)
  then have "config_append_cond_match_buffer st2 n buf j = Some (buf, False)" for buf j
    by (simp add: config_append_cond_match_buffer_def cache_at_def)
  ultimately show ?thesis using st1(1) st2(1) by blast
qed

text \<open>The cache after the sample request has been evaluated, with the text the pattern captured.\<close>

definition sample_entry :: "cond_result \<Rightarrow> cond_result \<Rightarrow> cond_cache" where
  "sample_entry r l = \<lparr>cc_result = r, cc_local_result = l, cc_patterncount = 0, cc_matches = [], cc_comp_value = None\<rparr>"

definition sample_cached :: cond_state where
  "sample_cached = sample_state\<lparr>cs_valid := \<lambda>_. True, cs_cache :=
     [sample_entry COND_RESULT_UNSET COND_RESULT_UNSET, sample_entry COND_RESULT_TRUE COND_RESULT_TRUE,
      (sample_entry COND_RESULT_TRUE COND_RESULT_TRUE)\<lparr>cc_patterncount := 2, cc_matches := [0, 4, 1, 4],
        cc_comp_value := Some Val_Authority\<rparr>,
      sample_entry COND_RESULT_SKIP COND_RESULT_UNSET]\<rparr>"

lemma sample_cached_valid: "cache_valid sample_lib sample_ctx sample_cached"
proof -
  have len: "length sample_ctx = 4" by (simp add: sample_ctx_def)
  have less4: "n < 4 \<longleftrightarrow> n = 0 \<or> n = 1 \<or> n = 2 \<or> n = 3" for n :: nat by auto
  have spec: "map (cond_spec sample_lib sample_ctx sample_env (\<lambda>_. True)) [1, 2, 3] =
      [COND_RESULT_TRUE, COND_RESULT_TRUE, COND_RESULT_SKIP]"
    "map (\<lambda>n. cond_true sample_lib (sample_ctx ! n) sample_env) [1, 2] = [True, True]"
    by code_simp+
  have env: "cs_env sample_cached = sample_env" "cs_valid sample_cached = (\<lambda>_. True)"
    by (simp_all add: sample_cached_def sample_state_def)
  have cache: "res sample_cached 0 = COND_RESULT_UNSET" "loc sample_cached 0 = COND_RESULT_UNSET"
    "res sample_cached 1 = COND_RESULT_TRUE" "loc sample_cached 1 = COND_RESULT_TRUE"
    "res sample_cached 2 = COND_RESULT_TRUE" "loc sample_cached 2 = COND_RESULT_TRUE"
    "res sample_cached 3 = COND_RESULT_SKIP" "loc sample_cached 3 = COND_RESULT_UNSET"
    "length (cs_cache sample_cached) = 4"
    by (simp_all add: sample_cached_def sample_entry_def)
  have deps: "deps (sample_ctx ! 1) = {}" "deps (sample_ctx ! 2) = {1}" "deps (sample_ctx ! 3) = {1, 2}"
    by (auto simp: deps_def sample_ctx_def sample_block_def)
  have "closed sample_ctx sample_cached"
    unfolding closed_def len less4 using cache deps by auto
  moreover have "results_valid sample_lib sample_ctx sample_cached"
    unfolding results_valid_def len less4 env using cache spec(1) by auto
  moreover have "locals_valid sample_lib sample_ctx sample_cached"
    unfolding locals_valid_def len less4 env using cache spec(2) by auto
  ultimately show ?thesis using cache(9) len by (simp add: cache_valid_def)
qed

theorem reset_loses_captures_witness:
  "config_append_cond_match_buffer sample_cached 2 ''x'' 1 = Some (''xost'', True) \<and>
   (\<exists>st1 st2 is. config_cond_cache_reset_item sample_ctx COMP_HTTP_SCHEME sample_cached = Some st1 \<and>
      for_true_blocks sample_lib sample_ctx (\<lambda>i is. Some (is @ [i])) st1 [] = Some (st2, is) \<and> 2 \<in> set is \<and>
      config_append_cond_match_buffer st2 2 ''x'' 1 = Some (''x'', False))"
proof
  show "config_append_cond_match_buffer sample_cached 2 ''x'' 1 = Some (''xost'', True)"
    by (simp add: config_append_cond_match_buffer_def cache_at_def sample_cached_def sample_entry_def value_text_def
        sample_state_def sample_env_def)
  have "env_ok (cs_env sample_cached)" using sample_state_ok(1) by (simp add: sample_cached_def sample_state_def)
  from reset_loses_captures [OF sample_wf sample_state_ok(2) this sample_cached_valid, of 2 COMP_HTTP_SCHEME 1]
  obtain st1 st2 "is" where "config_cond_cache_reset_item sample_ctx COMP_HTTP_SCHEME sample_cached = Some st1"
    "for_true_blocks sample_lib sample_ctx (\<lambda>i is. Some (is @ [i])) st1 [] = Some (st2, is)" "2 \<in> set is"
    "\<forall>buf j. config_append_cond_match_buffer st2 2 buf j = Some (buf, False)"
    by (auto simp: sample_ctx_def sample_block_def sample_cached_def sample_entry_def)
  then show "\<exists>st1 st2 is. config_cond_cache_reset_item sample_ctx COMP_HTTP_SCHEME sample_cached = Some st1 \<and>
      for_true_blocks sample_lib sample_ctx (\<lambda>i is. Some (is @ [i])) st1 [] = Some (st2, is) \<and> 2 \<in> set is \<and>
      config_append_cond_match_buffer st2 2 ''x'' 1 = Some (''x'', False)" by blast
qed

end
