(* ===== verification/Response.thy ===== *)
theory Response
  imports Http_Chunk Store Etag Keyvalue
begin

text \<open>
  The response of a connection: its record and its header fields (\<open>response_header_insert\<close>,
  \<open>response_header_overwrite\<close> and \<open>response_header_append\<close> in \<open>http-header-glue.c\<close>).
\<close>

section \<open>The response\<close>

text \<open>
  The parts of \<open>connection\<close> (and \<open>srv->tmp_buf\<close>) that take part: \<open>write_queue\<close> and the flag for chunked
  encoding are in \<open>rs_out\<close>; \<open>rs_parsed_length\<close> and \<open>rs_parsed_connection\<close> are the bits \<open>HTTP_CONTENT_LENGTH\<close>
  and \<open>HTTP_CONNECTION\<close> of \<open>parsed_response\<close>; \<open>rs_direct\<close> is \<open>mode == DIRECT\<close>; \<open>rs_etag\<close> is \<open>physical.etag\<close>.
\<close>

record resp =
  rs_out :: body_out
  rs_headers :: arr
  rs_http_status :: int
  rs_content_length :: int
  rs_parsed_length :: bool
  rs_parsed_connection :: bool
  rs_response_keep_alive :: bool
  rs_keep_alive :: bool
  rs_direct :: bool
  rs_file_started :: bool
  rs_file_finished :: bool
  rs_etag :: buffer
  rs_tmp_buf :: buffer

section \<open>Header fields\<close>

lemma NUL_eq_Char [simp]:
  "NUL = Char b0 b1 b2 b3 b4 b5 b6 b7 \<longleftrightarrow> \<not> b0 \<and> \<not> b1 \<and> \<not> b2 \<and> \<not> b3 \<and> \<not> b4 \<and> \<not> b5 \<and> \<not> b6 \<and> \<not> b7"
  "Char b0 b1 b2 b3 b4 b5 b6 b7 = NUL \<longleftrightarrow> \<not> b0 \<and> \<not> b1 \<and> \<not> b2 \<and> \<not> b3 \<and> \<not> b4 \<and> \<not> b5 \<and> \<not> b6 \<and> \<not> b7"
  by (auto simp: NUL_def)

definition response_header_insert :: "arr \<Rightarrow> string \<Rightarrow> string \<Rightarrow> arr option" where
  "response_header_insert hdrs key value =
     (let (hdrs, unused) = array_get_unused_element hdrs TYPE_STRING;
          ds = (case unused of None \<Rightarrow> data_response_init | Some du \<Rightarrow> du)
      in array_insert_unique hdrs
           (Data_Unset (Some key) (du_is_index_key ds)
              (case du_payload ds of DString _ r \<Rightarrow> DString (Some value) r | p \<Rightarrow> p)))"

text \<open>Writing through the \<open>data_string\<close> found; \<open>f\<close> gives the new value of its buffer.\<close>

definition write_ds_value :: "arr \<Rightarrow> nat \<Rightarrow> (string option \<Rightarrow> string option) \<Rightarrow> arr option" where
  "write_ds_value hdrs ndx f = do {
     du \<leftarrow> cell_read (a_data hdrs) ndx;
     case du_payload du of
       DString v r \<Rightarrow>
         Some (Arr ((a_data hdrs)[ndx := Some (Data_Unset (du_key du) (du_is_index_key du) (DString (f v) r))])
                 (a_sorted hdrs) (a_used hdrs) (a_size hdrs) (a_unique_ndx hdrs))
     | _ \<Rightarrow> None
   }"

definition response_header_overwrite :: "arr \<Rightarrow> string \<Rightarrow> string \<Rightarrow> arr option" where
  "response_header_overwrite hdrs key value = do {
     (found, _) \<leftarrow> array_get_index hdrs (cstr key);
     case found of
       Some ndx \<Rightarrow> write_ds_value hdrs ndx (\<lambda>_. Some (cstr value))
     | None \<Rightarrow> response_header_insert hdrs key value
   }"

definition response_header_append :: "arr \<Rightarrow> string \<Rightarrow> string \<Rightarrow> arr option" where
  "response_header_append hdrs key value = do {
     (found, _) \<leftarrow> array_get_index hdrs (cstr key);
     case found of
       Some ndx \<Rightarrow> write_ds_value hdrs ndx (\<lambda>v. Some (bstr v @ '', '' @ value))
     | None \<Rightarrow> response_header_insert hdrs key value
   }"

text \<open>The value \<open>array_get_element\<close> leads to: \<open>NULL\<close>, or the value of the element's buffer.\<close>

definition response_header_get :: "arr \<Rightarrow> string \<Rightarrow> string option option option" where
  "response_header_get hdrs key = do {
     d \<leftarrow> array_get_element hdrs key;
     case d of
       None \<Rightarrow> Some None
     | Some d \<Rightarrow> (case du_payload d of DString v _ \<Rightarrow> Some (Some v) | _ \<Rightarrow> None)
   }"

section \<open>Fields as a list\<close>

definition is_response :: "payload \<Rightarrow> bool" where
  "is_response p \<longleftrightarrow> (case p of DString v r \<Rightarrow> r | _ \<Rightarrow> False)"

definition resp_fields :: "arr \<Rightarrow> (string \<times> string option) list" where
  "resp_fields a = map (\<lambda>d. (bstr (du_key d), ds_value (du_payload d))) (arr_list a)"

definition resp_ok :: "arr \<Rightarrow> bool" where
  "resp_ok a \<longleftrightarrow> store_ok is_response a \<and> (\<forall>d \<in> set (arr_list a). du_key d \<noteq> None)"

text \<open>A field of that name gets a new value, or the field is added at the end.\<close>

fun put_field :: "string \<Rightarrow> (string \<Rightarrow> string option \<Rightarrow> string) \<Rightarrow> string \<Rightarrow>
    (string \<times> string option) list \<Rightarrow> (string \<times> string option) list" where
  "put_field key f v [] = [(key, Some v)]"
| "put_field key f v ((k, w) # fs) =
     (if lkey k = lkey key then (k, Some (f k w)) # fs else (k, w) # put_field key f v fs)"

definition get_field :: "string \<Rightarrow> (string \<times> string option) list \<Rightarrow> string option option" where
  "get_field key fs = map_of (map (\<lambda>(k, v). (lkey k, v)) fs) (lkey key)"

definition merge_value :: "string \<Rightarrow> string \<Rightarrow> string option \<Rightarrow> string" where
  "merge_value value k w = (case w of None \<Rightarrow> value | Some w \<Rightarrow> w @ CRLF @ k @ '': '' @ value)"

lemma put_field_at:
  assumes "n < length fs" and "lkey (fst (fs ! n)) = lkey key" and "distinct (map (\<lambda>f. lkey (fst f)) fs)"
  shows "put_field key f v fs = fs[n := (fst (fs ! n), Some (f (fst (fs ! n)) (snd (fs ! n))))]"
  using assms
proof (induction fs arbitrary: n)
  case (Cons kw fs)
  obtain k w where kw: "kw = (k, w)" by (cases kw)
  show ?case
  proof (cases n)
    case 0
    then show ?thesis using Cons.prems(2) by (simp add: kw)
  next
    case (Suc m)
    then have m: "m < length fs" "lkey (fst (fs ! m)) = lkey key" using Cons.prems by simp_all
    have "lkey key \<in> (\<lambda>f. lkey (fst f)) ` set fs" using nth_mem [OF m(1)] by (rule image_eqI [rotated]) (simp add: m(2))
    moreover have "lkey k \<notin> (\<lambda>f. lkey (fst f)) ` set fs" using Cons.prems(3) by (simp add: kw)
    ultimately have "lkey k \<noteq> lkey key" by metis
    then show ?thesis using Cons.IH [OF m] Cons.prems(3) by (simp add: kw Suc)
  qed
qed simp

lemma put_field_absent:
  "\<forall>x \<in> set fs. lkey (fst x) \<noteq> lkey key \<Longrightarrow> put_field key f v fs = fs @ [(key, Some v)]"
  by (induction fs) auto

text \<open>The elements of a well-formed array.\<close>

lemma resp_okE:
  assumes "resp_ok a"
  obtains ixs es where "arr_holds a ixs es" "arr_list a = es" "index_ok ixs es" "arr_of is_response a"
    "\<forall>d \<in> set es. \<exists>k v. d = Data_Unset (Some k) False (DString v True)" "a_used a = length es"
    "distinct (map (\<lambda>x. lkey (fst x)) (resp_fields a))"
proof -
  obtain ixs where h: "arr_holds a ixs (arr_list a)" "arr_of is_response a" "index_ok ixs (arr_list a)"
    using assms by (auto simp: resp_ok_def elim: store_okE)
  have "\<exists>k v. d = Data_Unset (Some k) False (DString v True)" if d: "d \<in> set (arr_list a)" for d
  proof -
    obtain i where i: "i < length (arr_list a)" "d = arr_list a ! i" using d by (auto simp: in_set_conv_nth)
    have "\<not> du_is_index_key d \<and> is_response (du_payload d)"
      using arr_of_elem [OF h(2) arr_holds_cells(1) [OF h(1) i(1)]] by (simp add: i(2))
    moreover have "du_key d \<noteq> None" using assms d by (simp add: resp_ok_def)
    ultimately show ?thesis by (cases d; cases "du_payload d") (auto simp: is_response_def)
  qed
  moreover have "distinct (map (\<lambda>x. lkey (fst x)) (resp_fields a))"
    using index_ok_inj [OF h(3)]
    by (auto simp: resp_fields_def comp_def distinct_conv_nth ekey_def)
  moreover have "a_used a = length (arr_list a)" using h(1) by (simp add: arr_holds_def)
  ultimately show ?thesis using h that by blast
qed

lemma write_ds_value_at:
  assumes ok: "resp_ok a" and n: "n < length (resp_fields a)"
  shows "\<exists>a'. write_ds_value a n g = Some a' \<and> resp_ok a' \<and> a_used a' = a_used a \<and>
    resp_fields a' = (resp_fields a)[n := (fst (resp_fields a ! n), g (snd (resp_fields a ! n)))]"
proof -
  obtain ixs es where h: "arr_holds a ixs es" "arr_list a = es" "index_ok ixs es" "arr_of is_response a"
    "\<forall>d \<in> set es. \<exists>k v. d = Data_Unset (Some k) False (DString v True)" "a_used a = length es"
    "distinct (map (\<lambda>x. lkey (fst x)) (resp_fields a))"
    using ok by (rule resp_okE)
  have n': "n < length es" using n h(2) by (simp add: resp_fields_def)
  obtain own w where d: "es ! n = Data_Unset (Some own) False (DString w True)" using h(5) nth_mem [OF n'] by blast
  have own: "resp_fields a ! n = (own, w)" using n' h(2) d by (simp add: resp_fields_def)
  let ?e = "Data_Unset (Some own) False (DString (g w) True)"
  let ?a = "Arr ((a_data a)[n := Some ?e]) (a_sorted a) (a_used a) (a_size a) (a_unique_ndx a)"
  have run: "write_ds_value a n g = Some ?a"
    using arr_holds_cells(1) [OF h(1) n'] d own by (simp add: write_ds_value_def)
  have holds: "arr_holds ?a ixs (es[n := ?e])"
    by (rule arr_holds_update [OF h(1) n']) (simp add: ekey_def d)
  have list: "arr_list ?a = es[n := ?e]" "arr_ok ?a" using arr_okI [OF holds] by simp_all
  have "arr_of is_response ?a" using h(4) by (rule arr_of_update) (simp_all add: is_response_def)
  moreover have "\<forall>x \<in> set (es[n := ?e]). du_key x \<noteq> None"
  proof
    fix x assume "x \<in> set (es[n := ?e])"
    then have "x = ?e \<or> x \<in> set es" using set_update_subset_insert [of es n ?e] by blast
    then show "du_key x \<noteq> None" using h(5) by auto
  qed
  ultimately have "resp_ok ?a" using list by (simp add: resp_ok_def store_ok_def)
  moreover have "resp_fields ?a = (resp_fields a)[n := (own, g w)]"
    by (simp add: resp_fields_def list h(2) map_update)
  moreover have "a_used ?a = a_used a" by simp
  ultimately show ?thesis using run own by auto
qed

lemma write_ds_value_ok:
  assumes ok: "resp_ok a" and n: "n < length (resp_fields a)" and k: "lkey (fst (resp_fields a ! n)) = lkey key"
    and g: "\<And>w. g w = Some (f (fst (resp_fields a ! n)) w)"
  shows "\<exists>a'. write_ds_value a n g = Some a' \<and> resp_ok a' \<and> resp_fields a' = put_field key f v (resp_fields a) \<and>
    a_used a' = a_used a"
proof -
  have "distinct (map (\<lambda>x. lkey (fst x)) (resp_fields a))" using ok by (rule resp_okE)
  from put_field_at [OF n k this, of f v] write_ds_value_at [OF ok n, of g] g show ?thesis by auto
qed

lemma response_header_insert_ok:
  assumes ok: "resp_ok a" and max: "a_used a < SSIZE_MAX"
  shows "\<exists>a'. response_header_insert a key value = Some a' \<and> resp_ok a' \<and>
    resp_fields a' = put_field key (merge_value value) value (resp_fields a) \<and> a_used a' \<le> a_used a + 1"
proof -
  obtain ixs es where h: "arr_holds a ixs es" "arr_list a = es" "index_ok ixs es" "arr_of is_response a"
    "\<forall>d \<in> set es. \<exists>k v. d = Data_Unset (Some k) False (DString v True)" "a_used a = length es"
    "distinct (map (\<lambda>x. lkey (fst x)) (resp_fields a))"
    using ok by (rule resp_okE)
  obtain a1 u where u: "array_get_unused_element a TYPE_STRING = (a1, u)" by (meson surj_pair)
  note un = array_get_unused_element_ok [OF h(1) u]
  have of1: "arr_of is_response a1" using h(4) un(3) by (auto simp: arr_of_def)
  define ds where "ds = (case u of None \<Rightarrow> data_response_init | Some du \<Rightarrow> du)"
  have "\<not> du_is_index_key ds \<and> is_response (du_payload ds)"
    using un(2) h(4) by (auto simp: ds_def data_response_init_def is_response_def arr_of_def split: option.splits)
  then obtain w where ds: "\<not> du_is_index_key ds" "du_payload ds = DString w True"
    by (cases "du_payload ds") (auto simp: is_response_def)
  let ?e = "Data_Unset (Some key) False (DString (Some value) True)"
  have run: "response_header_insert a key value = array_insert_unique a1 ?e"
    using u ds by (simp add: response_header_insert_def ds_def [symmetric])
  have e: "ekey ?e = lkey key" "array_name_entry a1 ?e = Some (a1, ?e)" by (simp_all add: ekey_def array_name_entry_def)
  have max': "length es + 1 \<le> SSIZE_MAX" using max h(6) by simp
  show ?thesis
  proof (cases "elem_of es (lkey key)")
    case None
    have "is_response (DString (Some value) True)" by (simp add: is_response_def)
    from store_insert [OF un(1) of1 None max' this, of ds_value] obtain a' ixs' where
      a': "array_insert_unique a1 ?e = Some a'" "arr_holds a' ixs' (es @ [?e])" "store_ok is_response a'"
      "a_used a' = length es + 1"
      by blast
    have l: "arr_list a' = es @ [?e]" using arr_holds_list [OF a'(2)] .
    have "\<forall>x \<in> set (resp_fields a). lkey (fst x) \<noteq> lkey key"
      using None h(2) by (auto simp: elem_of_def find_None_iff resp_fields_def ekey_def)
    then have "resp_fields a' = put_field key (merge_value value) value (resp_fields a)"
      by (simp add: put_field_absent) (simp add: resp_fields_def l h(2))
    moreover have "resp_ok a'" using ok a'(3) l h(2) by (auto simp: resp_ok_def)
    ultimately show ?thesis using run a' h(6) by simp
  next
    case (Some d)
    obtain n where n: "array_find_or_insert a1 ?e = Some (a1, ?e, Some n)" "n < length es" "ekey (es ! n) = lkey key"
      using array_find_or_insert_cases [OF un(1) e(2) max'] Some e(1) by (metis option.distinct(1))
    obtain own w where d: "es ! n = Data_Unset (Some own) False (DString w True)" using h(5) nth_mem [OF n(2)] by blast
    have dup: "data_insert_dup (es ! n) ?e = Data_Unset (Some own) False (DString (Some (merge_value value own w)) True)"
      by (simp add: d data_insert_dup_def data_response_insert_dup_def merge_value_def split: option.splits)
    have "array_insert_unique a1 ?e = write_ds_value a1 n (\<lambda>w. Some (merge_value value own w))"
      using n(1) arr_holds_cells(1) [OF un(1) n(2)] dup
      by (simp add: array_insert_unique_def write_ds_value_def d du_type_def)
    moreover have l: "arr_list a1 = es" using arr_okI [OF un(1)] by simp
    have ok1: "resp_ok a1" "resp_fields a1 = resp_fields a"
      using ok of1 arr_okI [OF un(1)] h(2) by (simp_all add: resp_ok_def store_ok_def resp_fields_def)
    have own: "resp_fields a1 ! n = (own, w)" "n < length (resp_fields a1)" "lkey own = lkey key"
      using n d l by (simp_all add: resp_fields_def ekey_def)
    have "\<exists>a'. write_ds_value a1 n (\<lambda>w. Some (merge_value value own w)) = Some a' \<and> resp_ok a' \<and>
        resp_fields a' = put_field key (merge_value value) value (resp_fields a1) \<and> a_used a' = a_used a1"
      by (rule write_ds_value_ok [OF ok1(1) own(2)]) (simp_all add: own)
    ultimately show ?thesis using run ok1(2) un(4) h(6) by auto
  qed
qed

lemma array_index_field:
  assumes ok: "resp_ok a" and key: "NUL \<notin> set key"
  obtains (found) n pos where "array_get_index a (cstr key) = Some (Some n, pos)" "n < length (resp_fields a)"
      "lkey (fst (resp_fields a ! n)) = lkey key" "get_field key (resp_fields a) = Some (snd (resp_fields a ! n))"
      "array_get_element a key = Some (Some (arr_list a ! n))"
  | (absent) pos where "array_get_index a (cstr key) = Some (None, pos)" "get_field key (resp_fields a) = None"
      "\<forall>x \<in> set (resp_fields a). lkey (fst x) \<noteq> lkey key" "array_get_element a key = Some None"
proof -
  obtain ixs es where h: "arr_holds a ixs es" "arr_list a = es" "index_ok ixs es" "arr_of is_response a"
    "\<forall>d \<in> set es. \<exists>k v. d = Data_Unset (Some k) False (DString v True)" "a_used a = length es"
    "distinct (map (\<lambda>x. lkey (fst x)) (resp_fields a))"
    using ok by (rule resp_okE)
  have c: "cstr key = key" using key by simp
  have "distinct (map fst (map (\<lambda>(k, v). (lkey k, v)) (resp_fields a)))"
    using h(7) by (simp add: comp_def split_def)
  note look = map_of_eq_Some_iff [OF this]
  show thesis
    using h(1)
  proof (cases rule: array_get_index_cases [of a ixs es key])
    case (found pos)
    let ?n = "ixs ! pos"
    have n: "?n < length (resp_fields a)" "lkey (fst (resp_fields a ! ?n)) = lkey key"
      using found(3,4) h(2) by (simp_all add: resp_fields_def ekey_def)
    have "(lkey key, snd (resp_fields a ! ?n)) \<in> set (map (\<lambda>(k, v). (lkey k, v)) (resp_fields a))"
      using nth_mem [OF n(1)] n(2) by (force simp: split_def)
    then have "get_field key (resp_fields a) = Some (snd (resp_fields a ! ?n))" by (simp add: get_field_def look)
    then show thesis
      using that(1) found(1,5) n array_get_element_ok [OF h(1), of key] h(2) by (simp add: c)
  next
    case (absent pos)
    have no: "\<forall>x \<in> set (resp_fields a). lkey (fst x) \<noteq> lkey key"
      using absent(4) h(2) by (auto simp: elem_of_def find_None_iff resp_fields_def ekey_def)
    then have "get_field key (resp_fields a) = None"
      by (auto simp: get_field_def map_of_eq_None_iff)
    then show thesis
      using that(2) absent(1,4) no array_get_element_ok [OF h(1), of key] by (simp add: c)
  qed
qed

lemma response_header_overwrite_ok:
  assumes ok: "resp_ok a" and key: "NUL \<notin> set key" and max: "a_used a < SSIZE_MAX"
  shows "\<exists>a'. response_header_overwrite a key value = Some a' \<and> resp_ok a' \<and>
    resp_fields a' = put_field key (\<lambda>k w. cstr value) value (resp_fields a) \<and> a_used a' \<le> a_used a + 1"
  using ok key
proof (cases rule: array_index_field)
  case (found n pos)
  from write_ds_value_ok [OF ok found(2,3), of "\<lambda>_. Some (cstr value)" "\<lambda>k w. cstr value" "value"] found(1)
  show ?thesis by (auto simp: response_header_overwrite_def)
next
  case (absent pos)
  from response_header_insert_ok [OF ok max, of key "value"] absent(1) show ?thesis
    by (auto simp: response_header_overwrite_def put_field_absent [OF absent(3)])
qed

lemma response_header_append_ok:
  assumes ok: "resp_ok a" and key: "NUL \<notin> set key" and max: "a_used a < SSIZE_MAX"
  shows "\<exists>a'. response_header_append a key value = Some a' \<and> resp_ok a' \<and>
    resp_fields a' = put_field key (\<lambda>k w. bstr w @ '', '' @ value) value (resp_fields a) \<and> a_used a' \<le> a_used a + 1"
  using ok key
proof (cases rule: array_index_field)
  case (found n pos)
  from write_ds_value_ok [OF ok found(2,3), of "\<lambda>w. Some (bstr w @ '', '' @ value)" "\<lambda>k w. bstr w @ '', '' @ value" "value"] found(1)
  show ?thesis by (auto simp: response_header_append_def)
next
  case (absent pos)
  from response_header_insert_ok [OF ok max, of key "value"] absent(1) show ?thesis
    by (auto simp: response_header_append_def put_field_absent [OF absent(3)])
qed

lemma response_header_get_ok:
  assumes ok: "resp_ok a" and key: "NUL \<notin> set key"
  shows "response_header_get a key = Some (get_field key (resp_fields a))"
  using ok key
proof (cases rule: array_index_field)
  case (found n pos)
  have "arr_list a ! n \<in> set (arr_list a)" using found(2) by (simp add: resp_fields_def)
  with ok obtain k v where "arr_list a ! n = Data_Unset (Some k) False (DString v True)"
    by (metis resp_okE)
  then show ?thesis using found by (simp add: response_header_get_def resp_fields_def)
qed (simp add: response_header_get_def)

end
