(* ===== verification/Http_Range.thy ===== *)
theory Http_Range
  imports Response Buffer_Num
begin

text \<open>
  Byte ranges (\<open>http_response_parse_range\<close> in \<open>http-header-glue.c\<close>): the parts of a file that a client asks
  for are queued, each with a head of its own when there may be several.
\<close>

section \<open>Parsing one range\<close>

text \<open>
  What is found at \<open>s\<close>, whose first dash is at \<open>k\<close>: nothing usable, a range that starts behind
  the end, or a start and an end, whether a comma follows, and the rest of the text.
\<close>

datatype range_item = Range_Bad | Range_Unsatisfiable | Range_Part int int bool string

definition after_number :: "int \<Rightarrow> int \<Rightarrow> string \<Rightarrow> range_item" where
  "after_number start end err =
     (if err = [] then Range_Part start end False []
      else if hd err = CHR '','' then Range_Part start end True (tl err)
      else Range_Bad)"

definition parse_range :: "int \<Rightarrow> string \<Rightarrow> nat \<Rightarrow> range_item" where
  "parse_range fsize s k =
     (if k = 0 then
        let (le, err) = strtol10 s
        in if le = 0 then Range_Unsatisfiable else after_number (fsize + le) (fsize - 1) err
      else
        let (la, err) = strtol10 s; behind = drop (k + 1) s
        in if behind = [] \<or> hd behind = CHR '','' then
             if length err = length s - k then after_number la (fsize - 1) behind else Range_Bad
           else if length err = length s - k then
             let (le, err) = strtol10 behind
             in if la > le then Range_Bad else after_number la le err
           else Range_Bad)"

lemma dropWhile_length: "length (dropWhile P xs) \<le> length xs"
  by (induction xs) auto

lemma split_sign_length: "length (snd (split_sign s)) \<le> length s"
  by (cases s) auto

lemma strtol10_length: "length (snd (strtol10 s)) \<le> length s"
proof -
  have "length (dropWhile is_digit (snd (split_sign (dropWhile is_space s)))) \<le> length s"
    using dropWhile_length split_sign_length by (meson order_trans)
  then show ?thesis by (auto simp: strtol10_def Let_def split: prod.splits)
qed

lemma after_number_shorter:
  "after_number st en err = Range_Part a b c rest \<Longrightarrow> length rest \<le> length err \<and> (err \<noteq> [] \<longrightarrow> length rest < length err)"
  by (cases err) (auto simp: after_number_def split: if_splits)

lemma parse_range_shorter:
  assumes "parse_range fsize s k = Range_Part a b c rest" and "s \<noteq> []"
  shows "length rest < length s"
proof (cases "k = 0")
  case True
  then have "after_number (fsize + fst (strtol10 s)) (fsize - 1) (snd (strtol10 s)) = Range_Part a b c rest"
    using assms(1) by (auto simp: parse_range_def split: prod.splits if_splits)
  then show ?thesis using after_number_shorter [of _ _ "snd (strtol10 s)"] strtol10_length [of s] assms(2)
    by (cases "snd (strtol10 s)") (fastforce simp: after_number_def)+
next
  case False
  have "length (drop (k + 1) s) < length s" using assms(2) by simp
  moreover have "length rest \<le> length (drop (k + 1) s)"
  proof -
    consider "after_number (fst (strtol10 s)) (fsize - 1) (drop (k + 1) s) = Range_Part a b c rest"
      | "after_number (fst (strtol10 s)) (fst (strtol10 (drop (k + 1) s))) (snd (strtol10 (drop (k + 1) s))) = Range_Part a b c rest"
      using assms(1) False by (auto simp: parse_range_def Let_def split: prod.splits if_splits)
    then show ?thesis
      using after_number_shorter strtol10_length [of "drop (k + 1) s"] by cases (fastforce dest: after_number_shorter)+
  qed
  ultimately show ?thesis by simp
qed

section \<open>Queueing the parts\<close>

definition range_boundary :: string where
  "range_boundary = ''fkj49sn38dcn3''"

text \<open>\<open>content_type\<close> is the value of the element found, \<open>None\<close> when there is none.\<close>

definition range_part_head :: "int \<Rightarrow> int \<Rightarrow> int \<Rightarrow> string option \<Rightarrow> buffer option" where
  "range_part_head start end fsize content_type = do {
     b \<leftarrow> buffer_copy_string_len buffer_init (CRLF @ ''--'');
     b \<leftarrow> buffer_append_string b range_boundary;
     b \<leftarrow> buffer_append_string_len b (CRLF @ ''Content-Range: bytes '');
     b \<leftarrow> buffer_append_int b (word_of_int start);
     b \<leftarrow> buffer_append_string_len b ''-'';
     b \<leftarrow> buffer_append_int b (word_of_int end);
     b \<leftarrow> buffer_append_string_len b ''/'';
     b \<leftarrow> buffer_append_int b (word_of_int fsize);
     b \<leftarrow> buffer_append_string_len b (CRLF @ ''Content-Type: '');
     b \<leftarrow> buffer_append_string_len b (bstr content_type);
     buffer_append_string_len b (CRLF @ CRLF)
   }"

definition range_closing :: "buffer option" where
  "range_closing = do {
     b \<leftarrow> buffer_copy_string_len buffer_init (CRLF @ ''--'');
     b \<leftarrow> buffer_append_string b range_boundary;
     buffer_append_string_len b (''--'' @ CRLF)
   }"

definition queue_text :: "resp \<Rightarrow> buffer \<Rightarrow> resp option" where
  "queue_text con b = do {
     let len = buffer_string_length b;
     (cq, b) \<leftarrow> chunkqueue_append_buffer (bo_queue (rs_out con)) b;
     Some (con\<lparr>rs_out := (rs_out con)\<lparr>bo_queue := cq\<rparr>, rs_content_length := rs_content_length con + int len\<rparr>)
   }"

definition queue_range :: "resp \<Rightarrow> buffer \<Rightarrow> int \<Rightarrow> string option \<Rightarrow> bool \<Rightarrow> int \<Rightarrow> int \<Rightarrow> resp option" where
  "queue_range con path fsize content_type multipart start end = do {
     con \<leftarrow> (if multipart then do {
         b \<leftarrow> range_part_head start end fsize content_type;
         queue_text con b
       } else Some con);
     cq \<leftarrow> chunkqueue_append_file (bo_queue (rs_out con)) path start (end - start + 1);
     Some (con\<lparr>rs_out := (rs_out con)\<lparr>bo_queue := cq\<rparr>, rs_content_length := rs_content_length con + (end - start + 1)\<rparr>)
   }"

definition set_status :: "int \<Rightarrow> resp \<Rightarrow> resp" where
  "set_status status con = con\<lparr>rs_http_status := status\<rparr>"

text \<open>
  The loop: \<open>multipart\<close>, \<open>start\<close> and \<open>end\<close> are its variables; the result has their last values and \<open>error\<close>.
\<close>

function range_loop ::
    "buffer \<Rightarrow> int \<Rightarrow> string option \<Rightarrow> resp \<Rightarrow> bool \<Rightarrow> int \<Rightarrow> int \<Rightarrow> string \<Rightarrow> (resp \<times> bool \<times> int \<times> int \<times> bool) option" where
  "range_loop path fsize content_type con multipart start end s =
     (if s = [] then Some (con, multipart, start, end, False)
      else case strchr s CHR ''-'' of
        None \<Rightarrow> Some (con, multipart, start, end, False)
      | Some k \<Rightarrow>
          (case parse_range fsize s k of
             Range_Bad \<Rightarrow> Some (con, multipart, start, end, True)
           | Range_Unsatisfiable \<Rightarrow> Some (set_status 416 con, multipart, start, end, True)
           | Range_Part start end comma rest \<Rightarrow>
               let multipart = (multipart \<or> comma);
                   start = (if start < 0 then 0 else start);
                   end = (if end > fsize - 1 then fsize - 1 else end)
               in if start > fsize - 1 then Some (set_status 416 con, multipart, start, end, True)
                  else do {
                    con \<leftarrow> queue_range con path fsize content_type multipart start end;
                    range_loop path fsize content_type con multipart start end rest
                  }))"
  by pat_completeness auto
termination
  by (relation "measure (\<lambda>(path, fsize, ct, con, mp, st, en, s). length s)") (auto dest: parse_range_shorter)

declare range_loop.simps [simp del]

text \<open>Behind the loop: the end of the last part and the content type, or the range of the only part.\<close>

definition range_end :: "int \<Rightarrow> bool \<Rightarrow> int \<Rightarrow> int \<Rightarrow> resp \<Rightarrow> (resp \<times> bool) option" where
  "range_end fsize multipart start end con =
     (if multipart then do {
       b \<leftarrow> range_closing;
       con \<leftarrow> queue_text con b;
       t \<leftarrow> buffer_copy_string_len (rs_tmp_buf con) ''multipart/byteranges; boundary='';
       t \<leftarrow> buffer_append_string t range_boundary;
       hdrs \<leftarrow> response_header_overwrite (rs_headers con) ''Content-Type'' (buf_str t);
       Some (con\<lparr>rs_headers := hdrs, rs_tmp_buf := t\<rparr>, True)
     }
     else do {
       t \<leftarrow> buffer_copy_string_len (rs_tmp_buf con) ''bytes '';
       t \<leftarrow> buffer_append_int t (word_of_int start);
       t \<leftarrow> buffer_append_string_len t ''-'';
       t \<leftarrow> buffer_append_int t (word_of_int end);
       t \<leftarrow> buffer_append_string_len t ''/'';
       t \<leftarrow> buffer_append_int t (word_of_int fsize);
       hdrs \<leftarrow> response_header_insert (rs_headers con) ''Content-Range'' (buf_str t);
       Some (con\<lparr>rs_headers := hdrs, rs_tmp_buf := t\<rparr>, True)
     })"

text \<open>The result is whether 0 is returned.\<close>

definition http_response_parse_range :: "buffer \<Rightarrow> int \<Rightarrow> string \<Rightarrow> resp \<Rightarrow> (resp \<times> bool) option" where
  "http_response_parse_range path fsize http_range con = do {
     let con = con\<lparr>rs_content_length := 0\<rparr>;
     ct \<leftarrow> response_header_get (rs_headers con) ''Content-Type'';
     (con, multipart, start, end, error) \<leftarrow>
       range_loop path fsize (Option.bind ct id) con False 0 (fsize - 1) (cstr http_range);
     if error then Some (con, False) else range_end fsize multipart start end con
   }"

section \<open>The texts\<close>

definition int_text :: "int \<Rightarrow> string" where
  "int_text i = itostr (word_of_int i) []"

definition part_head_text :: "int \<Rightarrow> int \<Rightarrow> int \<Rightarrow> string option \<Rightarrow> string" where
  "part_head_text start end fsize ct =
     CRLF @ ''--'' @ range_boundary @ CRLF @ ''Content-Range: bytes '' @ int_text start @ ''-'' @ int_text end @ ''/'' @
     int_text fsize @ CRLF @ ''Content-Type: '' @ bstr ct @ CRLF @ CRLF"

definition closing_text :: string where
  "closing_text = CRLF @ ''--'' @ range_boundary @ ''--'' @ CRLF"

lemma int_text_length: "length (int_text i) \<le> 21"
  using length_itostr [of "word_of_int i" "[]"] by (simp add: int_text_def)

lemma boundary_simps [simp]: "cstr range_boundary = range_boundary" "length range_boundary = 13"
  by (simp_all add: range_boundary_def cstr_def NUL_def)

lemma copy_then_append:
  assumes "buf_shape b" and "length s + length (concat ss) + 1 < SIZE_T"
  shows "\<exists>b1 b'. buffer_copy_string_len b s = Some b1 \<and> buf.app_list b1 ss = Some b' \<and> buf_ok b' \<and> buf_str b' = s @ concat ss"
proof -
  have "length s + 1 < SIZE_T" using assms(2) by simp
  with assms(1) obtain b1 where b1: "buffer_copy_string_len b s = Some b1" "buf_holds b1 s"
    by (rule buffer_copy_string_len_ok)
  have "length (buf_str b1) + length (concat ss) < SIZE_T - 1" using assms(2) buf_holdsD(3) [OF b1(2)] by simp
  from buf.app_list_ok [OF buf_holdsD(4) [OF b1(2)] this] show ?thesis using b1 buf_holdsD(3) [OF b1(2)] by auto
qed

lemma range_part_head_ok:
  assumes "length (bstr ct) < 2 ^ 32"
  shows "\<exists>b. range_part_head start end fsize ct = Some b \<and> buf_ok b \<and> buf_str b = part_head_text start end fsize ct"
proof -
  let ?ss = "[range_boundary, CRLF @ ''Content-Range: bytes '', int_text start, ''-'', int_text end, ''/'', int_text fsize,
    CRLF @ ''Content-Type: '', bstr ct, CRLF @ CRLF]"
  have "length (CRLF @ ''--'') + length (concat ?ss) + 1 < SIZE_T"
    using assms int_text_length [of start] int_text_length [of "end"] int_text_length [of fsize]
    by (simp add: SIZE_T_def)
  from copy_then_append [OF buf_ok_shape [OF buffer_init_ok(1)] this] show ?thesis
    by (auto simp: range_part_head_def part_head_text_def buffer_append_int_eq int_text_def buffer_append_string_def)
qed

lemma range_closing_ok: "\<exists>b. range_closing = Some b \<and> buf_ok b \<and> buf_str b = closing_text"
proof -
  have "length (CRLF @ ''--'') + length (concat [range_boundary, ''--'' @ CRLF]) + 1 < SIZE_T" by (simp add: SIZE_T_def)
  from copy_then_append [OF buf_ok_shape [OF buffer_init_ok(1)] this] show ?thesis
    by (auto simp: range_closing_def closing_text_def buffer_append_string_def)
qed

section \<open>What is queued\<close>

text \<open>\<open>con'\<close> is \<open>con\<close> with \<open>xs\<close> queued and counted.\<close>

definition resp_queued :: "resp \<Rightarrow> octet list \<Rightarrow> resp \<Rightarrow> bool" where
  "resp_queued con xs con' \<longleftrightarrow> queued (rs_out con) xs (rs_out con') \<and>
     con' = con\<lparr>rs_out := rs_out con', rs_content_length := rs_content_length con + int (length xs)\<rparr>"

lemma resp_queued_refl: "body_ok (rs_out con) \<Longrightarrow> resp_queued con [] con"
  by (simp add: resp_queued_def queued_refl)

lemma resp_queued_trans:
  assumes "resp_queued con xs con1" and "resp_queued con1 ys con2"
  shows "resp_queued con (xs @ ys) con2"
proof -
  have "con1 = con\<lparr>rs_out := rs_out con1, rs_content_length := rs_content_length con + int (length xs)\<rparr>"
    "con2 = con1\<lparr>rs_out := rs_out con2, rs_content_length := rs_content_length con1 + int (length ys)\<rparr>"
    using assms by (auto simp: resp_queued_def)
  then have "con2 = con\<lparr>rs_out := rs_out con2, rs_content_length := rs_content_length con + int (length (xs @ ys))\<rparr>"
    by (cases con; cases con1; cases con2) simp
  then show ?thesis using assms queued_trans by (auto simp: resp_queued_def)
qed

lemma resp_queued_body: "resp_queued con xs con' \<Longrightarrow> body_ok (rs_out con')"
  by (simp add: resp_queued_def queued_def)

lemma queue_text_ok:
  assumes "body_ok (rs_out con)" and "buf_ok b"
  shows "\<exists>con'. queue_text con b = Some con' \<and> resp_queued con (map Mem (buf_str b)) con'"
proof -
  obtain cq b' where cq: "chunkqueue_append_buffer (bo_queue (rs_out con)) b = Some (cq, b')" "cq_ok cq"
    "cq_stream cq = cq_stream (bo_queue (rs_out con)) @ map Mem (buf_str b)"
    using append_buffer_ok [of "bo_queue (rs_out con)" b] assms by (auto simp: body_ok_def)
  then show ?thesis
    using assms by (auto simp: queue_text_def resp_queued_def queued_def body_ok_def buffer_string_length_eq Let_def)
qed

lemma queue_range_ok:
  assumes ok: "body_ok (rs_out con)" and path: "buf_holds path name" and ct: "length (bstr ct) < 2 ^ 32" and le: "start \<le> end"
  shows "\<exists>con'. queue_range con path fsize ct multipart start end = Some con' \<and> resp_queued con
    ((if multipart then map Mem (part_head_text start end fsize ct) else []) @ map (Disk name) [start..end]) con'"
proof -
  obtain b where b: "range_part_head start end fsize ct = Some b" "buf_ok b" "buf_str b = part_head_text start end fsize ct"
    using range_part_head_ok [OF ct] by blast
  obtain con1 where c1: "(if multipart then do { b \<leftarrow> range_part_head start end fsize ct; queue_text con b } else Some con) = Some con1"
    "resp_queued con (if multipart then map Mem (part_head_text start end fsize ct) else []) con1"
    using queue_text_ok [OF ok b(2)] b resp_queued_refl [OF ok] by (cases multipart) auto
  have q: "cq_ok (bo_queue (rs_out con1))" using resp_queued_body [OF c1(2)] by (simp add: body_ok_def)
  have "0 \<le> end - start + 1" using le by simp
  from append_file_fd_ok(2) [OF q path this, of start] obtain cq where
    cq: "chunkqueue_append_file (bo_queue (rs_out con1)) path start (end - start + 1) = Some cq" "cq_ok cq"
    "cq_stream cq = cq_stream (bo_queue (rs_out con1)) @ map (Disk name) [start..end]"
    by auto
  let ?con2 = "con1\<lparr>rs_out := (rs_out con1)\<lparr>bo_queue := cq\<rparr>, rs_content_length := rs_content_length con1 + (end - start + 1)\<rparr>"
  have "resp_queued con1 (map (Disk name) [start..end]) ?con2"
    using cq resp_queued_body [OF c1(2)] le by (simp add: resp_queued_def queued_def body_ok_def)
  from resp_queued_trans [OF c1(2) this] show ?thesis using c1(1) cq(1) by (simp add: queue_range_def)
qed

section \<open>Every part lies in the file\<close>

lemma after_number_part:
  "after_number st en err = Range_Part a b c rest \<longleftrightarrow>
     a = st \<and> b = en \<and> (c = (err \<noteq> [])) \<and> rest = tl err \<and> (err \<noteq> [] \<longrightarrow> hd err = CHR '','')"
  by (auto simp: after_number_def)

text \<open>A number read up to the first dash has no minus sign.\<close>

lemma memchr_prefix: "memchr c s = Some k \<Longrightarrow> take k s = takeWhile (\<lambda>x. x \<noteq> c) s"
proof (induction s arbitrary: k)
  case (Cons x s)
  then show ?case by (cases "x = c") auto
qed simp

lemma strtol10_neg:
  assumes "fst (strtol10 s) < 0"
  shows "\<exists>d. dropWhile is_space s = CHR ''-'' # d \<and> snd (strtol10 s) = dropWhile is_digit d"
proof (cases "dropWhile is_space s")
  case Nil
  then show ?thesis using assms unfolding strtol10_def Nil by simp
next
  case (Cons c d)
  show ?thesis
  proof (cases "c = CHR ''-''")
    case True
    then show ?thesis using assms Cons by (auto simp: strtol10_def Let_def split: if_splits)
  next
    case False
    then show ?thesis
      using assms Cons by (auto simp: strtol10_def Let_def clamp_long_def LONG_MAX_def split: if_splits)
  qed
qed

lemma strtol10_sign:
  assumes k: "memchr CHR ''-'' s = Some k" and e: "length (snd (strtol10 s)) = length s - k"
  shows "0 \<le> fst (strtol10 s)"
proof (rule ccontr)
  assume neg: "\<not> 0 \<le> fst (strtol10 s)"
  obtain d where d: "dropWhile is_space s = CHR ''-'' # d" "snd (strtol10 s) = dropWhile is_digit d"
    using strtol10_neg [of s] neg by auto
  have s: "takeWhile is_space s @ CHR ''-'' # d = s" using takeWhile_dropWhile_id [of is_space s] d(1) by simp
  have "\<forall>x \<in> set (takeWhile is_space s). x \<noteq> CHR ''-''" by (auto dest!: set_takeWhileD simp: is_space_def)
  then have "memchr CHR ''-'' (takeWhile is_space s @ CHR ''-'' # d) = Some (length (takeWhile is_space s))"
    by (auto simp: memchr_Some_iff)
  then have "k = length (takeWhile is_space s)" using k s by simp
  moreover have "length (takeWhile is_space s) + (length d + 1) = length s" using arg_cong [OF s, of length] by simp
  ultimately have "length s - k = length d + 1" by simp
  then show False using e d(2) dropWhile_length [of is_digit d] by simp
qed

lemma strtol10_minus: "s \<noteq> [] \<Longrightarrow> s ! 0 = CHR ''-'' \<Longrightarrow> fst (strtol10 s) \<le> 0"
  by (cases s) (auto simp: strtol10_def is_space_def clamp_long_def LONG_MIN_def LONG_MAX_def Let_def)

lemma strtol10_rest: "set (snd (strtol10 s)) \<subseteq> set s"
proof -
  have "set (snd (split_sign t)) \<subseteq> set t" for t by (cases t) auto
  then have "set (dropWhile is_digit (snd (split_sign (dropWhile is_space s)))) \<subseteq> set s"
    using set_dropWhileD by fastforce
  then show ?thesis by (auto simp: strtol10_def Let_def split: prod.splits)
qed

lemma parse_range_rest:
  assumes "parse_range n s k = Range_Part a b c rest"
  shows "set rest \<subseteq> set s \<and> (\<not> c \<longrightarrow> rest = [])"
proof -
  have sub: "set (snd (strtol10 (drop (k + 1) s))) \<subseteq> set s"
    using strtol10_rest [of "drop (k + 1) s"] set_drop_subset [of "k + 1" s] by blast
  from assms consider err where "rest = tl err" "c = (err \<noteq> [])" "err \<in> {snd (strtol10 s), drop (k + 1) s, snd (strtol10 (drop (k + 1) s))}"
    by (auto simp: parse_range_def after_number_part Let_def split: prod.splits if_splits)
  then show ?thesis
  proof cases
    case 1
    have "set (tl err) \<subseteq> set err" by (cases err) auto
    then have "set rest \<subseteq> set s" using 1 sub strtol10_rest [of s] set_drop_subset [of "k + 1" s] by auto
    then show ?thesis using 1 by simp
  qed
qed

lemma parse_range_bounds:
  assumes p: "parse_range n s k = Range_Part a b c rest" and k: "memchr CHR ''-'' s = Some k" and "0 \<le> n" and "max 0 a \<le> n - 1"
  shows "max 0 a \<le> min b (n - 1)"
proof (cases "k = 0")
  case True
  then show ?thesis
    using p assms(4) by (auto simp: parse_range_def after_number_part split: prod.splits if_splits)
next
  case False
  have nonneg: "0 \<le> fst (strtol10 s)" if "length (snd (strtol10 s)) = length s - k"
    using strtol10_sign [OF k that] .
  from p False consider
      "length (snd (strtol10 s)) = length s - k" "a = fst (strtol10 s)" "b = n - 1"
    | "length (snd (strtol10 s)) = length s - k" "a = fst (strtol10 s)" "a \<le> b"
    by (auto simp: parse_range_def after_number_part Let_def split: prod.splits if_splits)
  then show ?thesis using nonneg assms(4) by cases auto
qed

definition inside_file :: "string \<Rightarrow> int \<Rightarrow> octet list \<Rightarrow> bool" where
  "inside_file name n xs \<longleftrightarrow> (\<forall>nm i. Disk nm i \<in> set xs \<longrightarrow> nm = name \<and> 0 \<le> i \<and> i < n)"

lemma inside_file_simps [simp]:
  "inside_file name n []" "inside_file name n (xs @ ys) \<longleftrightarrow> inside_file name n xs \<and> inside_file name n ys"
  "inside_file name n (map Mem s)"
  by (auto simp: inside_file_def)

lemma inside_file_range: "0 \<le> a \<Longrightarrow> b < n \<Longrightarrow> inside_file name n (map (Disk name) [a..b])"
  by (auto simp: inside_file_def)

text \<open>How the loop ends; \<open>st\<close> is the status it may have set.\<close>

definition range_status :: "resp \<Rightarrow> bool \<Rightarrow> int \<Rightarrow> bool" where
  "range_status con error st \<longleftrightarrow> (if error then st \<in> {rs_http_status con, 416} else st = rs_http_status con)"

lemma resp_queued_status: "resp_queued con xs con' \<Longrightarrow> rs_http_status con' = rs_http_status con"
  unfolding resp_queued_def by (cases con; cases con') simp

lemma range_loop_safe:
  assumes "body_ok (rs_out con)" and path: "buf_holds path name" and ct: "length (bstr ct) < 2 ^ 32" and n: "0 \<le> n"
    and s: "NUL \<notin> set s"
  shows "\<exists>con' xs st mp a b error. range_loop path n ct con multipart start end s = Some (set_status st con', mp, a, b, error) \<and>
    resp_queued con xs con' \<and> inside_file name n xs \<and> range_status con error st \<and>
    (multipart \<longrightarrow> mp) \<and>
    (\<not> error \<longrightarrow> (if CHR ''-'' \<in> set s then 0 \<le> a \<and> a \<le> b \<and> b < n \<and> (\<not> mp \<longrightarrow> xs = map (Disk name) [a..b])
       else xs = [] \<and> mp = multipart \<and> a = start \<and> b = end))"
  using assms(1) s
proof (induction s arbitrary: con multipart start "end" rule: length_induct)
  case (1 s)
  have c: "cstr s = s" using 1(3) by simp
  have stop: ?case if "CHR ''-'' \<notin> set s"
  proof -
    have "range_loop path n ct con multipart start end s = Some (set_status (rs_http_status con) con, multipart, start, end, False)"
      using memchr_None_iff [THEN iffD2, OF that] by (subst range_loop.simps) (simp add: strchr_def c set_status_def)
    then show ?thesis using that resp_queued_refl [OF 1(2)] by (fastforce simp: range_status_def)
  qed
  have failed: ?case if "range_loop path n ct con multipart start end s = Some (set_status st con, mp, a, b, True)"
    "st \<in> {rs_http_status con, 416}" "multipart \<longrightarrow> mp" for st mp a b
    using that resp_queued_refl [OF 1(2)] by (fastforce simp: range_status_def)
  show ?case
  proof (cases "memchr CHR ''-'' s")
    case None
    then show ?thesis using stop by (simp add: memchr_None_iff)
  next
    case (Some k)
    then have dash: "CHR ''-'' \<in> set s" by (auto simp: memchr_Some_iff in_set_conv_nth)
    then have ne: "s \<noteq> []" by auto
    note loop = range_loop.simps [of path n ct con multipart start "end" s]
    show ?thesis
    proof (cases "parse_range n s k")
      case Range_Bad
      then show ?thesis
        using ne Some by (intro failed [of "rs_http_status con"]) (auto simp: loop strchr_def c set_status_def)
    next
      case Range_Unsatisfiable
      then show ?thesis
        using ne Some by (intro failed [of 416]) (auto simp: loop strchr_def c)
    next
      case (Range_Part a b comma rest)
      let ?a = "if a < 0 then 0 else a" and ?b = "if b > n - 1 then n - 1 else b" and ?mp = "multipart \<or> comma"
      show ?thesis
      proof (cases "?a > n - 1")
        case True
        then show ?thesis
          using ne Some Range_Part by (intro failed [of 416]) (auto simp: loop strchr_def c Let_def)
      next
        case False
        then have "max 0 a \<le> n - 1" by (cases "a < 0") auto
        from parse_range_bounds [OF Range_Part Some n this] have le: "?a \<le> ?b" by auto
        obtain con1 where c1: "queue_range con path n ct ?mp ?a ?b = Some con1"
          "resp_queued con ((if ?mp then map Mem (part_head_text ?a ?b n ct) else []) @ map (Disk name) [?a..?b]) con1"
          using queue_range_ok [OF 1(2) path ct le] by blast
        have shorter: "length rest < length s" using parse_range_shorter [OF Range_Part ne] .
        have run: "range_loop path n ct con multipart start end s = range_loop path n ct con1 ?mp ?a ?b rest"
          using ne Some Range_Part False c1(1) by (simp add: loop strchr_def c Let_def)
        have rest: "NUL \<notin> set rest" "\<not> comma \<Longrightarrow> rest = []" using parse_range_rest [OF Range_Part] 1(3) by blast+
        obtain con2 xs2 st mp a2 b2 error where r2:
          "range_loop path n ct con1 ?mp ?a ?b rest = Some (set_status st con2, mp, a2, b2, error)"
          "resp_queued con1 xs2 con2" "inside_file name n xs2" "range_status con1 error st" "?mp \<longrightarrow> mp"
          "\<not> error \<longrightarrow> (if CHR ''-'' \<in> set rest then 0 \<le> a2 \<and> a2 \<le> b2 \<and> b2 < n \<and> (\<not> mp \<longrightarrow> xs2 = map (Disk name) [a2..b2])
             else xs2 = [] \<and> mp = ?mp \<and> a2 = ?a \<and> b2 = ?b)"
          using 1(1) [rule_format, OF shorter resp_queued_body [OF c1(2)] rest(1), of ?mp ?a ?b] by blast
        let ?xs = "((if ?mp then map Mem (part_head_text ?a ?b n ct) else []) @ map (Disk name) [?a..?b]) @ xs2"
        have bounds: "0 \<le> ?a" "?b < n" "?a < n" using False n by (auto split: if_splits)
        have "inside_file name n (map (Disk name) [?a..?b])" by (rule inside_file_range [OF bounds(1,2)])
        then have "inside_file name n ?xs" using r2(3) by simp
        moreover have "resp_queued con ?xs con2" by (rule resp_queued_trans [OF c1(2) r2(2)])
        moreover have "range_status con error st" using r2(4) unfolding range_status_def resp_queued_status [OF c1(2)] .
        moreover have "\<not> error \<longrightarrow> 0 \<le> a2 \<and> a2 \<le> b2 \<and> b2 < n \<and> (\<not> mp \<longrightarrow> ?xs = map (Disk name) [a2..b2])"
          using r2(5,6) rest(2) le bounds by (cases "CHR ''-'' \<in> set rest") auto
        ultimately show ?thesis using run r2(1,5) dash by (intro exI conjI) auto
      qed
    qed
  qed
qed

section \<open>Ranges as a client writes them\<close>

datatype range_set = Between nat nat | Starting nat | Last nat

definition dec :: "nat \<Rightarrow> string" where
  "dec n = utostr (of_nat n) []"

fun range_text :: "range_set \<Rightarrow> string" where
  "range_text (Between a b) = dec a @ ''-'' @ dec b"
| "range_text (Starting a) = dec a @ ''-''"
| "range_text (Last m) = ''-'' @ dec m"

fun ranges_text :: "range_set list \<Rightarrow> string" where
  "ranges_text [] = []"
| "ranges_text [r] = range_text r"
| "ranges_text (r # rs) = range_text r @ '','' @ ranges_text rs"

text \<open>Which octets of a file of \<open>n\<close> are meant, and whether there are any.\<close>

fun range_slice :: "int \<Rightarrow> range_set \<Rightarrow> int \<times> int" where
  "range_slice n (Between a b) = (int a, min (int b) (n - 1))"
| "range_slice n (Starting a) = (int a, n - 1)"
| "range_slice n (Last m) = (max 0 (n - int m), n - 1)"

fun range_sat :: "int \<Rightarrow> range_set \<Rightarrow> bool" where
  "range_sat n (Between a b) \<longleftrightarrow> a \<le> b \<and> int a < n \<and> int b \<le> LONG_MAX"
| "range_sat n (Starting a) \<longleftrightarrow> int a < n \<and> int a \<le> LONG_MAX"
| "range_sat n (Last m) \<longleftrightarrow> 0 < m \<and> 0 < n \<and> int m \<le> LONG_MAX"

definition range_octets :: "string \<Rightarrow> int \<Rightarrow> string option \<Rightarrow> bool \<Rightarrow> range_set \<Rightarrow> octet list" where
  "range_octets name n ct multipart r =
     (let (a, b) = range_slice n r
      in (if multipart then map Mem (part_head_text a b n ct) else []) @ map (Disk name) [a..b])"

lemma dec_digits: "\<forall>c \<in> set (dec n). is_digit c" "dec n \<noteq> []"
  using utostr_digits [of "of_nat n"] utostr_not_Nil [of "of_nat n"] by (simp_all add: dec_def)

lemma dec_val_dec: "int n \<le> LONG_MAX \<Longrightarrow> dec_val (dec n) = n"
  by (simp add: dec_def dec_val_utostr LONG_MAX_def unsigned_of_nat take_bit_nat_eq_self)

lemma dec_no_minus: "CHR ''-'' \<notin> set (dec n)"
  using dec_digits(1) [of n] by (auto simp: is_digit_def)

lemma strtol10_dec:
  assumes "int n \<le> LONG_MAX" and "r = [] \<or> \<not> is_digit (hd r)"
  shows "strtol10 (dec n @ r) = (int n, r)" and "strtol10 (CHR ''-'' # dec n @ r) = (- int n, r)"
  using strtol10_digits [OF dec_digits(2,1) assms(2)] strtol10_neg_digits [OF dec_digits(2,1) assms(2)] assms(1)
  by (simp_all add: dec_val_dec LONG_MIN_def LONG_MAX_def)

lemma memchr_dec: "memchr CHR ''-'' (dec a @ CHR ''-'' # r) = Some (length (dec a))"
  using dec_no_minus by (simp add: memchr_Some_iff)

lemma dec_hd: "dec b @ r \<noteq> [] \<and> hd (dec b @ r) \<noteq> CHR '',''"
  using dec_digits [of b] by (cases "dec b") (auto simp: is_digit_def)

text \<open>One printed range, at the end or in front of a comma.\<close>

lemma parse_range_text:
  assumes sat: "range_sat n r" and u: "u = [] \<or> hd u = CHR '',''" and ab: "range_slice n r = (a, b)" and n: "0 \<le> n"
  shows "\<exists>k a0 b0. memchr CHR ''-'' (range_text r @ u) = Some k \<and>
    parse_range n (range_text r @ u) k = Range_Part a0 b0 (u \<noteq> []) (tl u) \<and>
    (if a0 < 0 then 0 else a0) = a \<and> (if b0 > n - 1 then n - 1 else b0) = b \<and> a \<le> n - 1 \<and> a \<le> b"
proof (cases r)
  case (Between x y)
  have u': "u = [] \<or> \<not> is_digit (hd u)" using u by (auto simp: is_digit_def)
  have le: "int x \<le> LONG_MAX" "int y \<le> LONG_MAX" using sat Between by auto
  have d: "strtol10 (dec x @ CHR ''-'' # dec y @ u) = (int x, CHR ''-'' # dec y @ u)" "strtol10 (dec y @ u) = (int y, u)"
    using strtol10_dec(1) [OF le(1), of "CHR ''-'' # dec y @ u"] strtol10_dec(1) [OF le(2) u'] by (simp_all add: is_digit_def)
  have "parse_range n (range_text r @ u) (length (dec x)) = Range_Part (int x) (int y) (u \<noteq> []) (tl u)"
    using d dec_digits(2) [of x] dec_digits(2) [of y] dec_hd [of y u] sat u Between
    by (auto simp: parse_range_def after_number_part Let_def)
  then show ?thesis using memchr_dec [of x "dec y @ u"] sat ab Between by (intro exI conjI) auto
next
  case (Starting x)
  have le: "int x \<le> LONG_MAX" using sat Starting by auto
  have d: "strtol10 (dec x @ CHR ''-'' # u) = (int x, CHR ''-'' # u)"
    using strtol10_dec(1) [OF le(1), of "CHR ''-'' # u"] by (simp add: is_digit_def)
  have "parse_range n (range_text r @ u) (length (dec x)) = Range_Part (int x) (n - 1) (u \<noteq> []) (tl u)"
    using d dec_digits(2) [of x] u Starting by (auto simp: parse_range_def after_number_part)
  then show ?thesis using memchr_dec [of x u] sat ab Starting by (intro exI conjI) auto
next
  case (Last m)
  have u': "u = [] \<or> \<not> is_digit (hd u)" using u by (auto simp: is_digit_def)
  have le: "int m \<le> LONG_MAX" using sat Last by auto
  have "parse_range n (range_text r @ u) 0 = Range_Part (n - int m) (n - 1) (u \<noteq> []) (tl u)"
    using strtol10_dec(2) [OF le u'] sat u Last by (auto simp: parse_range_def after_number_part)
  then show ?thesis using sat ab Last by (intro exI [of _ 0] exI conjI) auto
qed

lemma ranges_text_Cons: "ranges_text (r # rs) = range_text r @ (if rs = [] then [] else CHR '','' # ranges_text rs)"
  by (cases rs) simp_all

lemma ranges_text_chars: "c \<in> set (ranges_text rs) \<Longrightarrow> is_digit c \<or> c \<in> {CHR ''-'', CHR '',''}"
proof (induction rs)
  case (Cons r rs)
  then show ?case using dec_digits(1) by (cases r) (auto simp: ranges_text_Cons split: if_splits)
qed simp

lemma ranges_text_plain: "NUL \<notin> set (ranges_text rs)" "cstr (ranges_text rs) = ranges_text rs"
proof -
  show "NUL \<notin> set (ranges_text rs)" using ranges_text_chars [of NUL rs] by (auto simp: is_digit_def NUL_def)
  then show "cstr (ranges_text rs) = ranges_text rs" by simp
qed

lemma ranges_text_dash: "rs \<noteq> [] \<Longrightarrow> CHR ''-'' \<in> set (ranges_text rs)"
proof (cases rs)
  case (Cons r rs')
  then show ?thesis by (cases r) (auto simp: ranges_text_Cons)
qed simp

lemma range_loop_texts:
  assumes "rs \<noteq> []" and "\<forall>r \<in> set rs. range_sat n r" and "body_ok (rs_out con)" and path: "buf_holds path name"
    and ct: "length (bstr ct) < 2 ^ 32" and n: "0 \<le> n"
  shows "\<exists>con'. range_loop path n ct con mp st en (ranges_text rs) =
      Some (con', mp \<or> 1 < length rs, fst (range_slice n (last rs)), snd (range_slice n (last rs)), False) \<and>
    resp_queued con (concat (map (range_octets name n ct (mp \<or> 1 < length rs)) rs)) con'"
  using assms(1-3)
proof (induction rs arbitrary: con mp st en)
  case (Cons r rs)
  let ?u = "if rs = [] then [] else CHR '','' # ranges_text rs" and ?s = "ranges_text (r # rs)"
  obtain a b where ab: "range_slice n r = (a, b)" by (cases "range_slice n r")
  have s: "?s = range_text r @ ?u" by (rule ranges_text_Cons)
  have "range_sat n r" "?u = [] \<or> hd ?u = CHR '',''" using Cons.prems(2) by auto
  from parse_range_text [OF this ab n] obtain k a0 b0 where p: "memchr CHR ''-'' ?s = Some k"
    "parse_range n ?s k = Range_Part a0 b0 (rs \<noteq> []) (ranges_text rs)" "(if a0 < 0 then 0 else a0) = a"
    "(if b0 > n - 1 then n - 1 else b0) = b" "a \<le> n - 1" "a \<le> b"
    unfolding s by (cases "rs = []") auto
  let ?mp = "mp \<or> rs \<noteq> []"
  have sc: "strchr ?s CHR ''-'' = Some k" "?s \<noteq> []"
    using p(1) ranges_text_plain(2) [of "r # rs"] by (auto simp: strchr_def)
  obtain con1 where c1: "queue_range con path n ct ?mp a b = Some con1" "resp_queued con (range_octets name n ct ?mp r) con1"
    using queue_range_ok [OF Cons.prems(3) path ct p(6), of n ?mp] by (auto simp: range_octets_def ab)
  have run: "range_loop path n ct con mp st en ?s = range_loop path n ct con1 ?mp a b (ranges_text rs)"
    using sc p(2,5) c1(1) by (subst range_loop.simps) (simp add: Let_def p(3,4))
  show ?case
  proof (cases "rs = []")
    case True
    have "range_loop path n ct con1 mp a b [] = Some (con1, mp, a, b, False)" by (subst range_loop.simps) simp
    then show ?thesis using run c1(2) ab True by simp
  next
    case False
    have "\<forall>r \<in> set rs. range_sat n r" using Cons.prems(2) by simp
    from Cons.IH [OF False this resp_queued_body [OF c1(2)], of ?mp a b] obtain con2 where
      "range_loop path n ct con1 ?mp a b (ranges_text rs) =
         Some (con2, ?mp \<or> 1 < length rs, fst (range_slice n (last rs)), snd (range_slice n (last rs)), False)"
      "resp_queued con1 (concat (map (range_octets name n ct (?mp \<or> 1 < length rs)) rs)) con2" by blast
    then show ?thesis using run resp_queued_trans [OF c1(2)] False by auto
  qed
qed simp

section \<open>Guarantees\<close>

definition resp_wf :: "resp \<Rightarrow> bool" where
  "resp_wf con \<longleftrightarrow> body_ok (rs_out con) \<and> resp_ok (rs_headers con) \<and> buf_ok (rs_tmp_buf con)"

definition content_range :: "int \<Rightarrow> int \<Rightarrow> int \<Rightarrow> string" where
  "content_range a b n = ''bytes '' @ int_text a @ ''-'' @ int_text b @ ''/'' @ int_text n"

definition multipart_type :: string where
  "multipart_type = ''multipart/byteranges; boundary='' @ range_boundary"

definition content_type_of :: "resp \<Rightarrow> string option" where
  "content_type_of con = Option.bind (get_field ''Content-Type'' (resp_fields (rs_headers con))) id"

text \<open>What follows the loop when it found no error.\<close>

definition range_finish :: "resp \<Rightarrow> bool \<Rightarrow> int \<Rightarrow> int \<Rightarrow> int \<Rightarrow> resp \<Rightarrow> bool" where
  "range_finish con mp a b n con' \<longleftrightarrow>
     resp_queued con (if mp then map Mem closing_text else []) (con'\<lparr>rs_headers := rs_headers con, rs_tmp_buf := rs_tmp_buf con\<rparr>) \<and>
     resp_wf con' \<and>
     resp_fields (rs_headers con') =
       (if mp then put_field ''Content-Type'' (\<lambda>k w. multipart_type) multipart_type (resp_fields (rs_headers con))
        else put_field ''Content-Range'' (merge_value (content_range a b n)) (content_range a b n) (resp_fields (rs_headers con)))"

lemma cstr_multipart_type [simp]: "cstr multipart_type = multipart_type"
  by (simp add: multipart_type_def range_boundary_def cstr_def NUL_def)

lemma range_end_ok:
  assumes wf: "resp_wf con" and max: "a_used (rs_headers con) < SSIZE_MAX"
  shows "\<exists>con'. range_end n mp a b con = Some (con', True) \<and> range_finish con mp a b n con'"
proof (cases mp)
  case True
  have ok: "body_ok (rs_out con)" "resp_ok (rs_headers con)" "buf_shape (rs_tmp_buf con)"
    using wf by (auto simp: resp_wf_def intro: buf_ok_shape)
  obtain c where c: "range_closing = Some c" "buf_ok c" "buf_str c = closing_text" using range_closing_ok by blast
  obtain con1 where q: "queue_text con c = Some con1" "resp_queued con (map Mem closing_text) con1"
    using queue_text_ok [OF ok(1) c(2)] c(3) by auto
  have same: "rs_headers con1 = rs_headers con" "rs_tmp_buf con1 = rs_tmp_buf con"
    using q(2) unfolding resp_queued_def by (cases con; cases con1; simp)+
  have "length ''multipart/byteranges; boundary='' + length (concat [range_boundary]) + 1 < SIZE_T" by (simp add: SIZE_T_def)
  from copy_then_append [OF ok(3) this] obtain t1 t where
    t: "buffer_copy_string_len (rs_tmp_buf con) ''multipart/byteranges; boundary='' = Some t1"
    "buffer_append_string_len t1 range_boundary = Some t" "buf_ok t" "buf_str t = multipart_type"
    by (auto simp: multipart_type_def split: option.splits bind_splits)
  have "NUL \<notin> set ''Content-Type''" by (simp add: NUL_def)
  from response_header_overwrite_ok [OF ok(2) this max, of multipart_type] obtain h where
    h: "response_header_overwrite (rs_headers con) ''Content-Type'' multipart_type = Some h" "resp_ok h"
    "resp_fields h = put_field ''Content-Type'' (\<lambda>k w. multipart_type) multipart_type (resp_fields (rs_headers con))" by auto
  let ?con2 = "con1\<lparr>rs_headers := h, rs_tmp_buf := t\<rparr>"
  have "range_end n mp a b con = Some (?con2, True)"
    by (simp add: range_end_def buffer_append_string_def True c(1) q(1) same t h(1))
  moreover have "?con2\<lparr>rs_headers := rs_headers con, rs_tmp_buf := rs_tmp_buf con\<rparr> = con1"
    using same by (cases con1) simp
  ultimately show ?thesis
    using True q(2) h(2,3) t(3) resp_queued_body [OF q(2)] by (auto simp: range_finish_def resp_wf_def)
next
  case False
  have ok: "body_ok (rs_out con)" "resp_ok (rs_headers con)" "buf_shape (rs_tmp_buf con)"
    using wf by (auto simp: resp_wf_def intro: buf_ok_shape)
  let ?ss = "[int_text a, ''-'', int_text b, ''/'', int_text n]"
  have "length ''bytes '' + length (concat ?ss) + 1 < SIZE_T"
    using int_text_length [of a] int_text_length [of b] int_text_length [of n] by (simp add: SIZE_T_def)
  from copy_then_append [OF ok(3) this] obtain t1 t where
    t: "buffer_copy_string_len (rs_tmp_buf con) ''bytes '' = Some t1" "buf.app_list t1 ?ss = Some t" "buf_ok t"
    "buf_str t = content_range a b n"
    by (auto simp: content_range_def)
  from response_header_insert_ok [OF ok(2) max, of "''Content-Range''" "content_range a b n"] obtain h where
    h: "response_header_insert (rs_headers con) ''Content-Range'' (content_range a b n) = Some h" "resp_ok h"
    "resp_fields h = put_field ''Content-Range'' (merge_value (content_range a b n)) (content_range a b n) (resp_fields (rs_headers con))"
    by auto
  let ?con2 = "con\<lparr>rs_headers := h, rs_tmp_buf := t\<rparr>"
  have "range_end n mp a b con = do { t \<leftarrow> buf.app_list t1 ?ss; hdrs \<leftarrow> response_header_insert (rs_headers con) ''Content-Range'' (buf_str t);
      Some (con\<lparr>rs_headers := hdrs, rs_tmp_buf := t\<rparr>, True) }"
    using False t(1) by (simp add: range_end_def buffer_append_int_eq int_text_def)
  then have "range_end n mp a b con = Some (?con2, True)" unfolding t(2) by (simp add: t(4) h(1))
  moreover have "?con2\<lparr>rs_headers := rs_headers con, rs_tmp_buf := rs_tmp_buf con\<rparr> = con" by simp
  ultimately show ?thesis
    using False h(2,3) t(3) ok resp_queued_refl [OF ok(1)] by (auto simp: range_finish_def resp_wf_def)
qed

text \<open>The whole function, for any text and for printed ranges.\<close>

lemma get_content_type:
  "resp_ok a \<Longrightarrow> response_header_get a ''Content-Type'' = Some (get_field ''Content-Type'' (resp_fields a))"
  by (rule response_header_get_ok) (simp_all add: NUL_def)

definition range_ready :: "resp \<Rightarrow> string \<Rightarrow> buffer \<Rightarrow> string \<Rightarrow> bool" where
  "range_ready con http_range path name \<longleftrightarrow> resp_wf con \<and> a_used (rs_headers con) < SSIZE_MAX \<and>
     length (bstr (content_type_of con)) < 2 ^ 32 \<and> buf_holds path name \<and> CHR ''-'' \<in> set (cstr http_range)"

lemma parse_range_run:
  assumes "range_ready con http_range path name"
  shows "http_response_parse_range path n http_range con = do {
      (con, mp, a, b, error) \<leftarrow> range_loop path n (content_type_of con) (con\<lparr>rs_content_length := 0\<rparr>) False 0 (n - 1) (cstr http_range);
      if error then Some (con, False) else range_end n mp a b con
    }"
proof -
  have "resp_ok (rs_headers con)" using assms by (simp add: range_ready_def resp_wf_def)
  from get_content_type [OF this] show ?thesis
    by (simp add: http_response_parse_range_def content_type_of_def Let_def)
qed

lemma resp_queued_keeps:
  assumes "resp_queued con xs con'"
  shows "rs_headers con' = rs_headers con" "rs_tmp_buf con' = rs_tmp_buf con" "rs_content_length con' = rs_content_length con + int (length xs)"
    and "resp_wf con \<Longrightarrow> resp_wf con'"
proof -
  show "rs_headers con' = rs_headers con" "rs_tmp_buf con' = rs_tmp_buf con" "rs_content_length con' = rs_content_length con + int (length xs)"
    using assms unfolding resp_queued_def by (cases con; cases con'; simp)+
  then show "resp_wf con \<Longrightarrow> resp_wf con'" using resp_queued_body [OF assms] by (simp add: resp_wf_def)
qed

lemma range_response_queued:
  assumes ready: "range_ready con http_range path name" and n: "0 \<le> n"
  shows "\<exists>con' ok xs. http_response_parse_range path n http_range con = Some (con', ok) \<and>
    queued (rs_out con) xs (rs_out con') \<and> inside_file name n xs \<and> rs_content_length con' = int (length xs) \<and>
    (if ok then rs_http_status con' = rs_http_status con \<and>
       ((\<exists>a b. 0 \<le> a \<and> a \<le> b \<and> b < n \<and> xs = map (Disk name) [a..b] \<and>
           resp_fields (rs_headers con') = put_field ''Content-Range'' (merge_value (content_range a b n))
             (content_range a b n) (resp_fields (rs_headers con))) \<or>
        (\<exists>ys. xs = ys @ map Mem closing_text \<and>
           resp_fields (rs_headers con') = put_field ''Content-Type'' (\<lambda>k w. multipart_type) multipart_type (resp_fields (rs_headers con))))
     else rs_http_status con' \<in> {rs_http_status con, 416} \<and> rs_headers con' = rs_headers con)"
proof -
  let ?con0 = "con\<lparr>rs_content_length := 0\<rparr>" and ?s = "cstr http_range"
  have wf0: "resp_wf ?con0" "body_ok (rs_out ?con0)" and path: "buf_holds path name"
    and ct: "length (bstr (content_type_of con)) < 2 ^ 32" and dash: "CHR ''-'' \<in> set ?s"
    and max: "a_used (rs_headers con) < SSIZE_MAX"
    using ready by (auto simp: range_ready_def resp_wf_def)
  obtain con1 xs st mp a b error where r:
    "range_loop path n (content_type_of con) ?con0 False 0 (n - 1) ?s = Some (set_status st con1, mp, a, b, error)"
    "resp_queued ?con0 xs con1" "inside_file name n xs" "range_status ?con0 error st"
    "\<not> error \<Longrightarrow> 0 \<le> a \<and> a \<le> b \<and> b < n \<and> (\<not> mp \<longrightarrow> xs = map (Disk name) [a..b])"
    using range_loop_safe [OF wf0(2) path ct n NUL_notin_cstr, of False 0 "n - 1" http_range, unfolded if_P [OF dash]] by blast
  have run: "http_response_parse_range path n http_range con =
      (if error then Some (set_status st con1, False) else range_end n mp a b (set_status st con1))"
    using r(1) by (simp add: parse_range_run [OF ready])
  have q1: "queued (rs_out con) xs (rs_out con1)" using r(2) by (simp add: resp_queued_def)
  note kept = resp_queued_keeps [OF r(2)]
  show ?thesis
  proof (cases error)
    case True
    then show ?thesis
      using run q1 r(3,4) kept
      by (intro exI [of _ "set_status st con1"] exI [of _ False] exI [of _ xs]) (auto simp: set_status_def range_status_def)
  next
    case False
    let ?c = "set_status st con1"
    have st: "st = rs_http_status con" using r(4) False by (simp add: range_status_def)
    have "resp_wf ?c" "a_used (rs_headers ?c) < SSIZE_MAX"
      using kept wf0(1) max by (simp_all add: set_status_def resp_wf_def)
    from range_end_ok [OF this] obtain con' where e: "range_end n mp a b ?c = Some (con', True)" "range_finish ?c mp a b n con'"
      by blast
    let ?ys = "if mp then map Mem closing_text else []"
    have q2: "resp_queued ?c ?ys (con'\<lparr>rs_headers := rs_headers ?c, rs_tmp_buf := rs_tmp_buf ?c\<rparr>)"
      using e(2) by (simp add: range_finish_def)
    have "queued (rs_out con) (xs @ ?ys) (rs_out con')"
      using q2 by (intro queued_trans [OF q1]) (simp add: resp_queued_def set_status_def)
    moreover have "rs_content_length con' = int (length (xs @ ?ys))"
      using resp_queued_keeps(3) [OF q2] kept(3) by (simp add: set_status_def)
    moreover have "rs_http_status con' = rs_http_status con"
      using resp_queued_status [OF q2] st by (simp add: set_status_def)
    moreover have "resp_fields (rs_headers con') =
       (if mp then put_field ''Content-Type'' (\<lambda>k w. multipart_type) multipart_type (resp_fields (rs_headers con))
        else put_field ''Content-Range'' (merge_value (content_range a b n)) (content_range a b n) (resp_fields (rs_headers con)))"
      using e(2) kept(1) by (simp add: range_finish_def set_status_def)
    ultimately show ?thesis
      using run e(1) False r(3,5) by (intro exI [of _ con'] exI [of _ True] exI [of _ "xs @ ?ys"]) auto
  qed
qed

text \<open>Whatever a client writes as its range, only octets of the file itself are queued, between heads of
  parts, and \<open>content_length\<close> counts exactly what was queued. When the function succeeds, either one part was
  queued and \<open>Content-Range\<close> names it, or the parts are closed and the response is announced as multipart.\<close>

theorem range_response_safe:
  assumes ready: "range_ready con http_range path name" and n: "0 \<le> n"
  shows "\<exists>con' ok xs. http_response_parse_range path n http_range con = Some (con', ok) \<and>
    queued (rs_out con) xs (rs_out con') \<and> inside_file name n xs \<and> rs_content_length con' = int (length xs) \<and>
    (if ok then rs_http_status con' = rs_http_status con \<and>
       ((\<exists>a b. 0 \<le> a \<and> a \<le> b \<and> b < n \<and> xs = map (Disk name) [a..b] \<and>
           resp_fields (rs_headers con') = put_field ''Content-Range'' (merge_value (content_range a b n))
             (content_range a b n) (resp_fields (rs_headers con))) \<or>
        (\<exists>ys. xs = ys @ map Mem closing_text \<and>
           resp_fields (rs_headers con') = put_field ''Content-Type'' (\<lambda>k w. multipart_type) multipart_type (resp_fields (rs_headers con))))
     else rs_http_status con' \<in> {rs_http_status con, 416} \<and> rs_headers con' = rs_headers con)"
  using assms by (rule range_response_queued)

text \<open>C9: A client that asks for a list of satisfiable ranges gets exactly those octets: one range as plain
  content with its \<open>Content-Range\<close>, several ranges each behind a head with its own \<open>Content-Range\<close> and
  closed by the boundary; \<open>content_length\<close> is the number of octets queued.\<close>

theorem printed_ranges_queued:
  assumes ready: "range_ready con (ranges_text rs) path name" and rs: "rs \<noteq> []" "\<forall>r \<in> set rs. range_sat n r" and n: "0 \<le> n"
  defines "several \<equiv> 1 < length rs"
  shows "\<exists>con'. http_response_parse_range path n (ranges_text rs) con = Some (con', True) \<and>
    queued (rs_out con) (concat (map (range_octets name n (content_type_of con) several) rs) @
      (if several then map Mem closing_text else [])) (rs_out con') \<and>
    rs_content_length con' = int (length (concat (map (range_octets name n (content_type_of con) several) rs) @
      (if several then map Mem closing_text else []))) \<and>
    rs_http_status con' = rs_http_status con \<and>
    resp_fields (rs_headers con') =
      (if several then put_field ''Content-Type'' (\<lambda>k w. multipart_type) multipart_type (resp_fields (rs_headers con))
       else let (a, b) = range_slice n (hd rs); v = content_range a b n
         in put_field ''Content-Range'' (merge_value v) v (resp_fields (rs_headers con)))"
proof -
  let ?con0 = "con\<lparr>rs_content_length := 0\<rparr>" and ?a = "fst (range_slice n (last rs))" and ?b = "snd (range_slice n (last rs))"
  have wf0: "resp_wf ?con0" "body_ok (rs_out ?con0)" and path: "buf_holds path name"
    and ct: "length (bstr (content_type_of con)) < 2 ^ 32" and max: "a_used (rs_headers con) < SSIZE_MAX"
    using ready by (auto simp: range_ready_def resp_wf_def)
  obtain con1 where r: "range_loop path n (content_type_of con) ?con0 False 0 (n - 1) (ranges_text rs) = Some (con1, several, ?a, ?b, False)"
    "resp_queued ?con0 (concat (map (range_octets name n (content_type_of con) several) rs)) con1"
    using range_loop_texts [OF rs wf0(2) path ct n, of False 0 "n - 1"] by (auto simp: several_def)
  note kept = resp_queued_keeps [OF r(2)]
  have "resp_wf con1" "a_used (rs_headers con1) < SSIZE_MAX" using kept wf0(1) max by simp_all
  from range_end_ok [OF this] obtain con' where
    e: "range_end n several ?a ?b con1 = Some (con', True)" "range_finish con1 several ?a ?b n con'" by blast
  have q2: "resp_queued con1 (if several then map Mem closing_text else [])
      (con'\<lparr>rs_headers := rs_headers con1, rs_tmp_buf := rs_tmp_buf con1\<rparr>)"
    using e(2) by (simp add: range_finish_def)
  have "http_response_parse_range path n (ranges_text rs) con = Some (con', True)"
    using r(1) e(1) by (simp add: parse_range_run [OF ready] ranges_text_plain(2))
  moreover have "queued (rs_out con) (concat (map (range_octets name n (content_type_of con) several) rs) @
      (if several then map Mem closing_text else [])) (rs_out con')"
    using r(2) q2 by (intro queued_trans [of _ _ "rs_out con1"]) (simp_all add: resp_queued_def)
  moreover have "rs_http_status con' = rs_http_status con"
    using resp_queued_status [OF q2] resp_queued_status [OF r(2)] by simp
  moreover have "rs_content_length con' = int (length (concat (map (range_octets name n (content_type_of con) several) rs) @
      (if several then map Mem closing_text else [])))"
    using resp_queued_keeps(3) [OF q2] resp_queued_keeps(3) [OF r(2)] by simp
  moreover have "\<not> several \<Longrightarrow> last rs = hd rs" using rs(1) by (cases rs) (auto simp: several_def)
  ultimately show ?thesis using e(2) kept(1) by (auto simp: range_finish_def split_def Let_def)
qed

text \<open>
  A first range that cannot be read: it ends before it starts, or what stands in front of its dash does
  not begin like a number. Such a range is refused without a status.
\<close>

definition range_unreadable :: "string \<Rightarrow> bool" where
  "range_unreadable s \<longleftrightarrow>
     (\<exists>a b u. s = range_text (Between a b) @ u \<and> b < a \<and> int a \<le> LONG_MAX \<and> (u = [] \<or> \<not> is_digit (hd u))) \<or>
     (\<exists>c u v. s = c # u @ CHR ''-'' # v \<and> \<not> is_digit c \<and> \<not> is_space c \<and> c \<noteq> CHR ''+'' \<and> c \<noteq> CHR ''-'' \<and> CHR ''-'' \<notin> set u)"

lemma unreadable_parse:
  assumes "range_unreadable s"
  shows "\<exists>k. memchr CHR ''-'' s = Some k \<and> parse_range n s k = Range_Bad \<and> s \<noteq> []"
proof -
  consider (reversed) a b u where "s = range_text (Between a b) @ u" "b < a" "int a \<le> LONG_MAX" "u = [] \<or> \<not> is_digit (hd u)"
    | (wordy) c u v where "s = c # u @ CHR ''-'' # v" "\<not> is_digit c" "\<not> is_space c" "c \<noteq> CHR ''+''" "c \<noteq> CHR ''-''"
        "CHR ''-'' \<notin> set u"
    using assms unfolding range_unreadable_def by blast
  then show ?thesis
  proof cases
    case (reversed a b u)
    note s = reversed(1) and ab = reversed(2,3) and u = reversed(4)
    have k: "memchr CHR ''-'' s = Some (length (dec a))" using memchr_dec [of a "dec b @ u"] s by simp
    have d: "strtol10 s = (int a, CHR ''-'' # dec b @ u)" "strtol10 (dec b @ u) = (int b, u)"
      using strtol10_dec(1) [of a "CHR ''-'' # dec b @ u"] strtol10_dec(1) [of b u] ab u s by (simp_all add: is_digit_def)
    have "parse_range n s (length (dec a)) = Range_Bad"
      using d dec_digits(2) dec_hd [of b u] ab(1) s by (simp add: parse_range_def Let_def)
    then show ?thesis using k dec_digits(2) [of a] s by auto
  next
    case (wordy c u v)
    note s = wordy(1) and c = wordy(2-6)
    have "strtol10 s = (0, s)" using c s by (simp add: strtol10_def Let_def)
    moreover have "memchr CHR ''-'' s = Some (Suc (length u))" using c(4,5) s by (simp add: memchr_Some_iff)
    ultimately show ?thesis using s by (auto simp: parse_range_def Let_def)
  qed
qed

lemma unreadable_range_refused:
  assumes ready: "range_ready con r path name" and bad: "range_unreadable (cstr r)"
  shows "\<exists>con'. http_response_parse_range path n r con = Some (con', False) \<and> con' = con\<lparr>rs_content_length := 0\<rparr>"
proof -
  obtain k where k: "memchr CHR ''-'' (cstr r) = Some k" "parse_range n (cstr r) k = Range_Bad" "cstr r \<noteq> []"
    using unreadable_parse [OF bad] by blast
  have "strchr (cstr r) CHR ''-'' = Some k" using k(1) by (simp add: strchr_def)
  then have "range_loop path n ct con0 False 0 (n - 1) (cstr r) = Some (con0, False, 0, n - 1, True)" for ct con0
    using k by (subst range_loop.simps) simp
  then show ?thesis unfolding parse_range_run [OF ready] by simp
qed

subsection \<open>A file of ten octets\<close>

definition ten_path :: buffer where
  "ten_path = the (buffer_init_string ''/f'')"

definition sample_resp :: resp where
  "sample_resp = \<lparr>rs_out = \<lparr>bo_tmp = buffer_init, bo_queue = chunkqueue_init None 0, bo_chunked = False, bo_bufmin = False\<rparr>,
     rs_headers = array_init, rs_http_status = 0, rs_content_length = - 1, rs_parsed_length = False,
     rs_parsed_connection = False, rs_response_keep_alive = False, rs_keep_alive = True, rs_direct = True,
     rs_file_started = False, rs_file_finished = False, rs_etag = buffer_init, rs_tmp_buf = buffer_init\<rparr>"

lemma resp_init_ok: "resp_ok array_init" "resp_fields array_init = []" "a_used array_init = 0"
proof -
  have l: "arr_list array_init = []" "arr_ok array_init" using arr_okI [OF array_init_holds] by simp_all
  then show "resp_ok array_init" "resp_fields array_init = []" "a_used array_init = 0"
    by (simp_all add: resp_ok_def store_ok_def arr_of_def resp_fields_def array_init_def)
qed

lemma ten_path_holds: "buf_holds ten_path ''/f''"
proof -
  have "length ''/f'' + 1 < SIZE_T" by (simp add: SIZE_T_def)
  with buf_ok_shape [OF buffer_init_ok(1)] obtain b where
    b: "buffer_copy_string_len buffer_init ''/f'' = Some b" "buf_holds b ''/f''"
    by (rule buffer_copy_string_len_ok)
  moreover have "cstr ''/f'' = ''/f''" by (simp add: cstr_def NUL_def)
  ultimately show ?thesis by (simp add: ten_path_def buffer_init_string_def buffer_copy_string_def)
qed

lemma sample_resp_ready: "CHR ''-'' \<in> set (cstr s) \<Longrightarrow> range_ready sample_resp s ten_path ''/f''"
  using resp_init_ok ten_path_holds cq_init_ok
  by (simp add: range_ready_def resp_wf_def sample_resp_def body_ok_def content_type_of_def get_field_def SSIZE_MAX_def)

theorem range_response_safe_witness:
  "\<exists>con' ok xs. http_response_parse_range ten_path 10 ''7-99,-3'' sample_resp = Some (con', ok) \<and>
    inside_file ''/f'' 10 xs \<and> rs_content_length con' = int (length xs)"
  using range_response_safe [OF sample_resp_ready, of "''7-99,-3''" 10] by (fastforce simp: cstr_def NUL_def)

theorem printed_ranges_queued_witness:
  "\<exists>con'. http_response_parse_range ten_path 10 (ranges_text [Between 7 99, Last 3]) sample_resp = Some (con', True) \<and>
    rs_http_status con' = 0 \<and> 0 < rs_content_length con'"
proof -
  have "range_ready sample_resp (ranges_text [Between 7 99, Last 3]) ten_path ''/f''"
    unfolding ranges_text_plain(2) by (intro sample_resp_ready) (simp only: ranges_text_plain(2), rule ranges_text_dash, simp)
  moreover have "\<forall>r \<in> set [Between 7 99, Last 3]. range_sat 10 r" by (simp add: LONG_MAX_def)
  moreover have "rs_http_status sample_resp = 0" by (simp add: sample_resp_def)
  moreover have "0 < length closing_text" by (simp add: closing_text_def)
  ultimately show ?thesis using printed_ranges_queued [of sample_resp "[Between 7 99, Last 3]" ten_path "''/f''" 10] by (auto intro!: add_nonneg_pos)
qed

end
