(* ===== verification/Http_Response.thy ===== *)
theory Http_Response
  imports Http_Range Path_Simplify
begin

text \<open>
  Answering a request with a file (\<open>http-header-glue.c\<close>): redirects, conditional requests, the file or a
  range of it, files named by a backend, and the end of a backend's response.
\<close>

section \<open>Redirecting to a directory\<close>

text \<open>
  What asking for the address of the server gave: nothing, a name or an address in text form, or an
  address of another family.
\<close>

datatype own_address = No_Sockname | Own_Name string | Unsupported_Family

record uri_parts =
  ru_scheme :: string
  ru_authority :: "string option"
  ru_path :: string
  ru_query :: string

definition redirect_host :: "uri_parts \<Rightarrow> own_address \<Rightarrow> nat \<Rightarrow> buffer \<Rightarrow> (own_address + buffer) option" where
  "redirect_host uri addr port o' =
     (case ru_authority uri of
        Some a \<Rightarrow> map_option Inr (buffer_append_string_len o' a)
      | None \<Rightarrow>
          (case addr of
             Own_Name name \<Rightarrow> do {
               o' \<leftarrow> buffer_append_string o' name;
               let default_port = (if length (ru_scheme uri) = 5 \<and> strcaseeq (ru_scheme uri) ''https'' then 443 else 80);
               if default_port \<noteq> port then do {
                 o' \<leftarrow> buffer_append_string_len o' '':'';
                 map_option Inr (buffer_append_int o' (of_nat port))
               } else Some (Inr o')
             }
           | e \<Rightarrow> Some (Inl e)))"

text \<open>The last result is the return value.\<close>

definition http_response_redirect_to_directory ::
    "uri_parts \<Rightarrow> own_address \<Rightarrow> nat \<Rightarrow> resp \<Rightarrow> (resp \<times> int) option" where
  "http_response_redirect_to_directory uri addr port con = do {
     o' \<leftarrow> buffer_copy_string_len buffer_init (ru_scheme uri);
     o' \<leftarrow> buffer_append_string_len o' ''://'';
     r \<leftarrow> redirect_host uri addr port o';
     case r of
       Inl Unsupported_Family \<Rightarrow> Some (con, - 1)
     | Inl _ \<Rightarrow> Some (con\<lparr>rs_http_status := 500\<rparr>, 0)
     | Inr o' \<Rightarrow> do {
         o' \<leftarrow> buffer_append_string_encoded o' (ru_path uri) ENCODING_REL_URI;
         o' \<leftarrow> buffer_append_string_len o' ''/'';
         o' \<leftarrow> (if ru_query uri \<noteq> [] then do {
             o' \<leftarrow> buffer_append_string_len o' ''?'';
             buffer_append_string_len o' (ru_query uri)
           } else Some o');
         hdrs \<leftarrow> response_header_insert (rs_headers con) ''Location'' (buf_str o');
         Some (con\<lparr>rs_headers := hdrs, rs_http_status := 301, rs_file_finished := True\<rparr>, 0)
       }
   }"

section \<open>Dates\<close>

text \<open>
  The functions of the C library on dates: \<open>strptime\<close> fills a \<open>tm\<close> and may fail, \<open>mktime\<close> (with
  \<open>tm_isdst = 0\<close>) normalises one and gives its time, \<open>gmt_text\<close> is \<open>strftime\<close> of \<open>gmtime\<close>. \<open>dl_tm0\<close> is a \<open>tm\<close>
  before anything was written to it.
\<close>

record 'tm date_lib =
  dl_strptime :: "string \<Rightarrow> 'tm \<Rightarrow> 'tm \<times> bool"
  dl_mktime :: "'tm \<Rightarrow> 'tm \<times> int"
  dl_gmt_text :: "int \<Rightarrow> string"
  dl_tm0 :: 'tm

definition FILE_CACHE_MAX :: nat where
  "FILE_CACHE_MAX = 16"

text \<open>The entries of \<open>srv->mtime_cache\<close> with the values of their buffers.\<close>

type_synonym mtime_cache = "(int \<times> string option) list"

definition mtime_cache_init :: mtime_cache where
  "mtime_cache_init = replicate FILE_CACHE_MAX (- 1, None)"

fun mtime_cache_find :: "mtime_cache \<Rightarrow> int \<Rightarrow> nat \<Rightarrow> bool \<times> nat" where
  "mtime_cache_find [] last_mod i = (False, i)"
| "mtime_cache_find ((mtime, str) # es) last_mod i =
     (if mtime = last_mod then (True, i) else if mtime = 0 then (False, i) else mtime_cache_find es last_mod (i + 1))"

definition strftime_cache_get :: "'tm date_lib \<Rightarrow> mtime_cache \<Rightarrow> int \<Rightarrow> mtime_cache \<times> string option" where
  "strftime_cache_get lib cache last_mod =
     (let (hit, i) = mtime_cache_find cache last_mod 0
      in if hit then (cache, snd (cache ! i))
         else let i = (if i = FILE_CACHE_MAX then 0 else i); str = Some (dl_gmt_text lib last_mod)
           in (cache[i := (last_mod, str)], str))"

section \<open>Conditional requests\<close>

text \<open>The parts of the request a file response looks at.\<close>

record request_view =
  qv_method :: http_method
  qv_range :: "string option"
  qv_if_none_match :: "string option"
  qv_if_modified_since :: "string option"
  qv_if_range :: "string option option"

text \<open>
  \<open>mtime\<close> is the value of the buffer; reading the text of an unset one is undefined. The flag is whether
  \<open>HANDLER_FINISHED\<close> is returned (\<open>HANDLER_GO_ON\<close> otherwise).
\<close>

definition not_modified_since :: "'tm date_lib \<Rightarrow> string \<Rightarrow> string \<Rightarrow> resp \<Rightarrow> resp \<times> bool" where
  "not_modified_since lib since mtime con =
     (let used_len = (case strchr since CHR '';'' of None \<Rightarrow> length (cstr since) | Some k \<Rightarrow> k)
      in if strneq since mtime used_len then
           ((if length (cstr mtime) = used_len then con\<lparr>rs_http_status := 304\<rparr> else con), True)
         else if used_len \<ge> 30 then (con, False)
         else let (tm, ok) = dl_strptime lib (take used_len (cstr since)) (dl_tm0 lib)
           in if \<not> ok then (con, False)
              else let (tm, t_header) = dl_mktime lib tm; (tm, _) = dl_strptime lib (cstr mtime) tm; (tm, t_file) = dl_mktime lib tm
                in if t_file > t_header then (con, False) else (con\<lparr>rs_http_status := 304\<rparr>, True))"

definition http_response_handle_cachable ::
    "'tm date_lib \<Rightarrow> request_view \<Rightarrow> string option \<Rightarrow> resp \<Rightarrow> (resp \<times> bool) option" where
  "http_response_handle_cachable lib rq mtime con =
     (let head_or_get = qv_method rq = HTTP_METHOD_GET \<or> qv_method rq = HTTP_METHOD_HEAD
      in case qv_if_none_match rq of
        Some tags \<Rightarrow> do {
          same \<leftarrow> etag_is_equal (buf_val (rs_etag con)) tags False;
          Some (if \<not> same then (con, False)
            else if head_or_get then (con\<lparr>rs_http_status := 304\<rparr>, True)
            else (con\<lparr>rs_http_status := 412, rs_direct := True\<rparr>, True))
        }
      | None \<Rightarrow>
          (case qv_if_modified_since rq of
             Some since \<Rightarrow>
               if head_or_get then map_option (\<lambda>mtime. not_modified_since lib since mtime con) mtime else Some (con, False)
           | None \<Rightarrow> Some (con, False)))"

section \<open>Sending a file\<close>

text \<open>What \<open>stat_cache_get_entry\<close> gives: an error (is it \<open>ENOENT\<close>) or an entry.\<close>

record stat_entry =
  se_is_symlink :: bool
  se_is_reg :: bool
  se_size :: int
  se_mtime :: int
  se_content_type :: "string option"
  se_etag :: "string option"

datatype stat_result = Stat_Error bool | Stat_Entry stat_entry

record file_conf =
  fc_follow_symlink :: bool
  fc_range_requests :: bool
  fc_etag_flags :: nat

definition put_header :: "string \<Rightarrow> string \<Rightarrow> resp \<Rightarrow> resp option" where
  "put_header key value con =
     map_option (\<lambda>h. con\<lparr>rs_headers := h\<rparr>) (response_header_overwrite (rs_headers con) key value)"

text \<open>Content type and \<open>Accept-Ranges\<close>; the flag is what is left of \<open>allow_caching\<close>.\<close>

definition file_headers :: "file_conf \<Rightarrow> stat_entry \<Rightarrow> bool \<Rightarrow> resp \<Rightarrow> (resp \<times> bool) option" where
  "file_headers cf sce allow_caching con = do {
     ct \<leftarrow> response_header_get (rs_headers con) ''Content-Type'';
     (con, allow_caching) \<leftarrow>
       (case ct of
          Some _ \<Rightarrow> Some (con, allow_caching)
        | None \<Rightarrow>
            if bstr (se_content_type sce) = []
            then map_option (\<lambda>con. (con, False)) (put_header ''Content-Type'' ''application/octet-stream'' con)
            else map_option (\<lambda>con. (con, allow_caching)) (put_header ''Content-Type'' (bstr (se_content_type sce)) con));
     con \<leftarrow> (if fc_range_requests cf then put_header ''Accept-Ranges'' ''bytes'' con else Some con);
     Some (con, allow_caching)
   }"

definition file_etag :: "file_conf \<Rightarrow> stat_entry \<Rightarrow> resp \<Rightarrow> resp option" where
  "file_etag cf sce con =
     (if fc_etag_flags cf \<noteq> 0 \<and> bstr (se_etag sce) \<noteq> [] then do {
        tag \<leftarrow> response_header_get (rs_headers con) ''ETag'';
        if tag = None then do {
          etag \<leftarrow> etag_mutate (rs_etag con) (bstr (se_etag sce));
          put_header ''ETag'' (buf_str etag) (con\<lparr>rs_etag := etag\<rparr>)
        } else Some con
      } else Some con)"

definition file_mtime ::
    "'tm date_lib \<Rightarrow> mtime_cache \<Rightarrow> stat_entry \<Rightarrow> resp \<Rightarrow> (mtime_cache \<times> resp \<times> string option) option" where
  "file_mtime lib cache sce con = do {
     lm \<leftarrow> response_header_get (rs_headers con) ''Last-Modified'';
     case lm of
       None \<Rightarrow> do {
         let (cache, mtime) = strftime_cache_get lib cache (se_mtime sce);
         con \<leftarrow> put_header ''Last-Modified'' (bstr mtime) con;
         Some (cache, con, mtime)
       }
     | Some v \<Rightarrow> Some (cache, con, v)
   }"

text \<open>\<open>If-Range\<close>: \<open>mtime\<close> is \<open>None\<close> for the \<open>NULL\<close> pointer.\<close>

definition range_wanted :: "request_view \<Rightarrow> string option option \<Rightarrow> resp \<Rightarrow> bool option" where
  "range_wanted rq mtime con =
     (case qv_if_range rq of
        None \<Rightarrow> Some True
      | Some v \<Rightarrow> do {
          s \<leftarrow> v;
          Some (if (s @ [NUL]) ! 0 = DQUOTE then v = buf_val (rs_etag con)
            else case mtime of None \<Rightarrow> False | Some m \<Rightarrow> v = m)
        })"

text \<open>
  The file itself: the requested range or all of it. \<open>file\<close> is what opening it gives (see \<open>Http_Chunk\<close>).
\<close>

definition file_body ::
    "file_conf \<Rightarrow> request_view \<Rightarrow> stat_entry \<Rightarrow> (int \<times> int) option \<Rightarrow> buffer \<Rightarrow> string option option \<Rightarrow> resp \<Rightarrow> (resp \<times> io_event list) option" where
  "file_body cf rq sce file path mtime con = do {
     enc \<leftarrow> response_header_get (rs_headers con) ''Content-Encoding'';
     do_range \<leftarrow>
       (if qv_range rq \<noteq> None \<and> fc_range_requests cf \<and> rs_http_status con \<in> {200, 0} \<and> enc = None
        then range_wanted rq mtime con else Some False);
     if do_range then do {
       (con, ok) \<leftarrow> http_response_parse_range path (se_size sce) (the (qv_range rq)) (con\<lparr>rs_file_finished := True\<rparr>);
       Some (if ok then con\<lparr>rs_http_status := 206\<rparr> else con, [])
     }
     else if se_size sce = 0 then Some (con\<lparr>rs_http_status := 200, rs_file_finished := True\<rparr>, [])
     else do {
       (out, io, r) \<leftarrow> http_chunk_append_file file (rs_out con) path;
       let con = con\<lparr>rs_out := out\<rparr>;
       Some (if r = 0 then con\<lparr>rs_http_status := 200, rs_file_finished := True\<rparr> else con\<lparr>rs_http_status := 403\<rparr>, io)
     }
   }"

definition http_response_send_file ::
    "'tm date_lib \<Rightarrow> file_conf \<Rightarrow> request_view \<Rightarrow> stat_result \<Rightarrow> (int \<times> int) option \<Rightarrow> buffer \<Rightarrow> mtime_cache \<Rightarrow> resp
      \<Rightarrow> (mtime_cache \<times> resp \<times> io_event list) option" where
  "http_response_send_file lib cf rq stat file path cache con =
     (let allow_caching = rs_http_status con = 0 \<or> rs_http_status con = 200
      in case stat of
        Stat_Error enoent \<Rightarrow> Some (cache, con\<lparr>rs_http_status := (if enoent then 404 else 403)\<rparr>, [])
      | Stat_Entry sce \<Rightarrow>
          if se_is_symlink sce \<and> \<not> fc_follow_symlink cf then Some (cache, con\<lparr>rs_http_status := 403\<rparr>, [])
          else if \<not> se_is_reg sce then Some (cache, con\<lparr>rs_http_status := 403\<rparr>, [])
          else do {
            (con, allow_caching) \<leftarrow> file_headers cf sce allow_caching con;
            (cache, con, mtime, finished) \<leftarrow>
              (if allow_caching then do {
                 con \<leftarrow> file_etag cf sce con;
                 (cache, con, mtime) \<leftarrow> file_mtime lib cache sce con;
                 (con, finished) \<leftarrow> http_response_handle_cachable lib rq mtime con;
                 Some (cache, con, Some mtime, finished)
               } else Some (cache, con, None, False));
            if finished then Some (cache, con, [])
            else do {
              (con, io) \<leftarrow> file_body cf rq sce file path mtime con;
              Some (cache, con, io)
            }
          })"

section \<open>Files named by a backend\<close>

definition forget_length :: "resp \<Rightarrow> resp option" where
  "forget_length con =
     (if rs_parsed_length con then do {
        (found, _) \<leftarrow> array_get_index (rs_headers con) ''Content-Length'';
        hdrs \<leftarrow> (case found of None \<Rightarrow> Some (rs_headers con) | Some ndx \<Rightarrow> write_ds_value (rs_headers con) ndx (\<lambda>_. None));
        Some (con\<lparr>rs_headers := hdrs, rs_content_length := - 1, rs_parsed_length := False\<rparr>)
      } else Some con)"

text \<open>\<open>xdocroot\<close> is the list of the values of the array; an unset buffer has length 0.\<close>

definition under_docroot :: "bool \<Rightarrow> string option list \<Rightarrow> string \<Rightarrow> bool" where
  "under_docroot lowercase xdocroot path \<longleftrightarrow> xdocroot = [] \<or>
     (\<exists>d \<in> set xdocroot. length (bstr d) \<le> length path \<and>
        (if lowercase then strncaseeq path (bstr d) (length (bstr d)) else take (length (bstr d)) path = bstr d))"

definition xsendfile_path :: "bool \<Rightarrow> buffer \<Rightarrow> buffer option" where
  "xsendfile_path lowercase path = do {
     path \<leftarrow> buffer_urldecode_path path;
     path \<leftarrow> buffer_path_simplify path None;
     if lowercase then buffer_to_lower path else Some path
   }"

definition http_response_xsendfile ::
    "'tm date_lib \<Rightarrow> file_conf \<Rightarrow> bool \<Rightarrow> request_view \<Rightarrow> (string \<Rightarrow> stat_result) \<Rightarrow> (string \<Rightarrow> (int \<times> int) option) \<Rightarrow> string option list
      \<Rightarrow> buffer \<Rightarrow> mtime_cache \<Rightarrow> resp \<Rightarrow> (mtime_cache \<times> resp \<times> io_event list) option" where
  "http_response_xsendfile lib cf lowercase rq stat open_file xdocroot path cache con = do {
     let status = rs_http_status con;
     con \<leftarrow> forget_length (con\<lparr>rs_file_started := True\<rparr>);
     path \<leftarrow> xsendfile_path lowercase path;
     (cache, con, io) \<leftarrow>
       (if under_docroot lowercase xdocroot (buf_str path)
        then http_response_send_file lib cf rq (stat (buf_str path)) (open_file (buf_str path)) path cache con
        else Some (cache, con\<lparr>rs_http_status := 403\<rparr>, []));
     Some (cache,
       (if rs_http_status con \<ge> 400 \<and> status < 300 then con\<lparr>rs_direct := True\<rparr>
        else if status \<noteq> 0 \<and> status \<noteq> 200 then con\<lparr>rs_http_status := status\<rparr> else con), io)
   }"

section \<open>The end of a backend's response\<close>

datatype connection_state =
  CON_STATE_CONNECT | CON_STATE_REQUEST_START | CON_STATE_READ | CON_STATE_REQUEST_END | CON_STATE_READ_POST |
  CON_STATE_HANDLE_REQUEST | CON_STATE_RESPONSE_START | CON_STATE_WRITE | CON_STATE_RESPONSE_END | CON_STATE_ERROR |
  CON_STATE_CLOSE

definition http_response_backend_error :: "resp \<Rightarrow> resp" where
  "http_response_backend_error con =
     (if rs_file_started con then con\<lparr>rs_keep_alive := False, rs_direct := True, rs_file_finished := True\<rparr> else con)"

definition finish_body :: "resp \<Rightarrow> resp option" where
  "finish_body con =
     (if rs_file_finished con then Some con
      else map_option (\<lambda>out. con\<lparr>rs_out := out, rs_file_finished := True\<rparr>) (http_chunk_close (rs_out con)))"

definition http_response_backend_done :: "connection_state \<Rightarrow> resp \<Rightarrow> resp option" where
  "http_response_backend_done state con =
     (if state \<in> {CON_STATE_HANDLE_REQUEST, CON_STATE_READ_POST} then
        (if \<not> rs_file_started con then Some (con\<lparr>rs_http_status := 500, rs_direct := True\<rparr>) else finish_body con)
      else if state = CON_STATE_WRITE then finish_body con
      else Some con)"

end
