(* ===== verification/Http_Send.thy ===== *)
theory Http_Send
  imports Http_Response
begin

text \<open>What a client gets: properties of file responses.\<close>

section \<open>Tags can be compared with any text\<close>

definition tag_pos :: "string \<Rightarrow> etag_state \<Rightarrow> nat \<Rightarrow> bool" where
  "tag_pos e state tok \<longleftrightarrow> (case state of
       CHECK \<Rightarrow> \<exists>b. tag_body b \<and> tok \<le> length e \<and> drop tok e = b @ [DQUOTE]
     | CHECK_QUOTED \<Rightarrow> \<exists>x b. tag_body b \<and> tok \<le> length e \<and> drop tok e = x # b @ [DQUOTE]
     | _ \<Rightarrow> True)"

lemma tag_read_drop: "drop tok e = c # r \<Longrightarrow> tag_read e tok = Some c"
  by (metis drop_eq_Nil2 hd_drop_conv_nth leI list.distinct(1) list.sel(1) tag_read_def)

lemma tag_read_Suc: "drop tok e = c # r \<Longrightarrow> drop (Suc tok) e = r \<and> Suc tok \<le> length e \<and> (\<exists>d. tag_read e (Suc tok) = Some d)"
proof -
  assume a: "drop tok e = c # r"
  have "drop (Suc tok) e = tl (drop tok e)" by (metis drop_Suc tl_drop)
  moreover have "tok < length e" using a by (metis drop_eq_Nil2 leI list.distinct(1))
  ultimately show ?thesis using a by (auto simp: tag_read_def)
qed

lemma check_step:
  assumes "tag_pos e CHECK tok"
  shows "\<exists>t d. tag_read e tok = Some t \<and> tag_read e (Suc tok) = Some d \<and>
    (t = BSLASH \<longrightarrow> tag_pos e CHECK_QUOTED (Suc tok)) \<and> (t \<noteq> BSLASH \<and> t \<noteq> DQUOTE \<longrightarrow> tag_pos e CHECK (Suc tok))"
proof -
  obtain b where b: "tag_body b" "drop tok e = b @ [DQUOTE]" using assms by (auto simp: tag_pos_def)
  show ?thesis
  proof (cases b)
    case Nil
    then show ?thesis using b(2) tag_read_drop [of tok e DQUOTE "[]"] tag_read_Suc [of tok e DQUOTE "[]"] by auto
  next
    case (Cons c b')
    have d: "drop tok e = c # b' @ [DQUOTE]" using b(2) Cons by simp
    note s = tag_read_Suc [OF d]
    have "tag_pos e CHECK_QUOTED (Suc tok)" if c: "c = BSLASH"
    proof -
      obtain x r where "b' = x # r" "tag_body r"
        using b(1) unfolding Cons c by (cases b') (auto simp: tag_body_quoted)
      then show ?thesis using s by (auto simp: tag_pos_def)
    qed
    moreover have "tag_pos e CHECK (Suc tok)" if "c \<noteq> BSLASH"
      using b(1) Cons that s by (auto simp: tag_pos_def tag_body_plain)
    ultimately show ?thesis using s tag_read_drop [OF d] by blast
  qed
qed

lemma etag_loop_total:
  assumes "tag_pos e CHECK ts" and "tag_pos e state tok"
  shows "\<exists>v. etag_loop e ts w state tok s = Some v"
  using assms
proof (induction e ts w state tok s rule: etag_loop.induct)
  case (2 e ts w tok c r)
  show ?case
  proof (cases "c = CHR ''W''")
    case True
    show ?thesis
    proof (cases "\<exists>s q r'. r = s # q # r'")
      case two: True
      then obtain s q r' where r: "r = s # q # r'" by blast
      have "tag_pos e SKIP tok" by (simp add: tag_pos_def)
      then show ?thesis using "2.IH"(1,2) [OF True r] "2.prems"(1) r True by (cases "w") auto
    next
      case False
      then have "r = [] \<or> (\<exists>s. r = [s])" by (metis list.exhaust)
      then show ?thesis using True by auto
    qed
  next
    case False
    have "tag_pos e START tok" by (simp add: tag_pos_def)
    then show ?thesis using "2.IH"(3,4) False "2.prems"(1) by auto
  qed
next
  case (3 e ts w tok c r)
  from check_step [OF "3.prems"(2)] obtain t d where td: "tag_read e tok = Some t" "tag_read e (Suc tok) = Some d"
    "t = BSLASH \<Longrightarrow> tag_pos e CHECK_QUOTED (Suc tok)" "t \<noteq> BSLASH \<and> t \<noteq> DQUOTE \<Longrightarrow> tag_pos e CHECK (Suc tok)" by blast
  have any: "tag_pos e SKIP k" "tag_pos e SKIP_QUOTED k" "tag_pos e TAIL k" for k by (simp_all add: tag_pos_def)
  consider "c = BSLASH" | "c = DQUOTE" | "c \<noteq> BSLASH" "c \<noteq> DQUOTE" by blast
  then show ?case
  proof cases
    case 1
    have "tag_pos e (if t \<noteq> NUL \<and> t = c then CHECK_QUOTED else SKIP_QUOTED) (tok + 1)" using td(3) any 1 by auto
    from "3.IH"(1) [OF td(1) refl refl 1 "3.prems"(1) this] show ?thesis using td 1 by simp
  next
    case 2
    then show ?thesis using "3.IH"(2) [OF td(1) refl refl] td any "3.prems"(1) by auto
  next
    case 3
    have "tag_pos e (if t \<noteq> NUL \<and> t = c then CHECK else SKIP) (tok + 1)" using td(4) any 3 by auto
    from "3.IH"(3) [OF td(1) refl refl 3 "3.prems"(1) this] show ?thesis using td 3 by simp
  qed
next
  case (4 e ts w tok c r)
  obtain x b where xb: "tag_body b" "drop tok e = x # b @ [DQUOTE]" using "4.prems"(2) by (auto simp: tag_pos_def)
  have "tag_pos e CHECK (tok + 1)" using xb tag_read_Suc [OF xb(2)] by (auto simp: tag_pos_def)
  moreover have "tag_pos e SKIP tok" by (simp add: tag_pos_def)
  ultimately show ?case using "4.IH" "4.prems"(1) tag_read_drop [OF xb(2)] by auto
qed (auto simp: tag_pos_def)

lemma etag_is_equal_total:
  assumes "et = None \<or> et = Some [] \<or> (\<exists>t. tag_body (et_body t) \<and> et = Some (tag_text t))"
  shows "\<exists>v. etag_is_equal et line w = Some v"
proof -
  consider "et = None \<or> et = Some []" | t where "tag_body (et_body t)" "et = Some (tag_text t)" using assms by blast
  then show ?thesis
  proof cases
    case 1
    then show ?thesis by (auto simp: etag_is_equal_def Let_def)
  next
    case 2
    let ?e = "tag_text t" and ?i = "if et_weak t then 2 else 0 :: nat"
    have d: "drop (Suc ?i) ?e = et_body t @ [DQUOTE]" "Suc ?i \<le> length ?e" by (simp_all add: tag_text_def)
    then have "tag_pos ?e CHECK (Suc ?i)" using 2(1) by (auto simp: tag_pos_def)
    from etag_loop_total [OF this, of START 0 w "cstr line"] obtain v where
      v: "etag_loop ?e (Suc ?i) w START 0 (cstr line) = Some v" by (auto simp: tag_pos_def)
    have "tag_read ?e 0 = Some (if et_weak t then CHR ''W'' else DQUOTE)" "tag_read ?e ?i = Some DQUOTE"
      "et_weak t \<Longrightarrow> tag_read ?e 1 = Some CHR ''/''" "?e \<noteq> []"
      by (simp_all add: tag_read_def tag_text_def nth_append)
    then show ?thesis using v 2(2) by (cases "et_weak t") (auto simp: etag_is_equal_def Let_def)
  qed
qed

section \<open>The state of a response\<close>

definition etag_wf :: "resp \<Rightarrow> bool" where
  "etag_wf con \<longleftrightarrow> buf_ok (rs_etag con) \<and>
     (buf_val (rs_etag con) = None \<or> buf_val (rs_etag con) = Some [] \<or>
      (\<exists>t. tag_body (et_body t) \<and> buf_val (rs_etag con) = Some (tag_text t)))"

definition send_wf :: "nat \<Rightarrow> resp \<Rightarrow> bool" where
  "send_wf k con \<longleftrightarrow> resp_wf con \<and> etag_wf con \<and> a_used (rs_headers con) + k \<le> SSIZE_MAX"

text \<open>\<open>con'\<close> differs from \<open>con\<close> in header fields and the tag at most.\<close>

definition only_fields :: "resp \<Rightarrow> resp \<Rightarrow> bool" where
  "only_fields con con' \<longleftrightarrow> con' = con\<lparr>rs_headers := rs_headers con', rs_etag := rs_etag con'\<rparr>"

lemma only_fields_refl [simp]: "only_fields con con"
  by (simp add: only_fields_def)

lemma only_fields_trans: "only_fields a b \<Longrightarrow> only_fields b c \<Longrightarrow> only_fields a c"
  by (cases a; cases b; cases c) (simp add: only_fields_def)

lemma only_fieldsD:
  assumes "only_fields con con'"
  shows "rs_out con' = rs_out con" "rs_http_status con' = rs_http_status con" "rs_file_finished con' = rs_file_finished con"
    "rs_direct con' = rs_direct con"
  using assms by (cases con; cases con'; simp add: only_fields_def)+

lemma put_header_ok:
  assumes wf: "send_wf (Suc k) con" and key: "NUL \<notin> set key" and v: "NUL \<notin> set val"
  shows "\<exists>con'. put_header key val con = Some con' \<and> send_wf k con' \<and> only_fields con con' \<and> rs_etag con' = rs_etag con \<and>
    resp_fields (rs_headers con') = put_field key (\<lambda>k w. val) val (resp_fields (rs_headers con))"
proof -
  have ok: "resp_ok (rs_headers con)" "a_used (rs_headers con) < SSIZE_MAX" using wf by (auto simp: send_wf_def resp_wf_def)
  have "cstr val = val" using v by simp
  with response_header_overwrite_ok [OF ok(1) key ok(2), of val] obtain h where
    "response_header_overwrite (rs_headers con) key val = Some h" "resp_ok h"
    "resp_fields h = put_field key (\<lambda>k w. val) val (resp_fields (rs_headers con))" "a_used h \<le> a_used (rs_headers con) + 1"
    by auto
  then show ?thesis
    using wf by (auto simp: put_header_def send_wf_def resp_wf_def etag_wf_def only_fields_def)
qed

lemma get_put_same:
  "lkey k \<noteq> lkey key \<Longrightarrow> get_field k (put_field key f v fs) = get_field k fs"
  by (induction fs) (auto simp: get_field_def)

lemma get_put_const:
  "get_field key (put_field key (\<lambda>k w. v) v fs) = Some (Some v)"
  by (induction fs) (auto simp: get_field_def)

lemma send_wf_less: "send_wf k con \<Longrightarrow> j \<le> k \<Longrightarrow> send_wf j con"
  by (auto simp: send_wf_def)

lemma get_field_update:
  "n < length fs \<Longrightarrow> lkey k \<noteq> lkey (fst (fs ! n)) \<Longrightarrow> get_field k (fs[n := (fst (fs ! n), w)]) = get_field k fs"
proof (induction fs arbitrary: n)
  case (Cons f fs)
  then show ?case by (cases n; cases f) (auto simp: get_field_def)
qed simp

section \<open>The cache of dates\<close>

text \<open>What the cache can look like: the first slot in use, the others as they were at the start.\<close>

definition mtime_cache_ok :: "'tm date_lib \<Rightarrow> mtime_cache \<Rightarrow> bool" where
  "mtime_cache_ok lib cache \<longleftrightarrow> (\<exists>m s. cache = (m, s) # replicate (FILE_CACHE_MAX - 1) (- 1, None) \<and>
     (m \<noteq> - 1 \<longrightarrow> s = Some (dl_gmt_text lib m)))"

lemma mtime_cache_init_ok: "mtime_cache_ok lib mtime_cache_init"
  by (auto simp: mtime_cache_ok_def mtime_cache_init_def FILE_CACHE_MAX_def replicate_Suc [symmetric] numeral_eq_Suc)

lemma mtime_cache_find_rest: "m \<noteq> - 1 \<Longrightarrow> mtime_cache_find (replicate k (- 1, None)) m i = (False, i + k)"
  by (induction k arbitrary: i) auto

lemma mtime_cache_get_ok:
  assumes "mtime_cache_ok lib cache" and "m \<noteq> - 1"
  shows "\<exists>cache'. strftime_cache_get lib cache m = (cache', Some (dl_gmt_text lib m)) \<and> mtime_cache_ok lib cache' \<and>
    tl cache' = tl cache \<and> hd cache' = (m, Some (dl_gmt_text lib m))"
proof -
  obtain m0 s where c: "cache = (m0, s) # replicate (FILE_CACHE_MAX - 1) (- 1, None)" "m0 \<noteq> - 1 \<longrightarrow> s = Some (dl_gmt_text lib m0)"
    using assms(1) by (auto simp: mtime_cache_ok_def)
  have f: "mtime_cache_find cache m 0 =
      (if m0 = m then (True, 0) else if m0 = 0 then (False, 0) else (False, FILE_CACHE_MAX))"
    using mtime_cache_find_rest [OF assms(2)] by (simp add: c(1) FILE_CACHE_MAX_def)
  show ?thesis
  proof (cases "m0 = m")
    case True
    then show ?thesis using assms f c by (simp add: strftime_cache_get_def)
  next
    case False
    then have "strftime_cache_get lib cache m = (cache[0 := (m, Some (dl_gmt_text lib m))], Some (dl_gmt_text lib m))"
      using f by (simp add: strftime_cache_get_def Let_def FILE_CACHE_MAX_def)
    then show ?thesis using c(1) by (auto simp: mtime_cache_ok_def)
  qed
qed

text \<open>The cache of formatted dates is transparent: a date comes out as formatting it anew gives, for every
  time except -1. Only its first slot is ever used.\<close>

theorem mtime_cache_transparent:
  assumes "mtime_cache_ok lib cache" and "m \<noteq> - 1"
  shows "\<exists>cache'. strftime_cache_get lib cache m = (cache', Some (dl_gmt_text lib m)) \<and> mtime_cache_ok lib cache' \<and>
    tl cache' = tl cache \<and> hd cache' = (m, Some (dl_gmt_text lib m))"
  using assms by (rule mtime_cache_get_ok)

section \<open>The steps of sending a file\<close>

lemma tag_body_no_NUL: "tag_body s \<Longrightarrow> NUL \<notin> set s"
  by (induction s rule: tag_body_induct) auto

lemma literal_NUL [simp]:
  "NUL \<notin> set ''Content-Type''" "NUL \<notin> set ''Accept-Ranges''" "NUL \<notin> set ''ETag''" "NUL \<notin> set ''Last-Modified''"
  "NUL \<notin> set ''Content-Encoding''" "NUL \<notin> set ''application/octet-stream''" "NUL \<notin> set ''bytes''"
  by (simp_all add: NUL_def)

lemma literal_keys [simp]:
  "lkey ''Content-Type'' \<noteq> lkey ''Accept-Ranges''" "lkey ''Last-Modified'' \<noteq> lkey ''Content-Type''"
  "lkey ''Last-Modified'' \<noteq> lkey ''Accept-Ranges''" "lkey ''Content-Encoding'' \<noteq> lkey ''Content-Type''"
  "lkey ''Content-Encoding'' \<noteq> lkey ''Accept-Ranges''" "lkey ''Content-Encoding'' \<noteq> lkey ''ETag''"
  "lkey ''Content-Encoding'' \<noteq> lkey ''Last-Modified''" "lkey ''Content-Type'' \<noteq> lkey ''ETag''"
  "lkey ''Content-Type'' \<noteq> lkey ''Last-Modified''" "lkey ''Last-Modified'' \<noteq> lkey ''ETag''"
  by (simp_all add: lkey_def fold_case_def)

lemma field_of_wf: "send_wf k con \<Longrightarrow> NUL \<notin> set key \<Longrightarrow>
    response_header_get (rs_headers con) key = Some (get_field key (resp_fields (rs_headers con)))"
  by (rule response_header_get_ok) (auto simp: send_wf_def resp_wf_def)

text \<open>A step that keeps everything but fields; the fields in \<open>keep\<close> stay.\<close>

definition field_step :: "string set \<Rightarrow> resp \<Rightarrow> resp \<Rightarrow> bool" where
  "field_step keep con con' \<longleftrightarrow> only_fields con con' \<and>
     (\<forall>k \<in> keep. get_field k (resp_fields (rs_headers con')) = get_field k (resp_fields (rs_headers con)))"

lemma field_step_refl: "field_step keep con con"
  by (simp add: field_step_def)

lemma field_step_trans: "field_step keep a b \<Longrightarrow> field_step keep b c \<Longrightarrow> field_step keep a c"
  by (auto simp: field_step_def intro: only_fields_trans)

lemma field_step_mono: "field_step keep a b \<Longrightarrow> keep' \<subseteq> keep \<Longrightarrow> field_step keep' a b"
  by (auto simp: field_step_def)

lemma put_header_step:
  assumes "send_wf (Suc k) con" and "NUL \<notin> set key" and "NUL \<notin> set val" and "\<forall>x \<in> keep. lkey x \<noteq> lkey key"
  obtains con' where "put_header key val con = Some con'" "send_wf k con'" "field_step keep con con'" "rs_etag con' = rs_etag con"
    "get_field key (resp_fields (rs_headers con')) = Some (Some val)"
proof -
  from put_header_ok [OF assms(1-3)] obtain con' where
    "put_header key val con = Some con'" "send_wf k con'" "only_fields con con'" "rs_etag con' = rs_etag con"
    "resp_fields (rs_headers con') = put_field key (\<lambda>k w. val) val (resp_fields (rs_headers con))" by blast
  then show ?thesis using assms(4) by (intro that [of con']) (auto simp: field_step_def get_put_same get_put_const)
qed

lemma file_headers_ok:
  assumes wf: "send_wf (Suc (Suc k)) con" and ct: "NUL \<notin> set (bstr (se_content_type sce))" "length (bstr (se_content_type sce)) < 2 ^ 32"
    and old: "length (bstr (content_type_of con)) < 2 ^ 32"
  shows "\<exists>con' b. file_headers cf sce allow con = Some (con', b) \<and> send_wf k con' \<and>
    field_step {''Last-Modified'', ''Content-Encoding''} con con' \<and> length (bstr (content_type_of con')) < 2 ^ 32 \<and>
    b = (allow \<and> (get_field ''Content-Type'' (resp_fields (rs_headers con)) \<noteq> None \<or> bstr (se_content_type sce) \<noteq> []))"
proof -
  let ?keep = "{''Last-Modified'', ''Content-Encoding''}"
  let ?ct = "get_field ''Content-Type'' (resp_fields (rs_headers con))"
  obtain con1 b where c1: "(case ?ct of
          Some _ \<Rightarrow> Some (con, allow)
        | None \<Rightarrow>
            if bstr (se_content_type sce) = []
            then map_option (\<lambda>con. (con, False)) (put_header ''Content-Type'' ''application/octet-stream'' con)
            else map_option (\<lambda>con. (con, allow)) (put_header ''Content-Type'' (bstr (se_content_type sce)) con)) = Some (con1, b)"
    "send_wf (Suc k) con1" "field_step ?keep con con1" "length (bstr (content_type_of con1)) < 2 ^ 32"
    "b = (allow \<and> (?ct \<noteq> None \<or> bstr (se_content_type sce) \<noteq> []))"
  proof (cases ?ct)
    case None
    have keep: "\<forall>x \<in> ?keep. lkey x \<noteq> lkey ''Content-Type''" by (simp add: fold_case_def)
    define v where "v = (if bstr (se_content_type sce) = [] then ''application/octet-stream'' else bstr (se_content_type sce))"
    have v: "NUL \<notin> set v" "length v < 2 ^ 32" using ct by (simp_all add: v_def)
    from put_header_step [OF wf literal_NUL(1) v(1) keep] obtain con1 where
      "put_header ''Content-Type'' v con = Some con1" "send_wf (Suc k) con1" "field_step ?keep con con1"
      "get_field ''Content-Type'' (resp_fields (rs_headers con1)) = Some (Some v)" by blast
    then show thesis
      using None v(2) by (intro that [of con1 "bstr (se_content_type sce) \<noteq> [] \<and> allow"])
        (auto simp: v_def content_type_of_def)
  next
    case (Some w)
    then show thesis using wf old by (intro that [of con allow]) (auto simp: field_step_refl intro: send_wf_less)
  qed
  show ?thesis
  proof (cases "fc_range_requests cf")
    case True
    have keep: "\<forall>x \<in> insert ''Content-Type'' ?keep. lkey x \<noteq> lkey ''Accept-Ranges''" by (simp add: fold_case_def)
    from put_header_step [OF c1(2) literal_NUL(2,7) keep] obtain con2 where c2:
      "put_header ''Accept-Ranges'' ''bytes'' con1 = Some con2" "send_wf k con2" "field_step (insert ''Content-Type'' ?keep) con1 con2"
      by blast
    have "content_type_of con2 = content_type_of con1" using c2(3) by (simp add: field_step_def content_type_of_def)
    moreover have "field_step ?keep con con2"
      by (rule field_step_trans [OF c1(3)]) (rule field_step_mono [OF c2(3)], blast)
    ultimately show ?thesis
      using c1 c2(1,2) True by (simp add: file_headers_def field_of_wf [OF wf])
  next
    case False
    then show ?thesis
      using c1 send_wf_less [OF c1(2)] by (simp add: file_headers_def field_of_wf [OF wf])
  qed
qed

lemma file_etag_ok:
  assumes wf: "send_wf (Suc k) con"
  shows "\<exists>con'. file_etag cf sce con = Some con' \<and> send_wf k con' \<and>
    field_step {''Last-Modified'', ''Content-Encoding'', ''Content-Type''} con con'"
proof (cases "fc_etag_flags cf \<noteq> 0 \<and> bstr (se_etag sce) \<noteq> [] \<and> get_field ''ETag'' (resp_fields (rs_headers con)) = None")
  case True
  have "buf_shape (rs_etag con)" using wf by (auto simp: send_wf_def etag_wf_def intro: buf_ok_shape)
  from etag_mutate_ok [OF this, of "bstr (se_etag sce)"] obtain m b where
    m: "etag_mutate (rs_etag con) (bstr (se_etag sce)) = Some m" "buf_ok m" "tag_body b"
    "buf_str m = tag_text \<lparr>et_weak = False, et_body = b\<rparr>" by blast
  let ?c = "con\<lparr>rs_etag := m\<rparr>"
  have "buf_val m = Some (tag_text \<lparr>et_weak = False, et_body = b\<rparr>)"
    using m(2,4) by (cases rule: buf_ok_cases) (auto simp: tag_text_def buf_val_holds)
  then have "etag_wf ?c" using m(2,3) by (auto simp: etag_wf_def intro!: exI [of _ "\<lparr>et_weak = False, et_body = b\<rparr>"])
  then have c: "send_wf (Suc k) ?c" using wf by (simp add: send_wf_def resp_wf_def)
  have v: "NUL \<notin> set (buf_str m)" using tag_body_no_NUL [OF m(3)] by (simp add: m(4) tag_text_def NUL_def)
  have keep: "\<forall>x \<in> {''Last-Modified'', ''Content-Encoding'', ''Content-Type''}. lkey x \<noteq> lkey ''ETag''" by (simp add: fold_case_def)
  from put_header_step [OF c literal_NUL(3) v keep] obtain con' where
    c': "put_header ''ETag'' (buf_str m) ?c = Some con'" "send_wf k con'"
    "field_step {''Last-Modified'', ''Content-Encoding'', ''Content-Type''} ?c con'" by blast
  have "only_fields con ?c" by (simp add: only_fields_def)
  then have "field_step {''Last-Modified'', ''Content-Encoding'', ''Content-Type''} con con'"
    using c'(3) only_fields_trans by (auto simp: field_step_def)
  then show ?thesis using True m(1) c' by (simp add: file_etag_def field_of_wf [OF wf])
next
  case False
  then show ?thesis
    using wf by (auto simp: file_etag_def field_of_wf [OF wf] field_step_refl intro: send_wf_less)
qed

lemma file_mtime_ok:
  assumes wf: "send_wf (Suc k) con" and cache: "mtime_cache_ok lib cache" and m: "se_mtime sce \<noteq> - 1"
    and gmt: "\<forall>i. NUL \<notin> set (dl_gmt_text lib i)" and lm: "get_field ''Last-Modified'' (resp_fields (rs_headers con)) \<noteq> Some None"
  shows "\<exists>cache' con' v. file_mtime lib cache sce con = Some (cache', con', Some v) \<and> send_wf k con' \<and> mtime_cache_ok lib cache' \<and>
    field_step {''Content-Encoding'', ''Content-Type''} con con' \<and> rs_etag con' = rs_etag con \<and>
    v = (case get_field ''Last-Modified'' (resp_fields (rs_headers con)) of Some (Some w) \<Rightarrow> w | _ \<Rightarrow> dl_gmt_text lib (se_mtime sce)) \<and>
    get_field ''Last-Modified'' (resp_fields (rs_headers con')) = Some (Some v)"
proof (cases "get_field ''Last-Modified'' (resp_fields (rs_headers con))")
  case None
  obtain cache' where g: "strftime_cache_get lib cache (se_mtime sce) = (cache', Some (dl_gmt_text lib (se_mtime sce)))"
    "mtime_cache_ok lib cache'"
    using mtime_cache_get_ok [OF cache m] by blast
  have keep: "\<forall>x \<in> {''Content-Encoding'', ''Content-Type''}. lkey x \<noteq> lkey ''Last-Modified''" by (simp add: fold_case_def)
  from put_header_step [OF wf literal_NUL(4) gmt [rule_format] keep] obtain con' where
    "put_header ''Last-Modified'' (dl_gmt_text lib (se_mtime sce)) con = Some con'" "send_wf k con'"
    "field_step {''Content-Encoding'', ''Content-Type''} con con'" "rs_etag con' = rs_etag con"
    "get_field ''Last-Modified'' (resp_fields (rs_headers con')) = Some (Some (dl_gmt_text lib (se_mtime sce)))" by blast
  then show ?thesis using g None by (simp add: file_mtime_def field_of_wf [OF wf])
next
  case (Some v)
  then obtain w where "v = Some w" using lm by auto
  then show ?thesis
    using Some wf cache by (auto simp: file_mtime_def field_of_wf [OF wf] field_step_refl intro: send_wf_less)
qed

text \<open>A conditional request: what it may change when it ends the request.\<close>

definition conditional_end :: "resp \<Rightarrow> resp \<Rightarrow> bool" where
  "conditional_end con con' \<longleftrightarrow> con' = con \<or> con' = con\<lparr>rs_http_status := 304\<rparr> \<or> con' = con\<lparr>rs_http_status := 412, rs_direct := True\<rparr>"

lemma handle_cachable_ok:
  assumes "etag_wf con"
  shows "\<exists>con' fin. http_response_handle_cachable lib rq (Some v) con = Some (con', fin) \<and> conditional_end con con' \<and>
    (\<not> fin \<longrightarrow> con' = con)"
proof (cases "qv_if_none_match rq")
  case (Some tags)
  obtain same where "etag_is_equal (buf_val (rs_etag con)) tags False = Some same"
    using etag_is_equal_total assms unfolding etag_wf_def by blast
  then show ?thesis using Some by (auto simp: http_response_handle_cachable_def conditional_end_def)
next
  case None
  have "conditional_end con (fst (not_modified_since lib since v con)) \<and>
      (\<not> snd (not_modified_since lib since v con) \<longrightarrow> fst (not_modified_since lib since v con) = con)" for since
    by (simp add: not_modified_since_def conditional_end_def Let_def split: prod.splits option.splits)
  then have "\<exists>con' fin. not_modified_since lib since v con = (con', fin) \<and> conditional_end con con' \<and> (\<not> fin \<longrightarrow> con' = con)" for since
    by (metis prod.collapse)
  moreover have "conditional_end con con" by (simp add: conditional_end_def)
  ultimately show ?thesis
    using None by (cases "qv_if_modified_since rq") (simp_all add: http_response_handle_cachable_def Let_def ex_bool_eq)
qed

definition file_given :: "(int \<times> int) option \<Rightarrow> bool" where
  "file_given file \<longleftrightarrow> (\<forall>fd m. file = Some (fd, m) \<longrightarrow> 0 \<le> m \<and> m < int SIZE_T)"

definition opened_size :: "(int \<times> int) option \<Rightarrow> int" where
  "opened_size file = (case file of None \<Rightarrow> 0 | Some (fd, m) \<Rightarrow> m)"

lemma inside_file_mono: "inside_file name m xs \<Longrightarrow> m \<le> n \<Longrightarrow> inside_file name n xs"
  by (fastforce simp: inside_file_def)

lemma append_file_queued:
  assumes ok: "body_ok out" and path: "buf_holds path name" and opened: "file_given file"
  shows "\<exists>out' io. http_chunk_append_file file out path = Some (out', io, if file = None then - 1 else 0) \<and>
    queued out (if 0 < opened_size file then wire (bo_chunked out) (map (Disk name) [0..opened_size file - 1]) else []) out'"
proof (cases "file")
  case None
  then show ?thesis using queued_refl [OF ok] by (simp add: http_chunk_append_file_def opened_size_def)
next
  case (Some fm)
  obtain fd m where fm: "fm = (fd, m)" by (cases fm)
  have m: "0 \<le> m" "m < int SIZE_T" using opened Some fm by (auto simp: file_given_def)
  show ?thesis
  proof (cases "m = 0")
    case True
    then show ?thesis using Some fm queued_refl [OF ok] by (simp add: http_chunk_append_file_def opened_size_def)
  next
    case False
    from file_fd_range_ok [OF ok path m, of fd 0] obtain out' io where
      "http_chunk_append_file_fd_range out path fd 0 m = Some (out', io)"
      "queued out (wire (bo_chunked out) (map (Disk name) [0..0 + m - 1])) out'" by blast
    then show ?thesis using Some fm False m by (simp add: http_chunk_append_file_def opened_size_def)
  qed
qed

lemma inside_file_wire: "inside_file name n xs \<Longrightarrow> inside_file name n (wire c xs)"
  by (auto simp: wire_def inside_file_def)

lemma file_body_ok:
  assumes wf: "send_wf (Suc k) con" and path: "buf_holds path name" and n: "0 \<le> se_size sce" and opened: "file_given file"
    and ct: "length (bstr (content_type_of con)) < 2 ^ 32" and rng: "\<forall>r. qv_range rq = Some r \<longrightarrow> CHR ''-'' \<in> set (cstr r)"
    and ifr: "qv_if_range rq \<noteq> Some None"
  shows "\<exists>con' io xs. file_body cf rq sce file path mtime con = Some (con', io) \<and> queued (rs_out con) xs (rs_out con') \<and>
    inside_file name (max (se_size sce) (opened_size file)) xs \<and> rs_http_status con' \<in> {rs_http_status con, 200, 206, 403, 416}"
proof -
  define do_range where "do_range = (qv_range rq \<noteq> None \<and> fc_range_requests cf \<and> rs_http_status con \<in> {200, 0} \<and>
      get_field ''Content-Encoding'' (resp_fields (rs_headers con)) = None \<and> range_wanted rq mtime con = Some True)"
  have ready: "range_ready (con\<lparr>rs_file_finished := True\<rparr>) r path name" if "qv_range rq = Some r" for r
    using wf path ct rng that by (simp add: range_ready_def send_wf_def resp_wf_def content_type_of_def)
  have body: "body_ok (rs_out con)" using wf by (simp add: send_wf_def resp_wf_def)
  obtain w where w: "range_wanted rq mtime con = Some w"
    using ifr by (cases "qv_if_range rq") (auto simp: range_wanted_def)
  have enc: "response_header_get (rs_headers con) ''Content-Encoding'' =
      Some (get_field ''Content-Encoding'' (resp_fields (rs_headers con)))"
    by (rule field_of_wf [OF wf]) simp
  show ?thesis
  proof (cases do_range)
    case True
    then obtain r where r: "qv_range rq = Some r" by (auto simp: do_range_def)
    from range_response_queued [OF ready [OF r] n] obtain con' ok xs where
      p: "http_response_parse_range path (se_size sce) r (con\<lparr>rs_file_finished := True\<rparr>) = Some (con', ok)"
      "queued (rs_out con) xs (rs_out con')" "inside_file name (se_size sce) xs"
      "rs_http_status con' \<in> {rs_http_status con, 416}"
      by (auto split: if_splits)
    have "file_body cf rq sce file path mtime con = Some (if ok then con'\<lparr>rs_http_status := 206\<rparr> else con', [])"
      using True r p(1) by (simp add: file_body_def enc do_range_def)
    moreover have "inside_file name (max (se_size sce) (opened_size file)) xs" using p(3) by (rule inside_file_mono) simp
    ultimately show ?thesis using p(2,4) by (intro exI [of _ "if ok then con'\<lparr>rs_http_status := 206\<rparr> else con'"] exI conjI) auto
  next
    case False
    then have run: "file_body cf rq sce file path mtime con =
        (if se_size sce = 0 then Some (con\<lparr>rs_http_status := 200, rs_file_finished := True\<rparr>, [])
         else do {
           (out, io, r) \<leftarrow> http_chunk_append_file file (rs_out con) path;
           let con = con\<lparr>rs_out := out\<rparr>;
           Some (if r = 0 then con\<lparr>rs_http_status := 200, rs_file_finished := True\<rparr> else con\<lparr>rs_http_status := 403\<rparr>, io)
         })"
      using w by (auto simp: file_body_def enc do_range_def)
    obtain out' io where a: "http_chunk_append_file file (rs_out con) path = Some (out', io, if file = None then - 1 else 0)"
      "queued (rs_out con) (if 0 < opened_size file then wire (bo_chunked (rs_out con)) (map (Disk name) [0..opened_size file - 1]) else []) out'"
      using append_file_queued [OF body path opened] by blast
    have "inside_file name (opened_size file) (map (Disk name) [0..opened_size file - 1])" by (rule inside_file_range) auto
    let ?xs = "if 0 < opened_size file then wire (bo_chunked (rs_out con)) (map (Disk name) [0..opened_size file - 1]) else []"
    let ?con1 = "if file = None then con\<lparr>rs_out := out', rs_http_status := 403\<rparr>
      else con\<lparr>rs_out := out', rs_http_status := 200, rs_file_finished := True\<rparr>"
    have inside: "inside_file name (max (se_size sce) (opened_size file)) ?xs"
      using \<open>inside_file name (opened_size file) (map (Disk name) [0..opened_size file - 1])\<close> inside_file_wire
        inside_file_mono [of name "opened_size file" _ "max (se_size sce) (opened_size file)"] by auto
    show ?thesis
    proof (cases "se_size sce = 0")
      case True
      then show ?thesis using run queued_refl [OF body]
        by (intro exI [of _ "con\<lparr>rs_http_status := 200, rs_file_finished := True\<rparr>"] exI [of _ "[]"]) simp
    next
      case False
      then have "file_body cf rq sce file path mtime con = Some (?con1, io)" using run a(1) by simp
      moreover have "rs_out ?con1 = out'" "rs_http_status ?con1 \<in> {rs_http_status con, 200, 206, 403, 416}" by simp_all
      ultimately show ?thesis using a(2) inside by metis
    qed
  qed
qed

section \<open>Sending a file as a whole\<close>

definition file_request ::
    "'tm date_lib \<Rightarrow> request_view \<Rightarrow> stat_entry \<Rightarrow> (int \<times> int) option \<Rightarrow> mtime_cache \<Rightarrow> resp \<Rightarrow> bool" where
  "file_request lib rq sce file cache con \<longleftrightarrow> send_wf 8 con \<and> mtime_cache_ok lib cache \<and>
     (\<forall>i. NUL \<notin> set (dl_gmt_text lib i)) \<and> 0 \<le> se_size sce \<and> se_mtime sce \<noteq> - 1 \<and>
     NUL \<notin> set (bstr (se_content_type sce)) \<and> length (bstr (se_content_type sce)) < 2 ^ 32 \<and>
     length (bstr (content_type_of con)) < 2 ^ 32 \<and> file_given file \<and>
     (\<forall>r. qv_range rq = Some r \<longrightarrow> CHR ''-'' \<in> set (cstr r)) \<and> qv_if_range rq \<noteq> Some None \<and>
     get_field ''Last-Modified'' (resp_fields (rs_headers con)) \<noteq> Some None"

text \<open>The part in front of the body.\<close>

definition file_prepare ::
    "'tm date_lib \<Rightarrow> file_conf \<Rightarrow> request_view \<Rightarrow> stat_entry \<Rightarrow> mtime_cache \<Rightarrow> resp \<Rightarrow> (mtime_cache \<times> resp \<times> string option option \<times> bool) option" where
  "file_prepare lib cf rq sce cache con = do {
     (con, allow_caching) \<leftarrow> file_headers cf sce (rs_http_status con = 0 \<or> rs_http_status con = 200) con;
     if allow_caching then do {
       con \<leftarrow> file_etag cf sce con;
       (cache, con, mtime) \<leftarrow> file_mtime lib cache sce con;
       (con, finished) \<leftarrow> http_response_handle_cachable lib rq mtime con;
       Some (cache, con, Some mtime, finished)
     } else Some (cache, con, None, False)
   }"

lemma send_file_eq:
  "http_response_send_file lib cf rq (Stat_Entry sce) file path cache con =
     (if se_is_symlink sce \<and> \<not> fc_follow_symlink cf \<or> \<not> se_is_reg sce then Some (cache, con\<lparr>rs_http_status := 403\<rparr>, [])
      else do {
        (cache, con, mtime, finished) \<leftarrow> file_prepare lib cf rq sce cache con;
        if finished then Some (cache, con, [])
        else do {
          (con, io) \<leftarrow> file_body cf rq sce file path mtime con;
          Some (cache, con, io)
        }
      })"
  by (auto simp: http_response_send_file_def file_prepare_def Let_def split_def bind_eq_Some_conv intro!: Option.bind_cong)

lemma file_prepare_ok:
  assumes rqst: "file_request lib rq sce file cache con"
  shows "\<exists>cache' con1 con2 mtime fin. file_prepare lib cf rq sce cache con = Some (cache', con2, mtime, fin) \<and>
    mtime_cache_ok lib cache' \<and> field_step {''Content-Encoding''} con con1 \<and> send_wf 4 con1 \<and>
    length (bstr (content_type_of con1)) < 2 ^ 32 \<and> (\<not> fin \<longrightarrow> con2 = con1) \<and> conditional_end con1 con2 \<and>
    (if rs_http_status con \<in> {0, 200} \<and> (get_field ''Content-Type'' (resp_fields (rs_headers con)) \<noteq> None \<or> bstr (se_content_type sce) \<noteq> [])
     then \<exists>v. http_response_handle_cachable lib rq (Some v) con1 = Some (con2, fin) \<and>
       v = (case get_field ''Last-Modified'' (resp_fields (rs_headers con)) of Some (Some w) \<Rightarrow> w | _ \<Rightarrow> dl_gmt_text lib (se_mtime sce))
     else \<not> fin)"
proof -
  have wf: "send_wf (Suc (Suc 6)) con" using rqst by (simp add: file_request_def)
  let ?allow = "rs_http_status con = 0 \<or> rs_http_status con = 200"
  have "NUL \<notin> set (bstr (se_content_type sce))" "length (bstr (se_content_type sce)) < 2 ^ 32"
    "length (bstr (content_type_of con)) < 2 ^ 32"
    using rqst by (simp_all add: file_request_def)
  from file_headers_ok [OF wf this] obtain con1 b where h: "file_headers cf sce ?allow con = Some (con1, b)" "send_wf 6 con1"
    "field_step {''Last-Modified'', ''Content-Encoding''} con con1" "length (bstr (content_type_of con1)) < 2 ^ 32"
    "b = (?allow \<and> (get_field ''Content-Type'' (resp_fields (rs_headers con)) \<noteq> None \<or> bstr (se_content_type sce) \<noteq> []))"
    by blast
  have b: "b \<longleftrightarrow> rs_http_status con \<in> {0, 200} \<and>
      (get_field ''Content-Type'' (resp_fields (rs_headers con)) \<noteq> None \<or> bstr (se_content_type sce) \<noteq> [])"
    using h(5) by auto
  show ?thesis
  proof (cases b)
    case False
    have "field_step {''Content-Encoding''} con con1" by (rule field_step_mono [OF h(3)]) simp
    moreover have "send_wf 4 con1" by (rule send_wf_less [OF h(2)]) simp
    moreover have "mtime_cache_ok lib cache" using rqst by (simp add: file_request_def)
    moreover have "conditional_end con1 con1" by (simp add: conditional_end_def)
    moreover have "file_prepare lib cf rq sce cache con = Some (cache, con1, None, False)"
      using h(1) False by (simp add: file_prepare_def)
    ultimately show ?thesis using h(4) False unfolding b [symmetric] by auto
  next
    case True
    have "send_wf (Suc 5) con1" using h(2) by simp
    from file_etag_ok [OF this] obtain con2 where e: "file_etag cf sce con1 = Some con2" "send_wf 5 con2"
      "field_step {''Last-Modified'', ''Content-Encoding'', ''Content-Type''} con1 con2" by blast
    have w2: "send_wf (Suc 4) con2" using e(2) by simp
    have lm: "get_field ''Last-Modified'' (resp_fields (rs_headers con2)) \<noteq> Some None"
      using rqst h(3) e(3) by (simp add: file_request_def field_step_def)
    have "mtime_cache_ok lib cache" "se_mtime sce \<noteq> - 1" "\<forall>i. NUL \<notin> set (dl_gmt_text lib i)"
      using rqst by (simp_all add: file_request_def)
    from file_mtime_ok [OF w2 this lm] obtain cache' con3 v where
      m: "file_mtime lib cache sce con2 = Some (cache', con3, Some v)" "send_wf 4 con3" "mtime_cache_ok lib cache'"
      "field_step {''Content-Encoding'', ''Content-Type''} con2 con3"
      "v = (case get_field ''Last-Modified'' (resp_fields (rs_headers con2)) of Some (Some w) \<Rightarrow> w | _ \<Rightarrow> dl_gmt_text lib (se_mtime sce))"
      by blast
    have v: "v = (case get_field ''Last-Modified'' (resp_fields (rs_headers con)) of Some (Some w) \<Rightarrow> w | _ \<Rightarrow> dl_gmt_text lib (se_mtime sce))"
      using m(5) h(3) e(3) by (simp add: field_step_def)
    have "etag_wf con3" using m(2) by (simp add: send_wf_def)
    from handle_cachable_ok [OF this] obtain con4 fin where
      c: "http_response_handle_cachable lib rq (Some v) con3 = Some (con4, fin)" "conditional_end con3 con4" "\<not> fin \<longrightarrow> con4 = con3"
      by blast
    have "field_step {''Content-Encoding''} con con1" "field_step {''Content-Encoding''} con1 con2" "field_step {''Content-Encoding''} con2 con3"
      using field_step_mono [OF h(3)] field_step_mono [OF e(3)] field_step_mono [OF m(4)] by simp_all
    then have "field_step {''Content-Encoding''} con con3" using field_step_trans by blast
    moreover have "length (bstr (content_type_of con3)) < 2 ^ 32"
      using h(4) e(3) m(4) by (simp add: field_step_def content_type_of_def)
    moreover have "file_prepare lib cf rq sce cache con = Some (cache', con4, Some (Some v), fin)"
      using h(1) True e(1) m(1) c(1) by (simp add: file_prepare_def)
    ultimately show ?thesis using m(2,3) c v True unfolding b [symmetric] by auto
  qed
qed

lemma send_file_ok:
  assumes rqst: "file_request lib rq sce file cache con" and path: "buf_holds path name"
  shows "\<exists>cache' con' io xs. http_response_send_file lib cf rq (Stat_Entry sce) file path cache con = Some (cache', con', io) \<and>
    mtime_cache_ok lib cache' \<and> queued (rs_out con) xs (rs_out con') \<and>
    inside_file name (max (se_size sce) (opened_size file)) xs \<and>
    rs_http_status con' \<in> {rs_http_status con, 200, 206, 304, 403, 412, 416}"
proof (cases "se_is_symlink sce \<and> \<not> fc_follow_symlink cf \<or> \<not> se_is_reg sce")
  case True
  have "body_ok (rs_out con)" using rqst by (simp add: file_request_def send_wf_def resp_wf_def)
  moreover have "mtime_cache_ok lib cache" using rqst by (simp add: file_request_def)
  ultimately show ?thesis using True queued_refl [of "rs_out con"]
    by (intro exI [of _ cache] exI [of _ "con\<lparr>rs_http_status := 403\<rparr>"] exI [of _ "[]"]) (simp add: send_file_eq)
next
  case False
  from file_prepare_ok [OF rqst, of cf] obtain cache' con1 con2 mtime fin where
    p: "file_prepare lib cf rq sce cache con = Some (cache', con2, mtime, fin)" "mtime_cache_ok lib cache'"
    "field_step {''Content-Encoding''} con con1" "send_wf 4 con1" "length (bstr (content_type_of con1)) < 2 ^ 32"
    "\<not> fin \<longrightarrow> con2 = con1" "conditional_end con1 con2" by blast
  have same: "rs_out con1 = rs_out con" "rs_http_status con1 = rs_http_status con"
    using only_fieldsD [of con con1] p(3) by (simp_all add: field_step_def)
  show ?thesis
  proof (cases fin)
    case True
    have "body_ok (rs_out con)" using rqst by (simp add: file_request_def send_wf_def resp_wf_def)
    moreover have "rs_out con2 = rs_out con" "rs_http_status con2 \<in> {rs_http_status con, 304, 412}"
      using p(7) same by (auto simp: conditional_end_def)
    moreover have "http_response_send_file lib cf rq (Stat_Entry sce) file path cache con = Some (cache', con2, [])"
      unfolding send_file_eq if_not_P [OF False] by (simp add: p(1) True)
    ultimately show ?thesis using p(2) queued_refl [of "rs_out con"]
      by (intro exI [of _ cache'] exI [of _ con2] exI [of _ "[]"]) auto
  next
    case nofin: False
    have w: "send_wf (Suc 3) con1" using p(4) by (simp add: numeral_eq_Suc)
    have pre: "0 \<le> se_size sce" "file_given file" "\<forall>r. qv_range rq = Some r \<longrightarrow> CHR ''-'' \<in> set (cstr r)" "qv_if_range rq \<noteq> Some None"
      using rqst by (simp_all add: file_request_def)
    from file_body_ok [OF w path pre(1,2) p(5) pre(3,4), of cf mtime] obtain con' io xs where
      b: "file_body cf rq sce file path mtime con1 = Some (con', io)" "queued (rs_out con1) xs (rs_out con')"
      "inside_file name (max (se_size sce) (opened_size file)) xs" "rs_http_status con' \<in> {rs_http_status con1, 200, 206, 403, 416}"
      by blast
    have "http_response_send_file lib cf rq (Stat_Entry sce) file path cache con = Some (cache', con', io)"
      unfolding send_file_eq if_not_P [OF False] using p(1,6) nofin b(1) by simp
    then show ?thesis using p(2) b(2-4) same by auto
  qed
qed

text \<open>C8: Sending a file always comes to an end, whatever conditions and ranges the client sends: the only octets
  queued are octets of the file that was asked for (or text of the framing), and the status is one of those
  the protocol has for a file.\<close>

theorem send_file_safe:
  assumes rqst: "file_request lib rq sce file cache con" and path: "buf_holds path name"
  shows "\<exists>cache' con' io xs. http_response_send_file lib cf rq (Stat_Entry sce) file path cache con = Some (cache', con', io) \<and>
    mtime_cache_ok lib cache' \<and> queued (rs_out con) xs (rs_out con') \<and>
    inside_file name (max (se_size sce) (opened_size file)) xs \<and>
    rs_http_status con' \<in> {rs_http_status con, 200, 206, 304, 403, 412, 416}"
  using assms by (rule send_file_ok)

text \<open>A request without conditions is not ended by them.\<close>

lemma unconditional:
  assumes "file_prepare lib cf rq sce cache con = Some (cache', con2, mtime, fin)"
    and "qv_if_none_match rq = None" and "qv_if_modified_since rq = None"
  shows "\<not> fin"
  using assms by (auto simp: file_prepare_def http_response_handle_cachable_def Let_def bind_eq_Some_conv split: if_splits)

text \<open>C19: A plain request for a regular file gets status 200 and exactly the octets of the file.\<close>

theorem whole_file_sent:
  assumes rqst: "file_request lib rq sce (Some (fd, m)) cache con" and path: "buf_holds path name"
    and "qv_if_none_match rq = None" "qv_if_modified_since rq = None" and "qv_range rq = None \<or> \<not> fc_range_requests cf"
    and "se_is_reg sce" "\<not> se_is_symlink sce \<or> fc_follow_symlink cf" and "0 < se_size sce" "0 < m"
  shows "\<exists>cache' con' io. http_response_send_file lib cf rq (Stat_Entry sce) (Some (fd, m)) path cache con = Some (cache', con', io) \<and>
    rs_http_status con' = 200 \<and> rs_file_finished con' \<and>
    queued (rs_out con) (wire (bo_chunked (rs_out con)) (map (Disk name) [0..m - 1])) (rs_out con')"
proof -
  have open_file: "\<not> (se_is_symlink sce \<and> \<not> fc_follow_symlink cf \<or> \<not> se_is_reg sce)" using assms(6,7) by auto
  from file_prepare_ok [OF rqst, of cf] obtain cache' con1 con2 mtime fin where
    p: "file_prepare lib cf rq sce cache con = Some (cache', con2, mtime, fin)"
    "field_step {''Content-Encoding''} con con1" "send_wf 4 con1" "\<not> fin \<longrightarrow> con2 = con1" by blast
  have fin: "\<not> fin" "con2 = con1" using unconditional [OF p(1) assms(3,4)] p(4) by simp_all
  have same: "rs_out con1 = rs_out con" using only_fieldsD [of con con1] p(2) by (simp add: field_step_def)
  have body: "body_ok (rs_out con1)" and enc: "response_header_get (rs_headers con1) ''Content-Encoding'' =
      Some (get_field ''Content-Encoding'' (resp_fields (rs_headers con1)))"
    using p(3) field_of_wf [OF p(3)] by (simp_all add: send_wf_def resp_wf_def)
  have "file_given (Some (fd, m))" using rqst by (simp add: file_request_def)
  from append_file_queued [OF body path this] obtain out' io where
    "http_chunk_append_file (Some (fd, m)) (rs_out con1) path = Some (out', io, 0)"
    "queued (rs_out con1) (wire (bo_chunked (rs_out con1)) (map (Disk name) [0..m - 1])) out'"
    using assms(9) by (auto simp: opened_size_def)
  then have "file_body cf rq sce (Some (fd, m)) path mtime con1 =
      Some (con1\<lparr>rs_out := out', rs_http_status := 200, rs_file_finished := True\<rparr>, io)"
    "queued (rs_out con) (wire (bo_chunked (rs_out con)) (map (Disk name) [0..m - 1])) out'"
    using assms(5,8) same enc by (auto simp: file_body_def)
  then show ?thesis
    unfolding send_file_eq if_not_P [OF open_file] using p(1) fin by simp
qed


text \<open>C23: A date in \<open>If-Modified-Since\<close> that is a proper prefix of the date of the file ends the request without a
  status, without a body and without marking the response as finished.\<close>

theorem date_prefix_unfinished:
  assumes rqst: "file_request lib rq sce file cache con" and path: "buf_holds path name"
    and cond: "qv_if_none_match rq = None" "qv_if_modified_since rq = Some since" "qv_method rq = HTTP_METHOD_GET"
    and "strchr since CHR '';'' = None" "cstr (dl_gmt_text lib (se_mtime sce)) = cstr since @ c # rest"
    and "get_field ''Last-Modified'' (resp_fields (rs_headers con)) = None"
    and "rs_http_status con \<in> {0, 200}" "bstr (se_content_type sce) \<noteq> []"
    and "se_is_reg sce" "\<not> se_is_symlink sce \<or> fc_follow_symlink cf"
  shows "\<exists>cache' con'. http_response_send_file lib cf rq (Stat_Entry sce) file path cache con = Some (cache', con', []) \<and>
    rs_http_status con' = rs_http_status con \<and> rs_file_finished con' = rs_file_finished con \<and> rs_out con' = rs_out con"
proof -
  have open_file: "\<not> (se_is_symlink sce \<and> \<not> fc_follow_symlink cf \<or> \<not> se_is_reg sce)" using assms(11,12) by auto
  have known: "rs_http_status con \<in> {0, 200} \<and>
      (get_field ''Content-Type'' (resp_fields (rs_headers con)) \<noteq> None \<or> bstr (se_content_type sce) \<noteq> [])"
    using assms(9,10) by simp
  from file_prepare_ok [OF rqst, of cf, unfolded if_P [OF known]] obtain cache' con1 con2 mtime fin where
    p: "file_prepare lib cf rq sce cache con = Some (cache', con2, mtime, fin)" "field_step {''Content-Encoding''} con con1"
    "http_response_handle_cachable lib rq (Some (dl_gmt_text lib (se_mtime sce))) con1 = Some (con2, fin)"
    using assms(8) by auto
  have "strneq since (dl_gmt_text lib (se_mtime sce)) (length (cstr since))" by (simp add: strneq_def assms(7))
  then have "not_modified_since lib since (dl_gmt_text lib (se_mtime sce)) con1 = (con1, True)"
    by (simp add: not_modified_since_def assms(6,7) Let_def)
  then have "con2 = con1" fin using p(3) cond by (simp_all add: http_response_handle_cachable_def Let_def)
  moreover have "rs_out con1 = rs_out con" "rs_http_status con1 = rs_http_status con" "rs_file_finished con1 = rs_file_finished con"
    using only_fieldsD [of con con1] p(2) by (simp_all add: field_step_def)
  ultimately show ?thesis
    unfolding send_file_eq if_not_P [OF open_file] using p(1) by simp
qed

end
