(* ===== verification/Http_Xsend.thy ===== *)
theory Http_Xsend
  imports Http_Send
begin

text \<open>
  Files named by a backend are confined to the configured directories; requests with concrete values for the
  properties of \<open>Http_Send\<close>.
\<close>

section \<open>The path of a backend\<close>

definition no_dot_segments :: "string \<Rightarrow> bool" where
  "no_dot_segments s \<longleftrightarrow> (\<forall>u \<in> set (split_slash s). u \<noteq> ''.'' \<and> u \<noteq> ''..'')"

lemma simplified_no_dots: "no_dot_segments (path_simplified s)"
proof (cases "s = []")
  case True
  then show ?thesis by (simp add: no_dot_segments_def path_simplified_def)
next
  case False
  from path_simplified_segments [OF False] obtain ts where ts: "split_slash (path_simplified s) = [] # ts" "ts \<noteq> []"
    "segs_ok (butlast ts)" "last ts = [] \<or> segs_ok ts" by blast
  have "u \<noteq> ''.'' \<and> u \<noteq> ''..''" if "u \<in> set ts" for u
  proof -
    have "u \<in> set (butlast ts) \<or> u = last ts" using that by (cases ts rule: rev_cases) auto
    then have "\<not> dot_segment u \<or> u = []" using ts(3,4) that unfolding segs_ok_def by blast
    then show ?thesis by (auto simp: dot_segment_def)
  qed
  then show ?thesis by (auto simp: no_dot_segments_def ts(1))
qed

lemma to_lower_slash: "(to_lower c = CHR ''/'') = (c = CHR ''/'')" "(to_lower c = CHR ''.'') = (c = CHR ''.'')"
proof -
  have "c \<noteq> CHR ''/'' \<and> c \<noteq> CHR ''.'' \<and> to_lower c \<noteq> CHR ''/'' \<and> to_lower c \<noteq> CHR ''.''" if "is_upper c"
    using that by (auto simp: is_upper_def to_lower_def dest!: arg_cong [of _ _ byte])
  then show "(to_lower c = CHR ''/'') = (c = CHR ''/'')" "(to_lower c = CHR ''.'') = (c = CHR ''.'')"
    by (cases "is_upper c"; auto simp: to_lower_def)+
qed

lemma split_slash_lower: "split_slash (map to_lower s) = map (map to_lower) (split_slash s)"
  by (induction s) (auto simp: to_lower_slash hd_map map_tl)

lemma lower_no_dots: "no_dot_segments s \<Longrightarrow> no_dot_segments (map to_lower s)"
proof -
  have "map to_lower u = ''.'' \<longleftrightarrow> u = ''.''" "map to_lower u = ''..'' \<longleftrightarrow> u = ''..''" for u
    by (auto simp: map_eq_Cons_conv to_lower_slash)
  then show "no_dot_segments s \<Longrightarrow> no_dot_segments (map to_lower s)"
    by (auto simp: no_dot_segments_def split_slash_lower)
qed

definition xsend_name :: "bool \<Rightarrow> string \<Rightarrow> string" where
  "xsend_name lowercase s = (let t = path_simplified (urldecode False (cstr s)) in if lowercase then map to_lower t else t)"

lemma xsendfile_path_ok:
  assumes "buf_holds path s" and "length s + 2 < SIZE_T"
  shows "\<exists>b. xsendfile_path lowercase path = Some b \<and> buf_holds b (xsend_name lowercase s)"
proof -
  from buffer_urldecode_internal_ok [OF assms(1), of False] obtain b1 where
    b1: "buffer_urldecode_path path = Some b1" "buf_holds b1 (urldecode False (cstr s))"
    by (auto simp: buffer_urldecode_path_def)
  have "length (urldecode False (cstr s)) \<le> length s"
    using length_urldecode [of False "cstr s"] length_cstr_le [of s] by simp
  then have "length (buf_str b1) + 2 < SIZE_T" using assms(2) buf_holdsD(3) [OF b1(2)] by simp
  from buffer_path_simplify_in_place_ok [OF buf_holdsD(4) [OF b1(2)] this] obtain b2 where
    b2: "buffer_path_simplify b1 None = Some b2" "buf_holds b2 (path_simplified (urldecode False (cstr s)))"
    using buf_holdsD(3) [OF b1(2)] by auto
  from buffer_to_lower_ok [OF b2(2)] obtain b3 where
    "buffer_to_lower b2 = Some b3" "buf_holds b3 (map to_lower (path_simplified (urldecode False (cstr s))))" by blast
  then show ?thesis using b1(1) b2 by (cases lowercase) (auto simp: xsendfile_path_def xsend_name_def Let_def)
qed

section \<open>Forgetting the length\<close>

lemma forget_length_ok:
  assumes wf: "send_wf k con"
  shows "\<exists>con'. forget_length con = Some con' \<and> send_wf k con' \<and> rs_out con' = rs_out con \<and> rs_http_status con' = rs_http_status con \<and>
    (\<forall>key. lkey key \<noteq> lkey ''Content-Length'' \<longrightarrow>
       get_field key (resp_fields (rs_headers con')) = get_field key (resp_fields (rs_headers con)))"
proof (cases "rs_parsed_length con")
  case True
  have ok: "resp_ok (rs_headers con)" using wf by (simp add: send_wf_def resp_wf_def)
  have key: "NUL \<notin> set ''Content-Length''" by simp
  show ?thesis
    using ok key
  proof (cases rule: array_index_field)
    case (found n pos)
    from write_ds_value_at [OF ok found(2), of "\<lambda>_. None"] obtain h where
      h: "write_ds_value (rs_headers con) n (\<lambda>_. None) = Some h" "resp_ok h" "a_used h = a_used (rs_headers con)"
      "resp_fields h = (resp_fields (rs_headers con))[n := (fst (resp_fields (rs_headers con) ! n), None)]" by blast
    have other: "get_field k ((resp_fields (rs_headers con))[n := (fst (resp_fields (rs_headers con) ! n), None)]) =
        get_field k (resp_fields (rs_headers con))" if "lkey k \<noteq> lkey ''Content-Length''" for k
      using get_field_update [OF found(2)] found(3) that by simp
    show ?thesis
      using True found(1) h wf other
      by (auto simp: forget_length_def send_wf_def resp_wf_def etag_wf_def)
  next
    case (absent pos)
    then show ?thesis using True wf by (auto simp: forget_length_def send_wf_def resp_wf_def etag_wf_def)
  qed
next
  case False
  then show ?thesis using wf by (simp add: forget_length_def)
qed

section \<open>Confinement\<close>

text \<open>Whatever the file system holds, the entries and opened files are as they should be.\<close>

definition files_sane ::
    "'tm date_lib \<Rightarrow> request_view \<Rightarrow> (string \<Rightarrow> stat_result) \<Rightarrow> (string \<Rightarrow> (int \<times> int) option) \<Rightarrow> mtime_cache \<Rightarrow> resp \<Rightarrow> bool" where
  "files_sane lib rq stat open_file cache con \<longleftrightarrow> send_wf 8 con \<and>
     (\<forall>nm sce. stat nm = Stat_Entry sce \<longrightarrow> file_request lib rq sce (open_file nm) cache con)"

lemma files_sane_forget:
  assumes "files_sane lib rq stat open_file cache con"
  shows "\<exists>con'. forget_length (con\<lparr>rs_file_started := True\<rparr>) = Some con' \<and> files_sane lib rq stat open_file cache con' \<and>
    rs_out con' = rs_out con \<and> rs_http_status con' = rs_http_status con"
proof -
  let ?con = "con\<lparr>rs_file_started := True\<rparr>"
  have wf: "send_wf 8 ?con" using assms by (simp add: files_sane_def send_wf_def resp_wf_def etag_wf_def)
  have keys: "lkey ''Content-Type'' \<noteq> lkey ''Content-Length''" "lkey ''Last-Modified'' \<noteq> lkey ''Content-Length''"
    by (simp_all add: lkey_def fold_case_def)
  from forget_length_ok [OF wf] obtain con' where c: "forget_length ?con = Some con'" "send_wf 8 con'"
    "rs_out con' = rs_out con" "rs_http_status con' = rs_http_status con"
    "\<And>key. lkey key \<noteq> lkey ''Content-Length'' \<Longrightarrow> get_field key (resp_fields (rs_headers con')) = get_field key (resp_fields (rs_headers con))"
    by auto
  have "files_sane lib rq stat open_file cache con'"
    using assms c(2) c(5) [OF keys(1)] c(5) [OF keys(2)]
    unfolding files_sane_def file_request_def content_type_of_def by auto
  then show ?thesis using c by blast
qed

text \<open>A path under one of the directories: it begins with the name of the directory, up to case when names of files
  are lower-cased.\<close>

definition begins_with :: "bool \<Rightarrow> string \<Rightarrow> string \<Rightarrow> bool" where
  "begins_with lowercase nm d \<longleftrightarrow> (\<exists>rest. if lowercase then map to_lower nm = map to_lower d @ rest else nm = d @ rest)"

lemma cstr_append: "\<exists>rest. s = cstr s @ rest"
  unfolding cstr_def by (rule exI [of _ "dropWhile (\<lambda>c. c \<noteq> NUL) s"]) simp

lemma under_docroot_begins:
  assumes "under_docroot lowercase xdocroot nm"
  shows "xdocroot = [] \<or> (\<exists>d \<in> set xdocroot. begins_with lowercase nm (cstr (bstr d)))"
proof (cases "xdocroot = []")
  case False
  with assms obtain d where d: "d \<in> set xdocroot"
    "if lowercase then strncaseeq nm (bstr d) (length (bstr d)) else take (length (bstr d)) nm = bstr d"
    unfolding under_docroot_def by blast
  have "begins_with lowercase nm (cstr (bstr d))"
  proof (cases lowercase)
    case True
    have "length (cstr (bstr d)) \<le> length (bstr d)" by (rule length_cstr_le)
    then have "map to_lower (take (length (bstr d)) (cstr nm)) = map to_lower (cstr (bstr d))"
      using d(2) True by (simp add: strncaseeq_def)
    moreover obtain rest where "nm = cstr nm @ rest" using cstr_append by blast
    then have "nm = take (length (bstr d)) (cstr nm) @ drop (length (bstr d)) (cstr nm) @ rest"
      by (metis append.assoc append_take_drop_id)
    ultimately show ?thesis using True unfolding begins_with_def by (metis map_append)
  next
    case False
    obtain rest where "bstr d = cstr (bstr d) @ rest" using cstr_append by blast
    moreover have "nm = bstr d @ drop (length (bstr d)) nm" using d(2) False by (metis append_take_drop_id)
    ultimately show ?thesis using False unfolding begins_with_def by (metis append.assoc)
  qed
  then show ?thesis using d(1) by blast
qed simp

text \<open>C7: A backend can make the server send only files below the configured directories: every octet of a file
  that is queued belongs to the file whose name is the decoded and simplified path, which begins with
  the name of one of the directories (if any is configured) and has no segment "." or "..".\<close>

theorem xsendfile_confined:
  assumes sane: "files_sane lib rq stat open_file cache con" and path: "buf_holds path s" and len: "length s + 2 < SIZE_T"
  shows "\<exists>cache' con' io xs. http_response_xsendfile lib cf lowercase rq stat open_file xdocroot path cache con = Some (cache', con', io) \<and>
    queued (rs_out con) xs (rs_out con') \<and>
    (\<forall>nm i. Disk nm i \<in> set xs \<longrightarrow> nm = xsend_name lowercase s \<and> under_docroot lowercase xdocroot nm \<and>
      (xdocroot = [] \<or> (\<exists>d \<in> set xdocroot. begins_with lowercase nm (cstr (bstr d)))) \<and> no_dot_segments nm)"
proof -
  obtain con0 where c0: "forget_length (con\<lparr>rs_file_started := True\<rparr>) = Some con0" "files_sane lib rq stat open_file cache con0"
    "rs_out con0 = rs_out con" using files_sane_forget [OF sane] by blast
  obtain b where b: "xsendfile_path lowercase path = Some b" "buf_holds b (xsend_name lowercase s)"
    using xsendfile_path_ok [OF path len] by blast
  let ?nm = "xsend_name lowercase s"
  have nm: "buf_str b = ?nm" using buf_holdsD(3) [OF b(2)] .
  have dots: "no_dot_segments ?nm"
    using simplified_no_dots lower_no_dots by (simp add: xsend_name_def Let_def)
  have body: "body_ok (rs_out con0)" using c0(2) by (simp add: files_sane_def send_wf_def resp_wf_def)
  obtain cache1 con1 io xs where r:
    "(if under_docroot lowercase xdocroot ?nm
        then http_response_send_file lib cf rq (stat ?nm) (open_file ?nm) b cache con0
        else Some (cache, con0\<lparr>rs_http_status := 403\<rparr>, [])) = Some (cache1, con1, io)"
    "queued (rs_out con0) xs (rs_out con1)"
    "\<forall>nm i. Disk nm i \<in> set xs \<longrightarrow> nm = ?nm \<and> under_docroot lowercase xdocroot nm"
  proof (cases "under_docroot lowercase xdocroot ?nm")
    case False
    then show thesis using queued_refl [OF body] by (intro that [of cache "con0\<lparr>rs_http_status := 403\<rparr>" "[]" "[]"]) simp_all
  next
    case True
    show thesis
    proof (cases "stat ?nm")
      case (Stat_Error enoent)
      then show thesis using True queued_refl [OF body]
        by (intro that [of cache "con0\<lparr>rs_http_status := (if enoent then 404 else 403)\<rparr>" "[]" "[]"])
          (simp_all add: http_response_send_file_def)
    next
      case (Stat_Entry sce)
      then have "file_request lib rq sce (open_file ?nm) cache con0" using c0(2) by (simp add: files_sane_def)
      from send_file_ok [OF this b(2), of cf] obtain cache1 con1 io xs where
        "http_response_send_file lib cf rq (Stat_Entry sce) (open_file ?nm) b cache con0 = Some (cache1, con1, io)"
        "queued (rs_out con0) xs (rs_out con1)" "inside_file ?nm (max (se_size sce) (opened_size (open_file ?nm))) xs" by blast
      then show thesis using True Stat_Entry by (intro that [of cache1 con1 io xs]) (auto simp: inside_file_def)
    qed
  qed
  let ?con2 = "if rs_http_status con1 \<ge> 400 \<and> rs_http_status con < 300 then con1\<lparr>rs_direct := True\<rparr>
    else if rs_http_status con \<noteq> 0 \<and> rs_http_status con \<noteq> 200 then con1\<lparr>rs_http_status := rs_http_status con\<rparr> else con1"
  have "http_response_xsendfile lib cf lowercase rq stat open_file xdocroot path cache con = Some (cache1, ?con2, io)"
    unfolding http_response_xsendfile_def Let_def by (simp only: c0(1) b(1) nm r(1) Option.bind.simps prod.case)
  moreover have "rs_out ?con2 = rs_out con1" by simp
  ultimately show ?thesis using r(2,3) c0(3) dots under_docroot_begins by metis
qed

section \<open>A server with one file\<close>

definition sample_lib :: "unit date_lib" where
  "sample_lib = \<lparr>dl_strptime = \<lambda>s tm. (tm, False), dl_mktime = \<lambda>tm. (tm, 0),
     dl_gmt_text = \<lambda>i. ''Sat, 23 Jul 2005 21:20:01 GMT'', dl_tm0 = ()\<rparr>"

definition sample_entry :: stat_entry where
  "sample_entry = \<lparr>se_is_symlink = False, se_is_reg = True, se_size = 10, se_mtime = 7, se_content_type = Some ''text/plain'',
     se_etag = Some ''1-10-7''\<rparr>"

definition sample_conf :: file_conf where
  "sample_conf = \<lparr>fc_follow_symlink = False, fc_range_requests = True, fc_etag_flags = 7\<rparr>"

definition sample_request :: "string option \<Rightarrow> string option \<Rightarrow> request_view" where
  "sample_request wanted since = \<lparr>qv_method = HTTP_METHOD_GET, qv_range = wanted, qv_if_none_match = None,
     qv_if_modified_since = since, qv_if_range = None\<rparr>"

lemma sample_resp_fields [simp]: "get_field k (resp_fields (rs_headers sample_resp)) = None"
  by (simp add: sample_resp_def resp_init_ok get_field_def)

lemma sample_resp_status [simp]: "rs_http_status sample_resp = 0" "bo_chunked (rs_out sample_resp) = False"
  by (simp_all add: sample_resp_def)

lemma sample_send_wf: "send_wf 8 sample_resp"
proof -
  have "buf_val buffer_init = None" by (simp add: buf_val_def buffer_is_empty_def buffer_init_def)
  then show ?thesis using resp_init_ok cq_init_ok
    by (simp add: send_wf_def resp_wf_def etag_wf_def sample_resp_def body_ok_def SSIZE_MAX_def)
qed

lemma sample_file_request:
  "(\<forall>r. wanted = Some r \<longrightarrow> CHR ''-'' \<in> set (cstr r)) \<Longrightarrow>
     file_request sample_lib (sample_request wanted since) sample_entry (Some (5, 10)) mtime_cache_init sample_resp"
  using sample_send_wf mtime_cache_init_ok
  by (simp add: file_request_def sample_lib_def sample_entry_def sample_request_def content_type_of_def file_given_def SIZE_T_def)

theorem send_file_safe_witness:
  "\<exists>cache' con' io xs. http_response_send_file sample_lib sample_conf (sample_request (Some ''0-4'') None) (Stat_Entry sample_entry)
      (Some (5, 10)) ten_path mtime_cache_init sample_resp = Some (cache', con', io) \<and> inside_file ''/f'' 10 xs"
proof -
  have "file_request sample_lib (sample_request (Some ''0-4'') None) sample_entry (Some (5, 10)) mtime_cache_init sample_resp"
    by (rule sample_file_request) (simp add: cstr_def)
  moreover have "max (se_size sample_entry) (opened_size (Some (5, 10))) = 10" by (simp add: sample_entry_def opened_size_def)
  ultimately show ?thesis using send_file_safe [OF _ ten_path_holds, of sample_lib] by metis
qed

theorem whole_file_sent_witness:
  "\<exists>cache' con' io. http_response_send_file sample_lib sample_conf (sample_request None None) (Stat_Entry sample_entry)
      (Some (5, 10)) ten_path mtime_cache_init sample_resp = Some (cache', con', io) \<and>
    rs_http_status con' = 200 \<and> cq_stream (bo_queue (rs_out con')) = map (Disk ''/f'') [0..9]"
proof -
  have r: "file_request sample_lib (sample_request None None) sample_entry (Some (5, 10)) mtime_cache_init sample_resp"
    by (rule sample_file_request) simp
  have "cq_stream (bo_queue (rs_out sample_resp)) = []" using cq_init_ok(2) by (simp add: sample_resp_def)
  moreover have "wire False (map (Disk ''/f'') [0..9]) = map (Disk ''/f'') [0..9]" by (simp add: wire_def)
  ultimately show ?thesis
    using whole_file_sent [OF r ten_path_holds, of sample_conf]
    by (auto simp: sample_request_def sample_entry_def queued_def)
qed


theorem date_prefix_unfinished_witness:
  "\<exists>cache' con'. http_response_send_file sample_lib sample_conf (sample_request None (Some ''Sat''))
      (Stat_Entry sample_entry) (Some (5, 10)) ten_path mtime_cache_init sample_resp = Some (cache', con', []) \<and>
    rs_http_status con' = 0 \<and> \<not> rs_file_finished con' \<and> rs_out con' = rs_out sample_resp"
proof -
  have r: "file_request sample_lib (sample_request None (Some ''Sat'')) sample_entry (Some (5, 10)) mtime_cache_init sample_resp"
    by (rule sample_file_request) simp
  have "\<not> rs_file_finished sample_resp" by (simp add: sample_resp_def)
  then show ?thesis
    using date_prefix_unfinished [OF r ten_path_holds, of "''Sat''" "CHR '',''" "'' 23 Jul 2005 21:20:01 GMT''" sample_conf]
    by (simp add: sample_request_def sample_entry_def sample_conf_def sample_lib_def strchr_def cstr_def)
qed

theorem mtime_cache_transparent_witness:
  "\<exists>cache'. strftime_cache_get sample_lib mtime_cache_init 7 = (cache', Some ''Sat, 23 Jul 2005 21:20:01 GMT'')"
  using mtime_cache_transparent [OF mtime_cache_init_ok, of 7 sample_lib] by (auto simp: sample_lib_def)

theorem xsendfile_confined_witness:
  "\<exists>cache' con' io. http_response_xsendfile sample_lib sample_conf False (sample_request None None) (\<lambda>nm. Stat_Entry sample_entry)
      (\<lambda>nm. Some (5, 10)) [Some ''/''] ten_path mtime_cache_init sample_resp = Some (cache', con', io) \<and>
    (\<forall>nm i. Disk nm i \<in> set (cq_stream (bo_queue (rs_out con'))) \<longrightarrow> begins_with False nm ''/'' \<and> no_dot_segments nm)"
proof -
  have sane: "files_sane sample_lib (sample_request None None) (\<lambda>nm. Stat_Entry sample_entry) (\<lambda>nm. Some (5, 10)) mtime_cache_init sample_resp"
    using sample_send_wf sample_file_request [of None None] by (auto simp: files_sane_def)
  have "length ''/f'' + 2 < SIZE_T" by (simp add: SIZE_T_def)
  from xsendfile_confined [OF sane ten_path_holds this, of sample_conf False "[Some ''/'']"] obtain cache' con' io xs where
    "http_response_xsendfile sample_lib sample_conf False (sample_request None None) (\<lambda>nm. Stat_Entry sample_entry)
      (\<lambda>nm. Some (5, 10)) [Some ''/''] ten_path mtime_cache_init sample_resp = Some (cache', con', io)"
    "queued (rs_out sample_resp) xs (rs_out con')" "\<forall>nm i. Disk nm i \<in> set xs \<longrightarrow> begins_with False nm (cstr ''/'') \<and> no_dot_segments nm" by fastforce
  moreover have "cq_stream (bo_queue (rs_out sample_resp)) = []" using cq_init_ok(2) by (simp add: sample_resp_def)
  moreover have "cstr ''/'' = ''/''" by (simp add: cstr_def NUL_def)
  ultimately show ?thesis by (auto simp: queued_def)
qed

end
