(* ===== verification/Spec2Isabelle.thy ===== *)
theory Spec2Isabelle
  imports Path_Simplify Store Base64 Etag Crc32 Keyvalue Http_Chunk Splaytree Joblist Request_Run Config_Props Http_Xsend
begin

text \<open>
  A model of the core of lighttpd 1.4 (the C sources under \<open>src/src\<close>) with the properties that make it correct.

  \<^bold>\<open>The program.\<close> A connection reads a request into a chunk queue (\<open>chunk.c\<close>); the request is copied to a
  buffer (\<open>buffer.c\<close>) and parsed (\<open>request.c\<close>) into a method, a version, a target and an array of header
  fields (\<open>array.c\<close>). The target is decoded and simplified (\<open>buffer.c\<close>). Conditional blocks of the
  configuration (\<open>configfile-glue.c\<close>) are then evaluated against the request and select the settings of the
  connection. The response gets its headers from the same arrays, an entity tag (\<open>etag.c\<close>), and a body that is
  framed (\<open>http_chunk.c\<close>) into another chunk queue. Connections with more to do stand in a list, those
  without a descriptor in a line (\<open>joblist.c\<close>); file information is kept in a splay tree (\<open>splaytree.c\<close>).

  \<^bold>\<open>Values.\<close> A memory block is a list of optional bytes (\<open>Prelude\<close>): \<open>None\<close> is a byte that was never
  written; reading it, or any position outside the block, makes the operation fail. An operation that fails an
  assertion, reads undefined memory or would write outside a block is \<open>None\<close>, so that an operation returns \<open>Some\<close> is
  part of what is proved. \<open>size_t\<close> is \<open>nat\<close> with the wrap-around written out (\<open>uadd\<close>, \<open>usub\<close>, \<open>umul\<close>, \<open>SIZE_T\<close> is 2 to the
  64) where lengths are computed; values that are printed, hashed, shifted or parsed are words or \<open>int\<close> with the limits of
  their type. \<open>off_t\<close> and \<open>time_t\<close> (offsets and lengths of files, the byte counters of a queue), \<open>int\<close> statuses and counts,
  and the index of the temporary directory are unbounded \<open>int\<close> or \<open>nat\<close>: they count octets and attempts, and 64 bits
  (32 for the index, which stays below the number of directories plus one per failed write) are out of reach. \<open>CLib\<close> has the functions of the
  C library that the code calls on strings.

  \<^bold>\<open>Strings and memory.\<close>
    \<^item> \<open>Buffer\<close> (\<open>buffer.c\<close>, \<open>buffer.h\<close>): the record \<open>buffer\<close> is the struct with \<open>ptr\<close>, \<open>used\<close> and \<open>size\<close>; \<open>buf_ok\<close> is its
      invariant and \<open>buf_holds b s\<close> says that it stores \<open>s\<close>. The locale \<open>string_sink\<close> (what appending promises) is
      interpreted on it; programs that append in turn are its instances.
    \<^item> \<open>Buffer_Num\<close> (printing numbers), \<open>Buffer_Cmp\<close> (comparing, searching), \<open>Buffer_Text\<close> (the encodings, URL
      decoding in place), \<open>Path_Simplify\<close> (\<open>buffer_path_simplify\<close>, with one buffer or two): each operation is
      shown to compute a function on strings; decoding undoes encoding; simplified paths have no dot segments.
    \<^item> \<open>Base64\<close>, \<open>Crc32\<close>: \<open>base64.c\<close> with its failure branches, \<open>crc32.c\<close> against division by its polynomial.

  \<^bold>\<open>Data.\<close>
    \<^item> \<open>Array\<close>, \<open>Array_Inv\<close> (\<open>array.c\<close>, \<open>data_*.c\<close>): the cells, the sorted index and the bisection over it. The locale
      \<open>ordered_cmp\<close> proves bisection for any comparison that orders its keys; \<open>buffer_caseless_compare\<close> is one. \<open>arr_ok\<close> is the
      invariant, \<open>arr_holds\<close> ties cells and index to the list of elements.
    \<^item> \<open>Store\<close> (\<open>array_set_key_value\<close>, \<open>status_counter.c\<close>): the locale \<open>keyed_store\<close> is the contract of a map; string
      arrays and counters are its two interpretations.
    \<^item> \<open>Keyvalue\<close> (\<open>keyvalue.c\<close>, \<open>keyvalue.h\<close>), \<open>Splaytree\<close> (\<open>splaytree.c\<close>; locale \<open>counted_dict\<close>, a dictionary with
      its number of entries), \<open>Joblist\<close> (\<open>joblist.c\<close> and the two loops of \<open>server.c\<close> that empty its arrays; locale
      \<open>waiting_line\<close>).

  \<^bold>\<open>Queues and bodies.\<close>
    \<^item> \<open>Chunk\<close>, \<open>Chunk_Inv\<close>, \<open>Chunk_Run\<close> (\<open>chunk.c\<close>): queues of memory and file chunks with their counters and the cache of
      spare chunks. \<open>cq_stream\<close> is the list of octets a queue stands for; the locale \<open>byte_queue\<close> has the laws of
      a queue of octets. \<open>Chunk_Run\<close> has the operations as steps and the reachable queues.
    \<^item> \<open>Chunk_Temp\<close>: chunks in temporary files. The results of the system calls are a script in the record \<open>os\<close>; every
      order of successes, short writes and failures is a script. \<open>Chunk_Supply\<close> shows that writing returns when the
      script has enough answers and no write fails.
    \<^item> \<open>Http_Chunk\<close> (\<open>http_chunk.c\<close>): bodies with and without chunked framing; a decoder for the framing gives back the data.

  \<^bold>\<open>Requests.\<close>
    \<^item> \<open>Hostname\<close>: the check and the normal form of a host. \<open>Request_Line\<close>, \<open>Request_Split\<close>, \<open>Request_Headers\<close>, \<open>Request\<close>: the
      parts of \<open>http_request_parse\<close> in their order. The code writes zeros into a copy of the request and keeps
      pointers into it: here they are offsets, and a token is the C string at its offset. \<open>Request_Fields\<close> and
      \<open>Request_Inv\<close> have the invariant of the loop over the header lines, \<open>Request_Run\<close> the properties of the parser.
    \<^item> \<open>Etag\<close> (\<open>etag.c\<close>): tags and their comparison with a list of tags.

  \<^bold>\<open>Configuration.\<close> \<open>Config_Cond\<close> has the tree of conditional blocks (\<open>data_config\<close>, its links are positions in the
  array of blocks), the values they are compared with and the cache of results with its resets. \<open>Config_Inv\<close> gives the
  meaning of a condition without the cache (\<open>cond_spec\<close>) and the invariant \<open>cache_valid\<close>; \<open>Config_Check\<close> and \<open>Config_Run\<close>
  prove the evaluation against it, \<open>Config_Clear\<close> the resets, \<open>Config_Net\<close> the comparison of networks, \<open>Config_Patch\<close>
  the selection of settings (\<open>config_setup_connection\<close>, \<open>config_patch_connection\<close>) and \<open>Config_Props\<close> what they are good for.
  \<open>wf_ctx\<close> is what the configuration parser produces when no condition is written twice among else branches:
  a block comes behind the blocks it depends on and they link back to it.

  \<^bold>\<open>Responses\<close> (\<open>http-header-glue.c\<close>). \<open>Response\<close> has the record of a response and its header fields, with the list of fields
  an array stands for; \<open>Http_Range\<close> the byte ranges; \<open>Http_Response\<close> redirects, conditional requests with the cache of
  formatted dates, files and the end of a backend's response. \<open>Http_Send\<close> has the properties of sending a file,
  \<open>Http_Xsend\<close> those of a file named by a backend, with the witnesses of both. What the stat cache and opening a
  file give are arguments (\<open>stat_result\<close>, the size at opening); \<open>file_request\<close> and \<open>files_sane\<close> say that they are results the
  code can get: sizes that are not negative, values that were set, and a time other than -1.

  \<^bold>\<open>Loops.\<close> Loops that are not structural take fuel, and enough of it is part of the definition of the operation that calls
  them: the length of the header plus 2 for the loop over header lines, whose every round moves on; the position of
  a block plus 1 for the recursion over conditions, which goes to smaller positions; the number of blocks for clearing,
  which goes to larger ones. That the result is never the one of lacking fuel is proved (the operations are shown to
  return \<open>Some\<close>).

  \<^bold>\<open>Parameters.\<close> Code outside the repository is an argument: the address functions of the C library (record
  \<open>inet\<close>, with \<open>inet_ok\<close> where a property needs their format), regular expressions (\<open>pcre\<close>), the functions a
  condition uses (record \<open>cond_lib\<close>), dates (record \<open>date_lib\<close>), system calls (\<open>os\<close>), the state machine of a connection in \<open>run_joblist\<close>. Every
  property with such a premise has a witness with concrete functions.

  \<^bold>\<open>Premises.\<close> Lengths stay below the limit of their type (\<open>SSIZE_MAX\<close> for requests, \<open>SIZE_T\<close> for buffers). Three
  properties of the parser ask for requests without folded lines (\<open>unfolded\<close>): a folded line appends to a value that
  other fields may point to, and what these then read depends on whether the allocator moves the text; the model
  covers folding, and \<open>Request_Run\<close> has the cases where it goes wrong.

  \<^bold>\<open>Not modelled.\<close> Allocation failure (the code aborts), deallocation, log messages and printing for debugging have no
  effect on the modelled state. The build modelled is the default one on Linux with IPv6 and pcre, without TLS. The
  state machine in \<open>connections.c\<close>, the event and network back ends and \<open>server.c\<close> are sequences of system calls around
  the parts above; modules are clients of them. \<open>configparser.c\<close> is generated, \<open>lemon.c\<close>, \<open>md5.c\<close>, \<open>cJSON.c\<close> and
  \<open>RedisClient.cpp\<close> are third-party code.
\<close>

end
